(* ===== verification/OS_Prelude.thy ===== *)
theory OS_Prelude
  imports Main "HOL-Library.Word"
begin

text \<open>
  Shared vocabulary of the development: the machine types of the 32 bit ARM target, the
  results of kernel functions (a kernel \<open>panic\<close> resets the machine and does not return),
  pointer chains (linked lists through a next field, and the rings of the thread scheduler),
  and the generic facts on words, lists and loops that the components share.

  \<open>None\<close> as the result of a \<^theory_text>\<open>partial_function\<close> always means that the
  modelled loop never ends.
\<close>

unbundle bit_operations_syntax

named_theorems word_arith_simps "reading word arithmetic as arithmetic on nat"
named_theorems chain_simps "evaluating pointer chains"

section \<open>Machine types\<close>

type_synonym u8 = "8 word"
type_synonym u16 = "16 word"
type_synonym u32 = "32 word"
type_synonym u64 = "64 word"

text \<open>A pointer is the 32 bit address it holds.\<close>

type_synonym addr = "32 word"

abbreviation (input) NULL :: addr where "NULL \<equiv> 0"

text \<open>\<open>SMALL_PAGE_SIZE\<close> and \<open>SECTION_SIZE\<close> of kernel/kernel.h.\<close>

abbreviation (input) SMALL_PAGE_SIZE :: u32 where "SMALL_PAGE_SIZE \<equiv> 4096"
abbreviation (input) SECTION_SIZE :: u32 where "SECTION_SIZE \<equiv> 1048576"

text \<open>
  The result of a function that may call \<open>panic\<close> (kernel/panic.c): \<open>Panic\<close> with the message,
  after which nothing of the kernel runs any more, or the value returned.
\<close>

datatype 'a result = Panic string | Ret 'a

fun bind_result :: "'a result \<Rightarrow> ('a \<Rightarrow> 'b result) \<Rightarrow> 'b result" where
  "bind_result (Panic m) f = Panic m"
| "bind_result (Ret x) f = f x"

definition map_result :: "('a \<Rightarrow> 'b) \<Rightarrow> 'a result \<Rightarrow> 'b result" where
  "map_result f r = bind_result r (\<lambda>x. Ret (f x))"

lemma map_result_simps [simp]: "map_result f (Ret x) = Ret (f x)" "map_result f (Panic m) = Panic m"
  by (simp_all add: map_result_def)

section \<open>Words as numbers\<close>

lemma unat_add_u32 [word_arith_simps]:
  "unat (a :: u32) + unat b < 4294967296 \<Longrightarrow> unat (a + b) = unat a + unat b"
  by (simp add: unat_word_ariths)

lemma unat_mult_u32 [word_arith_simps]:
  "unat (a :: u32) * unat b < 4294967296 \<Longrightarrow> unat (a * b) = unat a * unat b"
  by (simp add: unat_word_ariths)

lemma unat_sub_u32 [word_arith_simps]:
  "(b :: u32) \<le> a \<Longrightarrow> unat (a - b) = unat a - unat b"
  by (simp add: unat_sub)

lemma unat_of_nat_u32 [word_arith_simps]:
  "n < 4294967296 \<Longrightarrow> unat (of_nat n :: u32) = n"
  by (simp add: unat_of_nat)

lemma unat_u32_bound: "unat (a :: u32) < 4294967296"
  using unsigned_less [of a, where ?'a = nat] by simp

lemma unat_le_u32: "(a :: u32) \<le> b \<longleftrightarrow> unat a \<le> unat b"
  by (rule word_le_nat_alt)

lemma unat_less_u32: "(a :: u32) < b \<longleftrightarrow> unat a < unat b"
  by (rule word_less_nat_alt)

lemma of_nat_inj_u32:
  "i < 4294967296 \<Longrightarrow> j < 4294967296 \<Longrightarrow> (of_nat i :: u32) = of_nat j \<longleftrightarrow> i = j"
  by (metis unat_of_nat_u32)

lemma mod_page_u32: "(a :: u32) mod 4096 = 0 \<longleftrightarrow> 4096 dvd unat a"
proof -
  have "unat (a mod 4096) = unat a mod 4096"
    by (simp add: unat_mod)
  then show ?thesis
    by (metis mod_eq_0_iff_dvd unat_eq_zero)
qed

lemma unat_inj_u32: "unat (a :: u32) = unat b \<Longrightarrow> a = b"
  by (simp add: word_unat_eq_iff)

lemma sint_u32_small:
  assumes "unat (a :: u32) < 2147483648"
  shows "sint a = int (unat a)"
proof -
  have "uint a = int (unat a)" by (rule uint_nat)
  moreover from assms have "int (unat a) < int 2147483648" by (simp only: of_nat_less_iff)
  ultimately have l: "uint a < 2147483648" by simp
  moreover have "- 2147483648 \<le> uint a" by (rule order_trans [OF _ uint_ge_0]) simp
  ultimately have "signed_take_bit 31 (uint a) = uint a" by (intro signed_take_bit_int_eq_self) simp_all
  then show ?thesis by (simp add: sint_uint)
qed

text \<open>Clearing the low bits rounds down.\<close>

lemma and_not_mask_eq: "(p :: u32) AND NOT (mask n) = p - take_bit n p"
proof -
  have "(p AND NOT (mask n)) + take_bit n p = (p AND NOT (mask n)) OR take_bit n p"
    by (rule disjunctive_add) (auto simp: bit_simps)
  also have "\<dots> = p" by (rule bit_word_eqI) (auto simp: bit_simps)
  finally show ?thesis by (simp add: algebra_simps)
qed

lemma unat_and_not_mask: "unat ((p :: u32) AND NOT (mask n)) = unat p div 2 ^ n * 2 ^ n"
proof -
  have t: "unat (take_bit n p) = unat p mod 2 ^ n" by (metis unsigned_take_bit_eq take_bit_eq_mod)
  then have "take_bit n p \<le> p" by (simp add: unat_le_u32)
  then have "unat (p - take_bit n p) = unat p - unat p mod 2 ^ n" by (simp add: unat_sub_u32 t)
  then show ?thesis by (simp only: and_not_mask_eq minus_mod_eq_div_mult)
qed

text \<open>Rounding up to a multiple of the page size.\<close>

lemma round_up_page:
  fixes n :: nat
  shows "n \<le> (n + 4095) div 4096 * 4096" and "(n + 4095) div 4096 * 4096 < n + 4096"
proof -
  have "(n + 4095) div 4096 * 4096 + (n + 4095) mod 4096 = n + 4095" by (rule div_mult_mod_eq)
  moreover have "(n + 4095) mod 4096 < 4096" by simp
  ultimately show "n \<le> (n + 4095) div 4096 * 4096" and "(n + 4095) div 4096 * 4096 < n + 4096"
    by linarith+
qed

lemma round_up_down_page:
  fixes n :: nat
  shows "(n + 4095) div 4096 * 4096 = (if n div 4096 * 4096 = n then n else n div 4096 * 4096 + 4096)"
proof -
  have e: "n div 4096 * 4096 + n mod 4096 = n" by (rule div_mult_mod_eq)
  show ?thesis
  proof (cases "n mod 4096 = 0")
    case True
    then obtain k where "n = k * 4096" by (auto simp: mod_eq_0_iff_dvd elim!: dvdE)
    then show ?thesis by simp
  next
    case False
    define k r where "k = n div 4096" and "r = n mod 4096"
    have "n + 4095 = (r - 1) + (k + 1) * 4096" and "r - 1 < 4096"
      using e False mod_less_divisor [of 4096 n] by (simp_all add: k_def r_def)
    then have "(n + 4095) div 4096 = k + 1" by simp
    moreover from e False have "n div 4096 * 4096 \<noteq> n" by linarith
    ultimately show ?thesis by (simp add: k_def)
  qed
qed

section \<open>Lists and loops\<close>

text \<open>
  The loop \<open>for (a = i; a < n; a++) xs[a] = xs[a+1];\<close> that closes the gap when an entry
  of an array is removed. The kernel has it in \<open>removePageblock\<close> and in the two functions that
  unregister hooks.
\<close>

function shift_down :: "nat \<Rightarrow> nat \<Rightarrow> 'a list \<Rightarrow> 'a list" where
  "shift_down a n xs = (if a < n then shift_down (Suc a) n (xs[a := xs ! Suc a]) else xs)"
  by pat_completeness auto
termination
  by (relation "measure (\<lambda>(a, n, xs). n - a)") auto

declare shift_down.simps [simp del]

lemma length_shift_down [simp]: "length (shift_down a n xs) = length xs"
  by (induction a n xs rule: shift_down.induct) (simp add: shift_down.simps)

lemma nth_shift_down:
  assumes "n < length xs" and "k < length xs"
  shows "shift_down a n xs ! k = (if a \<le> k \<and> k < n then xs ! Suc k else xs ! k)"
  using assms
proof (induction a n xs rule: shift_down.induct)
  case (1 a n xs)
  show ?case
  proof (cases "a < n")
    case True
    with 1 have "shift_down (Suc a) n (xs[a := xs ! Suc a]) ! k =
        (if Suc a \<le> k \<and> k < n then xs[a := xs ! Suc a] ! Suc k else xs[a := xs ! Suc a] ! k)"
      by simp
    with True 1(2,3) show ?thesis
      by (subst shift_down.simps) (auto simp: nth_list_update)
  next
    case False
    then show ?thesis by (subst shift_down.simps) auto
  qed
qed

lemma take_shift_down:
  assumes "a \<le> n" and "n < length xs"
  shows "take n (shift_down a n xs) = take a xs @ drop (Suc a) (take (Suc n) xs)"
  by (rule nth_equalityI) (use assms in \<open>auto simp: nth_shift_down nth_append min_def\<close>)

text \<open>
  \<open>for (uint32_t i = a; i < n; i++)\<close> with a bound that the body does not change. The counter is a
  32 bit word; as it stays below the bound it does not wrap around.
\<close>

function for_u32 :: "u32 \<Rightarrow> u32 \<Rightarrow> (u32 \<Rightarrow> 's \<Rightarrow> 's) \<Rightarrow> 's \<Rightarrow> 's" where
  "for_u32 i n body s = (if i < n then for_u32 (i + 1) n body (body i s) else s)"
  by pat_completeness auto
termination
proof (relation "measure (\<lambda>(i, n, body, s). unat n - unat i)")
  fix i n :: u32 and body :: "u32 \<Rightarrow> 's \<Rightarrow> 's" and s :: 's
  assume "i < n"
  then have "unat i < unat n" by (simp add: unat_less_u32)
  moreover from this have "unat (i + 1) = unat i + 1" using unat_u32_bound [of n] by (subst unat_add_u32) simp_all
  ultimately show "((i + 1, n, body, body i s), (i, n, body, s)) \<in> measure (\<lambda>(i, n, body, s). unat n - unat i)" by simp
qed simp

declare for_u32.simps [simp del]

lemma for_u32_done [simp]: "\<not> i < n \<Longrightarrow> for_u32 i n body s = s"
  by (simp add: for_u32.simps)

text \<open>The counters the loop goes through.\<close>

lemma for_u32_fold: "for_u32 i n body s = fold (\<lambda>k. body (of_nat k)) [unat i..<unat n] s"
proof (induction i n body s rule: for_u32.induct)
  case (1 i n body s)
  show ?case
  proof (cases "i < n")
    case True
    then have "unat i < unat n" by (simp add: unat_less_u32)
    moreover from this have "unat (i + 1) = unat i + 1" using unat_u32_bound [of n] by (subst unat_add_u32) simp_all
    ultimately show ?thesis using 1 True by (simp add: for_u32.simps upt_conv_Cons)
  next
    case False
    then show ?thesis by (simp add: unat_less_u32)
  qed
qed

lemma for_u32_id: "(\<And>i. body i s = s) \<Longrightarrow> for_u32 a b body s = s"
proof -
  assume b: "\<And>i. body i s = s"
  have "fold (\<lambda>k. body (of_nat k)) ks s = s" for ks :: "nat list" by (induction ks) (simp_all add: b)
  then show ?thesis by (simp add: for_u32_fold)
qed

text \<open>Remove the first element that satisfies a predicate.\<close>

fun remove_first :: "('a \<Rightarrow> bool) \<Rightarrow> 'a list \<Rightarrow> 'a list" where
  "remove_first P [] = []"
| "remove_first P (x # xs) = (if P x then xs else x # remove_first P xs)"

lemma remove_first_split:
  "\<lbrakk>i < length xs; P (xs ! i); \<forall>j<i. \<not> P (xs ! j)\<rbrakk> \<Longrightarrow> remove_first P xs = take i xs @ drop (Suc i) xs"
proof (induction xs arbitrary: i)
  case Nil
  then show ?case by simp
next
  case (Cons x xs)
  show ?case
  proof (cases i)
    case 0
    with Cons.prems show ?thesis by simp
  next
    case (Suc k)
    with Cons.prems have "\<not> P x" and "\<forall>j<k. \<not> P (xs ! j)" by auto
    with Cons Suc show ?thesis by simp
  qed
qed

lemma remove_first_none: "\<forall>x \<in> set xs. \<not> P x \<Longrightarrow> remove_first P xs = xs"
  by (induction xs) auto

lemma set_remove_first_subset: "set (remove_first P xs) \<subseteq> set xs"
  by (induction xs) auto

lemma distinct_remove_first: "distinct xs \<Longrightarrow> distinct (remove_first P xs)"
  using set_remove_first_subset by (induction xs) fastforce+

text \<open>The position of the first element that satisfies a predicate.\<close>

fun first_index :: "('a \<Rightarrow> bool) \<Rightarrow> 'a list \<Rightarrow> nat option" where
  "first_index P [] = None"
| "first_index P (x # xs) = (if P x then Some 0 else map_option Suc (first_index P xs))"

lemma first_index_Some:
  "first_index P xs = Some k \<longleftrightarrow> k < length xs \<and> P (xs ! k) \<and> (\<forall>j<k. \<not> P (xs ! j))"
proof (induction xs arbitrary: k)
  case Nil
  then show ?case by simp
next
  case (Cons x xs)
  show ?case
  proof (cases k)
    case 0
    then show ?thesis by (simp add: Cons)
  next
    case (Suc m)
    have "(\<forall>j<Suc m. \<not> P ((x # xs) ! j)) \<longleftrightarrow> \<not> P x \<and> (\<forall>j<m. \<not> P (xs ! j))"
      by (auto simp: less_Suc_eq_0_disj)
    then show ?thesis using Cons [of m] Suc by auto
  qed
qed

lemma first_index_None: "first_index P xs = None \<longleftrightarrow> (\<forall>x \<in> set xs. \<not> P x)"
  by (induction xs) auto

text \<open>\<open>List.find\<close> models a loop that returns at the first hit.\<close>

lemma find_Some_iff_index:
  "List.find P [0..<n] = Some i \<longleftrightarrow> i < n \<and> P i \<and> (\<forall>j<i. \<not> P j)"
  by (auto simp: find_Some_iff)

lemma find_None_iff_index: "List.find P [0..<n] = None \<longleftrightarrow> (\<forall>i<n. \<not> P i)"
  by (auto simp: find_None_iff)

lemma find_in_set: "List.find P xs = Some x \<Longrightarrow> x \<in> set xs \<and> P x"
  by (auto simp: find_Some_iff)

lemma find_unique:
  assumes "q \<in> set xs" and "P q" and "\<And>x. x \<in> set xs \<Longrightarrow> P x \<Longrightarrow> x = q"
  shows "List.find P xs = Some q"
proof (cases "List.find P xs")
  case None
  with assms(1,2) show ?thesis by (simp add: find_None_iff)
next
  case (Some x)
  then have "x \<in> set xs" "P x" by (auto simp: find_Some_iff)
  with Some assms(3) show ?thesis by simp
qed

section \<open>Pointer chains\<close>

text \<open>
  \<open>path nx p xs q\<close>: following the next field \<open>nx\<close> from \<open>p\<close> visits the nodes \<open>xs\<close>, none of
  them NULL, and arrives at \<open>q\<close>. A NULL terminated list is a path to NULL; a ring is a path
  from a node back to itself.
\<close>

fun path :: "(addr \<Rightarrow> addr) \<Rightarrow> addr \<Rightarrow> addr list \<Rightarrow> addr \<Rightarrow> bool" where
  "path nx p [] q \<longleftrightarrow> p = q"
| "path nx p (x # xs) q \<longleftrightarrow> x = p \<and> p \<noteq> NULL \<and> path nx (nx p) xs q"

lemma path_append [chain_simps]:
  "path nx p (xs @ ys) q \<longleftrightarrow> (\<exists>r. path nx p xs r \<and> path nx r ys q)"
  by (induction xs arbitrary: p) auto

lemma path_cong: "(\<And>x. x \<in> set xs \<Longrightarrow> nx x = nx' x) \<Longrightarrow> path nx p xs q = path nx' p xs q"
  by (induction xs arbitrary: p) auto

lemma path_upd [chain_simps, simp]: "a \<notin> set xs \<Longrightarrow> path (nx(a := v)) p xs q = path nx p xs q"
  by (rule path_cong) auto

lemma path_hd: "path nx p xs q \<Longrightarrow> xs \<noteq> [] \<Longrightarrow> hd xs = p"
  by (cases xs) auto

lemma path_NULL_iff [simp]: "path nx 0 xs q \<longleftrightarrow> xs = [] \<and> q = 0"
  by (cases xs) auto

lemma path_not_NULL: "path nx p xs q \<Longrightarrow> 0 \<notin> set xs"
  by (induction xs arbitrary: p) auto

lemma path_unique: "path nx p xs 0 \<Longrightarrow> path nx p ys 0 \<Longrightarrow> xs = ys"
proof (induction xs arbitrary: p ys)
  case Nil
  then show ?case by simp
next
  case (Cons x xs)
  then show ?case by (cases ys) auto
qed

lemma path_hd_notin_tl: "path nx (nx a) xs 0 \<Longrightarrow> a \<notin> set xs"
proof
  assume p: "path nx (nx a) xs 0" and "a \<in> set xs"
  then obtain ys zs where xs: "xs = ys @ a # zs" by (auto simp: in_set_conv_decomp)
  with p have "path nx (nx a) zs 0" by (auto simp: path_append)
  with p have "xs = zs" by (rule path_unique)
  moreover from xs have "length xs = length ys + Suc (length zs)" by simp
  ultimately show False by simp
qed

lemma path_NULL_distinct: "path nx p xs 0 \<Longrightarrow> distinct xs"
  by (induction xs arbitrary: p) (auto dest: path_hd_notin_tl)

text \<open>In a ring no two nodes have the same next node.\<close>

lemma path_map_next: "path nx p xs q \<Longrightarrow> xs \<noteq> [] \<Longrightarrow> map nx xs = tl xs @ [q]"
proof (induction xs arbitrary: p)
  case Nil
  then show ?case by simp
next
  case (Cons x xs)
  then show ?case by (cases xs) auto
qed

lemma ring_inj_on:
  assumes "path nx r (r # xs) r" and "distinct (r # xs)"
  shows "inj_on nx (set (r # xs))"
proof -
  have "map nx (r # xs) = xs @ [r]" using path_map_next [OF assms(1)] by simp
  moreover have "distinct (xs @ [r])" using assms(2) by auto
  ultimately show ?thesis using distinct_map by metis
qed

text \<open>
  \<open>do { body; next = next->next; } while (next != stop);\<close> over a state that the body may
  change: the next field is read in the state the body leaves.
\<close>

partial_function (option) do_ring ::
  "('s \<Rightarrow> addr \<Rightarrow> addr) \<Rightarrow> (addr \<Rightarrow> 's \<Rightarrow> 's) \<Rightarrow> addr \<Rightarrow> addr \<Rightarrow> 's \<Rightarrow> 's option" where
  "do_ring nx body stop p s =
     (let s' = body p s; n = nx s' p
      in if n = stop then Some s' else do_ring nx body stop n s')"

lemma do_ring_path:
  assumes "path (nx s) p (p # xs) stop" and "stop \<notin> set xs"
    and "\<And>q s. nx (body q s) = nx s"
  shows "do_ring nx body stop p s = Some (fold body (p # xs) s)"
  using assms(1,2)
proof (induction xs arbitrary: p s)
  case Nil
  then show ?case by (subst do_ring.simps) (simp add: Let_def assms(3))
next
  case (Cons x xs)
  from Cons.prems have x: "nx s p = x" "x \<noteq> stop" by auto
  from Cons.prems have "path (nx (body p s)) x (x # xs) stop" by (auto simp: assms(3))
  moreover have "stop \<notin> set xs" using Cons.prems by auto
  ultimately have "do_ring nx body stop x (body p s) = Some (fold body (x # xs) (body p s))"
    by (rule Cons.IH)
  with x show ?case by (subst do_ring.simps) (simp add: Let_def assms(3))
qed

text \<open>The same loop with an early exit at the first node that satisfies \<open>P\<close>.\<close>

partial_function (option) scan_ring ::
  "(addr \<Rightarrow> addr) \<Rightarrow> (addr \<Rightarrow> bool) \<Rightarrow> addr \<Rightarrow> addr \<Rightarrow> addr option option" where
  "scan_ring nx P stop p =
     (if P p then Some (Some p)
      else if nx p = stop then Some None
      else scan_ring nx P stop (nx p))"

lemma scan_ring_path:
  assumes "path nx p (p # xs) stop" and "stop \<notin> set xs"
  shows "scan_ring nx P stop p = Some (List.find P (p # xs))"
  using assms
proof (induction xs arbitrary: p)
  case Nil
  then show ?case by (subst scan_ring.simps) simp
next
  case (Cons x xs)
  from Cons.prems have x: "nx p = x" "x \<noteq> stop" by auto
  from Cons.prems have "path nx x (x # xs) stop" and "stop \<notin> set xs" by auto
  then have "scan_ring nx P stop x = Some (List.find P (x # xs))" by (rule Cons.IH)
  with x show ?case by (subst scan_ring.simps) simp
qed

section \<open>The next field as an interface\<close>

text \<open>
  Every kind of node the kernel links (list entries, slab descriptors, caches, threads,
  deferred actions) has a next field in its own part of the memory. The lists only rely on the
  law that writing one node's field changes no other node's. The lemmas below are the list
  surgery of the kernel, once for all of them.
\<close>

locale next_field =
  fixes nxt :: "'h \<Rightarrow> addr \<Rightarrow> addr"
    and set_nxt :: "addr \<Rightarrow> addr \<Rightarrow> 'h \<Rightarrow> 'h"
  assumes nxt_set: "nxt (set_nxt p v h) q = (if q = p then v else nxt h q)"
begin

lemma nxt_upd: "nxt (set_nxt p v h) = (nxt h)(p := v)"
  by (auto simp: nxt_set fun_eq_iff)

lemma path_set_nxt: "p \<notin> set xs \<Longrightarrow> path (nxt (set_nxt p v h)) a xs b = path (nxt h) a xs b"
  by (simp add: nxt_upd)

lemma push: "path (nxt h) l xs 0 \<Longrightarrow> e \<noteq> 0 \<Longrightarrow> e \<notin> set xs \<Longrightarrow> path (nxt (set_nxt e l h)) e (e # xs) 0"
  by (simp add: nxt_upd)

lemma unlink_head: "path (nxt h) l (x # xs) 0 \<Longrightarrow> path (nxt h) (nxt h x) xs 0"
  by simp

lemma unlink_inner:
  assumes "path (nxt h) l (xs @ p # e # ys) q" and "distinct (xs @ p # e # ys)"
  shows "path (nxt (set_nxt p (nxt h e) h)) l (xs @ p # ys) q"
  using assms by (auto simp: path_append nxt_upd)

lemma insert_after:
  assumes "path (nxt h) l (p # ys) q" and "distinct (p # ys)" and "e \<noteq> 0" and "e \<notin> set (p # ys)"
  shows "path (nxt (set_nxt p e (set_nxt e (nxt h p) h))) l (p # e # ys) q"
  using assms by (auto simp: nxt_upd)

lemma append_last:
  assumes "path (nxt h) l (xs @ [p]) 0" and "nxt h e = 0" and "e \<noteq> 0" and "e \<notin> set (xs @ [p])"
  shows "path (nxt (set_nxt p e h)) l (xs @ [p, e]) 0"
proof -
  from assms(1) have d: "distinct (xs @ [p])" by (rule path_NULL_distinct)
  with assms show ?thesis by (auto simp: path_append nxt_upd)
qed

end

end
