(* ===== verification/Bit_Store.thy ===== *)
theory Bit_Store
  imports OS_Prelude
begin

text \<open>
  Sets of allocated slots kept as bits. The physical page allocator (two 64 bit words per page
  block) and the slab allocator (an array of bytes per slab) both look for the first clear bit,
  set it and hand out the slot; to free a slot they clear its bit. The interface states what
  they need of the representation and proves the allocation lemmas once.
\<close>

locale bit_store =
  fixes get :: "'s \<Rightarrow> nat \<Rightarrow> bool"
    and put :: "'s \<Rightarrow> nat \<Rightarrow> bool \<Rightarrow> 's"
    and cap :: nat
  assumes get_put: "\<lbrakk>i < cap; j < cap\<rbrakk> \<Longrightarrow> get (put s i v) j = (if j = i then v else get s j)"
begin

lemma first_free_SomeD:
  "List.find (\<lambda>i. \<not> get s i) [0..<n] = Some i \<Longrightarrow> i < n \<and> \<not> get s i \<and> (\<forall>j<i. get s j)"
  by (auto simp: find_Some_iff_index)

lemma first_free_None: "List.find (\<lambda>i. \<not> get s i) [0..<n] = None \<longleftrightarrow> (\<forall>i<n. get s i)"
  by (simp add: find_None_iff_index)

lemma allocated_take:
  assumes "List.find (\<lambda>i. \<not> get s i) [0..<n] = Some i" and "n \<le> cap"
  shows "{j. j < n \<and> get (put s i True) j} = insert i {j. j < n \<and> get s j}"
    and "i \<notin> {j. j < n \<and> get s j}"
proof -
  from assms have i: "i < n" "\<not> get s i" "i < cap" by (auto dest: first_free_SomeD)
  then show "i \<notin> {j. j < n \<and> get s j}" by simp
  from i assms(2) show "{j. j < n \<and> get (put s i True) j} = insert i {j. j < n \<and> get s j}"
    by (auto simp: get_put)
qed

lemma release_take:
  assumes "List.find (\<lambda>i. \<not> get s i) [0..<n] = Some i" and "n \<le> cap" and "j < cap"
  shows "get (put (put s i True) i False) j = get s j"
proof -
  from assms have i: "i < n" "\<not> get s i" "i < cap" by (auto dest: first_free_SomeD)
  with assms(3) show ?thesis by (auto simp: get_put)
qed

lemma retake_released:
  assumes "i < n" and "n \<le> cap" and "\<forall>j<i. get s j"
  shows "List.find (\<lambda>k. \<not> get (put s i False) k) [0..<n] = Some i"
  using assms by (auto simp: find_Some_iff_index get_put)

end

end
