(* ===== verification/Slab.thy ===== *)
theory Slab
  imports Bit_Store
begin

text \<open>
  The slabs of the slab allocator, kernel/memory/slab.c: a slab is a run of pages cut into
  objects of one size with one used bit per object. Slabs of small objects hold their descriptor
  and the used bytes in front of the objects; the others have a separate array of used bytes.

  The state has the fields of the descriptors (\<open>struct slab_desc_t\<close>) and of the caches
  (\<open>struct cache_t\<close>) by the address of the structure and the bytes of the used arrays in a byte
  memory. The structures are kept apart from the bytes: no used array overlaps a structure. The
  static pointers of the file (the list of all caches and the caches of the kernel's own structures) are
  fields too.
\<close>

section \<open>Data\<close>

record slab_state =
  sd_size :: "addr \<Rightarrow> u32"
  sd_start :: "addr \<Rightarrow> addr"
  sd_next :: "addr \<Rightarrow> addr"
  sd_used :: "addr \<Rightarrow> addr"
  c_full :: "addr \<Rightarrow> addr"
  c_partial :: "addr \<Rightarrow> addr"
  c_free :: "addr \<Rightarrow> addr"
  c_obj_size :: "addr \<Rightarrow> u32"
  c_alignment :: "addr \<Rightarrow> u16"
  c_flags :: "addr \<Rightarrow> u16"
  c_name :: "addr \<Rightarrow> string"
  c_next :: "addr \<Rightarrow> addr"
  caches :: addr
  slab_cache :: addr
  cache_cache :: addr
  linkedlist_cache :: addr
  cpt_cache :: addr
  tt_cache :: addr
  address_space_cache :: addr
  process_cache :: addr
  thread_cache :: addr
  framebuffer_cache :: addr
  action_cache :: addr
  file_cache :: addr
  usb_qh_cache :: addr
  svc_thread_cache :: addr
  mem :: "addr \<Rightarrow> u8"

text \<open>\<open>sizeof(struct slab_desc_t)\<close> and the flag that keeps the descriptor off the slab.\<close>

abbreviation (input) SLAB_DESC_SIZE :: u32 where "SLAB_DESC_SIZE \<equiv> 16"
abbreviation (input) CACHE_SLAB_DESC_OFF_SLAB :: u16 where "CACHE_SLAB_DESC_OFF_SLAB \<equiv> 16"

definition align4Bytes :: "addr \<Rightarrow> addr" where
  "align4Bytes address = (if address AND 3 = 0 then address else (address AND NOT 3) + 4)"

section \<open>Operations on one slab\<close>

definition on_slab :: "u32 \<Rightarrow> addr \<Rightarrow> 'a slab_state_scheme \<Rightarrow> bool" where
  "on_slab obj_size cache s \<longleftrightarrow> obj_size < 128 \<and> c_flags s cache AND CACHE_SLAB_DESC_OFF_SLAB = 0"

text \<open>The address of the first object and the number of objects of a slab.\<close>

definition objects_start :: "addr \<Rightarrow> u32 \<Rightarrow> 'a slab_state_scheme \<Rightarrow> addr" where
  "objects_start slab obj_size s =
     (let objs_raw = (sd_size s slab * SMALL_PAGE_SIZE) div obj_size
      in align4Bytes (sd_start s slab + SLAB_DESC_SIZE + objs_raw div 8 + 1))"

definition objs_on_slab :: "addr \<Rightarrow> u32 \<Rightarrow> 'a slab_state_scheme \<Rightarrow> u32" where
  "objs_on_slab slab obj_size s =
     (sd_start s slab + sd_size s slab * SMALL_PAGE_SIZE - objects_start slab obj_size s) div obj_size"

definition objs_off_slab :: "addr \<Rightarrow> u32 \<Rightarrow> 'a slab_state_scheme \<Rightarrow> u32" where
  "objs_off_slab slab obj_size s = (sd_size s slab * SMALL_PAGE_SIZE) div obj_size"

text \<open>Bit \<open>i\<close> of the used bytes at \<open>used\<close>.\<close>

definition used_bit :: "addr \<Rightarrow> (addr \<Rightarrow> u8) \<Rightarrow> nat \<Rightarrow> bool" where
  "used_bit used m i \<longleftrightarrow> drop_bit (i mod 8) (m (used + of_nat (i div 8))) AND 1 \<noteq> 0"

definition put_used_bit :: "addr \<Rightarrow> (addr \<Rightarrow> u8) \<Rightarrow> nat \<Rightarrow> bool \<Rightarrow> (addr \<Rightarrow> u8)" where
  "put_used_bit used m i v =
     (let p = used + of_nat (i div 8)
      in m(p := (if v then m p OR push_bit (i mod 8) 1 else m p AND NOT (push_bit (i mod 8) 1))))"

text \<open>The loop both branches of \<open>alloc_object_from_slab\<close> have.\<close>

definition take_object :: "addr \<Rightarrow> addr \<Rightarrow> u32 \<Rightarrow> u32 \<Rightarrow> 'a slab_state_scheme \<Rightarrow> addr \<times> 'a slab_state_scheme" where
  "take_object used start objs obj_size s =
     (case List.find (\<lambda>i. \<not> used_bit used (mem s) i) [0..<unat objs] of
        Some i \<Rightarrow> (start + of_nat i * obj_size, s\<lparr>mem := put_used_bit used (mem s) i True\<rparr>)
      | None \<Rightarrow> (NULL, s))"

definition alloc_object_from_slab :: "addr \<Rightarrow> u32 \<Rightarrow> addr \<Rightarrow> 'a slab_state_scheme \<Rightarrow> (addr \<times> 'a slab_state_scheme) result" where
  "alloc_object_from_slab slab obj_size cache s =
     (if on_slab obj_size cache s then
        Ret (take_object (sd_start s slab + SLAB_DESC_SIZE) (objects_start slab obj_size s)
               (objs_on_slab slab obj_size s) obj_size s)
      else if sd_used s slab = NULL then Panic ''slab allocator alloc: used array in slab = NULL!''
      else Ret (take_object (sd_used s slab) (sd_start s slab) (objs_off_slab slab obj_size s) obj_size s))"

text \<open>
  \<open>free_object_from_slab\<close>. The on-slab branch computes a signed offset in 64 bits from a 32 bit
  difference, the other one an unsigned offset in 32 bits. Both let the index \<open>objs\<close> pass.
\<close>

definition free_object_from_slab :: "addr \<Rightarrow> u32 \<Rightarrow> addr \<Rightarrow> addr \<Rightarrow> 'a slab_state_scheme \<Rightarrow> (bool \<times> 'a slab_state_scheme) result" where
  "free_object_from_slab slab obj_size obj cache s =
     (if on_slab obj_size cache s then
        let offset = sint (obj - objects_start slab obj_size s)
        in if offset < 0 \<or> offset div uint obj_size > uint (objs_on_slab slab obj_size s) then Ret (False, s)
           else Ret (True, s\<lparr>mem := put_used_bit (sd_start s slab + SLAB_DESC_SIZE) (mem s)
                                      (nat (offset div uint obj_size)) False\<rparr>)
      else if obj < sd_start s slab then Ret (False, s)
      else
        let offset = obj - sd_start s slab
        in if offset div obj_size > objs_off_slab slab obj_size s then Ret (False, s)
           else if sd_used s slab = NULL then Panic ''slab allocator free: used array in slab = NULL!''
           else Ret (True, s\<lparr>mem := put_used_bit (sd_used s slab) (mem s) (unat (offset div obj_size)) False\<rparr>))"

definition isSlabFree :: "addr \<Rightarrow> u32 \<Rightarrow> addr \<Rightarrow> 'a slab_state_scheme \<Rightarrow> bool result" where
  "isSlabFree slab obj_size cache s =
     (if on_slab obj_size cache s then
        Ret (list_all (\<lambda>i. mem s (sd_start s slab + SLAB_DESC_SIZE + of_nat i) = 0)
               [0..<unat (objs_on_slab slab obj_size s div obj_size + 1)])
      else if sd_used s slab = NULL then Panic ''slab allocator isfree: used array in slab = NULL!''
      else Ret (list_all (\<lambda>i. mem s (sd_used s slab + of_nat i) = 0)
                  [0..<unat (objs_off_slab slab obj_size s div obj_size + 1)]))"

section \<open>The used bits\<close>

lemma used_bit_iff: "used_bit used m i \<longleftrightarrow> bit (m (used + of_nat (i div 8))) (i mod 8)"
  by (simp add: used_bit_def and_one_eq mod_2_eq_odd bit_iff_odd_drop_bit)

lemma bit_u8_or_exp: "k < 8 \<Longrightarrow> bit ((p :: u8) OR push_bit k 1) j \<longleftrightarrow> bit p j \<or> j = k"
  by (auto simp: bit_or_iff bit_exp_iff)

lemma bit_u8_andnot_exp: "bit ((p :: u8) AND NOT (push_bit k 1)) j \<longleftrightarrow> bit p j \<and> j \<noteq> k"
  by (auto simp: bit_and_iff bit_not_iff bit_exp_iff dest: bit_imp_le_length)

lemma used_bit_put:
  assumes "i < 4294967296" and "j < 4294967296"
  shows "used_bit used (put_used_bit used m i v) j = (if j = i then v else used_bit used m j)"
proof -
  have a: "(used + of_nat (j div 8) = used + of_nat (i div 8)) \<longleftrightarrow> j div 8 = i div 8"
    using assms by (simp add: of_nat_inj_u32)
  have "i mod 8 < 8" by simp
  note b = bit_u8_or_exp [OF this] bit_u8_andnot_exp
  show ?thesis
  proof (cases "j div 8 = i div 8")
    case True
    then have "j mod 8 = i mod 8 \<longleftrightarrow> j = i" by (metis div_mult_mod_eq)
    with True show ?thesis by (auto simp: used_bit_iff put_used_bit_def Let_def b simp del: push_bit_of_1)
  next
    case False
    then have "j \<noteq> i" by auto
    with False a show ?thesis by (simp add: used_bit_iff put_used_bit_def Let_def)
  qed
qed

interpretation slab_bits: bit_store "used_bit used" "put_used_bit used" 4294967296 for used
  by unfold_locales (simp add: used_bit_put)

section \<open>The layout of a slab\<close>

lemma align4_bounds:
  assumes "unat a + 4 < 4294967296"
  shows "unat a \<le> unat (align4Bytes a)" and "unat (align4Bytes a) < unat a + 4" and "4 dvd unat (align4Bytes a)"
proof -
  have m: "(3 :: u32) = mask 2" by (simp add: mask_eq_exp_minus_1)
  have r: "unat (a AND 3) = unat a mod 4"
    unfolding m take_bit_eq_mask [symmetric] by (simp add: take_bit_eq_mod unat_mod)
  have d: "unat (a AND NOT 3) = unat a div 4 * 4"
    using unat_and_not_mask [of a 2] by (simp add: m)
  have e: "unat a div 4 * 4 + unat a mod 4 = unat a" by (rule div_mult_mod_eq)
  have u: "unat ((a AND NOT 3) + 4) = unat a div 4 * 4 + 4"
    by (subst unat_add_u32) (use assms d e in simp_all)
  have z: "a AND 3 = 0 \<longleftrightarrow> unat a mod 4 = 0" by (metis r unat_eq_zero)
  have "unat a mod 4 < 4" by simp
  with e have b: "unat a div 4 * 4 \<le> unat a" "unat a < unat a div 4 * 4 + 4" by linarith+
  have nz: "unat a div 4 * 4 < unat a" if "a AND 3 \<noteq> 0" using that e z by linarith
  have "unat (align4Bytes a) = (if a AND 3 = 0 then unat a else unat a div 4 * 4 + 4)"
    using u by (simp add: align4Bytes_def)
  with b nz show "unat a \<le> unat (align4Bytes a)" and "unat (align4Bytes a) < unat a + 4"
    by (cases "a AND 3 = 0"; simp)+
  from u z show "4 dvd unat (align4Bytes a)" by (auto simp: align4Bytes_def mod_eq_0_iff_dvd)
qed

text \<open>
  A well-formed slab: at most 100 pages, as \<open>growCache\<close> ensures, that do not wrap around the
  address space, and an array of used bytes where the descriptor is off-slab.
\<close>

definition slab_ok :: "addr \<Rightarrow> u32 \<Rightarrow> addr \<Rightarrow> 'a slab_state_scheme \<Rightarrow> bool" where
  "slab_ok slab obj_size cache s \<longleftrightarrow> obj_size \<noteq> 0 \<and> sd_start s slab \<noteq> 0
     \<and> 1 \<le> unat (sd_size s slab) \<and> unat (sd_size s slab) \<le> 100
     \<and> unat (sd_start s slab) + 4096 * unat (sd_size s slab) < 4294967296
     \<and> (on_slab obj_size cache s \<or> sd_used s slab \<noteq> 0)"

definition slab_base :: "addr \<Rightarrow> u32 \<Rightarrow> addr \<Rightarrow> 'a slab_state_scheme \<Rightarrow> addr" where
  "slab_base slab obj_size cache s =
     (if on_slab obj_size cache s then objects_start slab obj_size s else sd_start s slab)"

definition slab_objs :: "addr \<Rightarrow> u32 \<Rightarrow> addr \<Rightarrow> 'a slab_state_scheme \<Rightarrow> nat" where
  "slab_objs slab obj_size cache s =
     unat (if on_slab obj_size cache s then objs_on_slab slab obj_size s else objs_off_slab slab obj_size s)"

definition slab_used :: "addr \<Rightarrow> u32 \<Rightarrow> addr \<Rightarrow> 'a slab_state_scheme \<Rightarrow> addr" where
  "slab_used slab obj_size cache s =
     (if on_slab obj_size cache s then sd_start s slab + SLAB_DESC_SIZE else sd_used s slab)"

text \<open>The object number \<open>i\<close> is allocated.\<close>

definition allocated :: "addr \<Rightarrow> u32 \<Rightarrow> addr \<Rightarrow> 'a slab_state_scheme \<Rightarrow> nat \<Rightarrow> bool" where
  "allocated slab obj_size cache s i = used_bit (slab_used slab obj_size cache s) (mem s) i"

definition object_at :: "addr \<Rightarrow> u32 \<Rightarrow> addr \<Rightarrow> 'a slab_state_scheme \<Rightarrow> nat \<Rightarrow> addr" where
  "object_at slab obj_size cache s i = slab_base slab obj_size cache s + of_nat i * obj_size"

lemma alloc_object_from_slab_eq:
  "slab_ok slab sz c s \<Longrightarrow> alloc_object_from_slab slab sz c s =
     Ret (case List.find (\<lambda>i. \<not> allocated slab sz c s i) [0..<slab_objs slab sz c s] of
            Some i \<Rightarrow> (object_at slab sz c s i, s\<lparr>mem := put_used_bit (slab_used slab sz c s) (mem s) i True\<rparr>)
          | None \<Rightarrow> (NULL, s))"
  by (auto simp: alloc_object_from_slab_def take_object_def slab_ok_def slab_used_def slab_objs_def
      slab_base_def allocated_def object_at_def split: option.split)

lemma objects_start_bounds:
  assumes "slab_ok slab sz c s"
  defines "S \<equiv> unat (sd_start s slab)" and "N \<equiv> 4096 * unat (sd_size s slab)"
  shows "S + 17 + N div unat sz div 8 \<le> unat (objects_start slab sz s)"
    and "unat (objects_start slab sz s) < S + 21 + N div unat sz div 8"
    and "4 dvd unat (objects_start slab sz s)"
proof -
  from assms have sz: "unat sz \<noteq> 0" and n: "4096 \<le> N" "N \<le> 409600" "S + N < 4294967296"
    by (simp_all add: slab_ok_def unat_eq_zero)
  have nn: "unat (sd_size s slab * 4096) = N" using n by (simp add: word_arith_simps N_def)
  have le: "N div unat sz div 8 \<le> N div 8" by (intro div_le_mono) simp
  let ?a = "sd_start s slab + 16 + sd_size s slab * 4096 div sz div 8 + 1"
  have q: "unat (sd_size s slab * 4096 div sz div 8) = N div unat sz div 8" by (simp add: unat_div nn)
  have b: "S + 21 + N div unat sz div 8 < 4294967296" using n le by linarith
  have a: "unat ?a = S + 17 + N div unat sz div 8"
    using b by (simp add: word_arith_simps q S_def)
  show "S + 17 + N div unat sz div 8 \<le> unat (objects_start slab sz s)"
    and "unat (objects_start slab sz s) < S + 21 + N div unat sz div 8"
    and "4 dvd unat (objects_start slab sz s)"
    using align4_bounds [of ?a] a b by (simp_all add: objects_start_def)
qed

text \<open>All objects lie inside the pages of the slab, behind the descriptor and the used bytes if those are there.\<close>

lemma slab_layout:
  assumes ok: "slab_ok slab sz c s"
  shows "unat (slab_base slab sz c s) + slab_objs slab sz c s * unat sz
           \<le> unat (sd_start s slab) + 4096 * unat (sd_size s slab)"
    and "unat (sd_start s slab) \<le> unat (slab_base slab sz c s)"
    and "on_slab sz c s \<Longrightarrow> unat (slab_used slab sz c s) + slab_objs slab sz c s div 8 + 1 \<le> unat (slab_base slab sz c s)"
    and "slab_objs slab sz c s \<le> 409600"
proof -
  define S N where "S = unat (sd_start s slab)" and "N = 4096 * unat (sd_size s slab)"
  from ok have n: "4096 \<le> N" "N \<le> 409600" "S + N < 4294967296" and z: "unat sz \<noteq> 0"
    by (simp_all add: slab_ok_def unat_eq_zero S_def N_def)
  have nn: "unat (sd_size s slab * 4096) = N" using n by (simp add: word_arith_simps N_def)
  have le: "N div unat sz div 8 \<le> N div 8" by (intro div_le_mono) simp
  note o = objects_start_bounds [OF ok, folded S_def N_def]
  have last: "unat (sd_start s slab + sd_size s slab * 4096) = S + N" using n by (simp add: word_arith_simps nn S_def)
  have A: "unat (objects_start slab sz s) \<le> S + N" using o(2) le n by linarith
  have on: "unat (objs_on_slab slab sz s) = (S + N - unat (objects_start slab sz s)) div unat sz"
    using A last by (simp add: objs_on_slab_def unat_div unat_le_u32 unat_sub_u32)
  have off: "unat (objs_off_slab slab sz s) = N div unat sz" by (simp add: objs_off_slab_def unat_div nn)
  have d: "x div unat sz * unat sz \<le> x" for x by simp
  show "unat (slab_base slab sz c s) + slab_objs slab sz c s * unat sz
           \<le> unat (sd_start s slab) + 4096 * unat (sd_size s slab)"
    using d [of "S + N - unat (objects_start slab sz s)"] d [of N] A
    unfolding slab_base_def slab_objs_def
    by (simp only: on off if_distrib [of unat] S_def [symmetric] N_def [symmetric] split: if_split) linarith
  show "unat (sd_start s slab) \<le> unat (slab_base slab sz c s)"
    using o(1) by (simp add: slab_base_def S_def)
  have mono: "x \<le> N \<Longrightarrow> x div unat sz \<le> N div unat sz" for x by (rule div_le_mono)
  show "slab_objs slab sz c s \<le> 409600"
  proof -
    have "N div unat sz \<le> 409600" using div_le_dividend [of N "unat sz"] n by linarith
    moreover have "(S + N - unat (objects_start slab sz s)) div unat sz \<le> N div unat sz"
      using o(1) by (intro mono) linarith
    ultimately show ?thesis by (simp add: slab_objs_def on off)
  qed
  assume c: "on_slab sz c s"
  have "unat (objs_on_slab slab sz s) div 8 \<le> N div unat sz div 8"
    unfolding on using o(1) by (intro div_le_mono) simp
  moreover have "unat (sd_start s slab + 16) = S + 16" using n by (simp add: word_arith_simps S_def)
  ultimately show "unat (slab_used slab sz c s) + slab_objs slab sz c s div 8 + 1 \<le> unat (slab_base slab sz c s)"
    using c o(1) by (simp add: slab_used_def slab_objs_def slab_base_def)
qed

lemma unat_object_at:
  assumes ok: "slab_ok slab sz c s" and "i \<le> slab_objs slab sz c s"
  shows "unat (object_at slab sz c s i) = unat (slab_base slab sz c s) + i * unat sz"
proof -
  have "i * unat sz \<le> slab_objs slab sz c s * unat sz" using assms(2) by (rule mult_le_mono1)
  then have b: "unat (slab_base slab sz c s) + i * unat sz < 4294967296"
    using slab_layout(1) [OF ok] ok unfolding slab_ok_def by linarith
  have "i < 4294967296" using assms(2) slab_layout(4) [OF ok] by simp
  then have i: "unat (of_nat i :: u32) = i" by (rule unat_of_nat_u32)
  have "unat (of_nat i * sz) = i * unat sz" using b by (subst unat_mult_u32) (simp_all add: i)
  then show ?thesis using b by (simp add: object_at_def unat_add_u32)
qed

lemma layout_mem [simp]:
  "on_slab sz c (s\<lparr>mem := m\<rparr>) = on_slab sz c s"
  "slab_ok slab sz c (s\<lparr>mem := m\<rparr>) = slab_ok slab sz c s"
  "slab_base slab sz c (s\<lparr>mem := m\<rparr>) = slab_base slab sz c s"
  "slab_objs slab sz c (s\<lparr>mem := m\<rparr>) = slab_objs slab sz c s"
  "slab_used slab sz c (s\<lparr>mem := m\<rparr>) = slab_used slab sz c s"
  "object_at slab sz c (s\<lparr>mem := m\<rparr>) i = object_at slab sz c s i"
  by (simp_all add: on_slab_def slab_ok_def slab_base_def slab_objs_def slab_used_def object_at_def
      objects_start_def objs_on_slab_def objs_off_slab_def)

lemma allocated_put:
  "\<lbrakk>i < 4294967296; j < 4294967296\<rbrakk> \<Longrightarrow>
   allocated slab sz c (s\<lparr>mem := put_used_bit (slab_used slab sz c s) (mem s) i v\<rparr>) j
     = (if j = i then v else allocated slab sz c s j)"
  by (simp add: allocated_def used_bit_put)

lemma object_at_not_NULL:
  assumes ok: "slab_ok slab sz c s" and "i \<le> slab_objs slab sz c s"
  shows "object_at slab sz c s i \<noteq> NULL"
proof -
  have "unat (object_at slab sz c s i) \<noteq> 0"
    using unat_object_at [OF assms] slab_layout(2) [OF ok] ok by (auto simp: slab_ok_def unat_eq_zero)
  then show ?thesis by (simp add: unat_eq_zero)
qed

lemma alloc_from_slab_cases:
  assumes "slab_ok slab sz c s"
  obtains (full) "alloc_object_from_slab slab sz c s = Ret (NULL, s)" "\<forall>i < slab_objs slab sz c s. allocated slab sz c s i"
  | (got) i where "i < slab_objs slab sz c s" and "\<not> allocated slab sz c s i" and "\<forall>j < i. allocated slab sz c s j"
      and "alloc_object_from_slab slab sz c s = Ret (object_at slab sz c s i,
             s\<lparr>mem := put_used_bit (slab_used slab sz c s) (mem s) i True\<rparr>)"
proof (cases "List.find (\<lambda>i. \<not> allocated slab sz c s i) [0..<slab_objs slab sz c s]")
  case None
  then have "alloc_object_from_slab slab sz c s = Ret (NULL, s)"
    by (simp add: alloc_object_from_slab_eq assms)
  with None show ?thesis by (intro full) (simp_all add: find_None_iff_index)
next
  case (Some i)
  then have "alloc_object_from_slab slab sz c s = Ret (object_at slab sz c s i,
             s\<lparr>mem := put_used_bit (slab_used slab sz c s) (mem s) i True\<rparr>)"
    by (simp add: alloc_object_from_slab_eq assms)
  with Some show ?thesis by (intro got [of i]) (simp_all add: find_Some_iff_index)
qed


lemma free_object_at:
  assumes ok: "slab_ok slab sz c s" and i: "i \<le> slab_objs slab sz c s"
  shows "free_object_from_slab slab sz (object_at slab sz c s i) c s
       = Ret (True, s\<lparr>mem := put_used_bit (slab_used slab sz c s) (mem s) i False\<rparr>)"
proof -
  let ?o = "object_at slab sz c s i"
  note u = unat_object_at [OF ok i]
  have z: "unat sz \<noteq> 0" using ok by (simp add: slab_ok_def unat_eq_zero)
  have "i * unat sz \<le> slab_objs slab sz c s * unat sz" using i by (rule mult_le_mono1)
  then have le: "i * unat sz \<le> 409600"
    using slab_layout(1,2) [OF ok] ok unfolding slab_ok_def by linarith
  have d: "unat (?o - slab_base slab sz c s) = i * unat sz"
    by (subst unat_sub_u32) (simp_all add: unat_le_u32 u)
  then have sd: "sint (?o - slab_base slab sz c s) = int (i * unat sz)"
    by (subst sint_u32_small) (use le in simp_all)
  show ?thesis
  proof (cases "on_slab sz c s")
    case True
    then have "sint (?o - objects_start slab sz s) = int (i * unat sz)" using sd by (simp add: slab_base_def)
    moreover have "int (i * unat sz) div uint sz = int i" using z by (simp add: unat_eq_zero uint_0_iff)
    moreover have "int i \<le> uint (objs_on_slab slab sz s)"
      using i True of_nat_mono [OF i, where ?'a = int] by (simp add: slab_objs_def)
    moreover have "0 \<le> int i * uint sz" by simp
    ultimately show ?thesis using True
      by (simp add: free_object_from_slab_def Let_def slab_used_def not_less)
  next
    case False
    then have b: "slab_base slab sz c s = sd_start s slab" by (simp add: slab_base_def)
    have "\<not> ?o < sd_start s slab" using u b by (simp add: unat_less_u32)
    moreover have q: "unat ((?o - sd_start s slab) div sz) = i" using d z b by (simp add: unat_div)
    moreover have "\<not> (?o - sd_start s slab) div sz > objs_off_slab slab sz s"
      using q i False by (simp add: unat_less_u32 slab_objs_def)
    ultimately show ?thesis using False ok
      by (simp add: free_object_from_slab_def Let_def slab_used_def slab_ok_def)
  qed
qed

text \<open>
  C31. Freeing an object of a slab succeeds, clears its bit and no other. The next object handed out is then the first of the
  objects that are free, the freed one included: the freed one itself exactly when all objects before it are allocated.
\<close>

theorem free_from_slab_correct:
  assumes ok: "slab_ok slab sz c s" and i: "i < slab_objs slab sz c s"
  shows "\<exists>s'. free_object_from_slab slab sz (object_at slab sz c s i) c s = Ret (True, s')
    \<and> (\<forall>j < slab_objs slab sz c s. allocated slab sz c s' j = (j \<noteq> i \<and> allocated slab sz c s j))
    \<and> (\<exists>j \<le> i. map_result fst (alloc_object_from_slab slab sz c s') = Ret (object_at slab sz c s j)
          \<and> (j = i \<or> \<not> allocated slab sz c s j) \<and> (\<forall>k < j. allocated slab sz c s k)
          \<and> (j = i \<longleftrightarrow> (\<forall>k < i. allocated slab sz c s k)))"
proof -
  let ?s = "s\<lparr>mem := put_used_bit (slab_used slab sz c s) (mem s) i False\<rparr>"
  have n: "slab_objs slab sz c s < 4294967296" using slab_layout(4) [OF ok] by simp
  have a: "allocated slab sz c ?s j = (j \<noteq> i \<and> allocated slab sz c s j)" if "j < slab_objs slab sz c s" for j
    using allocated_put [of i j, where s = s] that i n by simp
  have f: "\<not> allocated slab sz c ?s i" using a [OF i] by simp
  from ok have ok': "slab_ok slab sz c ?s" by simp
  have "\<exists>j \<le> i. map_result fst (alloc_object_from_slab slab sz c ?s) = Ret (object_at slab sz c s j)
      \<and> (j = i \<or> \<not> allocated slab sz c s j) \<and> (\<forall>k < j. allocated slab sz c s k)
      \<and> (j = i \<longleftrightarrow> (\<forall>k < i. allocated slab sz c s k))"
    using ok'
  proof (cases rule: alloc_from_slab_cases)
    case full
    with f i show ?thesis by simp
  next
    case (got j)
    have l: "j \<le> i" using got(3) f by (meson not_le_imp_less)
    have k: "allocated slab sz c s k" if "k < j" for k using got(3) a [of k] that l i by simp
    have j: "j = i \<or> \<not> allocated slab sz c s j" using got(2) a [of j] l i by auto
    then have "j = i \<longleftrightarrow> (\<forall>k < i. allocated slab sz c s k)" using k l by (metis le_neq_implies_less)
    with l j k got(4) show ?thesis by (intro exI [of _ j]) simp
  qed
  then show ?thesis using free_object_at [OF ok, of i] i a by auto
qed

text \<open>
  The range test of \<open>free_object_from_slab\<close> lets the address just behind the last object
  pass. Freeing it (the first object of a slab on the next page, say) with this slab reports
  success and frees no object of the slab; so the object stays allocated where it belongs.
\<close>

theorem free_past_end:
  assumes ok: "slab_ok slab sz c s"
  shows "\<exists>s'. free_object_from_slab slab sz (object_at slab sz c s (slab_objs slab sz c s)) c s = Ret (True, s')
    \<and> (\<forall>j < slab_objs slab sz c s. allocated slab sz c s' j = allocated slab sz c s j)"
  using free_object_at [OF ok, of "slab_objs slab sz c s"] allocated_put [of "slab_objs slab sz c s", where s = s]
    slab_layout(4) [OF ok] by auto

text \<open>
  \<open>isSlabFree\<close> looks at \<open>objs / obj_size + 1\<close> of the used bytes, not at \<open>objs / 8 + 1\<close>. A slab
  whose allocated objects all have their bit behind these bytes counts as free.
\<close>

theorem isSlabFree_incomplete:
  assumes ok: "slab_ok slab sz c s" and i: "i < slab_objs slab sz c s" "allocated slab sz c s i"
    and zero: "\<forall>j < slab_objs slab sz c s div unat sz + 1. mem s (slab_used slab sz c s + of_nat j) = 0"
  shows "isSlabFree slab sz c s = Ret True \<and> slab_objs slab sz c s div unat sz < i div 8"
proof -
  have n: "slab_objs slab sz c s div unat sz + 1 < 4294967296"
    using slab_layout(4) [OF ok] div_le_dividend [of "slab_objs slab sz c s" "unat sz"] by linarith
  have "unat (objs div sz + 1) = slab_objs slab sz c s div unat sz + 1"
    if "unat objs = slab_objs slab sz c s" for objs
    using that n by (simp add: word_arith_simps unat_div)
  then have "isSlabFree slab sz c s = Ret True"
    using zero ok by (auto simp: isSlabFree_def slab_used_def slab_objs_def list_all_iff slab_ok_def)
  moreover have "mem s (slab_used slab sz c s + of_nat (i div 8)) \<noteq> 0"
    using i(2) by (auto simp: allocated_def used_bit_def)
  then have "\<not> i div 8 < slab_objs slab sz c s div unat sz + 1" using zero by blast
  ultimately show ?thesis by simp
qed

section \<open>Examples\<close>

text \<open>Slabs of one page of 64 byte objects with the descriptor on the slab: 63 objects, all free.\<close>

definition slab_example :: slab_state where
  "slab_example = \<lparr>sd_size = (\<lambda>_. 1), sd_start = (\<lambda>p. p), sd_next = (\<lambda>_. 0), sd_used = (\<lambda>_. 0),
     c_full = (\<lambda>_. 0), c_partial = (\<lambda>_. 0), c_free = (\<lambda>_. 0), c_obj_size = (\<lambda>_. 64), c_alignment = (\<lambda>_. 0),
     c_flags = (\<lambda>_. 0), c_name = (\<lambda>_. []), c_next = (\<lambda>_. 0), caches = 0, slab_cache = 0, cache_cache = 0,
     linkedlist_cache = 0, cpt_cache = 0, tt_cache = 0, address_space_cache = 0, process_cache = 0,
     thread_cache = 0, framebuffer_cache = 0, action_cache = 0, file_cache = 0, usb_qh_cache = 0,
     svc_thread_cache = 0, mem = (\<lambda>_. 0)\<rparr>"

lemma slab_example_ok:
  "slab_ok 0xe4000000 64 0x100 slab_example" "slab_ok 0xe4001000 64 0x100 slab_example"
  by (simp_all add: slab_ok_def on_slab_def slab_example_def)

lemma slab_example_objs:
  "slab_objs 0xe4000000 64 0x100 slab_example = 63" "slab_objs 0xe4001000 64 0x100 slab_example = 63"
  by code_simp+

lemma slab_example_fields: "mem slab_example p = 0" "c_obj_size slab_example c = 64" "sd_next slab_example p = 0"
  "c_full slab_example c = 0" "c_partial slab_example c = 0" "c_free slab_example c = 0"
  by (simp_all add: slab_example_def)

lemma slab_example_unused: "\<not> allocated q 64 0x100 slab_example i"
  by (simp add: allocated_def used_bit_iff slab_example_fields)


lemma free_from_slab_correct_witness:
  "\<exists>s'. free_object_from_slab 0xe4000000 64 (object_at 0xe4000000 64 0x100 slab_example 5) 0x100 slab_example = Ret (True, s')
    \<and> map_result fst (alloc_object_from_slab 0xe4000000 64 0x100 s') = Ret (object_at 0xe4000000 64 0x100 slab_example 0)"
proof -
  have "(5 :: nat) < slab_objs 0xe4000000 64 0x100 slab_example" by (simp add: slab_example_objs)
  from free_from_slab_correct [OF slab_example_ok(1) this] obtain s' j
    where "free_object_from_slab 0xe4000000 64 (object_at 0xe4000000 64 0x100 slab_example 5) 0x100 slab_example = Ret (True, s')"
      and "map_result fst (alloc_object_from_slab 0xe4000000 64 0x100 s') = Ret (object_at 0xe4000000 64 0x100 slab_example j)"
      and "\<forall>k < j. allocated 0xe4000000 64 0x100 slab_example k" by blast
  moreover from this(3) have "j = 0" using slab_example_unused by blast
  ultimately show ?thesis by blast
qed

lemma free_past_end_witness:
  "\<exists>s'. free_object_from_slab 0xe4000000 64 (object_at 0xe4000000 64 0x100 slab_example 63) 0x100 slab_example = Ret (True, s')"
  using free_past_end [OF slab_example_ok(1)] unfolding slab_example_objs by blast

lemma isSlabFree_incomplete_witness:
  "isSlabFree 0xe4000000 64 0x100 (slab_example\<lparr>mem := (\<lambda>_. 0)(0xe4000011 := 1)\<rparr>) = Ret True"
proof -
  let ?s = "slab_example\<lparr>mem := (\<lambda>_. 0)(0xe4000011 := 1)\<rparr>"
  have u: "slab_used 0xe4000000 64 0x100 slab_example = 0xe4000010" by code_simp
  have "slab_ok 0xe4000000 64 0x100 ?s" using slab_example_ok(1) by simp
  moreover have "8 < slab_objs 0xe4000000 64 0x100 ?s" by (simp add: slab_example_objs)
  moreover have "allocated 0xe4000000 64 0x100 ?s 8" by (simp add: allocated_def used_bit_iff u)
  moreover have "\<forall>j < slab_objs 0xe4000000 64 0x100 ?s div unat (64 :: u32) + 1.
      mem ?s (slab_used 0xe4000000 64 0x100 ?s + of_nat j) = 0"
    by (simp add: slab_example_objs u)
  ultimately show ?thesis using isSlabFree_incomplete by blast
qed

end
