(* ===== verification/Slab_Cache.thy ===== *)
theory Slab_Cache
  imports Slab
begin

text \<open>
  The caches of the slab allocator, kernel/memory/slab.c: each cache has three lists of slabs,
  full, partial and free, linked through \<open>next\<close> of the slab descriptors. Objects are allocated
  from a cache and given back to it; \<open>kmalloc\<close> picks the best fitting cache. Growing a cache
  (\<open>growCache\<close>) is a parameter here; \<open>Slab_Growth\<close> gives its model.

  A result \<open>None\<close> is a loop or a recursion that does not end.
\<close>

section \<open>Allocation from a cache\<close>

definition set_sd_next :: "addr \<Rightarrow> addr \<Rightarrow> 'a slab_state_scheme \<Rightarrow> 'a slab_state_scheme" where
  "set_sd_next p v s = s\<lparr>sd_next := (sd_next s)(p := v)\<rparr>"

definition set_c_full :: "addr \<Rightarrow> addr \<Rightarrow> 'a slab_state_scheme \<Rightarrow> 'a slab_state_scheme" where
  "set_c_full c v s = s\<lparr>c_full := (c_full s)(c := v)\<rparr>"

definition set_c_partial :: "addr \<Rightarrow> addr \<Rightarrow> 'a slab_state_scheme \<Rightarrow> 'a slab_state_scheme" where
  "set_c_partial c v s = s\<lparr>c_partial := (c_partial s)(c := v)\<rparr>"

definition set_c_free :: "addr \<Rightarrow> addr \<Rightarrow> 'a slab_state_scheme \<Rightarrow> 'a slab_state_scheme" where
  "set_c_free c v s = s\<lparr>c_free := (c_free s)(c := v)\<rparr>"

text \<open>
  The loop over the partial slabs: an exhausted slab moves to the full list. \<open>cslab->next\<close> is
  read after the slab has been linked into the full list. The loop returns the object, or NULL
  when it falls out at the end.
\<close>

partial_function (option) alloc_walk ::
  "addr \<Rightarrow> addr \<Rightarrow> addr \<Rightarrow> 'a slab_state_scheme \<Rightarrow> (addr \<times> 'a slab_state_scheme) result option" where
  "alloc_walk cache prevslab cslab s =
     (if cslab \<noteq> NULL then
        (case alloc_object_from_slab cslab (c_obj_size s cache) cache s of
           Panic m \<Rightarrow> Some (Panic m)
         | Ret (object, s) \<Rightarrow>
             if object \<noteq> NULL then Some (Ret (object, s))
             else
               let s = (if prevslab = NULL then set_c_partial cache (sd_next s cslab) s
                        else set_sd_next prevslab (sd_next s cslab) s);
                   s = set_sd_next cslab (c_full s cache) s;
                   s = set_c_full cache cslab s
               in alloc_walk cache cslab (sd_next s cslab) s)
      else Some (Ret (NULL, s)))"

text \<open>Both branches that take a slab from the free list.\<close>

definition take_free_slab :: "addr \<Rightarrow> 'a slab_state_scheme \<Rightarrow> (addr \<times> 'a slab_state_scheme) result" where
  "take_free_slab cache s =
     (let slab = c_free s cache;
          s = set_c_free cache (sd_next s slab) s;
          s = set_sd_next slab (c_partial s cache) s;
          s = set_c_partial cache slab s
      in bind_result (alloc_object_from_slab slab (c_obj_size s cache) cache s)
           (\<lambda>(obj, s). if obj = NULL then Panic ''could not get object from empty slab!'' else Ret (obj, s)))"

text \<open>The recursion after a growth is bounded by \<open>n\<close>.\<close>

fun alloc_object_from_cache ::
  "(addr \<Rightarrow> 'a slab_state_scheme \<Rightarrow> 'a slab_state_scheme result option) \<Rightarrow> nat \<Rightarrow> addr \<Rightarrow> 'a slab_state_scheme \<Rightarrow> (addr \<times> 'a slab_state_scheme) result option" where
  "alloc_object_from_cache growCache n cache s =
     (let grow = (\<lambda>s. case n of
             0 \<Rightarrow> None
           | Suc k \<Rightarrow> Option.bind (growCache cache s) (\<lambda>r. case r of
               Panic m \<Rightarrow> Some (Panic m)
             | Ret s \<Rightarrow> alloc_object_from_cache growCache k cache s))
      in if c_partial s cache = NULL then
           if c_free s cache = NULL then grow s else Some (take_free_slab cache s)
         else
           Option.bind (alloc_walk cache NULL (c_partial s cache) s)
             (\<lambda>r. case r of
                Panic m \<Rightarrow> Some (Panic m)
              | Ret (object, s) \<Rightarrow>
                  if object \<noteq> NULL then Some (Ret (object, s))
                  else if c_free s cache = NULL then grow s
                  else Some (take_free_slab cache s)))"

declare alloc_object_from_cache.simps [simp del]

section \<open>Giving objects back\<close>

partial_function (option) free_full_walk ::
  "addr \<Rightarrow> addr \<Rightarrow> addr \<Rightarrow> addr \<Rightarrow> 'a slab_state_scheme \<Rightarrow> (bool \<times> 'a slab_state_scheme) result option" where
  "free_full_walk cache obj prevslab cslab s =
     (if cslab \<noteq> NULL then
        (case free_object_from_slab cslab (c_obj_size s cache) obj cache s of
           Panic m \<Rightarrow> Some (Panic m)
         | Ret (found, s) \<Rightarrow>
             if found then
               let s = (if prevslab = NULL then set_c_full cache (sd_next s cslab) s
                        else set_sd_next prevslab (sd_next s cslab) s);
                   s = set_sd_next cslab (c_partial s cache) s;
                   s = set_c_partial cache cslab s
               in Some (Ret (True, s))
             else free_full_walk cache obj cslab (sd_next s cslab) s)
      else Some (Ret (False, s)))"

partial_function (option) free_partial_walk ::
  "addr \<Rightarrow> addr \<Rightarrow> addr \<Rightarrow> addr \<Rightarrow> 'a slab_state_scheme \<Rightarrow> (bool \<times> 'a slab_state_scheme) result option" where
  "free_partial_walk cache obj prevslab cslab s =
     (if cslab \<noteq> NULL then
        (case free_object_from_slab cslab (c_obj_size s cache) obj cache s of
           Panic m \<Rightarrow> Some (Panic m)
         | Ret (found, s) \<Rightarrow>
             if found then
               (case isSlabFree cslab (c_obj_size s cache) cache s of
                  Panic m \<Rightarrow> Some (Panic m)
                | Ret isfree \<Rightarrow>
                    if isfree then
                      let s = (if prevslab = NULL then set_c_partial cache (sd_next s cslab) s
                               else set_sd_next prevslab (sd_next s cslab) s);
                          s = set_sd_next cslab (c_free s cache) s;
                          s = set_c_free cache cslab s
                      in Some (Ret (True, s))
                    else Some (Ret (True, s)))
             else free_partial_walk cache obj cslab (sd_next s cslab) s)
      else Some (Ret (False, s)))"

definition free_object_from_cache :: "addr \<Rightarrow> addr \<Rightarrow> 'a slab_state_scheme \<Rightarrow> (bool \<times> 'a slab_state_scheme) result option" where
  "free_object_from_cache cache obj s =
     (if c_partial s cache = NULL then
        if c_full s cache = NULL then Some (Ret (False, s))
        else free_full_walk cache obj NULL (c_full s cache) s
      else
        Option.bind (free_full_walk cache obj NULL (c_full s cache) s)
          (\<lambda>r. case r of
             Panic m \<Rightarrow> Some (Panic m)
           | Ret (found, s) \<Rightarrow>
               if found then Some (Ret (True, s))
               else free_partial_walk cache obj NULL (c_partial s cache) s))"

section \<open>kmalloc and kfree\<close>

text \<open>The loop of \<open>kmalloc\<close> over all caches, with the best fit so far.\<close>

partial_function (option) kmalloc_walk :: "u32 \<Rightarrow> addr \<Rightarrow> addr \<Rightarrow> 'a slab_state_scheme \<Rightarrow> addr option" where
  "kmalloc_walk req best ccache s =
     (if ccache \<noteq> NULL then
        if c_flags s ccache AND 1 \<noteq> 1 then
          if c_obj_size s ccache = req then Some ccache
          else if c_obj_size s ccache > req \<and> (best = NULL \<or> c_obj_size s ccache < c_obj_size s best)
          then kmalloc_walk req ccache (c_next s ccache) s
          else kmalloc_walk req best (c_next s ccache) s
        else kmalloc_walk req best (c_next s ccache) s
      else Some best)"

definition kmalloc ::
  "(addr \<Rightarrow> 'a slab_state_scheme \<Rightarrow> 'a slab_state_scheme result option) \<Rightarrow> nat \<Rightarrow> u32 \<Rightarrow> 'a slab_state_scheme \<Rightarrow> (addr \<times> 'a slab_state_scheme) result option" where
  "kmalloc growCache n req s =
     (if req > 1024 then Some (Ret (NULL, s))
      else Option.bind (kmalloc_walk req NULL (caches s) s)
             (\<lambda>best. if best = NULL then Some (Ret (NULL, s)) else alloc_object_from_cache growCache n best s))"

text \<open>
  \<open>kfree\<close> asks every cache \<open>kmalloc\<close> can use, \<open>kfree_hint\<close> every cache with objects of at least
  the size; both end at the first that had the object. The result says whether there was one
  (else a message goes to the serial port).
\<close>

partial_function (option) kfree_walk ::
  "(addr \<Rightarrow> 'a slab_state_scheme \<Rightarrow> bool) \<Rightarrow> addr \<Rightarrow> addr \<Rightarrow> 'a slab_state_scheme \<Rightarrow> (bool \<times> 'a slab_state_scheme) result option" where
  "kfree_walk eligible obj ccache s =
     (if ccache \<noteq> NULL then
        if eligible ccache s then
          Option.bind (free_object_from_cache ccache obj s)
            (\<lambda>r. case r of
               Panic m \<Rightarrow> Some (Panic m)
             | Ret (found, s) \<Rightarrow>
                 if found then Some (Ret (True, s)) else kfree_walk eligible obj (c_next s ccache) s)
        else kfree_walk eligible obj (c_next s ccache) s
      else Some (Ret (False, s)))"

definition kfree :: "addr \<Rightarrow> 'a slab_state_scheme \<Rightarrow> (bool \<times> 'a slab_state_scheme) result option" where
  "kfree obj s = kfree_walk (\<lambda>c s. c_flags s c AND 1 \<noteq> 1) obj (caches s) s"

definition kfree_hint :: "addr \<Rightarrow> u32 \<Rightarrow> 'a slab_state_scheme \<Rightarrow> (bool \<times> 'a slab_state_scheme) result option" where
  "kfree_hint obj req s = kfree_walk (\<lambda>c s. c_obj_size s c \<ge> req) obj (caches s) s"

definition createCache ::
  "(addr \<Rightarrow> 'a slab_state_scheme \<Rightarrow> 'a slab_state_scheme result option) \<Rightarrow> nat \<Rightarrow> u32 \<Rightarrow> u16 \<Rightarrow> u16 \<Rightarrow> string \<Rightarrow> 'a slab_state_scheme
    \<Rightarrow> (addr \<times> 'a slab_state_scheme) result option" where
  "createCache growCache n obj_size alignment flags name s =
     map_option (map_result (\<lambda>(cache, s). (cache,
         s\<lparr>c_full := (c_full s)(cache := NULL), c_partial := (c_partial s)(cache := NULL),
           c_free := (c_free s)(cache := NULL), c_obj_size := (c_obj_size s)(cache := obj_size),
           c_alignment := (c_alignment s)(cache := alignment), c_flags := (c_flags s)(cache := flags),
           c_name := (c_name s)(cache := name), c_next := (c_next s)(cache := caches s),
           caches := cache\<rparr>)))
       (alloc_object_from_cache growCache n (cache_cache s) s)"

section \<open>Lists of slabs\<close>

interpretation slabs: next_field sd_next set_sd_next
  by unfold_locales (simp add: set_sd_next_def)

lemmas link_defs = set_sd_next_def set_c_full_def set_c_partial_def set_c_free_def

lemma link_fields [simp]:
  "sd_next (set_sd_next p v s) = (sd_next s)(p := v)" "sd_next (set_c_full c v s) = sd_next s"
  "sd_next (set_c_partial c v s) = sd_next s" "sd_next (set_c_free c v s) = sd_next s"
  "c_full (set_sd_next p v s) = c_full s" "c_full (set_c_full c v s) = (c_full s)(c := v)"
  "c_full (set_c_partial c v s) = c_full s" "c_full (set_c_free c v s) = c_full s"
  "c_partial (set_sd_next p v s) = c_partial s" "c_partial (set_c_full c v s) = c_partial s"
  "c_partial (set_c_partial c v s) = (c_partial s)(c := v)" "c_partial (set_c_free c v s) = c_partial s"
  "c_free (set_sd_next p v s) = c_free s" "c_free (set_c_full c v s) = c_free s"
  "c_free (set_c_partial c v s) = c_free s" "c_free (set_c_free c v s) = (c_free s)(c := v)"
  "c_obj_size (set_sd_next p v s) = c_obj_size s" "c_obj_size (set_c_full c v s) = c_obj_size s"
  "c_obj_size (set_c_partial c v s) = c_obj_size s" "c_obj_size (set_c_free c v s) = c_obj_size s"
  by (simp_all add: link_defs)

text \<open>The layout of the slabs and their used bits do not depend on the lists.\<close>

definition same_slabs :: "'a slab_state_scheme \<Rightarrow> 'a slab_state_scheme \<Rightarrow> bool" where
  "same_slabs s s' \<longleftrightarrow> sd_size s' = sd_size s \<and> sd_start s' = sd_start s \<and> sd_used s' = sd_used s
     \<and> c_flags s' = c_flags s \<and> c_obj_size s' = c_obj_size s \<and> mem s' = mem s"

lemma same_slabs_links [simp]:
  "same_slabs s (set_sd_next p v t) = same_slabs s t" "same_slabs s (set_c_full c v t) = same_slabs s t"
  "same_slabs s (set_c_partial c v t) = same_slabs s t" "same_slabs s (set_c_free c v t) = same_slabs s t"
  "same_slabs s s"
  by (simp_all add: same_slabs_def link_defs)

lemma same_slabs_layout:
  assumes "same_slabs s s'"
  shows "on_slab sz c s' = on_slab sz c s" "slab_ok p sz c s' = slab_ok p sz c s" "slab_objs p sz c s' = slab_objs p sz c s"
    "object_at p sz c s' i = object_at p sz c s i" "allocated p sz c s' i = allocated p sz c s i"
    "slab_used p sz c s' = slab_used p sz c s" "mem s' = mem s" "c_obj_size s' c = c_obj_size s c"
  using assms
  by (simp_all add: same_slabs_def on_slab_def slab_ok_def slab_base_def slab_objs_def slab_used_def object_at_def
      objects_start_def objs_on_slab_def objs_off_slab_def allocated_def)

text \<open>A well-formed slab without a free object, and one whose first free object is \<open>i\<close>.\<close>

definition exhausted :: "addr \<Rightarrow> addr \<Rightarrow> 'a slab_state_scheme \<Rightarrow> bool" where
  "exhausted slab c s \<longleftrightarrow> slab_ok slab (c_obj_size s c) c s
     \<and> list_all (allocated slab (c_obj_size s c) c s) [0..<slab_objs slab (c_obj_size s c) c s]"

definition has_free :: "addr \<Rightarrow> addr \<Rightarrow> 'a slab_state_scheme \<Rightarrow> bool" where
  "has_free slab c s \<longleftrightarrow> slab_ok slab (c_obj_size s c) c s
     \<and> \<not> list_all (allocated slab (c_obj_size s c) c s) [0..<slab_objs slab (c_obj_size s c) c s]"

lemma exhausted_alloc:
  "exhausted p c s \<Longrightarrow> alloc_object_from_slab p (c_obj_size s c) c s = Ret (NULL, s)"
proof -
  assume e: "exhausted p c s"
  then have "slab_ok p (c_obj_size s c) c s" by (simp add: exhausted_def)
  then show ?thesis
  proof (cases rule: alloc_from_slab_cases)
    case (got i)
    from e got(1) have "allocated p (c_obj_size s c) c s i" by (simp add: exhausted_def list_all_iff)
    with got(2) show ?thesis by contradiction
  qed simp
qed

lemma has_free_alloc:
  assumes "has_free p c s"
  obtains i where "i < slab_objs p (c_obj_size s c) c s" and "\<not> allocated p (c_obj_size s c) c s i"
    and "object_at p (c_obj_size s c) c s i \<noteq> NULL"
    and "alloc_object_from_slab p (c_obj_size s c) c s = Ret (object_at p (c_obj_size s c) c s i,
           s\<lparr>mem := put_used_bit (slab_used p (c_obj_size s c) c s) (mem s) i True\<rparr>)"
proof -
  from assms have ok: "slab_ok p (c_obj_size s c) c s" by (simp add: has_free_def)
  then show thesis
  proof (cases rule: alloc_from_slab_cases)
    case full
    with assms show ?thesis by (simp add: has_free_def list_all_iff)
  next
    case (got i)
    then show ?thesis using that object_at_not_NULL [OF ok, of i] by simp
  qed
qed

lemma same_slabs_free: "same_slabs s s' \<Longrightarrow> exhausted p c s' = exhausted p c s"
    "same_slabs s s' \<Longrightarrow> has_free p c s' = has_free p c s"
  by (simp_all add: exhausted_def has_free_def same_slabs_layout list_all_iff)

section \<open>The loop over the partial slabs\<close>

text \<open>
  Two exhausted slabs that come after each other on the full list are exchanged for ever: the
  slab just moved is the head of the full list, its \<open>next\<close> the slab the loop goes on with.
\<close>

lemma alloc_walk_ping_pong:
  "alloc_walk c p q s = Some r \<Longrightarrow> p \<noteq> NULL \<Longrightarrow> q \<noteq> NULL \<Longrightarrow> p \<noteq> q \<Longrightarrow> c_full s c = p
    \<Longrightarrow> sd_next s p = q \<Longrightarrow> exhausted p c s \<Longrightarrow> exhausted q c s \<Longrightarrow> False"
proof (induction c p q s r rule: alloc_walk.raw_induct [rotated, consumes 1, case_names step])
  case (step walk c p q s r)
  let ?s = "set_c_full c q (set_sd_next q p (set_sd_next p (sd_next s q) s))"
  note a = exhausted_alloc [OF step(9)]
  from step(2) have "walk c q p ?s = Some r"
    by (simp add: a Let_def step(3-6))
  moreover have "exhausted x c ?s = exhausted x c s" for x by (rule same_slabs_free(1)) simp
  ultimately show False
    using step(3-9) by (intro step(1) [of c q p ?s r]) simp_all
qed

text \<open>
  C2. When the first partial slab is exhausted while the cache has a full slab, allocation
  never returns: the loop reads \<open>cslab->next\<close> after it moved the slab to the full list and then
  moves the two first slabs of the full list before each other for ever.
\<close>

theorem alloc_object_from_cache_hangs:
  assumes "c_partial s c = p" and "p \<noteq> NULL" and "c_full s c = f" and "f \<noteq> NULL" and "p \<noteq> f"
    and "exhausted p c s" and "exhausted f c s"
  shows "alloc_object_from_cache growCache n c s = None"
proof -
  let ?s = "set_c_full c p (set_sd_next p f (set_c_partial c (sd_next s p) s))"
  have ex: "exhausted x c ?s = exhausted x c s" for x by (rule same_slabs_free(1)) simp
  have "alloc_walk c NULL p s = alloc_walk c p f ?s"
    using assms(2,3) by (subst alloc_walk.simps) (simp add: exhausted_alloc [OF assms(6)] Let_def)
  moreover have "alloc_walk c p f ?s = None"
  proof (rule ccontr)
    assume "alloc_walk c p f ?s \<noteq> None"
    then obtain r where "alloc_walk c p f ?s = Some r" by auto
    then show False using assms by (elim alloc_walk_ping_pong) (simp_all add: ex)
  qed
  ultimately show ?thesis
    using assms(1,2) by (subst alloc_object_from_cache.simps) (simp add: Let_def)
qed

text \<open>\<open>obj\<close> is an object of the slab that was free in \<open>s\<close>; only its bit is different in \<open>s'\<close>.\<close>

definition takes :: "addr \<Rightarrow> addr \<Rightarrow> 'a slab_state_scheme \<Rightarrow> addr \<Rightarrow> 'a slab_state_scheme \<Rightarrow> bool" where
  "takes q c s obj s' \<longleftrightarrow> list_ex (\<lambda>i. obj = object_at q (c_obj_size s c) c s i \<and> \<not> allocated q (c_obj_size s c) c s i
      \<and> list_all (\<lambda>j. allocated q (c_obj_size s c) c s' j = (j = i \<or> allocated q (c_obj_size s c) c s j))
          [0..<slab_objs q (c_obj_size s c) c s]) [0..<slab_objs q (c_obj_size s c) c s]"

lemma takes_same: "same_slabs s t \<Longrightarrow> takes q c t obj s' = takes q c s obj s'"
  by (simp add: takes_def same_slabs_layout)

lemma has_free_takes:
  assumes "has_free q c s"
  shows "\<exists>obj m. alloc_object_from_slab q (c_obj_size s c) c s = Ret (obj, s\<lparr>mem := m\<rparr>) \<and> obj \<noteq> NULL
    \<and> takes q c s obj (s\<lparr>mem := m\<rparr>)"
  using assms
proof (rule has_free_alloc)
  fix i
  let ?sz = "c_obj_size s c"
  let ?s = "s\<lparr>mem := put_used_bit (slab_used q ?sz c s) (mem s) i True\<rparr>"
  assume a: "i < slab_objs q ?sz c s" "\<not> allocated q ?sz c s i" "object_at q ?sz c s i \<noteq> NULL"
    "alloc_object_from_slab q ?sz c s = Ret (object_at q ?sz c s i, ?s)"
  have n: "slab_objs q ?sz c s \<le> 409600" using assms by (intro slab_layout(4)) (simp add: has_free_def)
  have "allocated q ?sz c ?s j = (j = i \<or> allocated q ?sz c s j)" if "j < slab_objs q ?sz c s" for j
    using allocated_put [of i j, where s = s] that a(1) n by simp
  then have "takes q c s (object_at q ?sz c s i) ?s"
    using a(1,2) by (auto simp: takes_def list_ex_iff list_all_iff intro!: bexI [of _ i])
  with a(3,4) show ?thesis by blast
qed

lemma takes_links [simp]: "takes q c s obj (set_sd_next x v t) = takes q c s obj t"
    "takes q c s obj (set_c_full x v t) = takes q c s obj t" "takes q c s obj (set_c_partial x v t) = takes q c s obj t"
    "takes q c s obj (set_c_free x v t) = takes q c s obj t"
proof -
  have k: "takes q c s obj t' = takes q c s obj t" if "same_slabs t t'" for t'
    using that by (simp add: takes_def same_slabs_layout(5))
  show "takes q c s obj (set_sd_next x v t) = takes q c s obj t"
    "takes q c s obj (set_c_full x v t) = takes q c s obj t" "takes q c s obj (set_c_partial x v t) = takes q c s obj t"
    "takes q c s obj (set_c_free x v t) = takes q c s obj t" by (rule k, simp)+
qed

lemma take_free_slab_takes:
  assumes "same_slabs s t" and "c_free t c = f" and "has_free f c s"
  shows "\<exists>obj s'. take_free_slab c t = Ret (obj, s') \<and> takes f c s obj s'
    \<and> c_partial s' c = f \<and> c_free s' c = sd_next t f \<and> c_full s' c = c_full t c"
proof -
  let ?t = "set_c_partial c f (set_sd_next f (c_partial t c) (set_c_free c (sd_next t f) t))"
  have same: "same_slabs s ?t" using assms(1) by simp
  have "has_free f c ?t" using same_slabs_free(2) [OF same] assms(3) by blast
  from has_free_takes [OF this] obtain obj m
    where r: "alloc_object_from_slab f (c_obj_size ?t c) c ?t = Ret (obj, ?t\<lparr>mem := m\<rparr>)" "obj \<noteq> NULL"
      "takes f c ?t obj (?t\<lparr>mem := m\<rparr>)" by blast
  have "take_free_slab c t = Ret (obj, ?t\<lparr>mem := m\<rparr>)"
    using r(1,2) by (simp add: take_free_slab_def assms(2) Let_def)
  moreover have "takes f c s obj (?t\<lparr>mem := m\<rparr>)" using r(3) takes_same [OF same] by simp
  ultimately show ?thesis by simp
qed

text \<open>The slab an allocation without growth takes the object from.\<close>

definition source_slab :: "addr \<Rightarrow> 'a slab_state_scheme \<Rightarrow> addr" where
  "source_slab c s = (if c_partial s c \<noteq> NULL \<and> has_free (c_partial s c) c s then c_partial s c else c_free s c)"

text \<open>
  C25. In the other situations without growth allocation returns: from the first partial slab
  when that has a free object, else from the first slab of the free list, which moves to the
  front of the partial list (an exhausted partial slab becomes the full list). The object was
  free and its bit is the only one of the slab that changes.
\<close>

theorem alloc_object_from_cache_correct:
  assumes "source_slab c s \<noteq> NULL" and "has_free (source_slab c s) c s"
    and "c_partial s c \<noteq> NULL \<Longrightarrow> \<not> has_free (c_partial s c) c s \<Longrightarrow> exhausted (c_partial s c) c s
          \<and> c_full s c = NULL \<and> c_partial s c \<noteq> c_free s c"
  shows "\<exists>obj s'. alloc_object_from_cache growCache n c s = Some (Ret (obj, s'))
    \<and> takes (source_slab c s) c s obj s' \<and> c_partial s' c = source_slab c s
    \<and> (source_slab c s = c_partial s c \<or>
        c_free s' c = sd_next s (c_free s c) \<and> c_full s' c = (if c_partial s c = NULL then c_full s c else c_partial s c))"
proof (cases "c_partial s c \<noteq> NULL \<and> has_free (c_partial s c) c s")
  case True
  let ?p = "c_partial s c"
  have src: "source_slab c s = ?p" using True by (simp add: source_slab_def)
  obtain obj m where r: "alloc_object_from_slab ?p (c_obj_size s c) c s = Ret (obj, s\<lparr>mem := m\<rparr>)" "obj \<noteq> NULL"
    "takes ?p c s obj (s\<lparr>mem := m\<rparr>)" using True has_free_takes by blast
  have "alloc_walk c NULL ?p s = Some (Ret (obj, s\<lparr>mem := m\<rparr>))"
    using True r(1,2) by (subst alloc_walk.simps) simp
  then have "alloc_object_from_cache growCache n c s = Some (Ret (obj, s\<lparr>mem := m\<rparr>))"
    using True r(2) by (subst alloc_object_from_cache.simps) (simp add: Let_def)
  with r(3) show ?thesis by (simp add: src)
next
  case False
  let ?p = "c_partial s c" and ?f = "c_free s c"
  have src: "source_slab c s = ?f" using False by (auto simp: source_slab_def)
  with assms have f: "?f \<noteq> NULL" "has_free ?f c s" by simp_all
  show ?thesis
  proof (cases "?p = NULL")
    case True
    have "alloc_object_from_cache growCache n c s = Some (take_free_slab c s)"
      using True f(1) by (subst alloc_object_from_cache.simps) (simp add: Let_def)
    then show ?thesis using take_free_slab_takes [of s s c ?f] f(2) True src by auto
  next
    case pnz: False
    with False assms(3) have e: "exhausted ?p c s" "c_full s c = NULL" "?p \<noteq> ?f" by auto
    let ?t = "set_c_full c ?p (set_sd_next ?p NULL (set_c_partial c (sd_next s ?p) s))"
    have "alloc_walk c NULL ?p s = Some (Ret (NULL, ?t))"
      using pnz e(2) by (subst alloc_walk.simps) (simp add: exhausted_alloc [OF e(1)] Let_def alloc_walk.simps [of c _ 0])
    then have "alloc_object_from_cache growCache n c s = Some (take_free_slab c ?t)"
      using pnz f(1) by (subst alloc_object_from_cache.simps) (simp add: Let_def)
    then show ?thesis using take_free_slab_takes [of s ?t c ?f] f(2) pnz e(3) src by auto
  qed
qed

section \<open>Freeing\<close>

definition relink_full :: "addr \<Rightarrow> addr \<Rightarrow> addr \<Rightarrow> 'a slab_state_scheme \<Rightarrow> 'a slab_state_scheme" where
  "relink_full c prev x s =
     (let s = (if prev = NULL then set_c_full c (sd_next s x) s else set_sd_next prev (sd_next s x) s);
          s = set_sd_next x (c_partial s c) s
      in set_c_partial c x s)"

lemma free_full_walk_found:
  assumes "path (sd_next s) p (ys @ x # zs) NULL"
    and "\<And>y. y \<in> set ys \<Longrightarrow> free_object_from_slab y (c_obj_size s c) obj c s = Ret (False, s)"
    and "free_object_from_slab x (c_obj_size s c) obj c s = Ret (True, s')"
  shows "free_full_walk c obj prev p s = Some (Ret (True, relink_full c (if ys = [] then prev else last ys) x s'))"
  using assms(1,2)
proof (induction ys arbitrary: p prev)
  case Nil
  then have "p = x" "x \<noteq> NULL" by auto
  then show ?case
    by (subst free_full_walk.simps) (simp add: assms(3) relink_full_def Let_def)
next
  case (Cons y ys)
  then have "free_full_walk c obj y (sd_next s y) s
      = Some (Ret (True, relink_full c (if ys = [] then y else last ys) x s'))"
    by (intro Cons.IH) simp_all
  with Cons.prems show ?case by (subst free_full_walk.simps) simp
qed

text \<open>
  An object of a full slab, which no slab before it on the full list claims, is freed: its
  bit is cleared, and the slab moves from the full list to the front of the partial list; both
  lists are otherwise as they were.
\<close>

theorem free_object_from_cache_full:
  assumes full: "path (sd_next s) (c_full s c) (ys @ x # zs) NULL" and part: "path (sd_next s) (c_partial s c) ps NULL"
    and disj: "distinct (ys @ x # zs @ ps)"
    and rej: "\<And>y. y \<in> set ys \<Longrightarrow> free_object_from_slab y (c_obj_size s c) (object_at x (c_obj_size s c) c s i) c s = Ret (False, s)"
    and ok: "slab_ok x (c_obj_size s c) c s" and i: "i < slab_objs x (c_obj_size s c) c s"
  shows "\<exists>s'. free_object_from_cache c (object_at x (c_obj_size s c) c s i) s = Some (Ret (True, s'))
    \<and> path (sd_next s') (c_full s' c) (ys @ zs) NULL \<and> path (sd_next s') (c_partial s' c) (x # ps) NULL
    \<and> (\<forall>j < slab_objs x (c_obj_size s c) c s.
         allocated x (c_obj_size s c) c s' j = (j \<noteq> i \<and> allocated x (c_obj_size s c) c s j))"
proof -
  let ?sz = "c_obj_size s c"
  let ?s = "s\<lparr>mem := put_used_bit (slab_used x ?sz c s) (mem s) i False\<rparr>"
  let ?p = "if ys = [] then NULL else last ys"
  let ?r = "relink_full c ?p x ?s"
  have fr: "free_object_from_slab x ?sz (object_at x ?sz c s i) c s = Ret (True, ?s)"
    by (rule free_object_at [OF ok]) (use i in simp)
  have walk: "free_full_walk c (object_at x ?sz c s i) NULL (c_full s c) s = Some (Ret (True, ?r))"
    using free_full_walk_found [OF full rej fr, of NULL] by simp
  have nz: "c_full s c \<noteq> NULL" "x \<noteq> NULL" using full path_not_NULL [OF full] by (cases ys; simp)+
  have res: "free_object_from_cache c (object_at x ?sz c s i) s = Some (Ret (True, ?r))"
    using walk nz(1) by (simp add: free_object_from_cache_def)
  have "allocated x ?sz c ?r j = allocated x ?sz c ?s j" for j
    by (rule same_slabs_layout(5)) (simp add: relink_full_def Let_def)
  moreover have "allocated x ?sz c ?s j = (j \<noteq> i \<and> allocated x ?sz c s j)" if "j < slab_objs x ?sz c s" for j
    using allocated_put [of i j, where s = s] that i slab_layout(4) [OF ok] by simp
  moreover have "path (sd_next ?r) (c_partial ?r c) (x # ps) NULL"
  proof -
    have "?p \<notin> set ps" using disj path_not_NULL [OF part] by (cases ys rule: rev_cases) auto
    then show ?thesis using part disj nz(2) by (auto simp: relink_full_def Let_def)
  qed
  moreover have "path (sd_next ?r) (c_full ?r c) (ys @ zs) NULL"
  proof (cases ys rule: rev_cases)
    case Nil
    then show ?thesis using full disj by (simp add: relink_full_def Let_def)
  next
    case (snoc us q)
    have "distinct (us @ q # x # zs)" using snoc disj by auto
    then have "path ((sd_next s)(q := sd_next s x)) (c_full s c) (us @ q # zs) NULL"
      using full snoc slabs.unlink_inner [of s "c_full s c" us q x zs NULL] by simp
    moreover have "q \<noteq> NULL" using full path_not_NULL [OF full] snoc by auto
    moreover have "x \<notin> set (us @ q # zs)" using snoc disj by auto
    ultimately show ?thesis using snoc path_upd [of x "us @ q # zs"] by (simp add: relink_full_def Let_def)
  qed
  ultimately show ?thesis using res by blast
qed

section \<open>kmalloc\<close>

text \<open>The caches \<open>kmalloc\<close> may use for a request.\<close>

definition fits :: "u32 \<Rightarrow> 'a slab_state_scheme \<Rightarrow> addr \<Rightarrow> bool" where
  "fits req s c \<longleftrightarrow> c_flags s c AND 1 \<noteq> 1 \<and> req \<le> c_obj_size s c"

lemma kmalloc_walk_best:
  "path (c_next s) p cs NULL \<Longrightarrow> best = NULL \<or> fits req s best \<Longrightarrow>
    \<exists>b. kmalloc_walk req best p s = Some b
      \<and> (if best = NULL \<and> (\<forall>c \<in> set cs. \<not> fits req s c) then b = NULL
         else b \<noteq> NULL \<and> fits req s b \<and> (b = best \<or> b \<in> set cs)
           \<and> (best \<noteq> NULL \<longrightarrow> c_obj_size s b \<le> c_obj_size s best)
           \<and> (\<forall>c \<in> set cs. fits req s c \<longrightarrow> c_obj_size s b \<le> c_obj_size s c))"
proof (induction cs arbitrary: p best)
  case Nil
  then show ?case by (auto simp: kmalloc_walk.simps)
next
  case (Cons c cs)
  then have c: "p = c" "c \<noteq> NULL" "path (c_next s) (c_next s c) cs NULL" by auto
  show ?case
  proof (cases "fits req s c \<and> c_obj_size s c = req")
    case True
    then have "kmalloc_walk req best p s = Some c"
      using c by (subst kmalloc_walk.simps) (simp add: fits_def)
    moreover have "fits req s d \<Longrightarrow> c_obj_size s c \<le> c_obj_size s d" for d
      using True by (simp add: fits_def)
    ultimately show ?thesis using True c Cons.prems(2) by auto
  next
    case False
    let ?best = "if fits req s c \<and> (best = NULL \<or> c_obj_size s c < c_obj_size s best) then c else best"
    have step: "kmalloc_walk req best p s = kmalloc_walk req ?best (c_next s c) s"
      using False c by (subst kmalloc_walk.simps) (auto simp: fits_def order.order_iff_strict)
    have "?best = NULL \<or> fits req s ?best" using Cons.prems(2) by simp
    from Cons.IH [OF c(3) this] show ?thesis
      unfolding step using c(2) Cons.prems(2) by (fastforce split: if_splits dest: order_trans)
  qed
qed

text \<open>
  \<open>kmalloc\<close> takes the object from a smallest cache that may be used and has objects of at
  least the requested size; requests of more than 1024 bytes and requests no cache fits get NULL.
\<close>

theorem kmalloc_best_fit:
  assumes "path (c_next s) (caches s) cs NULL"
  shows "if req > 1024 \<or> (\<forall>c \<in> set cs. \<not> fits req s c) then kmalloc growCache n req s = Some (Ret (NULL, s))
    else \<exists>b \<in> set cs. fits req s b \<and> (\<forall>c \<in> set cs. fits req s c \<longrightarrow> c_obj_size s b \<le> c_obj_size s c)
      \<and> kmalloc growCache n req s = alloc_object_from_cache growCache n b s"
proof -
  from kmalloc_walk_best [OF assms, of NULL req] obtain b
    where w: "kmalloc_walk req NULL (caches s) s = Some b"
      and b: "if NULL = NULL \<and> (\<forall>c \<in> set cs. \<not> fits req s c) then b = NULL
         else b \<noteq> NULL \<and> fits req s b \<and> (b = NULL \<or> b \<in> set cs)
           \<and> (NULL \<noteq> NULL \<longrightarrow> c_obj_size s b \<le> c_obj_size s NULL)
           \<and> (\<forall>c \<in> set cs. fits req s c \<longrightarrow> c_obj_size s b \<le> c_obj_size s c)"
    by blast
  show ?thesis
  proof (cases "\<forall>c \<in> set cs. \<not> fits req s c")
    case True
    with b w show ?thesis by (simp add: kmalloc_def)
  next
    case False
    with b have "b \<noteq> NULL" "b \<in> set cs" "fits req s b" "\<forall>c \<in> set cs. fits req s c \<longrightarrow> c_obj_size s b \<le> c_obj_size s c"
      by (auto split: if_splits)
    with w False show ?thesis by (auto simp: kmalloc_def)
  qed
qed

section \<open>The caches of the kernel's own structures\<close>

type_synonym 'a request = "(addr \<Rightarrow> 'a slab_state_scheme \<Rightarrow> 'a slab_state_scheme result option) \<Rightarrow> nat \<Rightarrow> 'a slab_state_scheme \<Rightarrow> (addr \<times> 'a slab_state_scheme) result option"
type_synonym 'a release = "addr \<Rightarrow> 'a slab_state_scheme \<Rightarrow> (bool \<times> 'a slab_state_scheme) result option"

definition requestSlabDesc :: "'a request" where "requestSlabDesc growCache n s = alloc_object_from_cache growCache n (slab_cache s) s"
definition requestLinkedListEntry :: "'a request" where "requestLinkedListEntry growCache n s = alloc_object_from_cache growCache n (linkedlist_cache s) s"
definition requestCPT :: "'a request" where "requestCPT growCache n s = alloc_object_from_cache growCache n (cpt_cache s) s"
definition requestAddressSpace :: "'a request" where "requestAddressSpace growCache n s = alloc_object_from_cache growCache n (address_space_cache s) s"
definition requestTranslationTable :: "'a request" where "requestTranslationTable growCache n s = alloc_object_from_cache growCache n (tt_cache s) s"
definition requestLCDFramebuffer :: "'a request" where "requestLCDFramebuffer growCache n s = alloc_object_from_cache growCache n (framebuffer_cache s) s"
definition requestProcess :: "'a request" where "requestProcess growCache n s = alloc_object_from_cache growCache n (process_cache s) s"
definition requestThread :: "'a request" where "requestThread growCache n s = alloc_object_from_cache growCache n (thread_cache s) s"
definition requestAction :: "'a request" where "requestAction growCache n s = alloc_object_from_cache growCache n (action_cache s) s"
definition requestFile :: "'a request" where "requestFile growCache n s = alloc_object_from_cache growCache n (file_cache s) s"
definition requestQH :: "'a request" where "requestQH growCache n s = alloc_object_from_cache growCache n (usb_qh_cache s) s"
definition requestqTD :: "'a request" where "requestqTD growCache n s = alloc_object_from_cache growCache n (usb_qh_cache s) s"
definition request_svc_thread :: "'a request" where "request_svc_thread growCache n s = alloc_object_from_cache growCache n (svc_thread_cache s) s"
definition request4Bytes :: "'a request" where "request4Bytes growCache n s = kmalloc growCache n 4 s"

definition destroySlabDesc :: "'a release" where "destroySlabDesc obj s = free_object_from_cache (slab_cache s) obj s"
definition free_linkedlist_entry :: "'a release" where "free_linkedlist_entry obj s = free_object_from_cache (linkedlist_cache s) obj s"
definition freeCPT :: "'a release" where "freeCPT obj s = free_object_from_cache (cpt_cache s) obj s"
definition freeAddressSpace :: "'a release" where "freeAddressSpace obj s = free_object_from_cache (address_space_cache s) obj s"
definition freeTranslationTable :: "'a release" where "freeTranslationTable obj s = free_object_from_cache (tt_cache s) obj s"
definition freeLCDFramebuffer :: "'a release" where "freeLCDFramebuffer obj s = free_object_from_cache (framebuffer_cache s) obj s"
definition freeProcess :: "'a release" where "freeProcess obj s = free_object_from_cache (process_cache s) obj s"
definition freeThread :: "'a release" where "freeThread obj s = free_object_from_cache (thread_cache s) obj s"
definition freeAction :: "'a release" where "freeAction obj s = free_object_from_cache (action_cache s) obj s"
definition freeFile :: "'a release" where "freeFile obj s = free_object_from_cache (file_cache s) obj s"
definition freeQH :: "'a release" where "freeQH obj s = free_object_from_cache (usb_qh_cache s) obj s"
definition freeqTD :: "'a release" where "freeqTD obj s = free_object_from_cache (usb_qh_cache s) obj s"
definition free_svc_thread :: "'a release" where "free_svc_thread obj s = free_object_from_cache (svc_thread_cache s) obj s"
definition free4Bytes :: "'a release" where "free4Bytes b s = kfree_hint b 4 s"

section \<open>Examples\<close>

text \<open>The example slabs with every object allocated.\<close>

definition full_example :: slab_state where
  "full_example = slab_example\<lparr>mem := (\<lambda>_. - 1), c_partial := (\<lambda>_. 0xe4000000), c_full := (\<lambda>_. 0xe4001000)\<rparr>"

lemma full_example_exhausted:
  "exhausted 0xe4000000 0x100 full_example" "exhausted 0xe4001000 0x100 full_example"
proof -
  let ?s = "slab_example\<lparr>mem := (\<lambda>_. - 1)\<rparr>"
  have "exhausted p 0x100 ?s" if "slab_ok p 64 0x100 slab_example" for p
    using that by (simp add: exhausted_def list_all_iff allocated_def used_bit_iff bit_minus_1_iff slab_example_fields)
  moreover have "exhausted p 0x100 full_example = exhausted p 0x100 ?s" for p
    by (rule same_slabs_free(1)) (simp add: same_slabs_def full_example_def)
  ultimately show "exhausted 0xe4000000 0x100 full_example" "exhausted 0xe4001000 0x100 full_example"
    using slab_example_ok by simp_all
qed

lemma alloc_object_from_cache_hangs_witness: "alloc_object_from_cache (\<lambda>c s. Some (Ret s)) 10 0x100 full_example = None"
  by (rule alloc_object_from_cache_hangs [OF refl _ refl])
     (use full_example_exhausted in \<open>simp_all add: full_example_def\<close>)

definition free_example :: slab_state where
  "free_example = slab_example\<lparr>c_free := (\<lambda>_. 0xe4000000)\<rparr>"

lemma free_example_has_free: "has_free 0xe4000000 0x100 free_example"
proof -
  have "has_free 0xe4000000 0x100 slab_example"
    using slab_example_ok(1) slab_example_objs(1) slab_example_unused
    by (auto simp: has_free_def slab_example_fields list_all_iff intro: exI [of _ 0])
  moreover have "has_free 0xe4000000 0x100 free_example = has_free 0xe4000000 0x100 slab_example"
    by (rule same_slabs_free(2)) (simp add: same_slabs_def free_example_def)
  ultimately show ?thesis by simp
qed

lemma alloc_object_from_cache_correct_witness:
  "\<exists>obj s'. alloc_object_from_cache (\<lambda>c s. Some (Ret s)) 0 0x100 free_example = Some (Ret (obj, s')) \<and> c_partial s' 0x100 = 0xe4000000"
proof -
  have src: "source_slab 0x100 free_example = 0xe4000000"
    by (simp add: source_slab_def free_example_def slab_example_def)
  have p: "c_partial free_example 0x100 = 0" by (simp add: free_example_def slab_example_def)
  show ?thesis
    using alloc_object_from_cache_correct [of "0x100" free_example "\<lambda>c s. Some (Ret s)" 0] free_example_has_free
    by (auto simp: src p)
qed

lemma free_object_from_cache_full_witness:
  "\<exists>s'. free_object_from_cache 0x100 (object_at 0xe4000000 64 0x100 slab_example 5)
      (slab_example\<lparr>c_full := (\<lambda>_. 0xe4000000)\<rparr>) = Some (Ret (True, s'))
    \<and> path (sd_next s') (c_partial s' 0x100) [0xe4000000] NULL"
proof -
  let ?s = "slab_example\<lparr>c_full := (\<lambda>_. 0xe4000000)\<rparr>"
  have same: "same_slabs slab_example ?s" by (simp add: same_slabs_def)
  note l = same_slabs_layout [OF same]
  have sz: "c_obj_size ?s 0x100 = 64" by (simp add: slab_example_fields)
  have "\<exists>s'. free_object_from_cache 0x100 (object_at 0xe4000000 (c_obj_size ?s 0x100) 0x100 ?s 5) ?s = Some (Ret (True, s'))
    \<and> path (sd_next s') (c_full s' 0x100) ([] @ []) NULL \<and> path (sd_next s') (c_partial s' 0x100) (0xe4000000 # []) NULL
    \<and> (\<forall>j < slab_objs 0xe4000000 (c_obj_size ?s 0x100) 0x100 ?s.
         allocated 0xe4000000 (c_obj_size ?s 0x100) 0x100 s' j
           = (j \<noteq> 5 \<and> allocated 0xe4000000 (c_obj_size ?s 0x100) 0x100 ?s j))"
    by (rule free_object_from_cache_full)
      (use slab_example_ok(1) slab_example_objs(1) in \<open>simp_all add: l slab_example_fields\<close>)
  then show ?thesis unfolding sz l by (auto simp: slab_example_fields)
qed

lemma kmalloc_best_fit_witness:
  "kmalloc (\<lambda>c s. Some (Ret s)) 0 40 (slab_example\<lparr>caches := 0x100\<rparr>)
    = alloc_object_from_cache (\<lambda>c s. Some (Ret s)) 0 0x100 (slab_example\<lparr>caches := 0x100\<rparr>)"
proof -
  have p: "path (c_next (slab_example\<lparr>caches := 0x100\<rparr>)) (caches (slab_example\<lparr>caches := 0x100\<rparr>)) [0x100] NULL"
    by (simp add: slab_example_def)
  have "fits 40 (slab_example\<lparr>caches := 0x100\<rparr>) 0x100" by (simp add: fits_def slab_example_def)
  then show ?thesis using kmalloc_best_fit [OF p, of 40 "\<lambda>c s. Some (Ret s)" 0] by simp
qed

end
