(* ===== verification/Linked_List.thy ===== *)
theory Linked_List
  imports OS_Prelude
begin

text \<open>
  The singly linked lists of the kernel, kernel/LinkedList.c. A node is an address; the heap
  gives each address a data and a next field. A \<open>LinkedList **list\<close> argument is passed and
  returned as the head pointer it holds. \<open>freeLinkedListEntry\<close> of the slab allocator is
  recorded in order. The walks do not end on a cyclic list, which is the result \<open>None\<close>.
\<close>

section \<open>Data and operations\<close>

record ll_heap =
  ll_data :: "addr \<Rightarrow> addr"
  ll_next :: "addr \<Rightarrow> addr"
  ll_freed :: "addr list"

definition set_ll_next :: "addr \<Rightarrow> addr \<Rightarrow> ll_heap \<Rightarrow> ll_heap" where
  "set_ll_next p v h = h\<lparr>ll_next := (ll_next h)(p := v)\<rparr>"

definition freeLinkedListEntry :: "addr \<Rightarrow> ll_heap \<Rightarrow> ll_heap" where
  "freeLinkedListEntry p h = h\<lparr>ll_freed := ll_freed h @ [p]\<rparr>"

definition addLinkedListEntry :: "addr \<Rightarrow> addr \<Rightarrow> ll_heap \<Rightarrow> addr \<times> ll_heap" where
  "addLinkedListEntry list e h =
     (if list = NULL then (e, set_ll_next e NULL h) else (e, set_ll_next e list h))"

text \<open>The \<open>while\<close> loop of \<open>removeLinkedListEntry\<close>.\<close>

partial_function (option) remove_walk :: "addr \<Rightarrow> addr \<Rightarrow> ll_heap \<Rightarrow> (bool \<times> ll_heap) option" where
  "remove_walk nxt e h =
     (if nxt \<noteq> NULL then
        if ll_next h nxt = e then
          if ll_next h nxt = NULL then Some (True, set_ll_next nxt NULL h)
          else Some (True, set_ll_next nxt (ll_next h (ll_next h nxt)) h)
        else remove_walk (ll_next h nxt) e h
      else Some (False, h))"

definition removeLinkedListEntry :: "addr \<Rightarrow> addr \<Rightarrow> ll_heap \<Rightarrow> (bool \<times> addr \<times> ll_heap) option" where
  "removeLinkedListEntry list e h =
     (if list = e then Some (True, ll_next h list, h)
      else map_option (\<lambda>(r, h'). (r, list, h')) (remove_walk list e h))"

text \<open>The \<open>for\<close> loop of \<open>getLinkedListEntry\<close> with \<open>n\<close> rounds left.\<close>

fun get_walk :: "nat \<Rightarrow> addr \<Rightarrow> ll_heap \<Rightarrow> addr" where
  "get_walk 0 nxt h = nxt"
| "get_walk (Suc n) nxt h = (if ll_next h nxt = NULL then NULL else get_walk n (ll_next h nxt) h)"

definition getLinkedListEntry :: "addr \<Rightarrow> u32 \<Rightarrow> ll_heap \<Rightarrow> addr" where
  "getLinkedListEntry list index h = (if list = NULL then NULL else get_walk (unat index) list h)"

text \<open>\<open>searchLinkedListEntry\<close> returns the entry and stores the index.\<close>

partial_function (option) search_walk :: "u32 \<Rightarrow> addr \<Rightarrow> addr \<Rightarrow> ll_heap \<Rightarrow> (addr \<times> u32) option" where
  "search_walk i nxt data h =
     (if nxt \<noteq> NULL then
        if ll_data h nxt = data then Some (nxt, i) else search_walk (i + 1) (ll_next h nxt) data h
      else Some (NULL, 0))"

definition searchLinkedListEntry :: "addr \<Rightarrow> addr \<Rightarrow> ll_heap \<Rightarrow> (addr \<times> u32) option" where
  "searchLinkedListEntry list data h = search_walk 0 list data h"

text \<open>The next field is read before the entry is freed.\<close>

partial_function (option) destroy_walk :: "addr \<Rightarrow> ll_heap \<Rightarrow> ll_heap option" where
  "destroy_walk nxt h =
     (if nxt \<noteq> NULL then destroy_walk (ll_next h nxt) (freeLinkedListEntry nxt h) else Some h)"

definition destroyLinkedList :: "addr \<Rightarrow> ll_heap \<Rightarrow> ll_heap option" where
  "destroyLinkedList list h = destroy_walk list h"

section \<open>Lists of entries\<close>

text \<open>\<open>entries h l xs\<close>: the list at \<open>l\<close> consists of the entries \<open>xs\<close>.\<close>

definition entries :: "ll_heap \<Rightarrow> addr \<Rightarrow> addr list \<Rightarrow> bool" where
  "entries h l xs \<longleftrightarrow> path (ll_next h) l xs NULL"

interpretation ll: next_field ll_next set_ll_next
  by unfold_locales (simp add: set_ll_next_def)

lemma ll_data_set_next [simp]: "ll_data (set_ll_next p v h) = ll_data h"
  by (simp add: set_ll_next_def)

lemma entries_distinct: "entries h l xs \<Longrightarrow> distinct xs \<and> NULL \<notin> set xs"
  unfolding entries_def by (auto dest: path_NULL_distinct path_not_NULL)

lemma entries_head: "entries h l xs \<Longrightarrow> l = (if xs = [] then NULL else hd xs)"
  unfolding entries_def by (cases xs) auto

lemma add_entries:
  assumes "entries h l xs" and "e \<noteq> NULL" and "e \<notin> set xs"
  shows "\<exists>h'. addLinkedListEntry l e h = (e, h') \<and> entries h' e (e # xs) \<and> ll_data h' = ll_data h"
  using assms ll.push [of h l xs e] by (auto simp: addLinkedListEntry_def entries_def)

lemma remove_walk_absent: "path (ll_next h) p xs NULL \<Longrightarrow> e \<notin> set (tl xs) \<Longrightarrow> e \<noteq> NULL
   \<Longrightarrow> remove_walk p e h = Some (False, h)"
proof (induction xs arbitrary: p)
  case Nil
  then show ?case by (simp add: remove_walk.simps)
next
  case (Cons x xs)
  then have "ll_next h p \<noteq> e" using path_hd [of "ll_next h" "ll_next h p" xs] by (cases xs) auto
  moreover have "e \<notin> set (tl xs)" using Cons.prems by (cases xs) auto
  ultimately show ?case using Cons by (subst remove_walk.simps) auto
qed

lemma remove_walk_found:
  "path (ll_next h) p (xs @ q # e # ys) NULL \<Longrightarrow> e \<notin> set xs \<Longrightarrow> e \<noteq> q \<Longrightarrow> e \<noteq> NULL
   \<Longrightarrow> remove_walk p e h = Some (True, set_ll_next q (ll_next h e) h)"
proof (induction xs arbitrary: p)
  case Nil
  then show ?case by (subst remove_walk.simps) auto
next
  case (Cons x xs)
  then have "ll_next h p \<noteq> e" by (cases xs) auto
  with Cons show ?case by (subst remove_walk.simps) auto
qed

lemma remove_entries:
  assumes "entries h l xs" and "e \<noteq> NULL"
  shows "\<exists>l' h'. removeLinkedListEntry l e h = Some (e \<in> set xs, l', h')
    \<and> entries h' l' (remove1 e xs) \<and> ll_data h' = ll_data h"
proof (cases "l = e")
  case True
  with assms obtain ys where xs: "xs = e # ys" by (cases xs) (auto simp: entries_def)
  with True assms show ?thesis by (auto simp: removeLinkedListEntry_def entries_def)
next
  case ne: False
  note p = assms(1) [unfolded entries_def]
  show ?thesis
  proof (cases "e \<in> set xs")
    case False
    then have "remove_walk l e h = Some (False, h)"
      using p assms(2) by (intro remove_walk_absent [of h l xs]) (cases xs; simp)+
    with ne False assms(1) show ?thesis by (simp add: removeLinkedListEntry_def remove1_idem)
  next
    case True
    then obtain zs ys where xs: "xs = zs @ e # ys" "e \<notin> set zs" by (metis split_list_first)
    with ne p have "zs \<noteq> []" by auto
    then obtain us q where zs: "zs = us @ [q]" by (metis rev_exhaust)
    have d: "distinct xs" using p by (rule path_NULL_distinct)
    from p xs zs have "remove_walk l e h = Some (True, set_ll_next q (ll_next h e) h)"
      using assms(2) by (intro remove_walk_found [of h l us q e ys]) auto
    moreover have "entries (set_ll_next q (ll_next h e) h) l (us @ q # ys)"
      using p xs zs d ll.unlink_inner [of h l us q e ys NULL] by (simp add: entries_def)
    moreover have "remove1 e xs = us @ q # ys" using xs zs by (simp add: remove1_append)
    ultimately show ?thesis using ne True by (simp add: removeLinkedListEntry_def)
  qed
qed

lemma get_walk_entries:
  "path (ll_next h) p xs NULL \<Longrightarrow> p \<noteq> NULL \<Longrightarrow> get_walk n p h = (if n < length xs then xs ! n else NULL)"
proof (induction n arbitrary: p xs)
  case 0
  then show ?case by (cases xs) auto
next
  case (Suc n)
  then obtain ys where xs: "xs = p # ys" by (cases xs) auto
  with Suc.prems have ys: "path (ll_next h) (ll_next h p) ys NULL" by simp
  show ?case
  proof (cases "ll_next h p = NULL")
    case True
    with ys have "ys = []" by simp
    with True xs show ?thesis by simp
  next
    case False
    with Suc.IH [OF ys] xs show ?thesis by simp
  qed
qed

lemma get_entries:
  "entries h l xs \<Longrightarrow> getLinkedListEntry l i h = (if unat i < length xs then xs ! unat i else NULL)"
  unfolding getLinkedListEntry_def entries_def by (auto simp: get_walk_entries)

lemma search_walk_entries:
  "path (ll_next h) p xs NULL \<Longrightarrow>
   search_walk i p d h = Some (case first_index (\<lambda>x. ll_data h x = d) xs of
       Some k \<Rightarrow> (xs ! k, i + of_nat k) | None \<Rightarrow> (NULL, 0))"
proof (induction xs arbitrary: p i)
  case Nil
  then show ?case by (simp add: search_walk.simps)
next
  case (Cons x xs)
  then show ?case by (subst search_walk.simps) (auto split: option.splits)
qed

lemma search_entries:
  "entries h l xs \<Longrightarrow> searchLinkedListEntry l d h =
     Some (case first_index (\<lambda>x. ll_data h x = d) xs of
             Some k \<Rightarrow> (xs ! k, of_nat k) | None \<Rightarrow> (NULL, 0))"
  by (simp add: searchLinkedListEntry_def entries_def search_walk_entries split: option.split)

lemma destroy_entries:
  "entries h l xs \<Longrightarrow> destroyLinkedList l h = Some (h\<lparr>ll_freed := ll_freed h @ xs\<rparr>)"
proof -
  have "path (ll_next h) l xs NULL \<Longrightarrow> destroy_walk l h = Some (h\<lparr>ll_freed := ll_freed h @ xs\<rparr>)"
  proof (induction xs arbitrary: l h)
    case Nil
    then show ?case by (simp add: destroy_walk.simps)
  next
    case (Cons x xs)
    have "ll_next (freeLinkedListEntry l h) = ll_next h" by (simp add: freeLinkedListEntry_def)
    with Cons show ?case by (subst destroy_walk.simps) (auto simp: freeLinkedListEntry_def)
  qed
  then show "entries h l xs \<Longrightarrow> ?thesis" by (simp add: entries_def destroyLinkedList_def)
qed

section \<open>Correctness\<close>

text \<open>
  \<open>removeLinkedListEntry\<close> ends on every NULL terminated list; it returns whether the entry
  was there and leaves the list without it, the others in the same order with the same data.
\<close>

theorem removeLinkedListEntry_refines:
  assumes "entries h l xs" and "e \<noteq> NULL"
  shows "\<exists>l' h'. removeLinkedListEntry l e h = Some (e \<in> set xs, l', h')
    \<and> entries h' l' (remove1 e xs) \<and> ll_data h' = ll_data h"
  by (rule remove_entries [OF assms])

text \<open>
  Two lists of the same length are used as a table from keys to values (the section
  addresses and the page tables of an address space): the index \<open>searchLinkedListEntry\<close> finds
  for a key in the first list selects with \<open>getLinkedListEntry\<close> the entry at the same position
  of the second, and that position is the first one with the key.
\<close>

theorem search_get_parallel:
  assumes "entries h l ks" and "entries h m vs" and "length ks = length vs" and "length ks < 4294967296"
    and "searchLinkedListEntry l d h = Some (e, i)" and "e \<noteq> NULL"
  shows "\<exists>k < length ks. e = ks ! k \<and> getLinkedListEntry m i h = vs ! k
    \<and> ll_data h (ks ! k) = d \<and> list_all (\<lambda>x. ll_data h x \<noteq> d) (take k ks)"
proof -
  from assms(5,6) search_entries [OF assms(1)] obtain k
    where k: "first_index (\<lambda>x. ll_data h x = d) ks = Some k" "e = ks ! k" "i = of_nat k"
    by (auto split: option.splits)
  then have f: "k < length ks" "ll_data h (ks ! k) = d" "\<forall>j<k. ll_data h (ks ! j) \<noteq> d"
    by (auto simp: first_index_Some)
  with k assms(3,4) have "getLinkedListEntry m i h = vs ! k"
    by (simp add: get_entries [OF assms(2)] unat_of_nat_u32)
  with k f show ?thesis by (auto simp: list_all_length)
qed

text \<open>
  \<open>destroyLinkedList\<close> ends and frees every entry of the list once, in order. It leaves the
  list pointer of the caller at the first of the freed entries.
\<close>

theorem destroyLinkedList_correct:
  assumes "entries h l xs" and "xs \<noteq> []"
  shows "destroyLinkedList l h = Some (h\<lparr>ll_freed := ll_freed h @ xs\<rparr>) \<and> distinct xs \<and> l \<in> set xs"
  using destroy_entries [OF assms(1)] entries_distinct [OF assms(1)] entries_head [OF assms(1)] assms(2)
  by auto

section \<open>Examples\<close>

text \<open>Two lists of two entries, built with \<open>addLinkedListEntry\<close>.\<close>

definition ll_example :: ll_heap where
  "ll_example =
     (let h = \<lparr>ll_data = (\<lambda>p. if p = 0x10 then 0xe4000000 else if p = 0x20 then 0xe4100000 else p),
               ll_next = (\<lambda>_. NULL), ll_freed = []\<rparr>;
          (l, h) = addLinkedListEntry NULL 0x10 h;
          (l, h) = addLinkedListEntry l 0x20 h;
          (m, h) = addLinkedListEntry NULL 0x30 h;
          (m, h) = addLinkedListEntry m 0x40 h
      in h)"

lemma ll_example_entries: "entries ll_example 0x20 [0x20, 0x10]" "entries ll_example 0x40 [0x40, 0x30]"
  by (simp_all add: entries_def ll_example_def addLinkedListEntry_def set_ll_next_def)

lemma removeLinkedListEntry_refines_witness:
  "\<exists>l' h'. removeLinkedListEntry 0x20 0x10 ll_example = Some (True, l', h') \<and> entries h' l' [0x20]"
  using removeLinkedListEntry_refines [OF ll_example_entries(1), of "0x10"] by auto

lemma search_get_parallel_witness: "getLinkedListEntry 0x40 1 ll_example = 0x30"
proof -
  have "searchLinkedListEntry 0x20 0xe4000000 ll_example = Some (0x10, 1)"
    using search_entries [OF ll_example_entries(1), of "0xe4000000"]
    by (simp add: ll_example_def addLinkedListEntry_def set_ll_next_def)
  from search_get_parallel [OF ll_example_entries _ _ this] obtain k
    where k: "k < Suc (Suc 0)" "[0x20, 0x10] ! k = (0x10 :: addr)" "getLinkedListEntry 0x40 1 ll_example = [0x40, 0x30] ! k"
    by auto
  then have "k = 0 \<or> k = 1" by linarith
  with k show ?thesis by auto
qed

lemma destroyLinkedList_correct_witness:
  "destroyLinkedList 0x20 ll_example = Some (ll_example\<lparr>ll_freed := ll_freed ll_example @ [0x20, 0x10]\<rparr>)"
  using destroyLinkedList_correct [OF ll_example_entries(1)] by simp

end
