(* ===== verification/Phys_MM.thy ===== *)
theory Phys_MM
  imports Bit_Store
begin

text \<open>
  The physical memory manager, kernel/memory/physical_MM.c: page blocks obtained from the TI
  OS allocator (\<open>ti_malloc\<close>, a parameter), each with one used, one dirty and one paged-out
  bit per page, and the operations that hand out single pages and runs of consecutive pages.

  The array \<open>pages[MAXPAGEBLOCKS]\<close> is a list of 200 entries of which the first \<open>blockindex\<close>
  are live. The calls of \<open>ti_free\<close> are recorded in order.
\<close>

section \<open>Data\<close>

record pageblock =
  pb_unaligned :: addr
  pb_start :: addr
  pb_size :: u32
  pb_used :: u64
  pb_used2 :: u64
  pb_dirty :: u64
  pb_dirty2 :: u64
  pb_pageout :: u64
  pb_pageout2 :: u64

abbreviation (input) MAXPAGEBLOCKS :: nat where "MAXPAGEBLOCKS \<equiv> 200"

record phys_mm =
  blockindex :: nat
  pages :: "pageblock list"
  ti_freed :: "addr list"

definition live :: "phys_mm \<Rightarrow> pageblock list" where
  "live s = take (blockindex s) (pages s)"

section \<open>Operations\<close>

definition makeLargePageAligned :: "addr \<Rightarrow> addr" where
  "makeLargePageAligned ptr =
     (if ptr AND NOT 0xFFFF = ptr then ptr else (ptr AND NOT 0xFFFF) + 0x10000)"

definition makeSmallPageAligned :: "addr \<Rightarrow> addr" where
  "makeSmallPageAligned ptr =
     (if ptr AND NOT 0xFFF = ptr then ptr else (ptr AND NOT 0xFFF) + 0x1000)"

definition addPageBlock :: "pageblock \<Rightarrow> phys_mm \<Rightarrow> bool \<times> phys_mm" where
  "addPageBlock block s =
     (if blockindex s \<ge> MAXPAGEBLOCKS - 4 then (False, s)
      else (True, s\<lparr>pages := (pages s)[blockindex s := block], blockindex := blockindex s + 1\<rparr>))"

text \<open>The loop of \<open>removePageblock\<close> from index \<open>i\<close> on.\<close>

function removePageblock_from :: "nat \<Rightarrow> pageblock \<Rightarrow> phys_mm \<Rightarrow> phys_mm" where
  "removePageblock_from i block s =
     (if i < blockindex s then
        if pb_unaligned (pages s ! i) = pb_unaligned block then
          s\<lparr>pages := shift_down i (blockindex s - 1) (pages s), blockindex := blockindex s - 1\<rparr>
        else removePageblock_from (Suc i) block s
      else s)"
  by pat_completeness auto
termination
  by (relation "measure (\<lambda>(i, block, s). blockindex s - i)") auto

declare removePageblock_from.simps [simp del]

definition removePageblock :: "pageblock \<Rightarrow> phys_mm \<Rightarrow> phys_mm" where
  "removePageblock block s = removePageblock_from 0 block s"

text \<open>
  \<open>ti_malloc n\<close> is the pointer the TI OS returns for a request of \<open>n\<close> bytes, NULL when it
  has no memory. A request that fails in \<open>addPageBlock\<close> is given back.
\<close>

definition ti_free :: "addr \<Rightarrow> phys_mm \<Rightarrow> phys_mm" where
  "ti_free p s = s\<lparr>ti_freed := ti_freed s @ [p]\<rparr>"

definition allocPageblock :: "(u32 \<Rightarrow> addr) \<Rightarrow> u32 \<Rightarrow> phys_mm \<Rightarrow> bool \<times> phys_mm" where
  "allocPageblock ti_malloc n s =
     (if n > 128 then (False, s)
      else
        let p = ti_malloc (SMALL_PAGE_SIZE * (n + 3))
        in if p = NULL then (False, s)
           else
             let b = \<lparr>pb_unaligned = p, pb_start = makeSmallPageAligned p, pb_size = n,
                      pb_used = 0, pb_used2 = 0, pb_dirty = 0, pb_dirty2 = 0,
                      pb_pageout = 0, pb_pageout2 = 0\<rparr>;
                 (ok, s') = addPageBlock b s
             in if \<not> ok then (False, ti_free p s') else (True, s'))"

definition freePageblock :: "pageblock \<Rightarrow> phys_mm \<Rightarrow> phys_mm" where
  "freePageblock block s = ti_free (pb_unaligned block) (removePageblock block s)"

text \<open>
  The bit pairs. A shift of a 64 bit value by 64 is undefined in C; it is reached only for the
  address just behind a block of 128 pages. The model has the result of the ARM shift
  instructions there: nothing is set and 0 is read.
\<close>

definition setBit128 :: "u64 \<Rightarrow> u64 \<Rightarrow> u32 \<Rightarrow> bool \<Rightarrow> u64 \<times> u64" where
  "setBit128 a b i v =
     (let p = (if i < 64 then a else b);
          k = (if i < 64 then i else i - 64);
          p' = (if v then p OR push_bit (unat k) 1 else p AND NOT (push_bit (unat k) 1))
      in if i < 64 then (p', b) else (a, p'))"

definition getBit128 :: "u64 \<Rightarrow> u64 \<Rightarrow> u32 \<Rightarrow> u32" where
  "getBit128 a b i =
     (let p = (if i < 64 then a else b);
          k = (if i < 64 then i else i - 64)
      in ucast (drop_bit (unat k) p AND 1))"

text \<open>\<open>__builtin_popcountll\<close>: the number of one bits.\<close>

definition popcountll :: "u64 \<Rightarrow> nat" where
  "popcountll w = length (filter (bit w) [0..<64])"

function usePage_from :: "nat \<Rightarrow> phys_mm \<Rightarrow> addr \<times> phys_mm" where
  "usePage_from i s =
     (if i < blockindex s then
        let b = pages s ! i;
            ones = of_nat (popcountll (pb_used b) + popcountll (pb_used2 b))
        in if ones < pb_size b then
             case List.find (\<lambda>a. getBit128 (pb_used b) (pb_used2 b) (of_nat a) = 0) [0..<unat (pb_size b)] of
               Some a \<Rightarrow>
                 let (u, u2) = setBit128 (pb_used b) (pb_used2 b) (of_nat a) True
                 in (pb_start b + SMALL_PAGE_SIZE * of_nat a,
                     s\<lparr>pages := (pages s)[i := b\<lparr>pb_used := u, pb_used2 := u2\<rparr>]\<rparr>)
             | None \<Rightarrow> usePage_from (Suc i) s
           else usePage_from (Suc i) s
      else (NULL, s))"
  by pat_completeness auto
termination
  by (relation "measure (\<lambda>(i, s). blockindex s - i)") auto

declare usePage_from.simps [simp del]

definition usePage :: "phys_mm \<Rightarrow> addr \<times> phys_mm" where
  "usePage s = usePage_from 0 s"

text \<open>
  The test all accessors make. It is inclusive at the upper end: the address just behind the last page of
  a block passes it too.
\<close>

definition in_block :: "addr \<Rightarrow> pageblock \<Rightarrow> bool" where
  "in_block page b \<longleftrightarrow> page \<ge> pb_start b \<and> page \<le> pb_start b + SMALL_PAGE_SIZE * pb_size b"

definition page_offset :: "addr \<Rightarrow> pageblock \<Rightarrow> u32" where
  "page_offset page b = (page - pb_start b) div SMALL_PAGE_SIZE"

text \<open>The setters walk over all blocks, the getters stop at the first that contains the page.\<close>

definition update_blocks :: "addr \<Rightarrow> (pageblock \<Rightarrow> pageblock) \<Rightarrow> phys_mm \<Rightarrow> phys_mm" where
  "update_blocks page f s =
     s\<lparr>pages := map (\<lambda>b. if in_block page b then f b else b) (live s) @ drop (blockindex s) (pages s)\<rparr>"

definition setPageUsedBit :: "addr \<Rightarrow> bool \<Rightarrow> phys_mm \<Rightarrow> phys_mm" where
  "setPageUsedBit page v =
     update_blocks page (\<lambda>b. let (u, u2) = setBit128 (pb_used b) (pb_used2 b) (page_offset page b) v
                             in b\<lparr>pb_used := u, pb_used2 := u2\<rparr>)"

definition setPageDirtyBit :: "addr \<Rightarrow> bool \<Rightarrow> phys_mm \<Rightarrow> phys_mm" where
  "setPageDirtyBit page v =
     update_blocks page (\<lambda>b. let (u, u2) = setBit128 (pb_dirty b) (pb_dirty2 b) (page_offset page b) v
                             in b\<lparr>pb_dirty := u, pb_dirty2 := u2\<rparr>)"

definition setPagedOutBit :: "addr \<Rightarrow> bool \<Rightarrow> phys_mm \<Rightarrow> phys_mm" where
  "setPagedOutBit page v =
     update_blocks page (\<lambda>b. let (u, u2) = setBit128 (pb_pageout b) (pb_pageout2 b) (page_offset page b) v
                             in b\<lparr>pb_pageout := u, pb_pageout2 := u2\<rparr>)"

definition isPageUsed :: "addr \<Rightarrow> phys_mm \<Rightarrow> bool" where
  "isPageUsed page s =
     (case List.find (in_block page) (live s) of
        Some b \<Rightarrow> getBit128 (pb_used b) (pb_used2 b) (page_offset page b) = 1
      | None \<Rightarrow> True)"

definition isPageDirty :: "addr \<Rightarrow> phys_mm \<Rightarrow> bool" where
  "isPageDirty page s =
     (case List.find (in_block page) (live s) of
        Some b \<Rightarrow> getBit128 (pb_dirty b) (pb_dirty2 b) (page_offset page b) = 1
      | None \<Rightarrow> False)"

definition isPagedOut :: "addr \<Rightarrow> phys_mm \<Rightarrow> bool" where
  "isPagedOut page s =
     (case List.find (in_block page) (live s) of
        Some b \<Rightarrow> getBit128 (pb_pageout b) (pb_pageout2 b) (page_offset page b) = 1
      | None \<Rightarrow> False)"

text \<open>
  \<open>page % alignment\<close>. Most callers pass alignment 0, for which the result is that of the
  division routine of the compiler's run-time library: the parameter \<open>rem0\<close>.
\<close>

definition urem :: "(u32 \<Rightarrow> u32) \<Rightarrow> u32 \<Rightarrow> u32 \<Rightarrow> u32" where
  "urem rem0 a b = (if b = 0 then rem0 a else a mod b)"

text \<open>The pages \<open>useConsecutivePages\<close> tries as the first of a run, in its order.\<close>

definition block_pages :: "pageblock \<Rightarrow> addr list" where
  "block_pages b = map (\<lambda>a. pb_start b + SMALL_PAGE_SIZE * of_nat a) [0..<unat (pb_size b)]"

definition run_pages :: "u32 \<Rightarrow> addr \<Rightarrow> addr list" where
  "run_pages n page = map (\<lambda>b. page + SMALL_PAGE_SIZE * of_nat b) [0..<unat n]"

definition useConsecutivePages :: "(u32 \<Rightarrow> u32) \<Rightarrow> u32 \<Rightarrow> u32 \<Rightarrow> phys_mm \<Rightarrow> addr \<times> phys_mm" where
  "useConsecutivePages rem0 n alignment s =
     (case List.find (\<lambda>page. urem rem0 page alignment = 0
                            \<and> list_all (\<lambda>q. \<not> isPageUsed q s) (run_pages n page))
             (concat (map block_pages (live s))) of
        Some page \<Rightarrow> (page, fold (\<lambda>q. setPageUsedBit q True) (run_pages n page) s)
      | None \<Rightarrow> (NULL, s))"

definition freeConsecutivePages :: "addr \<Rightarrow> u32 \<Rightarrow> phys_mm \<Rightarrow> phys_mm" where
  "freeConsecutivePages page n s = fold (\<lambda>q. setPageUsedBit q False) (run_pages n page) s"

text \<open>\<open>while (blockindex != 0) freePageblock(pages[0]);\<close>\<close>

lemma blockindex_removePageblock_from:
  "blockindex (removePageblock_from i block s) \<le> blockindex s"
  by (induction i block s rule: removePageblock_from.induct) (simp add: removePageblock_from.simps)

lemma removePageblock_first:
  "blockindex s \<noteq> 0 \<Longrightarrow> removePageblock (pages s ! 0) s =
     s\<lparr>pages := shift_down 0 (blockindex s - 1) (pages s), blockindex := blockindex s - 1\<rparr>"
  by (simp add: removePageblock_def removePageblock_from.simps)

function freeAllPageblocks :: "phys_mm \<Rightarrow> phys_mm" where
  "freeAllPageblocks s =
     (if blockindex s \<noteq> 0 then freeAllPageblocks (freePageblock (pages s ! 0) s) else s)"
  by pat_completeness auto
termination
  by (relation "measure blockindex") (auto simp: freePageblock_def ti_free_def removePageblock_first)

declare freeAllPageblocks.simps [simp del]

section \<open>The bit pairs\<close>

lemma drop_bit_and_1: "drop_bit k (p :: u64) AND 1 = of_bool (bit p k)"
  by (simp add: and_one_eq mod_2_eq_odd bit_iff_odd_drop_bit)

lemma getBit128_eq:
  "getBit128 a b (of_nat i) = of_bool (if i < 64 then bit a i else bit b (i - 64))" if "i < 4294967296"
proof -
  have u: "unat (of_nat i :: u32) = i" using that by (rule unat_of_nat_u32)
  have lt: "(of_nat i :: u32) < 64 \<longleftrightarrow> i < 64" by (simp add: unat_less_u32 u)
  have sub: "\<not> i < 64 \<Longrightarrow> unat ((of_nat i :: u32) - 64) = i - 64"
    by (subst unat_sub_u32) (simp_all add: unat_le_u32 u)
  show ?thesis
    by (auto simp: getBit128_def Let_def lt u sub drop_bit_and_1)
qed

lemma bit_or_exp: "bit ((p :: u64) OR 2 ^ k) j \<longleftrightarrow> bit p j \<or> (j = k \<and> k < 64)"
  by (auto simp: bit_or_iff bit_exp_iff)

lemma bit_andnot_exp: "bit ((p :: u64) AND NOT (2 ^ k)) j \<longleftrightarrow> bit p j \<and> j \<noteq> k"
  by (auto simp: bit_and_iff bit_not_iff bit_exp_iff dest: bit_imp_le_length)

definition get128 :: "u64 \<times> u64 \<Rightarrow> nat \<Rightarrow> bool" where
  "get128 u i \<longleftrightarrow> getBit128 (fst u) (snd u) (of_nat i) = 1"

definition put128 :: "u64 \<times> u64 \<Rightarrow> nat \<Rightarrow> bool \<Rightarrow> u64 \<times> u64" where
  "put128 u i v = setBit128 (fst u) (snd u) (of_nat i) v"

lemma get128_eq: "i < 4294967296 \<Longrightarrow> get128 u i = (if i < 64 then bit (fst u) i else bit (snd u) (i - 64))"
  by (simp add: get128_def getBit128_eq)

lemma get128_put128:
  assumes "i < 4294967296" and "j < 128"
  shows "get128 (put128 u i v) j = (if j = i then v else get128 u j)"
proof -
  have u: "unat (of_nat i :: u32) = i" using assms by (simp add: unat_of_nat_u32)
  have lt: "(of_nat i :: u32) < 64 \<longleftrightarrow> i < 64" by (simp add: unat_less_u32 u)
  have sub: "\<not> i < 64 \<Longrightarrow> unat ((of_nat i :: u32) - 64) = i - 64"
    by (subst unat_sub_u32) (simp_all add: unat_le_u32 u)
  show ?thesis
    using assms
    by (auto simp: get128_eq put128_def setBit128_def Let_def lt u sub bit_or_exp bit_andnot_exp)
qed

interpretation page_bits: bit_store get128 put128 128
  by unfold_locales (simp add: get128_put128)

text \<open>The population count is the number of used slots.\<close>

lemma popcountll_le: "popcountll w \<le> 64"
  unfolding popcountll_def using length_filter_le [of "bit w" "[0..<64]"] by simp

lemma popcountll_card: "popcountll w = card {i. i < 64 \<and> bit w i}"
  unfolding popcountll_def length_filter_conv_card by (rule arg_cong [of _ _ card]) auto

lemma popcount_pair: "popcountll a + popcountll b = card {j. j < 128 \<and> get128 (a, b) j}"
proof -
  let ?B = "{i. i < 64 \<and> bit b i}"
  have "{j. j < 128 \<and> get128 (a, b) j} = {i. i < 64 \<and> bit a i} \<union> (\<lambda>i. i + 64) ` ?B"
  proof (rule set_eqI)
    fix j
    show "j \<in> {j. j < 128 \<and> get128 (a, b) j} \<longleftrightarrow> j \<in> {i. i < 64 \<and> bit a i} \<union> (\<lambda>i. i + 64) ` ?B"
      by (cases "j < 64") (auto simp: get128_eq image_iff intro!: exI [of _ "j - 64"])
  qed
  moreover have "{i. i < 64 \<and> bit a i} \<inter> (\<lambda>i. i + 64) ` ?B = {}" by auto
  moreover have "card ((\<lambda>i. i + 64) ` ?B) = card ?B" by (rule card_image) (simp add: inj_on_def)
  ultimately show ?thesis by (simp add: popcountll_card card_Un_disjoint)
qed

section \<open>The invariant of the block table\<close>

text \<open>
  Every live block is a \<open>ti_malloc\<close> region of \<open>size + 3\<close> pages that does not wrap around the
  address space, with its first page the first page boundary in the region; no two regions
  overlap.
\<close>

definition block_ok :: "pageblock \<Rightarrow> bool" where
  "block_ok b \<longleftrightarrow> pb_unaligned b \<noteq> 0 \<and> pb_start b = makeSmallPageAligned (pb_unaligned b)
     \<and> unat (pb_size b) \<le> 128 \<and> unat (pb_unaligned b) + 4096 * (unat (pb_size b) + 3) \<le> 4294967296"

definition apart :: "pageblock \<Rightarrow> pageblock \<Rightarrow> bool" where
  "apart b c \<longleftrightarrow>
     unat (pb_unaligned b) + 4096 * (unat (pb_size b) + 3) \<le> unat (pb_unaligned c)
     \<or> unat (pb_unaligned c) + 4096 * (unat (pb_size c) + 3) \<le> unat (pb_unaligned b)"

definition pm_inv :: "phys_mm \<Rightarrow> bool" where
  "pm_inv s \<longleftrightarrow> length (pages s) = 200 \<and> blockindex s \<le> 196
     \<and> list_all block_ok (live s) \<and> sorted_wrt apart (live s)"

lemma apart_sym: "apart b c \<Longrightarrow> apart c b"
  by (auto simp: apart_def)

lemma makeSmallPageAligned_nat:
  assumes "unat p + 4096 \<le> 4294967296"
  shows "unat (makeSmallPageAligned p) = (unat p + 4095) div 4096 * 4096"
proof -
  have "(0xFFF :: u32) = mask 12" by (simp add: mask_eq_exp_minus_1)
  then have a: "unat (p AND NOT 0xFFF) = unat p div 4096 * 4096"
    using unat_and_not_mask [of p 12] by simp
  have e: "unat p div 4096 * 4096 + unat p mod 4096 = unat p" by (rule div_mult_mod_eq)
  show ?thesis
  proof (cases "p AND NOT 0xFFF = p")
    case True
    with a have "unat p div 4096 * 4096 = unat p" by simp
    with True show ?thesis by (simp add: makeSmallPageAligned_def round_up_down_page)
  next
    case False
    with a have n: "unat p div 4096 * 4096 \<noteq> unat p" by (metis unsigned_word_eqI)
    with e have "unat p div 4096 * 4096 < unat p" by linarith
    with assms a have "unat ((p AND NOT 0xFFF) + 0x1000) = unat p div 4096 * 4096 + 4096"
      by (subst unat_add_u32) simp_all
    with False n show ?thesis by (simp add: makeSmallPageAligned_def round_up_down_page)
  qed
qed

lemma block_ok_start:
  assumes "block_ok b"
  shows "4096 dvd unat (pb_start b)" and "unat (pb_unaligned b) \<le> unat (pb_start b)"
    and "unat (pb_start b) < unat (pb_unaligned b) + 4096" and "pb_start b \<noteq> 0"
    and "unat (pb_start b) + 4096 * (unat (pb_size b) + 1) < 4294967296"
proof -
  from assms have s: "unat (pb_start b) = (unat (pb_unaligned b) + 4095) div 4096 * 4096"
    by (simp add: block_ok_def makeSmallPageAligned_nat)
  from s show "4096 dvd unat (pb_start b)" by simp
  from s round_up_page(1) show g: "unat (pb_unaligned b) \<le> unat (pb_start b)" by simp
  from s round_up_page(2) show l: "unat (pb_start b) < unat (pb_unaligned b) + 4096" by simp
  from assms have "unat (pb_unaligned b) \<noteq> 0" by (simp add: block_ok_def unat_eq_zero)
  with g show "pb_start b \<noteq> 0" by auto
  from l assms show "unat (pb_start b) + 4096 * (unat (pb_size b) + 1) < 4294967296"
    by (simp add: block_ok_def)
qed

section \<open>Slots\<close>

definition slot :: "pageblock \<Rightarrow> nat \<Rightarrow> addr" where
  "slot b a = pb_start b + SMALL_PAGE_SIZE * of_nat a"

lemma unat_slot:
  assumes "block_ok b" and "a \<le> unat (pb_size b)"
  shows "unat (slot b a) = unat (pb_start b) + 4096 * a"
proof -
  from block_ok_start(5) [OF assms(1)] assms(2) have "unat (pb_start b) + 4096 * a < 4294967296"
    by (simp add: algebra_simps)
  then show ?thesis by (simp add: slot_def word_arith_simps)
qed

lemma in_block_nat:
  assumes "block_ok b"
  shows "in_block q b \<longleftrightarrow>
    unat (pb_start b) \<le> unat q \<and> unat q \<le> unat (pb_start b) + 4096 * unat (pb_size b)"
  using block_ok_start(5) [OF assms] by (simp add: in_block_def unat_le_u32 word_arith_simps)

lemma in_block_slot: "block_ok b \<Longrightarrow> a \<le> unat (pb_size b) \<Longrightarrow> in_block (slot b a) b"
  by (simp add: in_block_nat unat_slot)

lemma unat_page_offset:
  assumes "block_ok b" and "in_block q b"
  shows "unat (page_offset q b) = (unat q - unat (pb_start b)) div 4096"
  using assms(2) by (simp add: page_offset_def in_block_def unat_div word_arith_simps)

lemma page_offset_slot:
  assumes "block_ok b" and "a \<le> unat (pb_size b)"
  shows "page_offset (slot b a) b = of_nat a"
proof -
  have "unat (page_offset (slot b a) b) = a"
    by (simp add: unat_page_offset assms in_block_slot unat_slot)
  with assms(2) have "unat (page_offset (slot b a) b) = unat (of_nat a :: u32)"
    using unat_u32_bound [of "pb_size b"] by (simp add: unat_of_nat_u32)
  then show ?thesis by (rule unat_inj_u32)
qed

lemma in_block_aligned:
  assumes "block_ok b" and "in_block q b" and "4096 dvd unat q"
  obtains a where "a \<le> unat (pb_size b)" and "q = slot b a"
proof -
  from block_ok_start(1) [OF assms(1)] assms(3) obtain k m
    where k: "unat (pb_start b) = 4096 * k" and m: "unat q = 4096 * m" by (auto elim!: dvdE)
  from assms(2) k m have r: "k \<le> m" "m \<le> k + unat (pb_size b)" by (auto simp: in_block_nat assms(1))
  then have "unat (slot b (m - k)) = unat q" by (simp add: unat_slot assms(1) k m)
  then have "q = slot b (m - k)" by (intro unat_inj_u32) (rule sym)
  with r show ?thesis by (intro that [of "m - k"]) auto
qed

lemma slot_inj:
  assumes "block_ok b" and "a \<le> unat (pb_size b)" and "a' \<le> unat (pb_size b)"
  shows "slot b a = slot b a' \<longleftrightarrow> a = a'"
  using assms by (auto dest: arg_cong [where f = unat] simp: unat_slot)

lemma in_block_apart: "\<lbrakk>block_ok b; block_ok c; apart b c; in_block q b\<rbrakk> \<Longrightarrow> \<not> in_block q c"
  using block_ok_start(2,3) [of b] block_ok_start(2,3) [of c] by (auto simp: in_block_nat apart_def)

section \<open>Finding and updating the block of a page\<close>

lemma live_update: "live (s\<lparr>pages := (pages s)[i := b]\<rparr>) = (live s)[i := b]"
  by (simp add: live_def take_update_swap)

lemma live_nth: "i < blockindex s \<Longrightarrow> live s ! i = pages s ! i"
  by (simp add: live_def)

lemma length_live: "pm_inv s \<Longrightarrow> length (live s) = blockindex s"
  by (simp add: live_def pm_inv_def)

lemma pm_inv_block: "pm_inv s \<Longrightarrow> i < blockindex s \<Longrightarrow> block_ok (pages s ! i)"
  using length_live [of s] by (auto simp: pm_inv_def list_all_length live_nth)

lemma pm_inv_apart: "\<lbrakk>pm_inv s; i < blockindex s; j < blockindex s; i \<noteq> j\<rbrakk> \<Longrightarrow> apart (pages s ! i) (pages s ! j)"
  using length_live [of s]
  by (cases i j rule: linorder_cases)
     (auto simp: pm_inv_def sorted_wrt_iff_nth_less live_nth intro: apart_sym)

lemma in_block_unique:
  "\<lbrakk>pm_inv s; i < blockindex s; j < blockindex s; in_block q (pages s ! i); in_block q (pages s ! j)\<rbrakk>
    \<Longrightarrow> i = j"
  using pm_inv_apart in_block_apart pm_inv_block by blast

lemma find_block:
  assumes "pm_inv s" and "i < blockindex s" and "in_block q (pages s ! i)"
  shows "List.find (in_block q) (live s) = Some (pages s ! i)"
proof -
  have "\<not> in_block q (live s ! j)" if "j < i" for j
    using in_block_unique [OF assms(1), of j i q] assms(2,3) that by (auto simp: live_nth)
  moreover have "i < length (live s)" "live s ! i = pages s ! i"
    using assms by (simp_all add: length_live live_nth)
  ultimately show ?thesis using assms(3) unfolding find_Some_iff by metis
qed

text \<open>The blocks up to the bits that record the state of their pages.\<close>

definition frame_of :: "pageblock \<Rightarrow> addr \<times> addr \<times> u32" where
  "frame_of b = (pb_unaligned b, pb_start b, pb_size b)"

definition same_frames :: "phys_mm \<Rightarrow> phys_mm \<Rightarrow> bool" where
  "same_frames s s' \<longleftrightarrow> blockindex s' = blockindex s \<and> length (pages s') = length (pages s)
     \<and> (\<forall>i < blockindex s. frame_of (pages s' ! i) = frame_of (pages s ! i)) \<and> ti_freed s' = ti_freed s"

lemma block_ok_frame: "frame_of b = frame_of c \<Longrightarrow> block_ok b = block_ok c"
  by (simp add: frame_of_def block_ok_def)

lemma apart_frame: "frame_of b = frame_of b' \<Longrightarrow> frame_of c = frame_of c' \<Longrightarrow> apart b c = apart b' c'"
  by (simp add: frame_of_def apart_def)

lemma in_block_frame: "frame_of b = frame_of c \<Longrightarrow> in_block q b = in_block q c"
  by (simp add: frame_of_def in_block_def)

lemma slot_frame: "frame_of b = frame_of c \<Longrightarrow> slot b a = slot c a"
  by (simp add: frame_of_def slot_def)

lemma same_frames_refl [simp]: "same_frames s s"
  by (simp add: same_frames_def)

lemma same_frames_trans [trans]: "same_frames s t \<Longrightarrow> same_frames t u \<Longrightarrow> same_frames s u"
  by (simp add: same_frames_def)

lemma same_frames_inv: "same_frames s s' \<Longrightarrow> pm_inv s \<Longrightarrow> pm_inv s'"
proof -
  assume f: "same_frames s s'" and i: "pm_inv s"
  have l: "length (live s') = blockindex s'" "length (live s) = blockindex s"
    using f i by (auto simp: live_def same_frames_def pm_inv_def)
  have e: "i < blockindex s \<Longrightarrow> frame_of (pages s' ! i) = frame_of (pages s ! i)" for i
    using f by (simp add: same_frames_def)
  have n: "blockindex s' = blockindex s" using f by (simp add: same_frames_def)
  have "block_ok (pages s' ! i)" if "i < blockindex s" for i
    using pm_inv_block [OF i that] block_ok_frame [OF e [OF that]] by blast
  then have "list_all block_ok (live s')" by (simp add: list_all_length l live_nth n)
  moreover have "apart (pages s' ! i) (pages s' ! j)" if "i < j" "j < blockindex s" for i j
    using pm_inv_apart [OF i, of i j] apart_frame [OF e e, of i j] that by simp
  then have "sorted_wrt apart (live s')" by (simp add: sorted_wrt_iff_nth_less l live_nth n)
  ultimately show "pm_inv s'" using f i by (simp add: pm_inv_def same_frames_def)
qed

lemma same_frames_update:
  "pm_inv s \<Longrightarrow> i < blockindex s \<Longrightarrow> frame_of b = frame_of (pages s ! i)
    \<Longrightarrow> same_frames s (s\<lparr>pages := (pages s)[i := b]\<rparr>)"
  by (auto simp: same_frames_def pm_inv_def nth_list_update)

lemma update_blocks_hit:
  assumes "pm_inv s" and "i < blockindex s" and "in_block q (pages s ! i)"
  shows "update_blocks q f s = s\<lparr>pages := (pages s)[i := f (pages s ! i)]\<rparr>"
proof -
  have len: "blockindex s \<le> length (pages s)" using assms(1) by (simp add: pm_inv_def)
  have "map (\<lambda>b. if in_block q b then f b else b) (live s) @ drop (blockindex s) (pages s)
      = (pages s)[i := f (pages s ! i)]" (is "?l = ?r")
  proof (rule nth_equalityI)
    show "length ?l = length ?r" using len by (simp add: live_def)
    fix k assume "k < length ?l"
    then show "?l ! k = ?r ! k"
      using len assms in_block_unique [OF assms(1), of k i q]
      by (auto simp: nth_append live_def nth_list_update)
  qed
  then show ?thesis by (simp add: update_blocks_def)
qed

lemma update_blocks_miss:
  assumes "\<And>i. i < blockindex s \<Longrightarrow> \<not> in_block q (pages s ! i)"
  shows "update_blocks q f s = s"
proof -
  have "map (\<lambda>b. if in_block q b then f b else b) (live s) = live s"
    using assms by (auto simp: live_def in_set_conv_nth intro!: map_idI)
  then show ?thesis by (simp add: update_blocks_def live_def)
qed

section \<open>The used bits\<close>

definition used_at :: "pageblock \<Rightarrow> nat \<Rightarrow> bool" where
  "used_at b a = get128 (pb_used b, pb_used2 b) a"

definition set_used :: "nat \<Rightarrow> bool \<Rightarrow> pageblock \<Rightarrow> pageblock" where
  "set_used a v b =
     (let (u, u2) = put128 (pb_used b, pb_used2 b) a v in b\<lparr>pb_used := u, pb_used2 := u2\<rparr>)"

lemma frame_set_used [simp]: "frame_of (set_used a v b) = frame_of b"
  by (simp add: set_used_def frame_of_def split: prod.splits)

lemma used_set_used:
  "a < 4294967296 \<Longrightarrow> a' < 128 \<Longrightarrow> used_at (set_used a v b) a' = (if a' = a then v else used_at b a')"
  by (simp add: used_at_def set_used_def split: prod.splits) (metis get128_put128)

lemma used_beyond: "128 \<le> a \<Longrightarrow> a < 4294967296 \<Longrightarrow> \<not> used_at b a"
  by (auto simp: used_at_def get128_eq dest: bit_imp_le_length)

lemma isPageUsed_slot:
  assumes "pm_inv s" and "i < blockindex s" and "a \<le> unat (pb_size (pages s ! i))"
  shows "isPageUsed (slot (pages s ! i) a) s = used_at (pages s ! i) a"
  using find_block [OF assms(1,2) in_block_slot [OF pm_inv_block [OF assms(1,2)] assms(3)]]
    page_offset_slot [OF pm_inv_block [OF assms(1,2)] assms(3)]
  by (simp add: isPageUsed_def used_at_def get128_def)

lemma setPageUsedBit_slot:
  assumes "pm_inv s" and "i < blockindex s" and "a \<le> unat (pb_size (pages s ! i))"
  shows "setPageUsedBit (slot (pages s ! i) a) v s
       = s\<lparr>pages := (pages s)[i := set_used a v (pages s ! i)]\<rparr>"
  using update_blocks_hit [OF assms(1,2) in_block_slot [OF pm_inv_block [OF assms(1,2)] assms(3)]]
    page_offset_slot [OF pm_inv_block [OF assms(1,2)] assms(3)]
  by (simp add: setPageUsedBit_def set_used_def put128_def)

text \<open>What a write to one used bit does to the whole table.\<close>

definition page_aligned :: "addr \<Rightarrow> bool" where
  "page_aligned p \<longleftrightarrow> p mod SMALL_PAGE_SIZE = 0"

lemma page_aligned_slot: "block_ok b \<Longrightarrow> a \<le> unat (pb_size b) \<Longrightarrow> page_aligned (slot b a)"
  using block_ok_start(1) [of b] by (simp add: page_aligned_def mod_page_u32 unat_slot)

lemma isPageUsed_set_used:
  fixes v :: bool
  assumes inv: "pm_inv s" and k: "k < blockindex s" and a: "a \<le> unat (pb_size (pages s ! k))"
    and q: "page_aligned q"
  defines "s' \<equiv> s\<lparr>pages := (pages s)[k := set_used a v (pages s ! k)]\<rparr>"
  shows "same_frames s s'"
    and "isPageUsed q s' = (if q = slot (pages s ! k) a \<and> a < 128 then v else isPageUsed q s)"
proof -
  show f: "same_frames s s'" unfolding s'_def using inv k by (intro same_frames_update) simp_all
  then have inv': "pm_inv s'" using inv by (rule same_frames_inv)
  have fr: "j < blockindex s \<Longrightarrow> frame_of (pages s' ! j) = frame_of (pages s ! j)" for j
    using f by (simp add: same_frames_def)
  have bi: "blockindex s' = blockindex s" by (simp add: s'_def)
  note ok = pm_inv_block [OF inv]
  show "isPageUsed q s' = (if q = slot (pages s ! k) a \<and> a < 128 then v else isPageUsed q s)"
  proof (cases "\<exists>j < blockindex s. in_block q (pages s ! j)")
    case True
    then obtain j where j: "j < blockindex s" "in_block q (pages s ! j)" by blast
    with ok q obtain d where d: "d \<le> unat (pb_size (pages s ! j))" "q = slot (pages s ! j) d"
      by (auto simp: page_aligned_def mod_page_u32 elim: in_block_aligned)
    from d fr [OF j(1)] have d': "d \<le> unat (pb_size (pages s' ! j))" "q = slot (pages s' ! j) d"
      by (simp_all add: frame_of_def slot_def)
    have u: "isPageUsed q s = used_at (pages s ! j) d" "isPageUsed q s' = used_at (pages s' ! j) d"
      using isPageUsed_slot [OF inv j(1) d(1)] isPageUsed_slot [of s' j d] inv' j(1) d d'
      by (simp_all add: bi)
    have len: "k < length (pages s)" using inv k by (simp add: pm_inv_def)
    show ?thesis
    proof (cases "j = k")
      case True
      have "d \<le> 128" using ok [OF j(1)] d(1) by (simp add: block_ok_def)
      then have "used_at (set_used a v (pages s ! k)) d = (if d = a \<and> a < 128 then v else used_at (pages s ! k) d)"
        using a unat_u32_bound [of "pb_size (pages s ! k)"] used_set_used [of a d v "pages s ! k"] used_beyond [of 128]
        by (cases "d = 128") auto
      moreover have "q = slot (pages s ! k) a \<longleftrightarrow> d = a"
        using d a ok [OF k] slot_inj [of "pages s ! k" d a] True by auto
      ultimately show ?thesis using u True len by (simp add: s'_def)
    next
      case False
      then have "q \<noteq> slot (pages s ! k) a"
        using in_block_unique [OF inv j(1) k j(2)] in_block_slot [OF ok [OF k] a] by auto
      with u False show ?thesis by (simp add: s'_def)
    qed
  next
    case False
    then have n: "j < blockindex s \<Longrightarrow> \<not> in_block q (pages s ! j)" for j by blast
    then have n': "j < blockindex s' \<Longrightarrow> \<not> in_block q (pages s' ! j)" for j
      using in_block_frame [OF fr] bi by auto
    have none: "(\<And>j. j < blockindex t \<Longrightarrow> \<not> in_block q (pages t ! j)) \<Longrightarrow> isPageUsed q t" for t
      by (auto simp: isPageUsed_def find_None_iff live_def in_set_conv_nth split: option.splits dest!: find_Some_iff [THEN iffD1])
    have "q \<noteq> slot (pages s ! k) a" using n [OF k] in_block_slot [OF ok [OF k] a] by auto
    with none [of s] none [of s'] n n' show ?thesis by simp
  qed
qed

text \<open>All pages the table owns.\<close>

definition mm_pages :: "phys_mm \<Rightarrow> addr list" where
  "mm_pages s = concat (map block_pages (live s))"

text \<open>
  The pages whose used bit can be written: those of the blocks and, for a block of fewer than
  128 pages, the one just behind it. The accessors take the page behind a block of 128 pages for
  one of the block, but there is no bit for it: it is always unused.
\<close>

definition tracked_pages :: "phys_mm \<Rightarrow> addr list" where
  "tracked_pages s = concat (map (\<lambda>b. map (slot b) [0..<min 128 (unat (pb_size b) + 1)]) (live s))"

lemma set_live: "pm_inv s \<Longrightarrow> set (live s) = (!) (pages s) ` {..<blockindex s}"
  using length_live [of s] by (force simp: in_set_conv_nth live_nth image_iff)

lemma set_tracked_pages:
  assumes "pm_inv s"
  shows "q \<in> set (tracked_pages s) \<longleftrightarrow>
    (\<exists>k < blockindex s. \<exists>a \<le> unat (pb_size (pages s ! k)). a < 128 \<and> q = slot (pages s ! k) a)"
proof -
  have "set (tracked_pages s)
      = (\<Union>b \<in> set (live s). slot b ` {..<min 128 (unat (pb_size b) + 1)})"
    by (simp add: tracked_pages_def lessThan_atLeast0 del: upt_Suc)
  then have "set (tracked_pages s)
      = (\<Union>k < blockindex s. slot (pages s ! k) ` {..<min 128 (unat (pb_size (pages s ! k)) + 1)})"
    by (simp add: set_live assms)
  moreover have "{..<min 128 (n + 1)} = {a. a \<le> n \<and> a < 128}" for n :: nat by auto
  ultimately show ?thesis by (simp only:) blast
qed

lemma same_frames_live:
  assumes "same_frames s s'" and "pm_inv s" and "\<And>b c. frame_of b = frame_of c \<Longrightarrow> f b = f c"
  shows "map f (live s') = map f (live s)"
proof (rule nth_equalityI)
  have "pm_inv s'" using assms(1,2) by (rule same_frames_inv)
  then have l: "length (live s') = blockindex s" "length (live s) = blockindex s"
    using assms length_live [of s] length_live [of s'] by (simp_all add: same_frames_def)
  then show "length (map f (live s')) = length (map f (live s))" by simp
  fix i
  assume "i < length (map f (live s'))"
  with l have i: "i < blockindex s" by simp
  with assms(1) have "f (pages s' ! i) = f (pages s ! i)" by (intro assms(3)) (simp add: same_frames_def)
  moreover have "live s' ! i = pages s' ! i" "live s ! i = pages s ! i"
    using i assms(1) by (simp_all add: live_nth same_frames_def)
  ultimately show "map f (live s') ! i = map f (live s) ! i" using i l by simp
qed

lemma block_pages_slot: "block_pages b = map (slot b) [0..<unat (pb_size b)]"
  by (simp add: block_pages_def slot_def)

lemma slot_frame_fun: "frame_of b = frame_of c \<Longrightarrow> slot b = slot c \<and> pb_size b = pb_size c"
  by (simp add: fun_eq_iff slot_def frame_of_def)

lemma same_frames_pages:
  "same_frames s s' \<Longrightarrow> pm_inv s \<Longrightarrow> mm_pages s' = mm_pages s"
  unfolding mm_pages_def
  by (subst same_frames_live) (auto simp: block_pages_slot dest: slot_frame_fun)

lemma same_frames_tracked: "same_frames s s' \<Longrightarrow> pm_inv s \<Longrightarrow> tracked_pages s' = tracked_pages s"
  unfolding tracked_pages_def
  by (subst same_frames_live) (auto dest: slot_frame_fun simp del: upt_Suc)

lemma setPageUsedBit_effect:
  assumes inv: "pm_inv s" and p: "page_aligned p"
  shows "same_frames s (setPageUsedBit p v s)"
    and "page_aligned q \<Longrightarrow> isPageUsed q (setPageUsedBit p v s)
      = (if q = p \<and> p \<in> set (tracked_pages s) then v else isPageUsed q s)"
proof -
  have "same_frames s (setPageUsedBit p v s) \<and> (page_aligned q \<longrightarrow> isPageUsed q (setPageUsedBit p v s)
      = (if q = p \<and> p \<in> set (tracked_pages s) then v else isPageUsed q s))"
  proof (cases "\<exists>k < blockindex s. in_block p (pages s ! k)")
    case True
    then obtain k where k: "k < blockindex s" "in_block p (pages s ! k)" by blast
    with pm_inv_block [OF inv k(1)] p obtain a where a: "a \<le> unat (pb_size (pages s ! k))" "p = slot (pages s ! k) a"
      by (auto simp: page_aligned_def mod_page_u32 elim: in_block_aligned)
    have "p \<in> set (tracked_pages s) \<longleftrightarrow> a < 128"
    proof
      assume "p \<in> set (tracked_pages s)"
      then obtain j d where j: "j < blockindex s" "d \<le> unat (pb_size (pages s ! j))" "d < 128" "p = slot (pages s ! j) d"
        by (auto simp: set_tracked_pages inv)
      then have "j = k" using in_block_unique [OF inv j(1) k(1), of p] k(2) in_block_slot pm_inv_block inv by auto
      with j a slot_inj [OF pm_inv_block [OF inv k(1)]] show "a < 128" by auto
    qed (use k(1) a in \<open>auto simp: set_tracked_pages inv\<close>)
    then show ?thesis
      using isPageUsed_set_used [OF inv k(1) a(1)] setPageUsedBit_slot [OF inv k(1) a(1)] a(2)
        same_frames_update [OF inv k(1) frame_set_used] by auto
  next
    case False
    then have "setPageUsedBit p v s = s" by (auto simp: setPageUsedBit_def intro: update_blocks_miss)
    moreover have "p \<notin> set (tracked_pages s)"
      using False in_block_slot pm_inv_block [OF inv] by (auto simp: set_tracked_pages inv)
    ultimately show ?thesis by simp
  qed
  then show "same_frames s (setPageUsedBit p v s)"
    and "page_aligned q \<Longrightarrow> isPageUsed q (setPageUsedBit p v s)
      = (if q = p \<and> p \<in> set (tracked_pages s) then v else isPageUsed q s)" by auto
qed

lemma setPageUsedBit_inv: "pm_inv s \<Longrightarrow> page_aligned p \<Longrightarrow> pm_inv (setPageUsedBit p v s)"
  using setPageUsedBit_effect(1) same_frames_inv by blast

lemma set_pages_effect:
  assumes "pm_inv s" and "\<forall>p \<in> set ps. page_aligned p"
  shows "same_frames s (fold (\<lambda>p. setPageUsedBit p v) ps s) \<and> (page_aligned q \<longrightarrow>
      isPageUsed q (fold (\<lambda>p. setPageUsedBit p v) ps s)
      = (if q \<in> set ps \<and> q \<in> set (tracked_pages s) then v else isPageUsed q s))"
  using assms
proof (induction ps arbitrary: s)
  case Nil
  then show ?case by simp
next
  case (Cons p ps)
  let ?s = "setPageUsedBit p v s"
  from Cons.prems have i: "pm_inv ?s" and f: "same_frames s ?s"
    by (simp_all add: setPageUsedBit_inv setPageUsedBit_effect(1))
  have t: "tracked_pages ?s = tracked_pages s" using same_frames_tracked [OF f] Cons.prems by simp
  from Cons.IH [OF i] Cons.prems f same_frames_trans [OF f] show ?case
    by (auto simp: t setPageUsedBit_effect(2))
qed

section \<open>Single pages\<close>

text \<open>The slot \<open>usePage\<close> takes from a block, if any.\<close>

definition candidate :: "pageblock \<Rightarrow> nat option" where
  "candidate b =
     (if of_nat (popcountll (pb_used b) + popcountll (pb_used2 b)) < pb_size b
      then List.find (\<lambda>a. \<not> used_at b a) [0..<unat (pb_size b)] else None)"

lemma getBit128_zero: "a < 4294967296 \<Longrightarrow> getBit128 u v (of_nat a) = 0 \<longleftrightarrow> \<not> get128 (u, v) a"
  by (simp add: getBit128_eq get128_eq)

lemma find_free_slot:
  "List.find (\<lambda>a. getBit128 (pb_used b) (pb_used2 b) (of_nat a) = 0) [0..<unat (pb_size b)]
   = List.find (\<lambda>a. \<not> used_at b a) [0..<unat (pb_size b)]"
  using unat_u32_bound [of "pb_size b"] by (intro find_cong) (auto simp: used_at_def getBit128_zero)

lemma usePage_from_eq:
  "usePage_from i s =
     (case List.find (\<lambda>k. candidate (pages s ! k) \<noteq> None) [i..<blockindex s] of
        None \<Rightarrow> (NULL, s)
      | Some k \<Rightarrow>
          let a = the (candidate (pages s ! k))
          in (slot (pages s ! k) a, s\<lparr>pages := (pages s)[k := set_used a True (pages s ! k)]\<rparr>))"
proof (induction i s rule: usePage_from.induct)
  case (1 i s)
  let ?b = "pages s ! i"
  show ?case
  proof (cases "i < blockindex s")
    case False
    then show ?thesis by (simp add: usePage_from.simps)
  next
    case True
    then have u: "[i..<blockindex s] = i # [Suc i..<blockindex s]" by (rule upt_conv_Cons)
    show ?thesis
    proof (cases "candidate ?b")
      case None
      with True have "usePage_from i s = usePage_from (Suc i) s"
        by (subst usePage_from.simps)
          (auto simp: candidate_def find_free_slot Let_def split: if_splits)
      moreover from None True have "usePage_from (Suc i) s =
          (case List.find (\<lambda>k. candidate (pages s ! k) \<noteq> None) [Suc i..<blockindex s] of
             None \<Rightarrow> (NULL, s)
           | Some k \<Rightarrow>
               let a = the (candidate (pages s ! k))
               in (slot (pages s ! k) a, s\<lparr>pages := (pages s)[k := set_used a True (pages s ! k)]\<rparr>))"
        by (cases "of_nat (popcountll (pb_used ?b) + popcountll (pb_used2 ?b)) < pb_size ?b")
           (rule 1; simp add: candidate_def find_free_slot)+
      ultimately show ?thesis using None by (simp add: u)
    next
      case (Some a)
      with True have "usePage_from i s = (slot ?b a, s\<lparr>pages := (pages s)[i := set_used a True ?b]\<rparr>)"
        by (subst usePage_from.simps)
          (auto simp: candidate_def find_free_slot Let_def slot_def set_used_def put128_def
             split: if_splits prod.splits)
      with Some show ?thesis by (simp add: u)
    qed
  qed
qed

lemma usePage_cases:
  obtains (full) "usePage s = (NULL, s)" and "\<And>k. k < blockindex s \<Longrightarrow> candidate (pages s ! k) = None"
  | (got) k a where "k < blockindex s" and "candidate (pages s ! k) = Some a"
      and "usePage s = (slot (pages s ! k) a, s\<lparr>pages := (pages s)[k := set_used a True (pages s ! k)]\<rparr>)"
proof (cases "List.find (\<lambda>k. candidate (pages s ! k) \<noteq> None) [0..<blockindex s]")
  case None
  then have "usePage s = (NULL, s)" by (simp add: usePage_def usePage_from_eq del: not_None_eq)
  moreover from None have "k < blockindex s \<Longrightarrow> candidate (pages s ! k) = None" for k
    unfolding find_None_iff_index by blast
  ultimately show ?thesis by (rule full)
next
  case (Some k)
  then have "usePage s = (slot (pages s ! k) (the (candidate (pages s ! k))),
      s\<lparr>pages := (pages s)[k := set_used (the (candidate (pages s ! k))) True (pages s ! k)]\<rparr>)"
    by (simp add: usePage_def usePage_from_eq Let_def del: not_None_eq)
  moreover from Some have "k < blockindex s" "candidate (pages s ! k) = Some (the (candidate (pages s ! k)))"
    unfolding find_Some_iff_index by auto
  ultimately show ?thesis by (intro got)
qed

lemma candidate_SomeD:
  assumes "candidate b = Some a" and "block_ok b"
  shows "a < unat (pb_size b)" and "a < 128" and "\<not> used_at b a"
proof -
  from assms have "List.find (\<lambda>a. \<not> get128 (pb_used b, pb_used2 b) a) [0..<unat (pb_size b)] = Some a"
    by (simp add: candidate_def used_at_def split: if_splits)
  from page_bits.first_free_SomeD [OF this] assms(2)
  show "a < unat (pb_size b)" and "a < 128" and "\<not> used_at b a"
    by (auto simp: used_at_def block_ok_def)
qed

lemma set_mm_pages:
  "pm_inv s \<Longrightarrow> q \<in> set (mm_pages s) \<longleftrightarrow>
    (\<exists>k < blockindex s. \<exists>a < unat (pb_size (pages s ! k)). q = slot (pages s ! k) a)"
proof -
  assume "pm_inv s"
  then have "set (live s) = (!) (pages s) ` {..<blockindex s}"
    using length_live [of s] by (force simp: in_set_conv_nth live_nth image_iff)
  moreover have "set (mm_pages s) = (\<Union>b \<in> set (live s). slot b ` {..<unat (pb_size b)})"
    by (simp add: mm_pages_def block_pages_def slot_def [symmetric] lessThan_atLeast0)
  ultimately have "set (mm_pages s) = (\<Union>k < blockindex s. slot (pages s ! k) ` {..<unat (pb_size (pages s ! k))})"
    by simp
  then show ?thesis by blast
qed

lemma mm_pages_aligned: "pm_inv s \<Longrightarrow> q \<in> set (mm_pages s) \<Longrightarrow> page_aligned q"
  using pm_inv_block page_aligned_slot by (force simp: set_mm_pages)

text \<open>
  C1. A page \<open>usePage\<close> hands out is a page of one of the blocks, aligned, was unused before and is
  used afterwards; no other page changes its state and the table stays well formed.
\<close>

theorem usePage_sound:
  assumes "pm_inv s" and "usePage s = (p, s')" and "p \<noteq> NULL"
  shows "p \<in> set (mm_pages s) \<and> page_aligned p \<and> \<not> isPageUsed p s \<and> isPageUsed p s'
    \<and> (\<forall>q. page_aligned q \<and> q \<noteq> p \<longrightarrow> isPageUsed q s' = isPageUsed q s)
    \<and> pm_inv s' \<and> mm_pages s' = mm_pages s"
  using usePage_cases [of s]
proof cases
  case full
  with assms show ?thesis by simp
next
  case (got k a)
  let ?b = "pages s ! k"
  note ok = pm_inv_block [OF assms(1) got(1)]
  note c = candidate_SomeD [OF got(2) ok]
  from assms(2) got(3) have ps: "p = slot ?b a" "s' = s\<lparr>pages := (pages s)[k := set_used a True ?b]\<rparr>"
    by simp_all
  note upd = isPageUsed_set_used [OF assms(1) got(1), of a _ True, folded ps]
  have al: "page_aligned p" using page_aligned_slot [OF ok, of a] c(1) ps by simp
  have "p \<in> set (mm_pages s)" using c(1) got(1) ps by (auto simp: set_mm_pages [OF assms(1)])
  moreover have "\<not> isPageUsed p s" using isPageUsed_slot [OF assms(1) got(1)] c ps by simp
  moreover have "same_frames s s'" using upd(1) al c(1) by simp
  moreover have "isPageUsed q s' = (if q = p then True else isPageUsed q s)" if "page_aligned q" for q
    using upd(2) [OF _ that] c by simp
  ultimately show ?thesis using al same_frames_inv assms(1) same_frames_pages by auto
qed

text \<open>
  The count of used pages includes the bit of the page behind the block, when that was handed
  out as the end of a run. Without such stray bits \<open>usePage\<close> finds every unused page.
\<close>

definition no_stray :: "phys_mm \<Rightarrow> bool" where
  "no_stray s \<longleftrightarrow> list_all (\<lambda>b. list_all (\<lambda>a. \<not> used_at b a) [unat (pb_size b)..<128]) (live s)"

lemma ones_lt_size:
  "block_ok b \<Longrightarrow> of_nat (popcountll (pb_used b) + popcountll (pb_used2 b)) < pb_size b
    \<longleftrightarrow> card {j. j < 128 \<and> used_at b j} < unat (pb_size b)"
proof -
  let ?n = "popcountll (pb_used b) + popcountll (pb_used2 b)"
  have "?n < 4294967296" using popcountll_le [of "pb_used b"] popcountll_le [of "pb_used2 b"] by simp
  then have "unat (of_nat ?n :: u32) = ?n" by (rule unat_of_nat_u32)
  moreover have "?n = card {j. j < 128 \<and> used_at b j}" by (simp add: popcount_pair used_at_def)
  ultimately show ?thesis by (simp only: unat_less_u32)
qed

lemma candidate_None:
  assumes "block_ok b" and "list_all (\<lambda>a. \<not> used_at b a) [unat (pb_size b)..<128]"
  shows "candidate b = None \<longleftrightarrow> (\<forall>a < unat (pb_size b). used_at b a)"
proof
  assume none: "candidate b = None"
  show "\<forall>a < unat (pb_size b). used_at b a"
  proof (cases "card {j. j < 128 \<and> used_at b j} < unat (pb_size b)")
    case True
    with none ones_lt_size [OF assms(1)] show ?thesis by (auto simp: candidate_def find_None_iff_index)
  next
    case False
    have "{j. j < 128 \<and> used_at b j} \<subseteq> {..<unat (pb_size b)}"
      using assms(2) by (fastforce simp: list_all_iff not_less [symmetric])
    with False have "{j. j < 128 \<and> used_at b j} = {..<unat (pb_size b)}"
      by (intro card_seteq) simp_all
    then show ?thesis by blast
  qed
next
  assume "\<forall>a < unat (pb_size b). used_at b a"
  then show "candidate b = None" by (simp add: candidate_def find_None_iff_index)
qed

text \<open>
  Unless a page behind a block was given out, \<open>usePage\<close> fails only when every page of every
  block is used.
\<close>

theorem usePage_complete:
  assumes "pm_inv s" and "no_stray s"
  shows "fst (usePage s) = NULL \<longleftrightarrow> list_all (\<lambda>q. isPageUsed q s) (mm_pages s)"
proof -
  note ok = pm_inv_block [OF assms(1)]
  have none: "candidate (pages s ! k) = None \<longleftrightarrow> (\<forall>a < unat (pb_size (pages s ! k)). isPageUsed (slot (pages s ! k) a) s)"
    if "k < blockindex s" for k
  proof -
    have "pages s ! k \<in> set (live s)" using that set_live [OF assms(1)] by auto
    then have "list_all (\<lambda>a. \<not> used_at (pages s ! k) a) [unat (pb_size (pages s ! k))..<128]"
      using assms(2) by (auto simp: no_stray_def list_all_iff)
    then show ?thesis
      using candidate_None [OF ok [OF that]] isPageUsed_slot [OF assms(1) that] by auto
  qed
  have all: "list_all (\<lambda>q. isPageUsed q s) (mm_pages s) \<longleftrightarrow> (\<forall>k < blockindex s. candidate (pages s ! k) = None)"
  proof
    assume "list_all (\<lambda>q. isPageUsed q s) (mm_pages s)"
    then have "isPageUsed (slot (pages s ! k) a) s" if "k < blockindex s" "a < unat (pb_size (pages s ! k))" for k a
      using that set_mm_pages [OF assms(1)] by (auto simp: list_all_iff)
    then show "\<forall>k < blockindex s. candidate (pages s ! k) = None" by (simp add: none)
  next
    assume "\<forall>k < blockindex s. candidate (pages s ! k) = None"
    then show "list_all (\<lambda>q. isPageUsed q s) (mm_pages s)"
      by (auto simp: list_all_iff set_mm_pages [OF assms(1)] none)
  qed
  show ?thesis using usePage_cases [of s]
  proof cases
    case full
    then show ?thesis by (simp add: all)
  next
    case (got k a)
    then have "\<not> (\<forall>k < blockindex s. candidate (pages s ! k) = None)" by auto
    moreover have "slot (pages s ! k) a \<noteq> 0"
      using block_ok_start(4) [OF ok [OF got(1)]] unat_slot [OF ok [OF got(1)], of a]
        candidate_SomeD(1) [OF got(2) ok [OF got(1)]] by (auto simp: unat_eq_zero)
    ultimately show ?thesis using got(3) by (simp add: all)
  qed
qed

section \<open>Runs of pages\<close>

definition owned :: "phys_mm \<Rightarrow> addr \<Rightarrow> bool" where
  "owned s q \<longleftrightarrow> list_ex (\<lambda>b. unat (pb_unaligned b) \<le> unat q
      \<and> unat q + 4096 \<le> unat (pb_unaligned b) + 4096 * (unat (pb_size b) + 3)) (live s)"

lemma page_aligned_add: "page_aligned p \<Longrightarrow> page_aligned (p + SMALL_PAGE_SIZE * of_nat k)"
proof -
  assume "page_aligned p"
  then have "4096 dvd unat p + 4096 * unat (of_nat k :: u32)" by (simp add: page_aligned_def mod_page_u32)
  moreover have "unat (p + 4096 * of_nat k) = (unat p + 4096 * unat (of_nat k :: u32)) mod 2 ^ 32"
    by (simp add: unat_word_ariths mod_add_right_eq)
  moreover have "(4096 :: nat) dvd 2 ^ 32" by simp
  ultimately show ?thesis by (simp add: page_aligned_def mod_page_u32 dvd_mod)
qed

lemma run_pages_aligned: "page_aligned p \<Longrightarrow> q \<in> set (run_pages n p) \<Longrightarrow> page_aligned q"
  using page_aligned_add by (auto simp: run_pages_def)

lemma unused_owned:
  assumes "pm_inv s" and "\<not> isPageUsed q s"
  shows "owned s q"
proof -
  from assms(2) obtain b where "List.find (in_block q) (live s) = Some b"
    by (auto simp: isPageUsed_def split: option.splits)
  then have b: "in_block q b" "b \<in> set (live s)" by (auto simp: find_Some_iff)
  with assms(1) have ok: "block_ok b" by (simp add: pm_inv_def list_all_iff)
  from b ok block_ok_start(2,3) [OF ok] show ?thesis
    by (auto simp: owned_def list_ex_iff in_block_nat intro!: bexI [of _ b])
qed

lemma mm_pages_not_NULL:
  assumes "pm_inv s" and "q \<in> set (mm_pages s)"
  shows "q \<noteq> 0"
proof -
  from assms obtain k a where k: "k < blockindex s" "a < unat (pb_size (pages s ! k))" "q = slot (pages s ! k) a"
    by (auto simp: set_mm_pages)
  note ok = pm_inv_block [OF assms(1) k(1)]
  have "unat q = unat (pb_start (pages s ! k)) + 4096 * a" using k ok by (simp add: unat_slot)
  with block_ok_start(4) [OF ok] show ?thesis by (auto simp: unat_eq_zero)
qed

lemma useConsecutivePages_cases:
  assumes "useConsecutivePages rem0 n al s = (p, s')"
  obtains (full) "p = NULL" and "s' = s"
    and "\<And>q. q \<in> set (mm_pages s) \<Longrightarrow> urem rem0 q al = 0 \<Longrightarrow> \<exists>r \<in> set (run_pages n q). isPageUsed r s"
  | (got) "p \<in> set (mm_pages s)" and "urem rem0 p al = 0" and "\<And>q. q \<in> set (run_pages n p) \<Longrightarrow> \<not> isPageUsed q s"
    and "s' = fold (\<lambda>q. setPageUsedBit q True) (run_pages n p) s"
proof (cases "List.find (\<lambda>q. urem rem0 q al = 0 \<and> list_all (\<lambda>r. \<not> isPageUsed r s) (run_pages n q)) (mm_pages s)")
  case None
  with assms have "p = NULL" "s' = s" by (simp_all add: useConsecutivePages_def mm_pages_def)
  moreover from None have "\<exists>r \<in> set (run_pages n q). isPageUsed r s" if "q \<in> set (mm_pages s)" "urem rem0 q al = 0" for q
    using that by (auto simp: find_None_iff list_all_iff)
  ultimately show ?thesis by (rule full)
next
  case (Some q)
  with assms have e: "p = q" "s' = fold (\<lambda>q. setPageUsedBit q True) (run_pages n p) s"
    by (auto simp: useConsecutivePages_def mm_pages_def)
  from Some have "q \<in> set (mm_pages s)" "urem rem0 q al = 0" "list_all (\<lambda>r. \<not> isPageUsed r s) (run_pages n q)"
    by (auto simp: find_Some_iff)
  with e show ?thesis by (intro got) (auto simp: list_all_iff)
qed

text \<open>
  C10. A run \<open>useConsecutivePages\<close> hands out starts at a page of a block that satisfies the
  alignment, all its pages are aligned, were unused and lie in memory the blocks own;
  afterwards each of them is used, unless it is the one behind a block of 128 pages, which has no
  bit. No other page changes its state.
\<close>

theorem useConsecutivePages_sound:
  assumes "pm_inv s" and "useConsecutivePages rem0 n al s = (p, s')" and "p \<noteq> NULL"
  shows "p \<in> set (mm_pages s) \<and> urem rem0 p al = 0
    \<and> list_all (\<lambda>q. page_aligned q \<and> \<not> isPageUsed q s \<and> owned s q
                  \<and> (isPageUsed q s' \<or> q \<notin> set (tracked_pages s))) (run_pages n p)
    \<and> (\<forall>q. page_aligned q \<and> q \<notin> set (run_pages n p) \<longrightarrow> isPageUsed q s' = isPageUsed q s)
    \<and> pm_inv s' \<and> mm_pages s' = mm_pages s"
  using assms(2)
proof (cases rule: useConsecutivePages_cases)
  case full
  with assms(3) show ?thesis by simp
next
  case got
  have al: "page_aligned q" if "q \<in> set (run_pages n p)" for q
    using that mm_pages_aligned [OF assms(1) got(1)] run_pages_aligned by blast
  note eff = set_pages_effect [OF assms(1), where v = True and ps = "run_pages n p", folded got(4)]
  have f: "same_frames s s'" using eff al by blast
  then have "pm_inv s'" "mm_pages s' = mm_pages s"
    using assms(1) same_frames_inv same_frames_pages by auto
  then show ?thesis
    using got al eff unused_owned [OF assms(1)] by (auto simp: list_all_iff)
qed

lemma free_used_run:
  assumes "pm_inv s" and "useConsecutivePages rem0 n al s = (p, s')" and "p \<noteq> NULL" and "page_aligned q"
  shows "isPageUsed q (freeConsecutivePages p n s') = isPageUsed q s"
  using assms(2)
proof (cases rule: useConsecutivePages_cases)
  case full
  with assms(3) show ?thesis by simp
next
  case got
  have al: "\<forall>q \<in> set (run_pages n p). page_aligned q"
    using mm_pages_aligned [OF assms(1) got(1)] run_pages_aligned by blast
  note eff = set_pages_effect [OF assms(1) al, where v = True, folded got(4)]
  have f: "same_frames s s'" using eff by blast
  then have i: "pm_inv s'" and t: "tracked_pages s' = tracked_pages s"
    using assms(1) same_frames_inv same_frames_tracked by auto
  show ?thesis
    using set_pages_effect [OF i al, where q = q and v = False] eff [of q] assms(4) got(3)
    by (auto simp: freeConsecutivePages_def t)
qed

text \<open>
  Freeing the run just handed out restores the state of every page: \<open>freeConsecutivePages\<close>
  is the inverse of \<open>useConsecutivePages\<close>.
\<close>

theorem free_useConsecutivePages:
  assumes "pm_inv s" and "useConsecutivePages rem0 n al s = (p, s')" and "p \<noteq> NULL" and "page_aligned q"
  shows "isPageUsed q (freeConsecutivePages p n s') = isPageUsed q s"
  by (rule free_used_run [OF assms])

text \<open>
  The accessors take the page behind a block for one of its pages. So on a block of \<open>size\<close>
  pages without any page in use a run of \<open>size + 1\<close> pages is handed out.
\<close>

theorem useConsecutivePages_overrun:
  assumes "pm_inv s" and "k < blockindex s" and "0 < unat (pb_size (pages s ! k))"
    and "\<And>a. a \<le> unat (pb_size (pages s ! k)) \<Longrightarrow> \<not> isPageUsed (slot (pages s ! k) a) s"
    and "urem rem0 (pb_start (pages s ! k)) al = 0"
  shows "fst (useConsecutivePages rem0 (pb_size (pages s ! k) + 1) al s) \<noteq> NULL"
proof -
  let ?b = "pages s ! k"
  note ok = pm_inv_block [OF assms(1,2)]
  obtain p s' where r: "useConsecutivePages rem0 (pb_size ?b + 1) al s = (p, s')" by (cases "useConsecutivePages rem0 (pb_size ?b + 1) al s")
  have n: "unat (pb_size ?b + 1) = unat (pb_size ?b) + 1" using ok by (simp add: block_ok_def word_arith_simps)
  have first: "slot ?b 0 \<in> set (mm_pages s)" "slot ?b 0 = pb_start ?b"
    using assms(2,3) set_mm_pages [OF assms(1)] by blast (simp add: slot_def)
  have "set (run_pages (pb_size ?b + 1) (slot ?b 0)) = slot ?b ` {..unat (pb_size ?b)}"
    by (simp add: run_pages_def n slot_def atLeast0LessThan lessThan_Suc_atMost del: upt_Suc)
  then have free: "\<not> (\<exists>q \<in> set (run_pages (pb_size ?b + 1) (slot ?b 0)). isPageUsed q s)"
    using assms(4) by auto
  from r show ?thesis
  proof (cases rule: useConsecutivePages_cases)
    case full
    then show ?thesis using first free assms(5) by force
  next
    case got
    then show ?thesis using r mm_pages_not_NULL [OF assms(1)] by simp
  qed
qed

section \<open>Adding and removing blocks\<close>

text \<open>The table at start-up: \<open>pages\<close> and \<open>blockindex\<close> are zero-initialised.\<close>

definition mm_boot :: phys_mm where
  "mm_boot = \<lparr>blockindex = 0,
     pages = replicate MAXPAGEBLOCKS \<lparr>pb_unaligned = 0, pb_start = 0, pb_size = 0, pb_used = 0, pb_used2 = 0,
       pb_dirty = 0, pb_dirty2 = 0, pb_pageout = 0, pb_pageout2 = 0\<rparr>,
     ti_freed = []\<rparr>"

lemma pm_inv_boot: "pm_inv mm_boot"
  by (simp add: pm_inv_def mm_boot_def live_def)

text \<open>
  What \<open>ti_malloc\<close> promises for a request of \<open>size + 3\<close> pages: the region does not wrap around
  and does not overlap a region that is still allocated.
\<close>

definition fresh_region :: "addr \<Rightarrow> u32 \<Rightarrow> phys_mm \<Rightarrow> bool" where
  "fresh_region p n s \<longleftrightarrow> unat p + 4096 * (unat n + 3) \<le> 4294967296
     \<and> list_all (\<lambda>b. unat p + 4096 * (unat n + 3) \<le> unat (pb_unaligned b)
                     \<or> unat (pb_unaligned b) + 4096 * (unat (pb_size b) + 3) \<le> unat p) (live s)"

definition new_block :: "addr \<Rightarrow> u32 \<Rightarrow> pageblock" where
  "new_block p n = \<lparr>pb_unaligned = p, pb_start = makeSmallPageAligned p, pb_size = n,
     pb_used = 0, pb_used2 = 0, pb_dirty = 0, pb_dirty2 = 0, pb_pageout = 0, pb_pageout2 = 0\<rparr>"

lemma allocPageblock_cases:
  assumes "allocPageblock m n s = (ok, s')"
  obtains (refused) "\<not> ok" and "s' = s"
  | (given_back) "\<not> ok" and "s' = ti_free (m (SMALL_PAGE_SIZE * (n + 3))) s" and "196 \<le> blockindex s"
  | (added) p where "ok" and "p = m (SMALL_PAGE_SIZE * (n + 3))" and "p \<noteq> NULL" and "n \<le> 128"
      and "blockindex s < 196"
      and "s' = s\<lparr>pages := (pages s)[blockindex s := new_block p n], blockindex := blockindex s + 1\<rparr>"
  using assms
  by (auto simp: allocPageblock_def Let_def addPageBlock_def new_block_def not_less split: if_splits)

lemma live_added:
  "blockindex s < length (pages s) \<Longrightarrow>
    live (s\<lparr>pages := (pages s)[blockindex s := b], blockindex := blockindex s + 1\<rparr>) = live s @ [b]"
  by (simp add: live_def take_Suc_conv_app_nth)

lemma ti_free_simps [simp]:
  "blockindex (ti_free p s) = blockindex s" "pages (ti_free p s) = pages s" "live (ti_free p s) = live s"
  "ti_freed (ti_free p s) = ti_freed s @ [p]"
  by (simp_all add: ti_free_def live_def)

lemma pm_inv_ti_free [simp]: "pm_inv (ti_free p s) = pm_inv s"
  by (simp add: pm_inv_def)

lemma allocPageblock_spec:
  assumes "pm_inv s" and "allocPageblock m n s = (ok, s')"
    and "m (SMALL_PAGE_SIZE * (n + 3)) \<noteq> NULL \<Longrightarrow> fresh_region (m (SMALL_PAGE_SIZE * (n + 3))) n s"
  shows "pm_inv s' \<and>
    live s' = (if ok then live s @ [new_block (m (SMALL_PAGE_SIZE * (n + 3))) n] else live s) \<and>
    (ok \<longleftrightarrow> n \<le> 128 \<and> m (SMALL_PAGE_SIZE * (n + 3)) \<noteq> NULL \<and> blockindex s < 196)"
  using assms(2)
proof (cases rule: allocPageblock_cases)
  case refused
  with assms(1,2) show ?thesis
    by (auto simp: allocPageblock_def Let_def addPageBlock_def split: if_splits)
next
  case given_back
  with assms(1) show ?thesis by simp
next
  case (added p)
  have l: "live s' = live s @ [new_block p n]"
    unfolding added(6) by (rule live_added) (use added(5) assms(1) in \<open>simp add: pm_inv_def\<close>)
  from added assms(3) have fr: "fresh_region p n s" by simp
  have "block_ok (new_block p n)"
    using fr added(3,4) by (simp add: block_ok_def new_block_def fresh_region_def unat_le_u32)
  moreover have "\<forall>b \<in> set (live s). apart b (new_block p n)"
    using fr by (auto simp: fresh_region_def apart_def new_block_def list_all_iff)
  moreover have "length (pages s') = 200" "blockindex s' \<le> 196"
    using added(5,6) assms(1) by (simp_all add: pm_inv_def)
  ultimately have "pm_inv s'" using assms(1) by (simp add: pm_inv_def l sorted_wrt_append)
  with l added show ?thesis by simp
qed

text \<open>
  A new block enters the table with all its pages unused, behind the blocks that are there
  and apart from them, which keep their state; a request that fails leaves the table as it was.
\<close>

theorem allocPageblock_correct:
  assumes "pm_inv s" and "allocPageblock m n s = (ok, s')"
    and "m (SMALL_PAGE_SIZE * (n + 3)) \<noteq> NULL \<Longrightarrow> fresh_region (m (SMALL_PAGE_SIZE * (n + 3))) n s"
  shows "pm_inv s' \<and>
    live s' = (if ok then live s @ [new_block (m (SMALL_PAGE_SIZE * (n + 3))) n] else live s) \<and>
    (ok \<longleftrightarrow> n \<le> 128 \<and> m (SMALL_PAGE_SIZE * (n + 3)) \<noteq> NULL \<and> blockindex s < 196)"
  by (rule allocPageblock_spec [OF assms])

lemma sorted_wrt_remove_first: "sorted_wrt R xs \<Longrightarrow> sorted_wrt R (remove_first P xs)"
  using set_remove_first_subset [of P] by (induction xs) auto

lemma removePageblock_from_eq:
  assumes "blockindex s < length (pages s)" and "i \<le> blockindex s"
    and "\<forall>j<i. pb_unaligned (pages s ! j) \<noteq> pb_unaligned b"
  shows "live (removePageblock_from i b s) = remove_first (\<lambda>c. pb_unaligned c = pb_unaligned b) (live s)
    \<and> length (pages (removePageblock_from i b s)) = length (pages s)
    \<and> blockindex (removePageblock_from i b s) \<le> blockindex s
    \<and> ti_freed (removePageblock_from i b s) = ti_freed s"
  using assms
proof (induction i b s rule: removePageblock_from.induct)
  case (1 i b s)
  let ?P = "\<lambda>c. pb_unaligned c = pb_unaligned b"
  show ?case
  proof (cases "i < blockindex s \<and> ?P (pages s ! i)")
    case True
    let ?s = "s\<lparr>pages := shift_down i (blockindex s - 1) (pages s), blockindex := blockindex s - 1\<rparr>"
    from True have r: "removePageblock_from i b s = ?s" by (simp add: removePageblock_from.simps)
    have "remove_first ?P (live s) = take i (live s) @ drop (Suc i) (live s)"
      using True 1(2,4) by (intro remove_first_split) (auto simp: live_def)
    moreover have "live ?s = take i (live s) @ drop (Suc i) (live s)"
      using True 1(2) take_shift_down [of i "blockindex s - 1" "pages s"] by (auto simp: live_def min_def)
    ultimately show ?thesis by (simp add: r)
  next
    case False
    show ?thesis
    proof (cases "i < blockindex s")
      case True
      with False have "removePageblock_from i b s = removePageblock_from (Suc i) b s"
        by (simp add: removePageblock_from.simps [of i])
      with 1 True False show ?thesis by (simp add: less_Suc_eq)
    next
      case ge: False
      then have "remove_first ?P (live s) = live s"
        using 1(2-4) by (intro remove_first_none) (auto simp: live_def in_set_conv_nth)
      with ge show ?thesis by (simp add: removePageblock_from.simps)
    qed
  qed
qed

text \<open>
  \<open>removePageblock\<close> closes the gap in the array: on the live blocks it is the removal of the
  first block with that pointer, and a block that is not there changes nothing.
\<close>

theorem removePageblock_refines:
  assumes "pm_inv s"
  shows "live (removePageblock b s) = remove_first (\<lambda>c. pb_unaligned c = pb_unaligned b) (live s)
    \<and> pm_inv (removePageblock b s)"
proof -
  have "blockindex s < length (pages s)" using assms by (simp add: pm_inv_def)
  note e = removePageblock_from_eq [OF this, of 0 b, folded removePageblock_def, simplified]
  have "list_all block_ok (remove_first P (live s))" for P
    using assms set_remove_first_subset [of P "live s"] by (auto simp: pm_inv_def list_all_iff)
  then show ?thesis using e assms by (simp add: pm_inv_def sorted_wrt_remove_first)
qed

lemma removePageblock_freed: "pm_inv s \<Longrightarrow> ti_freed (removePageblock b s) = ti_freed s"
  using removePageblock_from_eq [of s 0 b] by (simp add: pm_inv_def removePageblock_def)

lemma freePageblock_first:
  assumes "pm_inv s" and "live s = b # bs"
  shows "live (freePageblock (pages s ! 0) s) = bs \<and> pm_inv (freePageblock (pages s ! 0) s)
    \<and> ti_freed (freePageblock (pages s ! 0) s) = ti_freed s @ [pb_unaligned b]"
proof -
  from assms have "blockindex s \<noteq> 0" "pages s ! 0 = b"
    using length_live [of s] live_nth [of 0 s] by auto
  then show ?thesis
    using removePageblock_from_eq [of s 0 b] assms sorted_wrt_remove_first
    by (auto simp: freePageblock_def removePageblock_def [symmetric] removePageblock_freed pm_inv_def list_all_iff)
qed

text \<open>
  \<open>freeAllPageblocks\<close> ends, leaves the table empty and gives each region back to the TI OS
  once, in the order of the table.
\<close>

theorem freeAllPageblocks_correct:
  assumes "pm_inv s"
  shows "blockindex (freeAllPageblocks s) = 0
    \<and> ti_freed (freeAllPageblocks s) = ti_freed s @ map pb_unaligned (live s)"
proof -
  have "pm_inv s \<Longrightarrow> live s = bs \<Longrightarrow> blockindex (freeAllPageblocks s) = 0
      \<and> ti_freed (freeAllPageblocks s) = ti_freed s @ map pb_unaligned bs" for bs
  proof (induction bs arbitrary: s)
    case Nil
    then have "blockindex s = 0" using length_live [of s] by simp
    then show ?case by (simp add: freeAllPageblocks.simps)
  next
    case (Cons b bs)
    then have "blockindex s \<noteq> 0" using length_live [of s] by auto
    then have "freeAllPageblocks s = freeAllPageblocks (freePageblock (pages s ! 0) s)"
      by (subst freeAllPageblocks.simps) simp
    with Cons.IH [of "freePageblock (pages s ! 0) s"] freePageblock_first [OF Cons.prems] show ?case by simp
  qed
  with assms show ?thesis by blast
qed

section \<open>The dirty and paged-out bits\<close>

lemma update_other_bits:
  assumes "pm_inv s" and "page_aligned p" and "p \<in> set (tracked_pages s)"
  obtains k a where "k < blockindex s" and "a \<le> unat (pb_size (pages s ! k))" and "a < 128"
    and "p = slot (pages s ! k) a" and "in_block p (pages s ! k)" and "page_offset p (pages s ! k) = of_nat a"
    and "\<forall>f. update_blocks p f s = s\<lparr>pages := (pages s)[k := f (pages s ! k)]\<rparr>"
proof -
  from assms(3) obtain k a where k: "k < blockindex s" "a \<le> unat (pb_size (pages s ! k))" "a < 128" "p = slot (pages s ! k) a"
    by (auto simp: set_tracked_pages assms(1))
  note ok = pm_inv_block [OF assms(1) k(1)]
  have i: "in_block p (pages s ! k)" using in_block_slot [OF ok k(2)] k(4) by simp
  show ?thesis
    using that [OF k i] page_offset_slot [OF ok k(2)] update_blocks_hit [OF assms(1) k(1) i] k(4) by simp
qed

text \<open>
  The dirty and the paged-out bit of a page read back what was last written, and writing
  one kind of bit changes neither the other two kinds nor the frames of the blocks.
\<close>

theorem page_flags_roundtrip:
  assumes "pm_inv s" and "p \<in> set (tracked_pages s)"
  shows "isPageDirty p (setPageDirtyBit p v s) = v \<and> isPagedOut p (setPageDirtyBit p v s) = isPagedOut p s
    \<and> isPageUsed p (setPageDirtyBit p v s) = isPageUsed p s
    \<and> isPagedOut p (setPagedOutBit p v s) = v \<and> isPageDirty p (setPagedOutBit p v s) = isPageDirty p s
    \<and> isPageUsed p (setPagedOutBit p v s) = isPageUsed p s
    \<and> pm_inv (setPageDirtyBit p v s) \<and> pm_inv (setPagedOutBit p v s)"
proof -
  have al: "page_aligned p" using assms page_aligned_slot pm_inv_block by (auto simp: set_tracked_pages)
  obtain k a where k: "k < blockindex s" "a \<le> unat (pb_size (pages s ! k))" "a < 128" "p = slot (pages s ! k) a"
      "in_block p (pages s ! k)" "page_offset p (pages s ! k) = of_nat a"
    and upd: "\<forall>f. update_blocks p f s = s\<lparr>pages := (pages s)[k := f (pages s ! k)]\<rparr>"
    by (rule update_other_bits [OF assms(1) al assms(2)])
  have found: "List.find (in_block p) (live t) = Some b"
    if "t = s\<lparr>pages := (pages s)[k := b]\<rparr>" "frame_of b = frame_of (pages s ! k)" for t b
  proof -
    have "same_frames s t" unfolding that(1) by (rule same_frames_update [OF assms(1) k(1) that(2)])
    then have "pm_inv t" using assms(1) by (rule same_frames_inv)
    moreover have "pages t ! k = b" using that(1) k(1) assms(1) by (simp add: pm_inv_def)
    ultimately show ?thesis
      using find_block [of t k p] k(1,5) that in_block_frame [OF that(2)] by simp
  qed
  have inv: "pm_inv (s\<lparr>pages := (pages s)[k := b]\<rparr>)" if "frame_of b = frame_of (pages s ! k)" for b
    using same_frames_inv [OF same_frames_update [OF assms(1) k(1) that] assms(1)] .
  note fs = find_block [OF assms(1) k(1,5)]
  let ?b = "pages s ! k"
  have d: "setPageDirtyBit p v s = s\<lparr>pages := (pages s)[k := ?b\<lparr>pb_dirty := fst (put128 (pb_dirty ?b, pb_dirty2 ?b) a v),
      pb_dirty2 := snd (put128 (pb_dirty ?b, pb_dirty2 ?b) a v)\<rparr>]\<rparr>" (is "_ = s\<lparr>pages := (pages s)[k := ?d]\<rparr>")
    by (simp add: setPageDirtyBit_def upd k(6) put128_def split_beta Let_def)
  have o: "setPagedOutBit p v s = s\<lparr>pages := (pages s)[k := ?b\<lparr>pb_pageout := fst (put128 (pb_pageout ?b, pb_pageout2 ?b) a v),
      pb_pageout2 := snd (put128 (pb_pageout ?b, pb_pageout2 ?b) a v)\<rparr>]\<rparr>" (is "_ = s\<lparr>pages := (pages s)[k := ?o]\<rparr>")
    by (simp add: setPagedOutBit_def upd k(6) put128_def split_beta Let_def)
  have fd: "frame_of ?d = frame_of ?b" "frame_of ?o = frame_of ?b" by (simp_all add: frame_of_def)
  note fnd = found [OF d fd(1)] found [OF o fd(2)]
  have off: "page_offset p ?d = of_nat a" "page_offset p ?o = of_nat a"
    using k(6) by (simp_all add: page_offset_def)
  have rb: "getBit128 (fst (put128 u a v)) (snd (put128 u a v)) (of_nat a) = 1 \<longleftrightarrow> v" for u
    using get128_put128 [of a a u v] k(3) by (simp add: get128_def)
  show ?thesis
    using inv [OF fd(1)] inv [OF fd(2)]
    by (simp add: isPageDirty_def isPagedOut_def isPageUsed_def fnd off fs k(6) rb d [symmetric] o [symmetric])
qed

section \<open>Reachable tables\<close>

lemma update_blocks_frames:
  assumes "pm_inv s" and "\<And>b. frame_of (f b) = frame_of b"
  shows "same_frames s (update_blocks p f s)"
proof -
  have "blockindex s \<le> length (pages s)" using assms(1) by (simp add: pm_inv_def)
  then show ?thesis
    using assms(2) by (auto simp: same_frames_def update_blocks_def live_def nth_append)
qed

lemma flag_setters_inv:
  assumes "pm_inv s"
  shows "pm_inv (setPageUsedBit p v s)" and "pm_inv (setPageDirtyBit p v s)" and "pm_inv (setPagedOutBit p v s)"
  unfolding setPageUsedBit_def setPageDirtyBit_def setPagedOutBit_def
  by (rule same_frames_inv [OF update_blocks_frames [OF assms] assms], simp add: frame_of_def Let_def split_beta)+

lemma fold_used_inv: "pm_inv s \<Longrightarrow> pm_inv (fold (\<lambda>p. setPageUsedBit p v) ps s)"
  by (induction ps arbitrary: s) (simp_all add: flag_setters_inv)

lemma freeAllPageblocks_inv: "pm_inv s \<Longrightarrow> pm_inv (freeAllPageblocks s)"
proof (induction s rule: freeAllPageblocks.induct)
  case (1 s)
  show ?case
  proof (cases "live s")
    case Nil
    with 1(2) show ?thesis using length_live [of s] by (simp add: freeAllPageblocks.simps)
  next
    case (Cons b bs)
    with 1(2) have "blockindex s \<noteq> 0" using length_live [of s] by auto
    with 1 freePageblock_first [OF 1(2) Cons] show ?thesis by (subst freeAllPageblocks.simps) simp
  qed
qed

text \<open>
  The calls the rest of the kernel can make, in any order. The region \<open>p\<close> of a new block is the
  answer of \<open>ti_malloc\<close>.
\<close>

inductive mm_step :: "phys_mm \<Rightarrow> phys_mm \<Rightarrow> bool" where
  alloc: "\<lbrakk>allocPageblock (\<lambda>_. p) n s = (ok, s'); p \<noteq> NULL \<longrightarrow> fresh_region p n s\<rbrakk> \<Longrightarrow> mm_step s s'"
| use: "usePage s = (p, s') \<Longrightarrow> mm_step s s'"
| use_run: "useConsecutivePages rem0 n al s = (p, s') \<Longrightarrow> mm_step s s'"
| free_run: "mm_step s (freeConsecutivePages p n s)"
| set_used_bit: "mm_step s (setPageUsedBit p v s)"
| set_dirty_bit: "mm_step s (setPageDirtyBit p v s)"
| set_pageout_bit: "mm_step s (setPagedOutBit p v s)"
| free_all: "mm_step s (freeAllPageblocks s)"

lemma usePage_inv: "pm_inv s \<Longrightarrow> pm_inv (snd (usePage s))"
proof (cases rule: usePage_cases [of s])
  case (got k a)
  then show "pm_inv s \<Longrightarrow> ?thesis"
    using same_frames_inv [OF same_frames_update [OF _ got(1) frame_set_used]] by simp
qed simp

lemma useConsecutivePages_inv: "pm_inv s \<Longrightarrow> useConsecutivePages rem0 n al s = (p, s') \<Longrightarrow> pm_inv s'"
  by (erule useConsecutivePages_cases) (simp_all add: fold_used_inv)

lemma mm_step_inv: "mm_step s s' \<Longrightarrow> pm_inv s \<Longrightarrow> pm_inv s'"
proof (induction rule: mm_step.induct)
  case (alloc p n s ok s')
  then show ?case using allocPageblock_spec [of s "\<lambda>_. p" n ok s'] by simp
next
  case (use s p s')
  then show ?case using usePage_inv [of s] by simp
qed (simp_all add: useConsecutivePages_inv flag_setters_inv freeConsecutivePages_def fold_used_inv freeAllPageblocks_inv)

inductive mm_reachable :: "phys_mm \<Rightarrow> bool" where
  boot: "mm_reachable mm_boot"
| step: "mm_reachable s \<Longrightarrow> mm_step s s' \<Longrightarrow> mm_reachable s'"

text \<open>
  C5. Whatever the order of calls, the block table stays well formed: at most 196 live blocks,
  every block page-aligned inside its own region, no two regions overlapping.
\<close>

theorem mm_reachable_inv: "mm_reachable s \<Longrightarrow> pm_inv s"
  by (induction rule: mm_reachable.induct) (auto intro: pm_inv_boot mm_step_inv)

section \<open>Examples\<close>

text \<open>A table with one block of three pages, in a region that is not page-aligned.\<close>

definition mm_example :: phys_mm where
  "mm_example = snd (allocPageblock (\<lambda>_. 0x10000004) 3 mm_boot)"

lemma mm_example_alloc: "allocPageblock (\<lambda>_. 0x10000004) 3 mm_boot = (True, mm_example)"
proof -
  have "fst (allocPageblock (\<lambda>_. 0x10000004) 3 mm_boot)" by code_simp
  then show ?thesis by (simp add: mm_example_def prod_eq_iff)
qed

lemma mm_example_region: "fresh_region 0x10000004 3 mm_boot"
  by (simp add: fresh_region_def live_def mm_boot_def)

lemma mm_example_live: "live mm_example = [new_block 0x10000004 3]" and mm_example_inv: "pm_inv mm_example"
  using allocPageblock_spec [OF pm_inv_boot mm_example_alloc] mm_example_region
  by (simp_all add: live_def mm_boot_def)

lemma mm_example_facts:
  "no_stray mm_example" "blockindex mm_example = 1" "pages mm_example ! 0 = new_block 0x10000004 3"
proof -
  show "no_stray mm_example"
    by (simp add: no_stray_def mm_example_live list_all_iff used_at_def new_block_def get128_eq)
  show b: "blockindex mm_example = 1" using length_live [OF mm_example_inv] by (simp add: mm_example_live)
  show "pages mm_example ! 0 = new_block 0x10000004 3" using live_nth [of 0 mm_example] by (simp add: b mm_example_live)
qed

lemma mm_example_use: "usePage mm_example = (0x10001000, snd (usePage mm_example))"
proof -
  have "fst (usePage mm_example) = 0x10001000" by code_simp
  then show ?thesis by (simp add: prod_eq_iff)
qed

lemma mm_example_run:
  "useConsecutivePages (\<lambda>a. 0) 2 0x2000 mm_example = (0x10002000, snd (useConsecutivePages (\<lambda>a. 0) 2 0x2000 mm_example))"
proof -
  have "fst (useConsecutivePages (\<lambda>a. 0) 2 0x2000 mm_example) = 0x10002000" by code_simp
  then show ?thesis by (simp add: prod_eq_iff)
qed

lemma usePage_sound_witness:
  "0x10001000 \<in> set (mm_pages mm_example) \<and> \<not> isPageUsed 0x10001000 mm_example
    \<and> isPageUsed 0x10001000 (snd (usePage mm_example)) \<and> pm_inv (snd (usePage mm_example))"
  using usePage_sound [OF mm_example_inv mm_example_use] by simp

lemma usePage_complete_witness:
  "\<not> list_all (\<lambda>q. isPageUsed q mm_example) (mm_pages mm_example)"
  using usePage_complete [OF mm_example_inv mm_example_facts(1)] arg_cong [OF mm_example_use, of fst] by simp

lemma useConsecutivePages_sound_witness:
  "0x10002000 \<in> set (mm_pages mm_example)
    \<and> list_all (\<lambda>q. \<not> isPageUsed q mm_example) (run_pages 2 0x10002000)
    \<and> pm_inv (snd (useConsecutivePages (\<lambda>a. 0) 2 0x2000 mm_example))"
  using useConsecutivePages_sound [OF mm_example_inv mm_example_run] by (simp add: list_all_iff)

lemma free_useConsecutivePages_witness:
  "isPageUsed 0x10003000 (freeConsecutivePages 0x10002000 2 (snd (useConsecutivePages (\<lambda>a. 0) 2 0x2000 mm_example)))
    = isPageUsed 0x10003000 mm_example"
  by (rule free_useConsecutivePages [OF mm_example_inv mm_example_run]) (simp_all add: page_aligned_def)

lemma mm_example_unused: "list_all (\<lambda>a. \<not> isPageUsed (slot (pages mm_example ! 0) a) mm_example) [0..<4]"
  by code_simp

lemma useConsecutivePages_overrun_witness:
  "fst (useConsecutivePages (\<lambda>a. 0) 4 0x1000 mm_example) \<noteq> NULL"
proof -
  have s: "pb_size (pages mm_example ! 0) = 3" "pb_start (pages mm_example ! 0) = 0x10001000"
    by (simp_all add: mm_example_facts(3) new_block_def makeSmallPageAligned_def)
  have "fst (useConsecutivePages (\<lambda>a. 0) (pb_size (pages mm_example ! 0) + 1) 0x1000 mm_example) \<noteq> NULL"
    by (rule useConsecutivePages_overrun [OF mm_example_inv])
      (use mm_example_unused in \<open>auto simp: s mm_example_facts(2) urem_def list_all_iff\<close>)
  then show ?thesis by (simp add: s)
qed

lemma allocPageblock_correct_witness: "live mm_example = live mm_boot @ [new_block 0x10000004 3]"
  using allocPageblock_correct [OF pm_inv_boot mm_example_alloc] mm_example_region by simp

lemma removePageblock_refines_witness: "live (removePageblock (new_block 0x10000004 3) mm_example) = []"
proof -
  have "remove_first (\<lambda>c. pb_unaligned c = pb_unaligned (new_block 0x10000004 3)) (live mm_example) = []"
    by code_simp
  then show ?thesis using removePageblock_refines [OF mm_example_inv] by simp
qed

lemma freeAllPageblocks_correct_witness: "ti_freed (freeAllPageblocks mm_example) = [0x10000004]"
proof -
  have "ti_freed mm_example @ map pb_unaligned (live mm_example) = [0x10000004]" by code_simp
  then show ?thesis using freeAllPageblocks_correct [OF mm_example_inv] by simp
qed

lemma page_flags_roundtrip_witness: "isPageDirty 0x10003000 (setPageDirtyBit 0x10003000 True mm_example)"
proof -
  have "0x10003000 \<in> set (tracked_pages mm_example)" by code_simp
  from page_flags_roundtrip [OF mm_example_inv this, of True] show ?thesis by simp
qed

lemma mm_reachable_inv_witness: "pm_inv (snd (usePage mm_example))"
proof -
  have "mm_reachable mm_example"
    using mm_example_region by (intro step [OF boot] alloc [OF mm_example_alloc]) simp
  then have "mm_reachable (snd (usePage mm_example))" by (rule step) (rule use [OF mm_example_use])
  then show ?thesis by (rule mm_reachable_inv)
qed

end
