(* ===== verification/Page_Tables.thy ===== *)
theory Page_Tables
  imports Linked_List Phys_MM
begin

text \<open>
  The descriptors of the ARM page tables and the software walk over them, from
  kernel/memory/virtual_MM.c, and the state of the virtual memory manager.

  The tables are words of the physical memory \<open>ram\<close>. The kernel reaches them through virtual
  addresses; the address translation of the processor is the parameter \<open>mmu\<close>. The lists of the
  manager live in the heap of \<open>Linked_List\<close>, the fields of \<open>struct address_space\<close> in maps of
  their own. The objects the slab allocator hands out next are the lists \<open>free_entries\<close>,
  \<open>free_cpts\<close>, \<open>free_tts\<close> and \<open>free_spaces\<close>; an empty one makes it return NULL. The TLB
  and the caches are not modelled.
\<close>

section \<open>Descriptors\<close>

definition newCPTD :: "u8 \<Rightarrow> u32 \<Rightarrow> u32" where
  "newCPTD domain base_address =
     0x11 OR push_bit 5 (ucast domain AND 0xF) OR (base_address AND NOT 0x3FF)"

definition newSD :: "u8 \<Rightarrow> u8 \<Rightarrow> u8 \<Rightarrow> u8 \<Rightarrow> u32 \<Rightarrow> u32" where
  "newSD c b domain ap base_address =
     0x12 OR push_bit 3 (ucast c AND 1) OR push_bit 2 (ucast b AND 1) OR push_bit 5 (ucast domain AND 0xF)
       OR push_bit 10 (ucast ap AND 3) OR (base_address AND NOT 0xFFFFF)"

definition newLPD :: "u8 \<Rightarrow> u8 \<Rightarrow> u8 \<Rightarrow> u32 \<Rightarrow> u32" where
  "newLPD c b ap base_address =
     1 OR push_bit 3 (ucast c AND 1) OR push_bit 2 (ucast b AND 1) OR push_bit 4 (ucast ap) OR (base_address AND 0xFFFF0000)"

definition newSPD :: "u8 \<Rightarrow> u8 \<Rightarrow> u8 \<Rightarrow> u32 \<Rightarrow> u32" where
  "newSPD c b ap base_address =
     2 OR push_bit 3 (ucast c AND 1) OR push_bit 2 (ucast b AND 1) OR push_bit 4 (ucast ap) OR (base_address AND 0xFFFFF000)"

section \<open>State\<close>

record vm =
  ram :: "addr \<Rightarrow> u32"
  heap :: ll_heap
  sp_tt :: "addr \<Rightarrow> addr"
  sp_cpts :: "addr \<Rightarrow> addr"
  sp_cptds :: "addr \<Rightarrow> addr"
  kernel_space :: addr
  address_spaces :: addr
  ttbr :: u32
  saved_tt :: u32
  free_entries :: "addr list"
  free_cpts :: "addr list"
  free_tts :: "addr list"
  free_spaces :: "addr list"
  mm :: phys_mm

abbreviation (input) remapped_RAM :: addr where "remapped_RAM \<equiv> 0xec000000"
abbreviation (input) old_RAM :: addr where "old_RAM \<equiv> 0x10000000"

definition load :: "(addr \<Rightarrow> addr) \<Rightarrow> addr \<Rightarrow> vm \<Rightarrow> u32" where
  "load mmu p s = ram s (mmu p)"

definition store :: "(addr \<Rightarrow> addr) \<Rightarrow> addr \<Rightarrow> u32 \<Rightarrow> vm \<Rightarrow> vm" where
  "store mmu p v s = s\<lparr>ram := (ram s)(mmu p := v)\<rparr>"

section \<open>The software walk\<close>

definition getPhysicalAddress :: "(addr \<Rightarrow> addr) \<Rightarrow> addr \<Rightarrow> addr \<Rightarrow> vm \<Rightarrow> addr" where
  "getPhysicalAddress mmu space adr s =
     (let descriptor = load mmu (sp_tt s space + 4 * drop_bit 20 adr) s
      in if descriptor AND 3 = 0 then NULL
         else if descriptor AND 3 = 2 then
           let section_base = push_bit 20 (drop_bit 20 descriptor)
           in section_base + drop_bit 12 (push_bit 12 adr)
         else if descriptor AND 3 = 1 then
           let cpt_base = descriptor AND NOT 0x3FF;
               index = drop_bit 10 (adr AND 0xFF000) div 4;
               page_descriptor = load mmu (cpt_base - old_RAM + remapped_RAM + 4 * index) s
           in if page_descriptor AND 3 = 1 then (page_descriptor AND NOT 0xFFFF) + (adr AND 0xFFFF)
              else if page_descriptor AND 3 = 2 then (page_descriptor AND NOT 0xFFF) + (adr AND 0xFFF)
              else NULL
         else NULL)"

definition getKernelPhysicalAddress :: "(addr \<Rightarrow> addr) \<Rightarrow> addr \<Rightarrow> vm \<Rightarrow> addr" where
  "getKernelPhysicalAddress mmu address s = getPhysicalAddress mmu (kernel_space s) address s"

section \<open>Masks and shifts of addresses\<close>

lemma masks_u32:
  "(0x3FF :: u32) = mask 10" "(0xFFF :: u32) = mask 12" "(0xFFFF :: u32) = mask 16" "(0xFFFFF :: u32) = mask 20"
  "(3 :: u32) = mask 2" "(0xF :: u32) = mask 4" "(0xFF :: u32) = mask 8" "(0x3FFF :: u32) = mask 14"
  "(0xFFFFF000 :: u32) = NOT (mask 12)" "(0xFFFF0000 :: u32) = NOT (mask 16)"
  "(0xFF000 :: u32) = push_bit 12 (mask 8)"
  by (simp_all add: mask_eq_exp_minus_1)

lemma plus_disjoint: "(a :: u32) AND b = 0 \<Longrightarrow> a + b = a OR b"
  by (rule disjunctive_add_eq_or)

lemma masked_plus: "((d :: u32) AND NOT (mask n)) + (a AND mask n) = (d AND NOT (mask n)) OR (a AND mask n)"
  by (rule plus_disjoint) (rule bit_word_eqI, simp add: bit_simps)

text \<open>A field outside a mask vanishes under it; one inside is kept.\<close>

lemma push_and_mask: "j \<le> k \<Longrightarrow> push_bit k (x :: u32) AND mask j = 0"
  by (rule bit_word_eqI) (auto simp: bit_simps)

lemma clear_and_mask: "j \<le> k \<Longrightarrow> ((x :: u32) AND NOT (mask k)) AND mask j = 0"
  by (rule bit_word_eqI) (auto simp: bit_simps)

lemma clear_clear: "j \<le> k \<Longrightarrow> ((x :: u32) AND NOT (mask k)) AND NOT (mask j) = x AND NOT (mask k)"
  by (rule bit_word_eqI) (auto simp: bit_simps)

lemmas field_simps_u32 = bit.conj_disj_distrib2 push_and_mask clear_and_mask clear_clear and.assoc

lemma type_bits:
  "newCPTD d base AND 3 = 1" "newSD c b d ap base AND 3 = 2"
  "newLPD c b ap base AND 3 = 1" "newSPD c b ap base AND 3 = 2"
proof -
  have k: "(0x11 :: u32) AND mask 2 = 1" "(0x12 :: u32) AND mask 2 = 2" "(1 :: u32) AND mask 2 = 1" "(2 :: u32) AND mask 2 = 2"
    by (simp_all add: mask_eq_exp_minus_1)
  have l: "(2 :: nat) \<le> 2" "(2 :: nat) \<le> 3" "(2 :: nat) \<le> 4" "(2 :: nat) \<le> 5" "(2 :: nat) \<le> 10" "(2 :: nat) \<le> 12"
    "(2 :: nat) \<le> 16" "(2 :: nat) \<le> 20" by simp_all
  show "newCPTD d base AND 3 = 1" "newSD c b d ap base AND 3 = 2"
  "newLPD c b ap base AND 3 = 1" "newSPD c b ap base AND 3 = 2"
  unfolding newCPTD_def newSD_def newLPD_def newSPD_def masks_u32
  by (simp_all only: bit.conj_disj_distrib2 l [THEN push_and_mask] l [THEN clear_and_mask] k or.right_neutral)
qed

lemma push_clear: "k + n \<le> j \<Longrightarrow> push_bit k ((x :: u32) AND mask n) AND NOT (mask j) = 0"
  by (rule bit_word_eqI) (auto simp: bit_simps)

lemma ucast_u8_mask: "(ucast (a :: u8) :: u32) = ucast a AND mask 8"
  by (rule bit_word_eqI) (auto simp: bit_simps dest: bit_imp_le_length)

lemma push_clear1: "Suc k \<le> j \<Longrightarrow> push_bit k ((x :: u32) AND 1) AND NOT (mask j) = 0"
  using push_clear [of k 1 j x] by simp

text \<open>The address a descriptor was built from.\<close>

lemma base_bits:
  "newCPTD d base AND NOT 0x3FF = base AND NOT 0x3FF" "newSD c b d ap base AND NOT 0xFFFFF = base AND NOT 0xFFFFF"
  "newLPD c b ap base AND NOT 0xFFFF = base AND NOT 0xFFFF" "newSPD c b ap base AND NOT 0xFFF = base AND NOT 0xFFF"
proof -
  have k: "(0x11 :: u32) AND NOT (mask 10) = 0" "(0x12 :: u32) AND NOT (mask 20) = 0" "(1 :: u32) AND NOT (mask 16) = 0"
      "(2 :: u32) AND NOT (mask 12) = 0"
    by (simp_all add: mask_eq_exp_minus_1)
  have l: "5 + 4 \<le> (10 :: nat)" "5 + 4 \<le> (20 :: nat)" "10 + 2 \<le> (20 :: nat)" "4 + 8 \<le> (16 :: nat)" "4 + 8 \<le> (12 :: nat)"
    by simp_all
  have l1: "Suc 3 \<le> 20" "Suc 2 \<le> 20" "Suc 3 \<le> 16" "Suc 2 \<le> 16" "Suc 3 \<le> 12" "Suc 2 \<le> 12" by simp_all
  have i: "(x AND NOT (mask n)) AND NOT (mask n) = x AND NOT (mask n)" for x :: u32 and n by (rule clear_clear) simp
  have a: "push_bit 4 (ucast ap) AND NOT (mask 16) = (0 :: u32)" "push_bit 4 (ucast ap) AND NOT (mask 12) = (0 :: u32)"
    by (subst ucast_u8_mask, rule push_clear, simp)+
  show "newCPTD d base AND NOT 0x3FF = base AND NOT 0x3FF" "newSD c b d ap base AND NOT 0xFFFFF = base AND NOT 0xFFFFF"
    "newLPD c b ap base AND NOT 0xFFFF = base AND NOT 0xFFFF" "newSPD c b ap base AND NOT 0xFFF = base AND NOT 0xFFF"
    unfolding newCPTD_def newSD_def newLPD_def newSPD_def masks_u32
    by (simp_all only: bit.conj_disj_distrib2 l [THEN push_clear] l1 [THEN push_clear1] a k i or.left_neutral or.right_neutral)
qed

section \<open>The walk on the descriptors of the code\<close>

text \<open>The index of an address in a coarse page table.\<close>

definition pix :: "addr \<Rightarrow> u32" where
  "pix v = drop_bit 12 v AND 0xFF"

lemma walk_index: "drop_bit 10 (adr AND 0xFF000) div 4 = pix adr"
proof -
  have "drop_bit 10 (adr AND 0xFF000) div 4 = drop_bit 2 (drop_bit 10 (adr AND 0xFF000))"
    by (simp add: drop_bit_eq_div)
  also have "\<dots> = pix adr"
    unfolding pix_def masks_u32 by (rule bit_word_eqI) (auto simp: bit_simps)
  finally show ?thesis .
qed

lemma table_index: "(v - (v AND NOT 0xFFFFF)) div 4096 = pix v"
proof -
  have "v = (v AND NOT 0xFFFFF) + (v AND 0xFFFFF)"
    unfolding masks_u32 masked_plus by (rule bit_word_eqI) (auto simp: bit_simps)
  then have "v - (v AND NOT 0xFFFFF) = v AND 0xFFFFF" by (metis add_diff_cancel_left')
  then have "(v - (v AND NOT 0xFFFFF)) div 4096 = drop_bit 12 (v AND 0xFFFFF)" by (simp add: drop_bit_eq_div)
  also have "\<dots> = pix v" unfolding pix_def masks_u32 by (rule bit_word_eqI) (auto simp: bit_simps)
  finally show ?thesis .
qed

lemma section_parts:
  "push_bit 20 (drop_bit 20 (d :: u32)) = d AND NOT 0xFFFFF" "drop_bit 12 (push_bit 12 (v :: u32)) = v AND 0xFFFFF"
  unfolding masks_u32 by (rule bit_word_eqI; auto simp: bit_simps)+

text \<open>The word a page table entry translates an address with.\<close>

definition page_target :: "u32 \<Rightarrow> addr \<Rightarrow> addr" where
  "page_target pd v =
     (if pd AND 3 = 1 then (pd AND NOT 0xFFFF) + (v AND 0xFFFF)
      else if pd AND 3 = 2 then (pd AND NOT 0xFFF) + (v AND 0xFFF)
      else NULL)"

lemma walk_section:
  assumes "load mmu (sp_tt s space + 4 * drop_bit 20 v) s = newSD c b d ap base"
  shows "getPhysicalAddress mmu space v s = (base AND NOT 0xFFFFF) + (v AND 0xFFFFF)"
  unfolding getPhysicalAddress_def assms Let_def type_bits section_parts base_bits by simp

lemma walk_coarse:
  assumes "load mmu (sp_tt s space + 4 * drop_bit 20 v) s = newCPTD d P"
  shows "getPhysicalAddress mmu space v s
    = page_target (load mmu ((P AND NOT 0x3FF) - old_RAM + remapped_RAM + 4 * pix v) s) v"
  unfolding getPhysicalAddress_def assms Let_def type_bits walk_index base_bits page_target_def by simp

lemma walk_fault:
  "load mmu (sp_tt s space + 4 * drop_bit 20 v) s AND 3 \<in> {0, 3} \<Longrightarrow> getPhysicalAddress mmu space v s = NULL"
  unfolding getPhysicalAddress_def Let_def by auto

lemma page_target_simps:
  "page_target (newSPD c b ap base) v = (base AND NOT 0xFFF) + (v AND 0xFFF)"
  "page_target (newLPD c b ap base) v = (base AND NOT 0xFFFF) + (v AND 0xFFFF)"
  "page_target 0 v = NULL"
  unfolding page_target_def type_bits base_bits by simp_all

text \<open>
  The descriptors and the software walk fit together: an address in a section, a small page
  or a large page translates to the same offset behind the base the descriptor was made from,
  for every choice of the access bits; an empty entry of a table translates to NULL.
\<close>

theorem descriptor_translation:
  assumes "d = load mmu (sp_tt s space + 4 * drop_bit 20 v) s"
    and "e = load mmu ((P AND NOT 0x3FF) - old_RAM + remapped_RAM + 4 * pix v) s"
  shows "(d = newSD c b dm ap base \<longrightarrow> getPhysicalAddress mmu space v s = (base AND NOT 0xFFFFF) + (v AND 0xFFFFF))
    \<and> (d = newCPTD dm P \<and> e = newSPD c b ap base \<longrightarrow> getPhysicalAddress mmu space v s = (base AND NOT 0xFFF) + (v AND 0xFFF))
    \<and> (d = newCPTD dm P \<and> e = newLPD c b ap base \<longrightarrow> getPhysicalAddress mmu space v s = (base AND NOT 0xFFFF) + (v AND 0xFFFF))
    \<and> (d = newCPTD dm P \<and> e = 0 \<longrightarrow> getPhysicalAddress mmu space v s = NULL)
    \<and> (d = 0 \<longrightarrow> getPhysicalAddress mmu space v s = NULL)"
  using assms walk_section [of mmu s space v c b dm ap base] walk_coarse [of mmu s space v dm P]
    walk_fault [of mmu s space v] page_target_simps
  by auto

end
