(* ===== verification/Virtual_MM.thy ===== *)
theory Virtual_MM
  imports Page_Tables
begin

text \<open>
  The virtual memory manager, kernel/memory/virtual_MM.c: mapping pages in the kernel space and
  in address spaces.
  \<open>struct address_space\<close> keeps two lists that are used in parallel: the sections that have a
  coarse page table and, at the same position, the tables. A result \<open>None\<close> is a walk over a cyclic list.
\<close>

section \<open>Requests to the slab allocator\<close>

definition request_entry :: "vm \<Rightarrow> addr \<times> vm" where
  "request_entry s = (case free_entries s of [] \<Rightarrow> (NULL, s) | e # es \<Rightarrow> (e, s\<lparr>free_entries := es\<rparr>))"

definition request_cpt :: "vm \<Rightarrow> addr \<times> vm" where
  "request_cpt s = (case free_cpts s of [] \<Rightarrow> (NULL, s) | c # cs \<Rightarrow> (c, s\<lparr>free_cpts := cs\<rparr>))"

definition request_tt :: "vm \<Rightarrow> addr \<times> vm" where
  "request_tt s = (case free_tts s of [] \<Rightarrow> (NULL, s) | c # cs \<Rightarrow> (c, s\<lparr>free_tts := cs\<rparr>))"

definition request_space :: "vm \<Rightarrow> addr \<times> vm" where
  "request_space s = (case free_spaces s of [] \<Rightarrow> (NULL, s) | c # cs \<Rightarrow> (c, s\<lparr>free_spaces := cs\<rparr>))"

definition free_entry :: "addr \<Rightarrow> vm \<Rightarrow> vm" where
  "free_entry e s = s\<lparr>heap := freeLinkedListEntry e (heap s), free_entries := e # free_entries s\<rparr>"

definition free_cpt :: "addr \<Rightarrow> vm \<Rightarrow> vm" where
  "free_cpt c s = s\<lparr>free_cpts := c # free_cpts s\<rparr>"

definition free_tt :: "addr \<Rightarrow> vm \<Rightarrow> vm" where
  "free_tt c s = s\<lparr>free_tts := c # free_tts s\<rparr>"

section \<open>Accessors\<close>

definition set_data :: "addr \<Rightarrow> addr \<Rightarrow> vm \<Rightarrow> vm" where
  "set_data e d s = s\<lparr>heap := (heap s)\<lparr>ll_data := (ll_data (heap s))(e := d)\<rparr>\<rparr>"

definition add_cpts :: "addr \<Rightarrow> addr \<Rightarrow> vm \<Rightarrow> vm" where
  "add_cpts space e s =
     (let (l, h) = addLinkedListEntry (sp_cpts s space) e (heap s)
      in s\<lparr>sp_cpts := (sp_cpts s)(space := l), heap := h\<rparr>)"

definition add_cptds :: "addr \<Rightarrow> addr \<Rightarrow> vm \<Rightarrow> vm" where
  "add_cptds space e s =
     (let (l, h) = addLinkedListEntry (sp_cptds s space) e (heap s)
      in s\<lparr>sp_cptds := (sp_cptds s)(space := l), heap := h\<rparr>)"

text \<open>The entry of the translation table for an address.\<close>

definition tt_slot :: "addr \<Rightarrow> addr \<Rightarrow> vm \<Rightarrow> addr" where
  "tt_slot space v s = sp_tt s space + 4 * drop_bit 20 v"

text \<open>\<open>k_memset(p, 0, 4 * n)\<close> on a table.\<close>

fun clear_words :: "(addr \<Rightarrow> addr) \<Rightarrow> nat \<Rightarrow> addr \<Rightarrow> vm \<Rightarrow> vm" where
  "clear_words mmu 0 p s = s"
| "clear_words mmu (Suc n) p s = clear_words mmu n (p + 4) (store mmu p 0 s)"

fun copy_words :: "(addr \<Rightarrow> addr) \<Rightarrow> nat \<Rightarrow> addr \<Rightarrow> addr \<Rightarrow> vm \<Rightarrow> vm" where
  "copy_words mmu 0 p q s = s"
| "copy_words mmu (Suc n) p q s = copy_words mmu n (p + 4) (q + 4) (store mmu p (load mmu q s) s)"

section \<open>Mapping a page\<close>

text \<open>The new section descriptor goes to all address spaces.\<close>

partial_function (option) spread_section :: "(addr \<Rightarrow> addr) \<Rightarrow> addr \<Rightarrow> addr \<Rightarrow> vm \<Rightarrow> vm option" where
  "spread_section mmu sec nxt s =
     (if nxt \<noteq> NULL then
        let space = ll_data (heap s) nxt;
            s = store mmu (tt_slot space sec s) (load mmu (tt_slot (kernel_space s) sec s) s) s
        in spread_section mmu sec (ll_next (heap s) nxt) s
      else Some s)"

text \<open>
  \<open>addVirtualKernelPage\<close> and \<open>addVirtualKernelPage_noncached\<close> are two copies of the same code
  that differ in the cache bits of the small page descriptor.
\<close>

definition add_kernel_page :: "u8 \<Rightarrow> (addr \<Rightarrow> addr) \<Rightarrow> addr \<Rightarrow> addr \<Rightarrow> vm \<Rightarrow> vm result option" where
  "add_kernel_page cb mmu page virtual_address s =
     (let sec = virtual_address AND NOT 0xFFFFF;
          k = kernel_space s
      in Option.bind (searchLinkedListEntry (sp_cptds s k) sec (heap s)) (\<lambda>(found, index).
        if found = NULL then
          let (cptd, s) = request_entry s;
              s = set_data cptd sec s;
              (cpt, s) = request_entry s;
              (table, s) = request_cpt s;
              s = set_data cpt table s;
              s = clear_words mmu 256 (ll_data (heap s) cpt) s;
              s = add_cpts k cpt s;
              s = add_cptds k cptd s;
              s = store mmu (tt_slot k sec s) (newCPTD 0 (getPhysicalAddress mmu k (ll_data (heap s) cpt) s)) s;
              s = store mmu (ll_data (heap s) cpt + 4 * ((virtual_address - sec) div 4096)) (newSPD cb cb 0x55 page) s
          in map_option Ret (spread_section mmu sec (address_spaces s) s)
        else
          let cpt = getLinkedListEntry (sp_cpts s k) index (heap s)
          in if cpt = NULL then Some (Panic ''no corresponding coarse page table for descriptor!'')
             else Some (Ret (store mmu (ll_data (heap s) cpt + 4 * ((virtual_address - sec) div 4096))
                               (newSPD cb cb 0x55 page) s))))"

definition addVirtualKernelPage :: "(addr \<Rightarrow> addr) \<Rightarrow> addr \<Rightarrow> addr \<Rightarrow> vm \<Rightarrow> vm result option" where
  "addVirtualKernelPage = add_kernel_page 1"

definition addVirtualKernelPage_noncached :: "(addr \<Rightarrow> addr) \<Rightarrow> addr \<Rightarrow> addr \<Rightarrow> vm \<Rightarrow> vm result option" where
  "addVirtualKernelPage_noncached = add_kernel_page 0"

definition addVirtualPage :: "(addr \<Rightarrow> addr) \<Rightarrow> addr \<Rightarrow> addr \<Rightarrow> addr \<Rightarrow> vm \<Rightarrow> vm result option" where
  "addVirtualPage mmu space page virtual_address s =
     (let sec = virtual_address AND NOT 0xFFFFF
      in Option.bind (searchLinkedListEntry (sp_cptds s space) sec (heap s)) (\<lambda>(found, index).
        if found = NULL then
          let (cptd, s) = request_entry s;
              s = set_data cptd sec s;
              s = add_cptds space cptd s;
              (cpt, s) = request_entry s;
              (table, s) = request_cpt s;
              s = set_data cpt table s;
              s = clear_words mmu 256 (ll_data (heap s) cpt) s;
              s = add_cpts space cpt s;
              s = store mmu (tt_slot space sec s)
                    (newCPTD 0 (getPhysicalAddress mmu (kernel_space s) (ll_data (heap s) cpt) s)) s
          in Some (Ret (store mmu (ll_data (heap s) cpt + 4 * ((virtual_address - sec) div 4096)) (newSPD 1 1 0xFF page) s))
        else
          let cpt = getLinkedListEntry (sp_cpts s space) index (heap s)
          in if cpt = NULL then Some (Panic ''no corresponding coarse page table for descriptor!'')
             else Some (Ret (store mmu (ll_data (heap s) cpt + 4 * ((virtual_address - sec) div 4096))
                               (newSPD 1 1 0xFF page) s))))"

text \<open>The page table of the kernel for an address.\<close>

definition getKernelCPT :: "addr \<Rightarrow> vm \<Rightarrow> addr option" where
  "getKernelCPT address s =
     Option.bind (searchLinkedListEntry (sp_cptds s (kernel_space s)) (address AND NOT 0xFFFFF) (heap s)) (\<lambda>(cptd, index).
       if cptd = NULL then Some NULL
       else Some (ll_data (heap s) (getLinkedListEntry (sp_cpts s (kernel_space s)) index (heap s))))"

definition remove_cpts :: "addr \<Rightarrow> addr \<Rightarrow> vm \<Rightarrow> vm option" where
  "remove_cpts space e s = map_option (\<lambda>(r, l, h). s\<lparr>sp_cpts := (sp_cpts s)(space := l), heap := h\<rparr>)
     (removeLinkedListEntry (sp_cpts s space) e (heap s))"

definition remove_cptds :: "addr \<Rightarrow> addr \<Rightarrow> vm \<Rightarrow> vm option" where
  "remove_cptds space e s = map_option (\<lambda>(r, l, h). s\<lparr>sp_cptds := (sp_cptds s)(space := l), heap := h\<rparr>)
     (removeLinkedListEntry (sp_cptds s space) e (heap s))"

definition migrateKernelCPT :: "(addr \<Rightarrow> addr) \<Rightarrow> u32 \<Rightarrow> addr \<Rightarrow> u32 \<Rightarrow> vm \<Rightarrow> vm option" where
  "migrateKernelCPT mmu sec migrate_cpt n s =
     (let n = (if n > 256 then 256 else n);
          sec = sec AND NOT 0xFFFFF;
          k = kernel_space s
      in Option.bind (searchLinkedListEntry (sp_cptds s k) sec (heap s)) (\<lambda>(already_cptd, index).
         Option.bind
           (if already_cptd \<noteq> NULL then
              Option.bind (remove_cptds k already_cptd s) (\<lambda>s.
                let already_cpt = getLinkedListEntry (sp_cpts s k) index (heap s)
                in map_option (\<lambda>s. free_entry already_cptd (free_entry already_cpt (free_cpt (ll_data (heap s) already_cpt) s)))
                     (remove_cpts k already_cpt s))
            else Some s) (\<lambda>s.
         let (cptd, s) = request_entry s;
             s = set_data cptd sec s;
             (cpt, s) = request_entry s;
             (table, s) = request_cpt s;
             s = set_data cpt table s;
             s = clear_words mmu 256 (ll_data (heap s) cpt) s;
             s = add_cpts k cpt s;
             s = add_cptds k cptd s;
             s = copy_words mmu (unat n) (ll_data (heap s) cpt) migrate_cpt s
         in Some (store mmu (tt_slot k sec s) (newCPTD 0 (getPhysicalAddress mmu k (ll_data (heap s) cpt) s)) s))))"

section \<open>Where the words of the tables are\<close>

lemma times4: "4 * (x :: u32) = push_bit 2 x"
  by (simp add: push_bit_eq_mult mult.commute)

lemma pix_field: "push_bit 2 (pix v) AND NOT (mask 10) = 0" "drop_bit 2 (push_bit 2 (pix v)) = pix v"
  unfolding pix_def masks_u32 by (rule bit_word_eqI; auto simp: bit_simps)+

lemma tt_field: "push_bit 2 (drop_bit 20 (v :: u32)) AND NOT (mask 14) = 0" "drop_bit 2 (push_bit 2 (drop_bit 20 v)) = drop_bit 20 v"
  by (rule bit_word_eqI; auto simp: bit_simps dest: bit_imp_le_length)+

lemma aligned_plus:
  assumes "(P :: u32) AND mask n = 0" and "y AND NOT (mask n) = 0"
  shows "P + y = P OR y" and "(P + y) AND NOT (mask n) = P" and "(P + y) AND mask n = y"
proof -
  have b: "P = P AND NOT (mask n)" "y = y AND mask n"
  proof -
    have "x = (x AND NOT (mask n)) OR (x AND mask n)" for x :: u32
      by (rule bit_word_eqI) (auto simp: bit_simps)
    from this [of P] this [of y] assms show "P = P AND NOT (mask n)" "y = y AND mask n" by simp_all
  qed
  have z: "(P AND NOT (mask n)) AND (y AND mask n) = 0" by (rule bit_word_eqI) (auto simp: bit_simps)
  then show o: "P + y = P OR y" using b by (metis plus_disjoint)
  show "(P + y) AND NOT (mask n) = P"
    unfolding o using assms b by (metis bit.conj_disj_distrib2 or.right_neutral)
  show "(P + y) AND mask n = y"
    unfolding o using assms b by (metis bit.conj_disj_distrib2 or.left_neutral)
qed

lemma pte_base:
  assumes "P AND mask 10 = 0"
  shows "(P + 4 * pix v) AND NOT (mask 10) = P"
  unfolding times4 by (rule aligned_plus(2) [OF assms pix_field(1)])

lemma tte_base:
  assumes "(T :: u32) AND mask 14 = 0"
  shows "(T + 4 * drop_bit 20 v) AND NOT (mask 14) = T"
  unfolding times4 by (rule aligned_plus(2) [OF assms tt_field(1)])

lemma pte_inj: "P + 4 * pix v = P + 4 * pix w \<longleftrightarrow> pix v = pix w"
  unfolding times4 using pix_field(2) by (metis add_left_cancel)

lemma tte_inj: "T + 4 * drop_bit 20 v = T + 4 * drop_bit 20 w \<longleftrightarrow> drop_bit 20 v = drop_bit 20 (w :: u32)"
  unfolding times4 using tt_field(2) by (metis add_left_cancel)

lemma pte_not_tte:
  assumes "P AND mask 10 = 0" and "P AND NOT (mask 14) \<noteq> T" and "T AND mask 14 = 0"
  shows "P + 4 * pix v \<noteq> T + 4 * drop_bit 20 w"
proof
  assume e: "P + 4 * pix v = T + 4 * drop_bit 20 w"
  have "(x AND NOT (mask 10)) AND NOT (mask 14) = x AND NOT (mask 14)" for x :: u32
    by (rule bit_word_eqI) (auto simp: bit_simps)
  then have "P AND NOT (mask 14) = (P + 4 * pix v) AND NOT (mask 14)" using pte_base [OF assms(1), of v] by metis
  with e tte_base [OF assms(3), of w] assms(2) show False by simp
qed

text \<open>Two addresses in the same section, and in the same page.\<close>

lemma same_section: "drop_bit 20 v = drop_bit 20 w \<longleftrightarrow> v AND NOT 0xFFFFF = w AND NOT (0xFFFFF :: u32)"
proof
  assume "drop_bit 20 v = drop_bit 20 w"
  then show "v AND NOT 0xFFFFF = w AND NOT 0xFFFFF" using section_parts(1) by metis
next
  have "drop_bit 20 x = drop_bit 20 (x AND NOT 0xFFFFF)" for x :: u32
    unfolding masks_u32 by (rule bit_word_eqI) (auto simp: bit_simps dest: bit_imp_le_length)
  moreover assume "v AND NOT 0xFFFFF = w AND NOT 0xFFFFF"
  ultimately show "drop_bit 20 v = drop_bit 20 w" by metis
qed

lemma section_index: "drop_bit 20 (v AND NOT 0xFFFFF) = drop_bit 20 (v :: u32)"
  unfolding masks_u32 by (rule bit_word_eqI) (auto simp: bit_simps dest: bit_imp_le_length)

lemma same_page:
  "v AND NOT 0xFFF = w AND NOT (0xFFF :: u32) \<longleftrightarrow> drop_bit 20 v = drop_bit 20 w \<and> pix v = pix w"
proof -
  have s: "x AND NOT 0xFFF = push_bit 20 (drop_bit 20 x) OR push_bit 12 (pix x)" for x :: u32
    unfolding pix_def masks_u32
  proof (rule bit_word_eqI)
    fix n
    assume "n < LENGTH(32)"
    then show "bit (x AND NOT (mask 12)) n = bit (push_bit 20 (drop_bit 20 x) OR push_bit 12 (drop_bit 12 x AND mask 8)) n"
      by (cases "n < 20") (auto simp: bit_simps)
  qed
  have d: "drop_bit 20 (x AND NOT 0xFFF) = drop_bit 20 x" "pix (x AND NOT 0xFFF) = pix x" for x :: u32
    unfolding pix_def masks_u32 by (rule bit_word_eqI; auto simp: bit_simps dest: bit_imp_le_length)+
  show ?thesis using s d by metis
qed

section \<open>Well-formed address spaces\<close>

text \<open>The translation table of a space is at \<open>T\<close> in the physical memory.\<close>

definition tt_at :: "(addr \<Rightarrow> addr) \<Rightarrow> vm \<Rightarrow> addr \<Rightarrow> addr \<Rightarrow> bool" where
  "tt_at mmu s sp T \<longleftrightarrow> T AND mask 14 = 0 \<and> (\<forall>v. mmu (tt_slot sp v s) = T + 4 * drop_bit 20 v)"

text \<open>The page table at \<open>P\<close> is seen through the remapped RAM, and at the kernel address \<open>c\<close>.\<close>

definition seen_at :: "(addr \<Rightarrow> addr) \<Rightarrow> addr \<Rightarrow> bool" where
  "seen_at mmu P \<longleftrightarrow> P AND mask 10 = 0 \<and> (\<forall>v. mmu (P - old_RAM + remapped_RAM + 4 * pix v) = P + 4 * pix v)"

definition table_at :: "(addr \<Rightarrow> addr) \<Rightarrow> addr \<Rightarrow> bool" where
  "table_at mmu c \<longleftrightarrow> seen_at mmu (mmu c) \<and> (\<forall>v. mmu (c + 4 * pix v) = mmu c + 4 * pix v)"

definition own_tables :: "(addr \<Rightarrow> addr) \<Rightarrow> vm \<Rightarrow> addr list \<Rightarrow> addr list" where
  "own_tables mmu s vs = map (\<lambda>v. mmu (ll_data (heap s) v)) vs"

text \<open>
  The lists \<open>ks\<close> of sections and \<open>vs\<close> of tables of a space belong together: the entry of each
  section in the translation table points to its table, the tables are different, and every
  other entry that points to a page table points to one of \<open>G\<close>, the tables of other spaces.
\<close>

definition space_wf :: "(addr \<Rightarrow> addr) \<Rightarrow> vm \<Rightarrow> addr \<Rightarrow> addr \<Rightarrow> addr list \<Rightarrow> addr list \<Rightarrow> addr set \<Rightarrow> bool" where
  "space_wf mmu s sp T ks vs G \<longleftrightarrow>
     entries (heap s) (sp_cptds s sp) ks \<and> entries (heap s) (sp_cpts s sp) vs
     \<and> length ks = length vs \<and> length ks < 4294967296 \<and> tt_at mmu s sp T
     \<and> distinct (map (ll_data (heap s)) ks) \<and> distinct (own_tables mmu s vs)
     \<and> list_all2 (\<lambda>k v. ll_data (heap s) k AND NOT 0xFFFFF = ll_data (heap s) k \<and> table_at mmu (ll_data (heap s) v)
          \<and> ram s (T + 4 * drop_bit 20 (ll_data (heap s) k)) = newCPTD 0 (mmu (ll_data (heap s) v))) ks vs
     \<and> list_all (\<lambda>P. P AND NOT (mask 14) \<noteq> T) (own_tables mmu s vs)
     \<and> (\<forall>Q \<in> G. seen_at mmu Q \<and> Q AND NOT (mask 14) \<noteq> T \<and> Q \<notin> set (own_tables mmu s vs))
     \<and> (\<forall>v. ram s (T + 4 * drop_bit 20 v) AND 3 = 1 \<longrightarrow>
          v AND NOT 0xFFFFF \<in> ll_data (heap s) ` set ks \<or> (\<exists>Q \<in> G. ram s (T + 4 * drop_bit 20 v) = newCPTD 0 Q))"

lemma space_wf_nth:
  assumes "space_wf mmu s sp T ks vs G" and "i < length ks"
  shows "ll_data (heap s) (ks ! i) AND NOT 0xFFFFF = ll_data (heap s) (ks ! i)" and "table_at mmu (ll_data (heap s) (vs ! i))"
    and "ram s (T + 4 * drop_bit 20 (ll_data (heap s) (ks ! i))) = newCPTD 0 (mmu (ll_data (heap s) (vs ! i)))"
    and "mmu (ll_data (heap s) (vs ! i)) AND NOT (mask 14) \<noteq> T"
    and "mmu (ll_data (heap s) (vs ! i)) \<in> set (own_tables mmu s vs)"
  using assms by (auto simp: space_wf_def list_all2_conv_all_nth list_all_iff own_tables_def)

lemma space_wf_coarse:
  assumes "space_wf mmu s sp T ks vs G" and "ram s (T + 4 * drop_bit 20 w) AND 3 = 1"
  shows "(\<exists>i < length ks. w AND NOT 0xFFFFF = ll_data (heap s) (ks ! i))
    \<or> (\<exists>Q \<in> G. ram s (T + 4 * drop_bit 20 w) = newCPTD 0 Q)"
proof -
  have "w AND NOT 0xFFFFF \<in> ll_data (heap s) ` set ks \<or> (\<exists>Q \<in> G. ram s (T + 4 * drop_bit 20 w) = newCPTD 0 Q)"
    using assms unfolding space_wf_def by blast
  then show ?thesis
  proof
    assume "w AND NOT 0xFFFFF \<in> ll_data (heap s) ` set ks"
    then obtain k where k: "k \<in> set ks" "w AND NOT 0xFFFFF = ll_data (heap s) k" by blast
    from k(1) obtain i where "i < length ks" "ks ! i = k" unfolding in_set_conv_nth by blast
    with k(2) show ?thesis by blast
  qed blast
qed

text \<open>A translation that does not go through a page table only depends on the translation table.\<close>

lemma walk_other:
  assumes "load mmu (tt_slot sp w s) s AND 3 \<noteq> 1" and "load mmu (tt_slot sp w s') s' = load mmu (tt_slot sp w s) s"
  shows "getPhysicalAddress mmu sp w s' = getPhysicalAddress mmu sp w s"
proof -
  define d where "d = load mmu (tt_slot sp w s) s"
  have "load mmu (sp_tt s sp + 4 * drop_bit 20 w) s = d" "load mmu (sp_tt s' sp + 4 * drop_bit 20 w) s' = d" "d AND 3 \<noteq> 1"
    using assms by (simp_all add: d_def tt_slot_def)
  then show ?thesis unfolding getPhysicalAddress_def by (simp add: Let_def)
qed

text \<open>
  Translation in a well-formed space: through the table of its own section, or a foreign table,
  or without a page table.
\<close>

lemma tt_load: "tt_at mmu s sp T \<Longrightarrow> load mmu (tt_slot sp v s) s = ram s (T + 4 * drop_bit 20 v)"
  by (simp add: load_def tt_at_def)

lemma walk_seen:
  assumes "tt_at mmu s sp T" and "ram s (T + 4 * drop_bit 20 w) = newCPTD 0 P" and "seen_at mmu P"
  shows "getPhysicalAddress mmu sp w s = page_target (ram s (P + 4 * pix w)) w"
proof -
  have "x AND NOT (mask 10) = x" if "x AND mask 10 = 0" for x :: u32
  proof -
    have "x = (x AND NOT (mask 10)) OR (x AND mask 10)" by (rule bit_word_eqI) (auto simp: bit_simps)
    with that show ?thesis by simp
  qed
  then have "P AND NOT 0x3FF = P" using assms(3) unfolding masks_u32 seen_at_def by blast
  moreover have "load mmu (sp_tt s sp + 4 * drop_bit 20 w) s = newCPTD 0 P"
    using tt_load [OF assms(1)] assms(2) by (simp add: tt_slot_def)
  ultimately show ?thesis using walk_coarse [of mmu s sp w 0 P] assms(3) by (simp add: load_def seen_at_def)
qed

lemma own_tables_inj:
  assumes "space_wf mmu s sp T ks vs G" and "i < length ks" and "j < length ks"
    and "mmu (ll_data (heap s) (vs ! i)) = mmu (ll_data (heap s) (vs ! j))"
  shows "i = j"
  using assms by (auto simp: space_wf_def own_tables_def distinct_conv_nth)

lemma coarse_table:
  assumes wf: "space_wf mmu s sp T ks vs G" and ty: "ram s (T + 4 * drop_bit 20 w) AND 3 = 1"
  shows "\<exists>P \<in> set (own_tables mmu s vs) \<union> G. ram s (T + 4 * drop_bit 20 w) = newCPTD 0 P \<and> seen_at mmu P
    \<and> (\<forall>i < length ks. P = mmu (ll_data (heap s) (vs ! i)) \<longrightarrow> drop_bit 20 w = drop_bit 20 (ll_data (heap s) (ks ! i)))"
proof -
  from space_wf_coarse [OF wf ty] consider
      (own) j where "j < length ks" "w AND NOT 0xFFFFF = ll_data (heap s) (ks ! j)"
    | (foreign) Q where "Q \<in> G" "ram s (T + 4 * drop_bit 20 w) = newCPTD 0 Q" by blast
  then show ?thesis
  proof cases
    case own
    note n = space_wf_nth [OF wf own(1)]
    have sec: "drop_bit 20 w = drop_bit 20 (ll_data (heap s) (ks ! j))" using own(2) section_index by metis
    show ?thesis
    proof (intro bexI conjI allI impI)
      show "ram s (T + 4 * drop_bit 20 w) = newCPTD 0 (mmu (ll_data (heap s) (vs ! j)))" using n(3) sec by metis
      show "seen_at mmu (mmu (ll_data (heap s) (vs ! j)))" using n(2) by (simp add: table_at_def)
      fix i
      assume "i < length ks" "mmu (ll_data (heap s) (vs ! j)) = mmu (ll_data (heap s) (vs ! i))"
      with own_tables_inj [OF wf own(1)] have "j = i" by blast
      then show "drop_bit 20 w = drop_bit 20 (ll_data (heap s) (ks ! i))" using sec by simp
    qed (use n(5) in blast)
  next
    case foreign
    have "seen_at mmu Q \<and> Q \<notin> set (own_tables mmu s vs)" using wf foreign(1) unfolding space_wf_def by blast
    with foreign space_wf_nth(5) [OF wf] show ?thesis by (metis UnCI)
  qed
qed

text \<open>Which words of the memory the translation depends on: a write elsewhere does not change it.\<close>

lemma walk_frame:
  assumes wf: "space_wf mmu s sp T ks vs G" and same: "sp_tt s' sp = sp_tt s sp"
    and ram: "\<And>w. ram s' (T + 4 * drop_bit 20 w) = ram s (T + 4 * drop_bit 20 w)"
      "\<And>P w. P \<in> set (own_tables mmu s vs) \<union> G \<Longrightarrow> ram s' (P + 4 * pix w) = ram s (P + 4 * pix w)"
  shows "getPhysicalAddress mmu sp w s' = getPhysicalAddress mmu sp w s"
proof -
  have tt: "tt_at mmu s sp T" using wf by (simp add: space_wf_def)
  then have tt': "tt_at mmu s' sp T" by (simp add: tt_at_def tt_slot_def same)
  have l: "load mmu (tt_slot sp w s') s' = load mmu (tt_slot sp w s) s"
    using tt_load [OF tt'] tt_load [OF tt] ram(1) by simp
  show ?thesis
  proof (cases "load mmu (tt_slot sp w s) s AND 3 = 1")
    case False
    then show ?thesis using l by (rule walk_other)
  next
    case True
    then have "ram s (T + 4 * drop_bit 20 w) AND 3 = 1" using tt_load [OF tt] by simp
    from coarse_table [OF wf this] obtain P
      where P: "P \<in> set (own_tables mmu s vs) \<union> G" "ram s (T + 4 * drop_bit 20 w) = newCPTD 0 P" "seen_at mmu P" by blast
    have "ram s' (T + 4 * drop_bit 20 w) = newCPTD 0 P" using P(2) ram(1) by simp
    with walk_seen [OF tt P(2,3)] walk_seen [OF tt' _ P(3)] ram(2) [OF P(1)] show ?thesis by simp
  qed
qed

text \<open>Writing an entry of a page table of the space changes the translation of one page.\<close>

lemma walk_store_pte:
  fixes pd :: u32
  assumes wf: "space_wf mmu s sp T ks vs G" and i: "i < length ks"
    and sec: "drop_bit 20 v = drop_bit 20 (ll_data (heap s) (ks ! i))"
  defines "s' \<equiv> store mmu (ll_data (heap s) (vs ! i) + 4 * pix v) pd s"
  shows "getPhysicalAddress mmu sp w s' =
    (if w AND NOT 0xFFF = v AND NOT 0xFFF then page_target pd w else getPhysicalAddress mmu sp w s)"
proof -
  note n = space_wf_nth [OF wf i]
  define P where "P = mmu (ll_data (heap s) (vs ! i))"
  have tt: "tt_at mmu s sp T" and T: "T AND mask 14 = 0" using wf by (simp_all add: space_wf_def tt_at_def)
  have P: "seen_at mmu P" "P AND mask 10 = 0" using n(2) by (simp_all add: P_def table_at_def seen_at_def)
  have s': "ram s' = (ram s)(P + 4 * pix v := pd)" "sp_tt s' = sp_tt s"
    using n(2) by (simp_all add: s'_def store_def P_def table_at_def)
  have tt': "tt_at mmu s' sp T" using tt by (simp add: tt_at_def tt_slot_def s')
  have ne: "T + 4 * drop_bit 20 x \<noteq> P + 4 * pix v" for x
    using pte_not_tte [OF P(2) _ T, of v x] n(4) by (simp add: P_def)
  then have r: "ram s' (T + 4 * drop_bit 20 x) = ram s (T + 4 * drop_bit 20 x)" for x by (simp add: s')
  have Pw: "ram s (T + 4 * drop_bit 20 w) = newCPTD 0 P" if "drop_bit 20 w = drop_bit 20 v" for w
    using n(3) sec that by (metis P_def)
  have in_P: "getPhysicalAddress mmu sp w s' = page_target (ram s' (P + 4 * pix w)) w"
      "getPhysicalAddress mmu sp w s = page_target (ram s (P + 4 * pix w)) w" if "drop_bit 20 w = drop_bit 20 v"
    using walk_seen [OF tt Pw [OF that] P(1)] walk_seen [OF tt' _ P(1)] r Pw [OF that] by simp_all
  show ?thesis
  proof (cases "drop_bit 20 w = drop_bit 20 v")
    case True
    then have "w AND NOT 0xFFF = v AND NOT 0xFFF \<longleftrightarrow> pix w = pix v" using same_page by metis
    then show ?thesis using in_P [OF True] pte_inj [of P w v] by (simp add: s')
  next
    case False
    then have np: "\<not> w AND NOT 0xFFF = v AND NOT 0xFFF" using same_page by metis
    show ?thesis
    proof (cases "ram s (T + 4 * drop_bit 20 w) AND 3 = 1")
      case c: True
      from coarse_table [OF wf c] obtain Q where Q: "ram s (T + 4 * drop_bit 20 w) = newCPTD 0 Q" "seen_at mmu Q"
        and q: "Q = P \<Longrightarrow> drop_bit 20 w = drop_bit 20 (ll_data (heap s) (ks ! i))" using i unfolding P_def by blast
      from q False sec have "Q \<noteq> P" by metis
      then have "Q + 4 * pix w \<noteq> P + 4 * pix v"
        using pte_base [of Q w] pte_base [of P v] Q(2) P(2) unfolding seen_at_def by metis
      then have "ram s' (Q + 4 * pix w) = ram s (Q + 4 * pix w)" by (simp add: s')
      with walk_seen [OF tt Q] walk_seen [OF tt' _ Q(2)] r Q(1) np show ?thesis by simp
    next
      case o: False
      then have "load mmu (tt_slot sp w s) s AND 3 \<noteq> 1" unfolding tt_load [OF tt] .
      moreover have "load mmu (tt_slot sp w s') s' = load mmu (tt_slot sp w s) s"
        unfolding tt_load [OF tt] tt_load [OF tt'] by (rule r)
      ultimately have "getPhysicalAddress mmu sp w s' = getPhysicalAddress mmu sp w s" by (rule walk_other)
      then show ?thesis using np by simp
    qed
  qed
qed

section \<open>Mapping into a section that has a page table\<close>

lemma search_section:
  assumes wf: "space_wf mmu s sp T ks vs G" and i: "i < length ks" and sec: "v AND NOT 0xFFFFF = ll_data (heap s) (ks ! i)"
  shows "searchLinkedListEntry (sp_cptds s sp) (v AND NOT 0xFFFFF) (heap s) = Some (ks ! i, of_nat i)"
    and "getLinkedListEntry (sp_cpts s sp) (of_nat i) (heap s) = vs ! i" and "ks ! i \<noteq> NULL" and "vs ! i \<noteq> NULL"
proof -
  from wf have e: "entries (heap s) (sp_cptds s sp) ks" "entries (heap s) (sp_cpts s sp) vs"
    and l: "length ks = length vs" "length ks < 4294967296" and d: "distinct (map (ll_data (heap s)) ks)"
    by (simp_all add: space_wf_def)
  have "first_index (\<lambda>x. ll_data (heap s) x = v AND NOT 0xFFFFF) ks = Some i"
    unfolding first_index_Some sec using i d by (auto simp: distinct_conv_nth)
  then show "searchLinkedListEntry (sp_cptds s sp) (v AND NOT 0xFFFFF) (heap s) = Some (ks ! i, of_nat i)"
    by (simp only: search_entries [OF e(1)] option.case)
  show "getLinkedListEntry (sp_cpts s sp) (of_nat i) (heap s) = vs ! i"
    using i l by (simp add: get_entries [OF e(2)] unat_of_nat_u32)
  show "ks ! i \<noteq> NULL" "vs ! i \<noteq> NULL" using entries_distinct [OF e(1)] entries_distinct [OF e(2)] i l
    by (metis nth_mem)+
qed

text \<open>A write to an entry of one of its own tables keeps a space well-formed.\<close>

lemma wf_store_pte:
  fixes pd :: u32
  assumes wf: "space_wf mmu s sp T ks vs G" and i: "i < length ks"
  shows "space_wf mmu (store mmu (ll_data (heap s) (vs ! i) + 4 * pix v) pd s) sp T ks vs G"
proof -
  let ?P = "mmu (ll_data (heap s) (vs ! i))"
  note n = space_wf_nth [OF wf i]
  have T: "T AND mask 14 = 0" using wf by (simp add: space_wf_def tt_at_def)
  have P: "?P AND mask 10 = 0" using n(2) by (simp add: table_at_def seen_at_def)
  have "T + 4 * drop_bit 20 x \<noteq> ?P + 4 * pix v" for x
    using pte_not_tte [OF P n(4) T, of v x] by simp
  then have r: "ram (store mmu (ll_data (heap s) (vs ! i) + 4 * pix v) pd s) (T + 4 * drop_bit 20 x) = ram s (T + 4 * drop_bit 20 x)" for x
    using n(2) by (simp add: store_def table_at_def)
  show ?thesis using wf unfolding space_wf_def own_tables_def tt_at_def tt_slot_def r by (simp add: store_def)
qed

lemma add_page_hit:
  assumes wf: "space_wf mmu s sp T ks vs G" and i: "i < length ks" and sec: "v AND NOT 0xFFFFF = ll_data (heap s) (ks ! i)"
  shows "addVirtualPage mmu sp page v s
      = Some (Ret (store mmu (ll_data (heap s) (vs ! i) + 4 * pix v) (newSPD 1 1 0xFF page) s))"
    and "sp = kernel_space s \<Longrightarrow> add_kernel_page cb mmu page v s
      = Some (Ret (store mmu (ll_data (heap s) (vs ! i) + 4 * pix v) (newSPD cb cb 0x55 page) s))"
  using search_section [OF wf i sec]
  unfolding addVirtualPage_def add_kernel_page_def Let_def table_index by simp_all

text \<open>
  C3. Mapping a page at an address whose section has a page table: afterwards exactly the addresses of
  that page translate to the mapped page, every other address translates as before, and the
  space stays well-formed, whichever of the three mapping functions is called.
\<close>

theorem addVirtualPage_existing:
  assumes "space_wf mmu s sp T ks vs G" and "i < length ks" and "v AND NOT 0xFFFFF = ll_data (heap s) (ks ! i)"
    and "f = addVirtualPage mmu sp page v \<or> sp = kernel_space s \<and>
         (f = addVirtualKernelPage mmu page v \<or> f = addVirtualKernelPage_noncached mmu page v)"
  shows "\<exists>s'. f s = Some (Ret s') \<and> space_wf mmu s' sp T ks vs G
    \<and> (\<forall>w. getPhysicalAddress mmu sp w s' = (if w AND NOT 0xFFF = v AND NOT 0xFFF
         then (page AND NOT 0xFFF) + (w AND 0xFFF) else getPhysicalAddress mmu sp w s))"
proof -
  let ?a = "ll_data (heap s) (vs ! i) + 4 * pix v"
  from assms(4) obtain c b ap where f: "f s = Some (Ret (store mmu ?a (newSPD c b ap page) s))"
    unfolding addVirtualKernelPage_def addVirtualKernelPage_noncached_def
    using add_page_hit [OF assms(1-3)] by metis
  have "drop_bit 20 v = drop_bit 20 (ll_data (heap s) (ks ! i))" using assms(3) section_index by metis
  note walk_store_pte [OF assms(1,2) this, of _ "newSPD c b ap page", unfolded page_target_simps]
  with f wf_store_pte [OF assms(1,2)] show ?thesis by blast
qed

section \<open>Mapping into a new section\<close>

lemma clear_words_fields:
  "heap (clear_words mmu n p s) = heap s" "sp_tt (clear_words mmu n p s) = sp_tt s" "sp_cpts (clear_words mmu n p s) = sp_cpts s"
  "sp_cptds (clear_words mmu n p s) = sp_cptds s" "kernel_space (clear_words mmu n p s) = kernel_space s"
  "address_spaces (clear_words mmu n p s) = address_spaces s" "mm (clear_words mmu n p s) = mm s"
  "free_entries (clear_words mmu n p s) = free_entries s" "free_cpts (clear_words mmu n p s) = free_cpts s"
  by (induction n arbitrary: p s) (simp_all add: store_def)

lemma ram_clear_words:
  "ram (clear_words mmu n p s) a = (if \<exists>j<n. a = mmu (p + 4 * of_nat j) then 0 else ram s a)"
proof (induction n arbitrary: p s)
  case 0
  then show ?case by simp
next
  case (Suc n)
  have "(\<exists>j<Suc n. a = mmu (p + 4 * of_nat j)) \<longleftrightarrow> a = mmu p \<or> (\<exists>j<n. a = mmu (p + 4 + 4 * of_nat j))"
    by (auto simp: less_Suc_eq_0_disj algebra_simps)
  then show ?case by (simp add: Suc store_def) blast
qed

lemma pix_all: "(\<exists>j<256. x = f (of_nat j :: u32)) \<longleftrightarrow> (\<exists>v. x = f (pix v))"
proof
  assume "\<exists>j<256. x = f (of_nat j)"
  then obtain j where j: "j < 256" "x = f (of_nat j)" by blast
  then have "unat (of_nat j :: u32) < 2 ^ 8" by (simp add: unat_of_nat_u32)
  then have "take_bit 8 (of_nat j :: u32) = of_nat j"
    by (simp add: word_unat_eq_iff unsigned_take_bit_eq take_bit_nat_eq_self)
  moreover have "pix (push_bit 12 (of_nat j)) = take_bit 8 (of_nat j :: u32)"
    unfolding pix_def masks_u32 by (rule bit_word_eqI) (auto simp: bit_simps)
  ultimately show "\<exists>v. x = f (pix v)" using j(2) by metis
next
  assume "\<exists>v. x = f (pix v)"
  then obtain v where v: "x = f (pix v)" by blast
  have "pix v = take_bit 8 (drop_bit 12 v)" unfolding pix_def masks_u32 by (simp add: take_bit_eq_mask)
  then have "unat (pix v) < 256" using take_bit_nat_less_exp [of 8 "unat (drop_bit 12 v)"] by (simp add: unsigned_take_bit_eq)
  with v show "\<exists>j<256. x = f (of_nat j)" by (intro exI [of _ "unat (pix v)"]) simp
qed

lemma ram_clear_table:
  assumes "table_at mmu c"
  shows "ram (clear_words mmu 256 c s) a = (if \<exists>x. a = mmu c + 4 * pix x then 0 else ram s a)"
proof -
  have "(\<exists>j<256. a = mmu (c + 4 * of_nat j)) \<longleftrightarrow> (\<exists>x. a = mmu (c + 4 * pix x))"
    by (rule pix_all [of a "\<lambda>y. mmu (c + 4 * y)"])
  then show ?thesis using assms by (simp only: ram_clear_words table_at_def)
qed

text \<open>
  The state after a new table \<open>c\<close> was entered for the section of \<open>v\<close>: its entry, the new page table
  with the one small page, and the two lists grown by \<open>e\<close> and \<open>d\<close>.
\<close>

definition section_entered ::
  "(addr \<Rightarrow> addr) \<Rightarrow> vm \<Rightarrow> vm \<Rightarrow> addr \<Rightarrow> addr \<Rightarrow> addr list \<Rightarrow> addr list \<Rightarrow> addr \<Rightarrow> addr \<Rightarrow> addr \<Rightarrow> addr \<Rightarrow> u32 \<Rightarrow> bool" where
  "section_entered mmu s s' sp T ks vs v e d c pd \<longleftrightarrow>
     entries (heap s') (sp_cptds s' sp) (e # ks) \<and> entries (heap s') (sp_cpts s' sp) (d # vs)
     \<and> ll_data (heap s') = (ll_data (heap s))(e := v AND NOT 0xFFFFF, d := c) \<and> sp_tt s' sp = sp_tt s sp
     \<and> ram s' = (\<lambda>a. if a = mmu c + 4 * pix v then pd
                    else if a = T + 4 * drop_bit 20 v then newCPTD 0 (mmu c)
                    else if \<exists>x. a = mmu c + 4 * pix x then 0 else ram s a)"

lemma section_entered_wf:
  assumes wf: "space_wf mmu s sp T ks vs G" and new: "v AND NOT 0xFFFFF \<notin> ll_data (heap s) ` set ks"
    and c: "table_at mmu c" "mmu c AND NOT (mask 14) \<noteq> T" "mmu c \<notin> set (own_tables mmu s vs) \<union> G"
    and e: "e \<notin> set ks" "d \<notin> set vs" "e \<notin> set vs" "d \<notin> set ks" "e \<noteq> d" and len: "length ks < 4294967295"
    and ent: "section_entered mmu s s' sp T ks vs v e d c pd"
  shows "space_wf mmu s' sp T (e # ks) (d # vs) G"
    and "getPhysicalAddress mmu sp w s' =
      (if w AND NOT 0xFFF = v AND NOT 0xFFF then page_target pd w
       else if w AND NOT 0xFFFFF = v AND NOT 0xFFFFF then NULL else getPhysicalAddress mmu sp w s)"
proof -
  let ?P = "mmu c"
  have tt: "tt_at mmu s sp T" and T: "T AND mask 14 = 0" using wf by (simp_all add: space_wf_def tt_at_def)
  have P: "seen_at mmu ?P" "?P AND mask 10 = 0" using c(1) by (simp_all add: table_at_def seen_at_def)
  have s': "entries (heap s') (sp_cptds s' sp) (e # ks)" "entries (heap s') (sp_cpts s' sp) (d # vs)"
      "ll_data (heap s') = (ll_data (heap s))(e := v AND NOT 0xFFFFF, d := c)" "sp_tt s' sp = sp_tt s sp"
    using ent by (simp_all only: section_entered_def)
  have ram: "ram s' a = (if a = ?P + 4 * pix v then pd else if a = T + 4 * drop_bit 20 v then newCPTD 0 ?P
      else if \<exists>x. a = ?P + 4 * pix x then 0 else ram s a)" for a
    using ent by (simp only: section_entered_def)
  have ne: "T + 4 * drop_bit 20 x \<noteq> ?P + 4 * pix y" for x y
    using pte_not_tte [OF P(2) c(2) T, of y x] by simp
  have rT: "ram s' (T + 4 * drop_bit 20 x) = (if drop_bit 20 x = drop_bit 20 v then newCPTD 0 ?P else ram s (T + 4 * drop_bit 20 x))" for x
    unfolding ram using ne tte_inj by simp
  have rP: "ram s' (?P + 4 * pix x) = (if pix x = pix v then pd else 0)" for x
    unfolding ram using ne [symmetric] pte_inj by auto
  have rQ: "ram s' (Q + 4 * pix x) = ram s (Q + 4 * pix x)"
    if "Q AND mask 10 = 0" "Q \<noteq> ?P" "Q + 4 * pix x \<noteq> T + 4 * drop_bit 20 v" for Q x
  proof -
    have "Q + 4 * pix x \<noteq> ?P + 4 * pix y" for y using pte_base [OF that(1)] pte_base [OF P(2)] that(2) by metis
    with that(3) show ?thesis by (simp add: ram)
  qed
  have tt': "tt_at mmu s' sp T" using tt by (simp add: tt_at_def tt_slot_def s')
  have data: "ll_data (heap s') x = ll_data (heap s) x" if "x \<in> set ks \<union> set vs" for x
    using that e by (auto simp: s'(3))
  have ed: "ll_data (heap s') e = v AND NOT 0xFFFFF" "ll_data (heap s') d = c" using e by (simp_all add: s'(3))
  have own: "own_tables mmu s' vs = own_tables mmu s vs" using data by (simp add: own_tables_def)
  have "own_tables mmu s' (d # vs) = mmu (ll_data (heap s') d) # own_tables mmu s' vs" by (simp add: own_tables_def)
  then have owns: "own_tables mmu s' (d # vs) = mmu c # own_tables mmu s vs" unfolding own ed(2) .
  have kd: "map (ll_data (heap s')) ks = map (ll_data (heap s)) ks" using data by simp
  have secs: "drop_bit 20 (ll_data (heap s) k) \<noteq> drop_bit 20 v" if "k \<in> set ks" for k
  proof -
    from that obtain i where i: "i < length ks" "ks ! i = k" unfolding in_set_conv_nth by blast
    have "ll_data (heap s) k AND NOT 0xFFFFF = ll_data (heap s) k" using space_wf_nth(1) [OF wf i(1)] i(2) by simp
    with new that show ?thesis unfolding same_section by (metis imageI)
  qed
  show "space_wf mmu s' sp T (e # ks) (d # vs) G"
  proof -
    have 1: "distinct (map (ll_data (heap s')) (e # ks))"
    proof -
      have "map (ll_data (heap s')) (e # ks) = (v AND NOT 0xFFFFF) # map (ll_data (heap s)) ks" using kd ed(1) by simp
      moreover have "distinct (map (ll_data (heap s)) ks)" using wf by (simp only: space_wf_def)
      ultimately show ?thesis using new by (simp only: distinct.simps set_map simp_thms)
    qed
    have 2: "distinct (own_tables mmu s' (d # vs))"
      unfolding owns using wf c(3) by (simp add: space_wf_def)
    have 3: "list_all2 (\<lambda>k v. ll_data (heap s') k AND NOT 0xFFFFF = ll_data (heap s') k \<and> table_at mmu (ll_data (heap s') v)
          \<and> ram s' (T + 4 * drop_bit 20 (ll_data (heap s') k)) = newCPTD 0 (mmu (ll_data (heap s') v))) (e # ks) (d # vs)"
    proof -
      have "list_all2 (\<lambda>k v. ll_data (heap s') k AND NOT 0xFFFFF = ll_data (heap s') k \<and> table_at mmu (ll_data (heap s') v)
          \<and> ram s' (T + 4 * drop_bit 20 (ll_data (heap s') k)) = newCPTD 0 (mmu (ll_data (heap s') v))) ks vs"
        unfolding list_all2_conv_all_nth
      proof (intro conjI allI impI)
        show "length ks = length vs" using wf by (simp add: space_wf_def)
        fix i assume i: "i < length ks"
        then have m: "ks ! i \<in> set ks" "vs ! i \<in> set vs" using wf by (simp_all add: space_wf_def)
        note n = space_wf_nth [OF wf i]
        show "ll_data (heap s') (ks ! i) AND NOT 0xFFFFF = ll_data (heap s') (ks ! i)" "table_at mmu (ll_data (heap s') (vs ! i))"
          using n data m by simp_all
        show "ram s' (T + 4 * drop_bit 20 (ll_data (heap s') (ks ! i))) = newCPTD 0 (mmu (ll_data (heap s') (vs ! i)))"
          using n(3) data m rT secs [OF m(1)] by simp
      qed
      moreover have "(v AND NOT 0xFFFFF) AND NOT 0xFFFFF = v AND NOT (0xFFFFF :: u32)"
        unfolding masks_u32 by (rule clear_clear) simp
      ultimately show ?thesis using ed c(1) rT section_index by simp
    qed
    have 4: "list_all (\<lambda>P. P AND NOT (mask 14) \<noteq> T) (own_tables mmu s' (d # vs))"
      unfolding owns using wf c(2) by (simp add: space_wf_def)
    have 5: "\<forall>Q \<in> G. seen_at mmu Q \<and> Q AND NOT (mask 14) \<noteq> T \<and> Q \<notin> set (own_tables mmu s' (d # vs))"
    proof
      fix Q assume Q: "Q \<in> G"
      then have "seen_at mmu Q" "Q AND NOT (mask 14) \<noteq> T" "Q \<notin> set (own_tables mmu s vs)" using wf by (simp_all add: space_wf_def)
      moreover have "set (own_tables mmu s' (d # vs)) = insert (mmu c) (set (own_tables mmu s vs))"
        unfolding owns by simp
      ultimately show "seen_at mmu Q \<and> Q AND NOT (mask 14) \<noteq> T \<and> Q \<notin> set (own_tables mmu s' (d # vs))" using c(3) Q by auto
    qed
    have 6: "\<forall>x. ram s' (T + 4 * drop_bit 20 x) AND 3 = 1 \<longrightarrow>
          x AND NOT 0xFFFFF \<in> ll_data (heap s') ` set (e # ks) \<or> (\<exists>Q \<in> G. ram s' (T + 4 * drop_bit 20 x) = newCPTD 0 Q)"
    proof (intro allI impI)
      fix x assume a: "ram s' (T + 4 * drop_bit 20 x) AND 3 = 1"
      show "x AND NOT 0xFFFFF \<in> ll_data (heap s') ` set (e # ks) \<or> (\<exists>Q \<in> G. ram s' (T + 4 * drop_bit 20 x) = newCPTD 0 Q)"
      proof (cases "drop_bit 20 x = drop_bit 20 v")
        case True
        then have "x AND NOT 0xFFFFF = ll_data (heap s') e" using ed(1) same_section by metis
        then show ?thesis by simp
      next
        case False
        then have r: "ram s' (T + 4 * drop_bit 20 x) = ram s (T + 4 * drop_bit 20 x)" using rT by simp
        have "ll_data (heap s) ` set ks = ll_data (heap s') ` set ks" using data by (intro image_cong) simp_all
        with space_wf_coarse [OF wf a [unfolded r]] r show ?thesis by auto
      qed
    qed
    from wf have l: "length ks = length vs" by (simp add: space_wf_def)
    show ?thesis unfolding space_wf_def
      by (intro conjI s'(1,2) tt' 1 2 3 4 5 6) (use l len in simp_all)
  qed
  show "getPhysicalAddress mmu sp w s' =
      (if w AND NOT 0xFFF = v AND NOT 0xFFF then page_target pd w
       else if w AND NOT 0xFFFFF = v AND NOT 0xFFFFF then NULL else getPhysicalAddress mmu sp w s)"
  proof (cases "drop_bit 20 w = drop_bit 20 v")
    case True
    then have "ram s' (T + 4 * drop_bit 20 w) = newCPTD 0 ?P" using rT by simp
    then have "getPhysicalAddress mmu sp w s' = page_target (ram s' (?P + 4 * pix w)) w" by (rule walk_seen [OF tt' _ P(1)])
    moreover have "w AND NOT 0xFFF = v AND NOT 0xFFF \<longleftrightarrow> pix w = pix v" "w AND NOT 0xFFFFF = v AND NOT 0xFFFFF"
      using True same_page same_section by metis+
    ultimately show ?thesis using rP page_target_simps(3) by simp
  next
    case False
    then have np: "\<not> w AND NOT 0xFFF = v AND NOT 0xFFF" "\<not> w AND NOT 0xFFFFF = v AND NOT 0xFFFFF"
      using same_page same_section by metis+
    have r: "ram s' (T + 4 * drop_bit 20 w) = ram s (T + 4 * drop_bit 20 w)" using rT False by simp
    have "getPhysicalAddress mmu sp w s' = getPhysicalAddress mmu sp w s"
    proof (cases "ram s (T + 4 * drop_bit 20 w) AND 3 = 1")
      case k: True
      from coarse_table [OF wf k] obtain Q where Q: "Q \<in> set (own_tables mmu s vs) \<union> G"
        "ram s (T + 4 * drop_bit 20 w) = newCPTD 0 Q" "seen_at mmu Q" by blast
      have qa: "Q AND mask 10 = 0" "Q \<noteq> ?P" using Q(1,3) c(3) by (auto simp: seen_at_def)
      have "Q AND NOT (mask 14) \<noteq> T"
        using Q(1) wf by (auto simp: space_wf_def list_all_iff)
      then have "Q + 4 * pix w \<noteq> T + 4 * drop_bit 20 v" by (rule pte_not_tte [OF qa(1) _ T])
      with qa have "ram s' (Q + 4 * pix w) = ram s (Q + 4 * pix w)" by (rule rQ)
      with walk_seen [OF tt Q(2,3)] walk_seen [OF tt' _ Q(3)] r Q(2) show ?thesis by simp
    next
      case o: False
      then have "load mmu (tt_slot sp w s) s AND 3 \<noteq> 1" unfolding tt_load [OF tt] .
      moreover have "load mmu (tt_slot sp w s') s' = load mmu (tt_slot sp w s) s"
        unfolding tt_load [OF tt] tt_load [OF tt'] by (rule r)
      ultimately show ?thesis by (rule walk_other)
    qed
    with np show ?thesis by simp
  qed
qed

text \<open>
  What the mapping functions ask of a table \<open>c\<close> the slab allocator hands out: kernel space
  translates it as the processor does, and it is in use neither by the kernel nor by the space.
\<close>

definition usable_table :: "(addr \<Rightarrow> addr) \<Rightarrow> vm \<Rightarrow> addr \<Rightarrow> addr \<Rightarrow> addr list \<Rightarrow> addr set \<Rightarrow> bool" where
  "usable_table mmu s c T vs G \<longleftrightarrow>
     table_at mmu c \<and> mmu c AND NOT (mask 14) \<noteq> T \<and> mmu c \<notin> set (own_tables mmu s vs) \<union> G
     \<and> getPhysicalAddress mmu (kernel_space s) c s = mmu c"

text \<open>The slab allocator has two unused list entries and one unused table.\<close>

definition fresh_objects :: "vm \<Rightarrow> addr list \<Rightarrow> addr list \<Rightarrow> addr \<Rightarrow> addr \<Rightarrow> addr \<Rightarrow> bool" where
  "fresh_objects s ks vs e d c \<longleftrightarrow> (\<exists>es cs. free_entries s = e # d # es \<and> free_cpts s = c # cs)
     \<and> e \<noteq> NULL \<and> d \<noteq> NULL \<and> e \<noteq> d \<and> {e, d} \<inter> (set ks \<union> set vs) = {}"

lemma add_entry_eq: "addLinkedListEntry l e h = (e, set_ll_next e l h)"
  by (simp add: addLinkedListEntry_def)

lemma vm_fields:
  "heap (store mmu p w s) = heap s" "sp_tt (store mmu p w s) = sp_tt s" "sp_cpts (store mmu p w s) = sp_cpts s"
  "sp_cptds (store mmu p w s) = sp_cptds s" "kernel_space (store mmu p w s) = kernel_space s"
  "address_spaces (store mmu p w s) = address_spaces s"
  "ram (store mmu p w s) = (ram s)(mmu p := w)"
  "ram (set_data e x s) = ram s" "sp_tt (set_data e x s) = sp_tt s" "sp_cpts (set_data e x s) = sp_cpts s"
  "sp_cptds (set_data e x s) = sp_cptds s" "kernel_space (set_data e x s) = kernel_space s"
  "address_spaces (set_data e x s) = address_spaces s"
  "heap (set_data e x s) = (heap s)\<lparr>ll_data := (ll_data (heap s))(e := x)\<rparr>"
  "free_entries (set_data e x s) = free_entries s" "free_cpts (set_data e x s) = free_cpts s"
  by (simp_all add: store_def set_data_def)

lemma add_cpts_fields:
  "ram (add_cpts sp e s) = ram s" "sp_tt (add_cpts sp e s) = sp_tt s" "kernel_space (add_cpts sp e s) = kernel_space s"
  "sp_cpts (add_cpts sp e s) = (sp_cpts s)(sp := e)" "sp_cptds (add_cpts sp e s) = sp_cptds s"
  "heap (add_cpts sp e s) = set_ll_next e (sp_cpts s sp) (heap s)" "address_spaces (add_cpts sp e s) = address_spaces s"
  "ram (add_cptds sp e s) = ram s" "sp_tt (add_cptds sp e s) = sp_tt s" "kernel_space (add_cptds sp e s) = kernel_space s"
  "sp_cptds (add_cptds sp e s) = (sp_cptds s)(sp := e)" "sp_cpts (add_cptds sp e s) = sp_cpts s"
  "heap (add_cptds sp e s) = set_ll_next e (sp_cptds s sp) (heap s)" "address_spaces (add_cptds sp e s) = address_spaces s"
  "free_entries (add_cptds sp e s) = free_entries s" "free_cpts (add_cptds sp e s) = free_cpts s"
  by (simp_all add: add_cpts_def add_cptds_def add_entry_eq)

lemmas vm_simps = vm_fields add_cpts_fields clear_words_fields

text \<open>The heap after the two lists were extended, in either order.\<close>

lemma lists_extended:
  assumes wf: "space_wf mmu s sp T ks vs G" and f: "fresh_objects s ks vs e d c"
    and h: "ll_next h = (ll_next (heap s))(e := sp_cptds s sp, d := sp_cpts s sp)"
  shows "entries h e (e # ks)" and "entries h d (d # vs)"
  using wf f by (auto simp: entries_def h space_wf_def fresh_objects_def)

lemma search_new_section:
  assumes "space_wf mmu s sp T ks vs G" and "v AND NOT 0xFFFFF \<notin> ll_data (heap s) ` set ks"
  shows "searchLinkedListEntry (sp_cptds s sp) (v AND NOT 0xFFFFF) (heap s) = Some (NULL, 0)"
proof -
  have "first_index (\<lambda>x. ll_data (heap s) x = v AND NOT 0xFFFFF) ks = None"
    unfolding first_index_None using assms(2) by force
  moreover have "entries (heap s) (sp_cptds s sp) ks" using assms(1) by (simp only: space_wf_def)
  ultimately show ?thesis by (simp only: search_entries option.case)
qed

text \<open>The kernel's translation of a table that is cleared does not change by that.\<close>

lemma walk_after_clear:
  assumes wf: "space_wf mmu s k T ks vs G" and c: "table_at mmu c" "mmu c AND NOT (mask 14) \<noteq> T"
      "mmu c \<notin> set (own_tables mmu s vs) \<union> G"
    and r: "sp_tt s' k = sp_tt s k" "\<And>a. ram s' a = (if \<exists>x. a = mmu c + 4 * pix x then 0 else ram s a)"
  shows "getPhysicalAddress mmu k w s' = getPhysicalAddress mmu k w s"
proof (rule walk_frame [OF wf r(1)])
  have T: "T AND mask 14 = 0" using wf by (simp add: space_wf_def tt_at_def)
  have P: "mmu c AND mask 10 = 0" using c(1) by (simp add: table_at_def seen_at_def)
  show "ram s' (T + 4 * drop_bit 20 w) = ram s (T + 4 * drop_bit 20 w)" for w
    using pte_not_tte [OF P c(2) T] r(2) by (metis (full_types))
  show "ram s' (Q + 4 * pix w) = ram s (Q + 4 * pix w)" if Q: "Q \<in> set (own_tables mmu s vs) \<union> G" for Q w
  proof -
    have "Q AND mask 10 = 0"
      using Q wf by (auto simp: space_wf_def seen_at_def own_tables_def list_all2_conv_all_nth table_at_def in_set_conv_nth)
    moreover have "Q \<noteq> mmu c" using Q c(3) by auto
    ultimately have "Q + 4 * pix w \<noteq> mmu c + 4 * pix x" for x using pte_base P by metis
    then show ?thesis using r(2) by simp
  qed
qed

lemma addVirtualPage_new:
  assumes wf: "space_wf mmu s sp T ks vs G" and new: "v AND NOT 0xFFFFF \<notin> ll_data (heap s) ` set ks"
    and f: "fresh_objects s ks vs e d c" and c: "usable_table mmu s c T vs G"
    and k: "space_wf mmu s (kernel_space s) Tk kk vk Gk" "usable_table mmu s c Tk vk Gk"
  shows "\<exists>s'. addVirtualPage mmu sp page v s = Some (Ret s')
    \<and> section_entered mmu s s' sp T ks vs v e d c (newSPD 1 1 0xFF page)"
proof -
  from f obtain es cs where fe: "free_entries s = e # d # es" "free_cpts s = c # cs" by (auto simp: fresh_objects_def)
  have ed: "e \<noteq> d" using f by (simp add: fresh_objects_def)
  let ?sec = "v AND NOT 0xFFFFF"
  define s1 where "s1 = set_data d c ((add_cptds sp e (set_data e ?sec (s\<lparr>free_entries := d # es\<rparr>)))\<lparr>free_entries := es, free_cpts := cs\<rparr>)"
  define s2 where "s2 = add_cpts sp d (clear_words mmu 256 c s1)"
  have d2: "ll_data (heap s2) d = c" by (simp add: s2_def s1_def vm_simps)
  have r2: "\<And>a. ram s2 a = (if \<exists>x. a = mmu c + 4 * pix x then 0 else ram s a)"
    using ram_clear_table [of mmu c s1] c by (simp add: usable_table_def s2_def s1_def vm_simps)
  have tt2: "sp_tt s2 = sp_tt s" "kernel_space s2 = kernel_space s" by (simp_all add: s2_def s1_def vm_simps)
  from r2 tt2 have g: "getPhysicalAddress mmu (kernel_space s2) c s2 = mmu c"
    using walk_after_clear [OF k(1), of c s2 c] k(2) by (simp add: usable_table_def)
  let ?s3 = "store mmu (tt_slot sp ?sec s2) (newCPTD 0 (mmu c)) s2"
  let ?s4 = "store mmu (c + 4 * pix v) (newSPD 1 1 0xFF page) ?s3"
  have run: "addVirtualPage mmu sp page v s = Some (Ret ?s4)"
    using g d2 unfolding addVirtualPage_def Let_def table_index search_new_section [OF wf new] Option.bind.simps prod.case
    by (simp add: request_entry_def request_cpt_def fe vm_simps s2_def s1_def)
  have pte: "mmu (c + 4 * pix v) = mmu c + 4 * pix v" using c by (simp add: usable_table_def table_at_def)
  have tt: "tt_at mmu s sp T" using wf by (simp add: space_wf_def)
  have slot: "mmu (tt_slot sp ?sec s2) = T + 4 * drop_bit 20 v"
    using tt by (simp only: tt_at_def tt_slot_def tt2 section_index)
  have "section_entered mmu s ?s4 sp T ks vs v e d c (newSPD 1 1 0xFF page)"
  proof -
    have h: "ll_next (heap ?s4) = (ll_next (heap s))(e := sp_cptds s sp, d := sp_cpts s sp)"
      by (simp add: s2_def s1_def vm_simps set_ll_next_def)
    have l: "sp_cptds ?s4 sp = e" "sp_cpts ?s4 sp = d" by (simp_all add: s2_def s1_def vm_simps)
    have dat: "ll_data (heap ?s4) = (ll_data (heap s))(e := ?sec, d := c)"
      by (simp add: s2_def s1_def vm_simps set_ll_next_def)
    have "ram ?s4 = (\<lambda>a. if a = mmu c + 4 * pix v then newSPD 1 1 0xFF page
        else if a = T + 4 * drop_bit 20 v then newCPTD 0 (mmu c)
        else if \<exists>x. a = mmu c + 4 * pix x then 0 else ram s a)"
      by (simp only: fun_eq_iff vm_fields slot pte fun_upd_apply r2) simp
    then show ?thesis unfolding section_entered_def l using lists_extended [OF wf f h] dat
      by (simp add: vm_simps tt2)
  qed
  with run show ?thesis by blast
qed

text \<open>The same for the kernel space, up to the loop over the address spaces.\<close>

lemma add_kernel_page_new:
  assumes wf: "space_wf mmu s (kernel_space s) T ks vs G" and new: "v AND NOT 0xFFFFF \<notin> ll_data (heap s) ` set ks"
    and f: "fresh_objects s ks vs e d c" and c: "usable_table mmu s c T vs G"
  shows "\<exists>s'. add_kernel_page cb mmu page v s = map_option Ret (spread_section mmu (v AND NOT 0xFFFFF) (address_spaces s) s')
    \<and> section_entered mmu s s' (kernel_space s) T ks vs v e d c (newSPD cb cb 0x55 page)
    \<and> kernel_space s' = kernel_space s \<and> sp_tt s' = sp_tt s
    \<and> ll_next (heap s') = (ll_next (heap s))(e := sp_cptds s (kernel_space s), d := sp_cpts s (kernel_space s))"
proof -
  from f obtain es cs where fe: "free_entries s = e # d # es" "free_cpts s = c # cs" by (auto simp: fresh_objects_def)
  have ed: "e \<noteq> d" using f by (simp add: fresh_objects_def)
  let ?sec = "v AND NOT 0xFFFFF" and ?k = "kernel_space s"
  define s1 where "s1 = set_data d c ((set_data e ?sec (s\<lparr>free_entries := d # es\<rparr>))\<lparr>free_entries := es, free_cpts := cs\<rparr>)"
  define s2 where "s2 = add_cptds ?k e (add_cpts ?k d (clear_words mmu 256 c s1))"
  have d2: "ll_data (heap s2) d = c" by (simp add: s2_def s1_def vm_simps)
  have r2: "\<And>a. ram s2 a = (if \<exists>x. a = mmu c + 4 * pix x then 0 else ram s a)"
    using ram_clear_table [of mmu c s1] c by (simp add: usable_table_def s2_def s1_def vm_simps)
  have tt2: "sp_tt s2 = sp_tt s" "kernel_space s2 = kernel_space s" by (simp_all add: s2_def s1_def vm_simps)
  from r2 tt2 have g: "getPhysicalAddress mmu ?k c s2 = mmu c"
    using walk_after_clear [OF wf, of c s2 c] c by (simp add: usable_table_def)
  let ?s3 = "store mmu (tt_slot ?k ?sec s2) (newCPTD 0 (mmu c)) s2"
  let ?s4 = "store mmu (c + 4 * pix v) (newSPD cb cb 0x55 page) ?s3"
  have run: "add_kernel_page cb mmu page v s = map_option Ret (spread_section mmu ?sec (address_spaces s) ?s4)"
    using g d2 unfolding add_kernel_page_def Let_def table_index search_new_section [OF wf new] Option.bind.simps prod.case
    by (simp add: request_entry_def request_cpt_def fe vm_simps s2_def s1_def)
  have pte: "mmu (c + 4 * pix v) = mmu c + 4 * pix v" using c by (simp add: usable_table_def table_at_def)
  have tt: "tt_at mmu s ?k T" using wf by (simp add: space_wf_def)
  have slot: "mmu (tt_slot ?k ?sec s2) = T + 4 * drop_bit 20 v"
    using tt by (simp only: tt_at_def tt_slot_def tt2 section_index)
  have h: "ll_next (heap ?s4) = (ll_next (heap s))(e := sp_cptds s ?k, d := sp_cpts s ?k)"
    using ed by (simp add: s2_def s1_def vm_simps set_ll_next_def fun_upd_twist)
  have "section_entered mmu s ?s4 ?k T ks vs v e d c (newSPD cb cb 0x55 page)"
  proof -
    have l: "sp_cptds ?s4 ?k = e" "sp_cpts ?s4 ?k = d" by (simp_all add: s2_def s1_def vm_simps)
    have dat: "ll_data (heap ?s4) = (ll_data (heap s))(e := ?sec, d := c)"
      by (simp add: s2_def s1_def vm_simps set_ll_next_def)
    have "ram ?s4 = (\<lambda>a. if a = mmu c + 4 * pix v then newSPD cb cb 0x55 page
        else if a = T + 4 * drop_bit 20 v then newCPTD 0 (mmu c)
        else if \<exists>x. a = mmu c + 4 * pix x then 0 else ram s a)"
      by (simp only: fun_eq_iff vm_fields slot pte fun_upd_apply r2) simp
    then show ?thesis unfolding section_entered_def l using lists_extended [OF wf f h] dat
      by (simp add: vm_simps tt2)
  qed
  with run h show ?thesis by (intro exI [of _ ?s4]) (simp add: vm_simps tt2)
qed

text \<open>The loop over the address spaces copies the kernel's entry of the section into each of them.\<close>

lemma spread_section_path:
  assumes "path (ll_next (heap s)) p xs NULL" and "tt_at mmu s (kernel_space s) T"
    and "\<And>x. x \<in> set xs \<Longrightarrow> tt_at mmu s (ll_data (heap s) x) (U x)"
  shows "\<exists>s'. spread_section mmu sec p s = Some s' \<and> heap s' = heap s \<and> sp_tt s' = sp_tt s \<and> sp_cpts s' = sp_cpts s
    \<and> sp_cptds s' = sp_cptds s \<and> kernel_space s' = kernel_space s
    \<and> (\<forall>a. ram s' a = (if \<exists>x \<in> set xs. a = U x + 4 * drop_bit 20 sec then ram s (T + 4 * drop_bit 20 sec) else ram s a))"
  using assms
proof (induction xs arbitrary: p s)
  case Nil
  then show ?case by (simp add: spread_section.simps)
next
  case (Cons x xs)
  let ?u = "ll_data (heap s) x"
  define s1 where "s1 = store mmu (tt_slot ?u sec s) (load mmu (tt_slot (kernel_space s) sec s) s) s"
  from Cons.prems(1) have p: "p = x" "p \<noteq> NULL" "path (ll_next (heap s)) (ll_next (heap s) x) xs NULL" by auto
  have tu: "tt_at mmu s ?u (U x)" using Cons.prems(3) by simp
  have r: "ram s1 = (ram s)(U x + 4 * drop_bit 20 sec := ram s (T + 4 * drop_bit 20 sec))"
    using tu tt_load [OF Cons.prems(2)] by (simp add: s1_def vm_simps tt_at_def)
  have f: "heap s1 = heap s" "sp_tt s1 = sp_tt s" "sp_cpts s1 = sp_cpts s" "sp_cptds s1 = sp_cptds s" "kernel_space s1 = kernel_space s"
    by (simp_all add: s1_def vm_simps)
  have "tt_at mmu s1 y V = tt_at mmu s y V" for y V by (simp add: tt_at_def tt_slot_def f)
  then obtain s' where s': "spread_section mmu sec (ll_next (heap s) x) s1 = Some s'" "heap s' = heap s1" "sp_tt s' = sp_tt s1"
      "sp_cpts s' = sp_cpts s1" "sp_cptds s' = sp_cptds s1" "kernel_space s' = kernel_space s1"
    and ram': "\<And>a. ram s' a = (if \<exists>x \<in> set xs. a = U x + 4 * drop_bit 20 sec then ram s1 (T + 4 * drop_bit 20 sec) else ram s1 a)"
    using Cons.IH [of s1 "ll_next (heap s) x"] p(3) Cons.prems(2,3) unfolding f by fastforce
  have "spread_section mmu sec p s = Some s'"
    using p(1,2) s'(1) by (subst spread_section.simps) (simp add: Let_def vm_simps s1_def)
  moreover have "ram s' a = (if \<exists>y \<in> set (x # xs). a = U y + 4 * drop_bit 20 sec then ram s (T + 4 * drop_bit 20 sec) else ram s a)" for a
    unfolding ram' r by simp
  ultimately show ?case using s'(2-) f by (intro exI [of _ s']) simp
qed

lemma fresh_distinct:
  assumes "fresh_objects s ks vs e d c"
  shows "e \<notin> set ks" "d \<notin> set vs" "e \<notin> set vs" "d \<notin> set ks" "e \<noteq> d"
  using assms by (auto simp: fresh_objects_def)

text \<open>
  C12. Mapping a page of a user space at an address whose section has no page table yet: the
  space gets a new table, the page is mapped, the rest of its section is not, every
  address outside the section translates as before, and the space stays well-formed.
\<close>

theorem addVirtualPage_new_section:
  assumes "space_wf mmu s sp T ks vs G" and "v AND NOT 0xFFFFF \<notin> ll_data (heap s) ` set ks"
    and "fresh_objects s ks vs e d c" and "usable_table mmu s c T vs G" and "length ks < 4294967295"
    and "space_wf mmu s (kernel_space s) Tk kk vk Gk" and "usable_table mmu s c Tk vk Gk"
  shows "\<exists>s'. addVirtualPage mmu sp page v s = Some (Ret s') \<and> space_wf mmu s' sp T (e # ks) (d # vs) G
    \<and> (\<forall>w. getPhysicalAddress mmu sp w s' =
        (if w AND NOT 0xFFF = v AND NOT 0xFFF then (page AND NOT 0xFFF) + (w AND 0xFFF)
         else if w AND NOT 0xFFFFF = v AND NOT 0xFFFFF then NULL else getPhysicalAddress mmu sp w s))"
proof -
  from addVirtualPage_new [OF assms(1-4,6,7), of page] obtain s' where run: "addVirtualPage mmu sp page v s = Some (Ret s')"
    and ent: "section_entered mmu s s' sp T ks vs v e d c (newSPD 1 1 0xFF page)" by blast
  have c: "table_at mmu c" "mmu c AND NOT (mask 14) \<noteq> T" "mmu c \<notin> set (own_tables mmu s vs) \<union> G"
    using assms(4) by (simp_all add: usable_table_def)
  note w = section_entered_wf [OF assms(1,2) c fresh_distinct [OF assms(3)] assms(5) ent]
  show ?thesis using run w(1) w(2) [unfolded page_target_simps] by blast
qed

text \<open>
  C18. Mapping a kernel page in a section without a page table: the kernel space changes as a user
  space does, and after the call every address space of the list translates all
  addresses of the section as the kernel does.
\<close>

theorem addVirtualKernelPage_new_section:
  assumes "space_wf mmu s (kernel_space s) T ks vs G" and "v AND NOT 0xFFFFF \<notin> ll_data (heap s) ` set ks"
    and "fresh_objects s ks vs e d c" and "usable_table mmu s c T vs G" and "length ks < 4294967295"
    and "entries (heap s) (address_spaces s) us" and "e \<notin> set us \<and> d \<notin> set us"
    and "\<forall>x \<in> set us. tt_at mmu s (ll_data (heap s) x) (U x) \<and> U x \<noteq> T
          \<and> (\<forall>P \<in> insert (mmu c) (set (own_tables mmu s vs) \<union> G). P AND NOT (mask 14) \<noteq> U x)"
  shows "\<exists>s'. addVirtualKernelPage mmu page v s = Some (Ret s')
    \<and> (\<forall>w. getPhysicalAddress mmu (kernel_space s) w s' =
        (if w AND NOT 0xFFF = v AND NOT 0xFFF then (page AND NOT 0xFFF) + (w AND 0xFFF)
         else if w AND NOT 0xFFFFF = v AND NOT 0xFFFFF then NULL else getPhysicalAddress mmu (kernel_space s) w s))
    \<and> (\<forall>x \<in> set us. \<forall>w. w AND NOT 0xFFFFF = v AND NOT 0xFFFFF \<longrightarrow>
        getPhysicalAddress mmu (ll_data (heap s) x) w s' = getPhysicalAddress mmu (kernel_space s) w s')"
proof -
  let ?k = "kernel_space s" and ?sec = "v AND NOT 0xFFFFF"
  from add_kernel_page_new [OF assms(1-4), of 1 page] obtain s1
    where run: "add_kernel_page 1 mmu page v s = map_option Ret (spread_section mmu ?sec (address_spaces s) s1)"
      and ent: "section_entered mmu s s1 ?k T ks vs v e d c (newSPD 1 1 0x55 page)"
      and k1: "kernel_space s1 = ?k" "sp_tt s1 = sp_tt s"
      and n1: "ll_next (heap s1) = (ll_next (heap s))(e := sp_cptds s ?k, d := sp_cpts s ?k)" by blast
  have c: "table_at mmu c" "mmu c AND NOT (mask 14) \<noteq> T" "mmu c \<notin> set (own_tables mmu s vs) \<union> G"
    using assms(4) by (simp_all add: usable_table_def)
  note w = section_entered_wf [OF assms(1,2) c fresh_distinct [OF assms(3)] assms(5) ent]
  have tt: "tt_at mmu s1 ?k T" using w(1) by (simp add: space_wf_def)
  have d1: "ll_data (heap s1) x = ll_data (heap s) x" if "x \<in> set us" for x
    using ent assms(7) that by (auto simp: section_entered_def)
  have p: "path (ll_next (heap s1)) (address_spaces s) us NULL"
    using assms(6,7) by (simp add: n1 entries_def)
  have "tt_at mmu s1 (ll_data (heap s1) x) (U x)" if "x \<in> set us" for x
    using assms(8) that d1 [OF that] by (simp add: tt_at_def tt_slot_def k1)
  from spread_section_path [OF p tt [folded k1(1)] this, of ?sec] obtain s'
    where sp: "spread_section mmu ?sec (address_spaces s) s1 = Some s'" and f': "heap s' = heap s1" "sp_tt s' = sp_tt s1"
      and ram: "\<forall>a. ram s' a = (if \<exists>x \<in> set us. a = U x + 4 * drop_bit 20 ?sec then ram s1 (T + 4 * drop_bit 20 ?sec) else ram s1 a)"
    by blast
  note ram = ram [unfolded section_index]
  have T: "T AND mask 14 = 0" using tt by (simp add: tt_at_def)
  have Ux: "U x AND mask 14 = 0" "U x \<noteq> T" if "x \<in> set us" for x using assms(8) that by (simp_all add: tt_at_def)
  have owns: "set (own_tables mmu s1 (d # vs)) = insert (mmu c) (set (own_tables mmu s vs))"
  proof -
    have "own_tables mmu s1 vs = own_tables mmu s vs" "ll_data (heap s1) d = c"
      using ent fresh_distinct [OF assms(3)] by (auto simp: section_entered_def own_tables_def)
    then show ?thesis by (simp add: own_tables_def)
  qed
  have r1: "ram s' (T + 4 * drop_bit 20 w) = ram s1 (T + 4 * drop_bit 20 w)" for w
  proof -
    have "T + 4 * drop_bit 20 w \<noteq> U x + 4 * drop_bit 20 v" if "x \<in> set us" for x
      using tte_base [OF T, of w] tte_base [OF Ux(1) [OF that], of v] Ux(2) [OF that] by metis
    then show ?thesis using ram by simp
  qed
  have r2: "ram s' (P + 4 * pix w) = ram s1 (P + 4 * pix w)"
    if P: "P AND mask 10 = 0" "P \<in> insert (mmu c) (set (own_tables mmu s vs) \<union> G)" for P w
  proof -
    have "P + 4 * pix w \<noteq> U x + 4 * drop_bit 20 v" if x: "x \<in> set us" for x
      using pte_not_tte [OF P(1) _ Ux(1) [OF x]] assms(8) x P(2) by blast
    then show ?thesis using ram by simp
  qed
  have al: "P AND mask 10 = 0" if "P \<in> insert (mmu c) (set (own_tables mmu s vs) \<union> G)" for P
    using that assms(1) c(1)
    by (auto simp: space_wf_def seen_at_def own_tables_def list_all2_conv_all_nth table_at_def in_set_conv_nth)
  have kern: "getPhysicalAddress mmu ?k w s' = getPhysicalAddress mmu ?k w s1" for w
    by (rule walk_frame [OF w(1)]) (simp add: f', rule r1, rule r2, rule al, use owns in auto)
  have usr: "getPhysicalAddress mmu (ll_data (heap s) x) w s' = getPhysicalAddress mmu ?k w s'"
    if x: "x \<in> set us" and sec: "w AND NOT 0xFFFFF = ?sec" for x w
  proof -
    have sw: "drop_bit 20 w = drop_bit 20 v" "drop_bit 20 ?sec = drop_bit 20 v" using sec same_section section_index by metis+
    have kt: "ram s1 (T + 4 * drop_bit 20 v) = newCPTD 0 (mmu c)"
      using ent pte_not_tte [OF _ c(2) T, of v v] al by (simp add: section_entered_def)
    have seen: "seen_at mmu (mmu c)" using c(1) by (simp add: table_at_def)
    have tu: "tt_at mmu s' (ll_data (heap s) x) (U x)" "tt_at mmu s' ?k T"
      using assms(8) x tt by (simp_all add: tt_at_def tt_slot_def f' k1)
    have "ram s' (U x + 4 * drop_bit 20 w) = newCPTD 0 (mmu c)" using ram x kt by (auto simp: sw)
    moreover have "ram s' (T + 4 * drop_bit 20 w) = newCPTD 0 (mmu c)" using r1 kt by (simp add: sw)
    ultimately show ?thesis using walk_seen [OF tu(1) _ seen] walk_seen [OF tu(2) _ seen] by simp
  qed
  show ?thesis
    unfolding addVirtualKernelPage_def run sp option.map
    by (intro exI [of _ s'] conjI allI ballI impI) (simp_all only: kern w(2) page_target_simps usr)
qed

section \<open>An example\<close>

text \<open>
  The kernel space at 0x100 with a table for the section 0xe4000000 and the remapped RAM, a
  user space at 0x300 without tables, and a processor that sees the RAM at 0xec000000.
\<close>

definition mmu_example :: "addr \<Rightarrow> addr" where
  "mmu_example a = a - 0xdc000000"

definition vm_example :: vm where
  "vm_example = \<lparr>ram = (\<lambda>_. 0)(0x11003900 := newCPTD 0 0x11008000, 0x11003b40 := newSD 0 0 0 1 0x11000000),
     heap = \<lparr>ll_data = (\<lambda>_. 0)(0x10 := 0xe4000000, 0x20 := 0xed008000, 0x30 := 0x300), ll_next = (\<lambda>_. 0), ll_freed = []\<rparr>,
     sp_tt = (\<lambda>_. 0)(0x100 := 0xed000000, 0x300 := 0xed010000), sp_cpts = (\<lambda>_. 0)(0x100 := 0x20),
     sp_cptds = (\<lambda>_. 0)(0x100 := 0x10), kernel_space = 0x100, address_spaces = 0x30, ttbr = 0x11010000, saved_tt = 0,
     free_entries = [0x40, 0x50], free_cpts = [0xed00c000], free_tts = [], free_spaces = [],
     mm = setPageUsedBit 0x10001000 True mm_example\<rparr>"

lemma seen_example: "P AND mask 10 = 0 \<Longrightarrow> seen_at mmu_example P"
  by (simp add: seen_at_def mmu_example_def)

lemma table_example: "(c - 0xdc000000) AND mask 10 = 0 \<Longrightarrow> table_at mmu_example c"
  unfolding table_at_def using seen_example [of "c - 0xdc000000"] by (simp add: mmu_example_def)

lemma tt_example:
  "tt_at mmu_example vm_example 0x100 0x11000000" "tt_at mmu_example vm_example 0x300 0x11010000"
proof -
  have "(0x11000000 :: u32) AND mask 14 = 0" "(0x11010000 :: u32) AND mask 14 = 0" by (simp_all add: mask_eq_exp_minus_1)
  then show "tt_at mmu_example vm_example 0x100 0x11000000" "tt_at mmu_example vm_example 0x300 0x11010000"
    by (simp_all add: tt_at_def tt_slot_def mmu_example_def vm_example_def)
qed

lemma ram_example:
  "ram vm_example (0x11000000 + 4 * drop_bit 20 v) =
     (if v AND NOT 0xFFFFF = 0xe4000000 then newCPTD 0 0x11008000
      else if v AND NOT 0xFFFFF = 0xed000000 then newSD 0 0 0 1 0x11000000 else 0)"
  "ram vm_example (0x11010000 + 4 * drop_bit 20 v) = 0"
proof -
  have a: "(0x11003900 :: u32) = 0x11000000 + 4 * drop_bit 20 0xe4000000" "(0x11003b40 :: u32) = 0x11000000 + 4 * drop_bit 20 0xed000000"
    by code_simp+
  have c: "0xe4000000 AND NOT 0xFFFFF = (0xe4000000 :: u32)" "0xed000000 AND NOT 0xFFFFF = (0xed000000 :: u32)" by code_simp+
  have "0x11000000 + 4 * drop_bit 20 v = 0x11003900 \<longleftrightarrow> v AND NOT 0xFFFFF = 0xe4000000"
    unfolding a(1) tte_inj same_section c ..
  moreover have "0x11000000 + 4 * drop_bit 20 v = 0x11003b40 \<longleftrightarrow> v AND NOT 0xFFFFF = 0xed000000"
    unfolding a(2) tte_inj same_section c ..
  ultimately show "ram vm_example (0x11000000 + 4 * drop_bit 20 v) =
     (if v AND NOT 0xFFFFF = 0xe4000000 then newCPTD 0 0x11008000
      else if v AND NOT 0xFFFFF = 0xed000000 then newSD 0 0 0 1 0x11000000 else 0)"
    by (auto simp: vm_example_def)
  have "(0x11010000 :: u32) AND mask 14 = 0" by (simp add: mask_eq_exp_minus_1)
  note b = tte_base [OF this, of v]
  have "0x11003900 AND NOT (mask 14) = (0x11000000 :: u32)" "0x11003b40 AND NOT (mask 14) = (0x11000000 :: u32)"
    by (simp_all add: mask_eq_exp_minus_1)
  moreover have "0x11010000 + 4 * drop_bit 20 v \<noteq> x" if "x AND NOT (mask 14) = 0x11000000" for x
  proof
    assume "0x11010000 + 4 * drop_bit 20 v = x"
    with b that show False by simp
  qed
  ultimately have "0x11010000 + 4 * drop_bit 20 v \<noteq> 0x11003900" "0x11010000 + 4 * drop_bit 20 v \<noteq> 0x11003b40"
    by blast+
  then show "ram vm_example (0x11010000 + 4 * drop_bit 20 v) = 0" by (simp add: vm_example_def)
qed

lemma mmu_example_table: "mmu_example 0xed008000 = 0x11008000" "mmu_example 0xed00c000 = 0x1100c000"
  by (simp_all add: mmu_example_def)

lemma data_example: "ll_data (heap vm_example) 0x10 = 0xe4000000" "ll_data (heap vm_example) 0x20 = 0xed008000"
    "ll_data (heap vm_example) 0x30 = 0x300"
  by (simp_all add: vm_example_def)

lemma own_example: "own_tables mmu_example vm_example [0x20] = [0x11008000]" "own_tables mmu_example vm_example [] = []"
  by (simp_all add: own_tables_def data_example mmu_example_table)

lemma entries_example:
  "entries (heap vm_example) (sp_cptds vm_example 0x100) [0x10]" "entries (heap vm_example) (sp_cpts vm_example 0x100) [0x20]"
  "entries (heap vm_example) (sp_cptds vm_example 0x300) []" "entries (heap vm_example) (sp_cpts vm_example 0x300) []"
  "entries (heap vm_example) (address_spaces vm_example) [0x30]"
  by (simp_all add: entries_def vm_example_def)

lemma kernel_wf_example: "space_wf mmu_example vm_example 0x100 0x11000000 [0x10] [0x20] {}"
proof -
  have a: "0xe4000000 AND NOT 0xFFFFF = (0xe4000000 :: u32)" "0x11008000 AND NOT (mask 14) \<noteq> (0x11000000 :: u32)"
    by (simp_all add: mask_eq_exp_minus_1)
  have r: "ram vm_example (0x11000000 + 4 * drop_bit 20 0xe4000000) = newCPTD 0 0x11008000"
    unfolding ram_example a by simp
  have t: "table_at mmu_example 0xed008000" by (rule table_example) (simp add: mask_eq_exp_minus_1)
  have cov: "\<forall>v. ram vm_example (0x11000000 + 4 * drop_bit 20 v) AND 3 = 1 \<longrightarrow> v AND NOT 0xFFFFF \<in> ll_data (heap vm_example) ` set [0x10]"
    unfolding ram_example by (auto simp: type_bits data_example)
  show ?thesis
    unfolding space_wf_def own_example
    by (intro conjI entries_example tt_example) (use a r t cov in \<open>simp_all add: data_example mmu_example_table\<close>)
qed

lemma user_wf_example: "space_wf mmu_example vm_example 0x300 0x11010000 [] [] {}"
  unfolding space_wf_def own_example
  by (intro conjI entries_example tt_example) (simp_all add: ram_example)

lemma usable_example:
  "usable_table mmu_example vm_example 0xed00c000 0x11000000 [0x20] {}" "usable_table mmu_example vm_example 0xed00c000 0x11010000 [] {}"
proof -
  have t: "table_at mmu_example 0xed00c000" by (rule table_example) (simp add: mask_eq_exp_minus_1)
  have k: "kernel_space vm_example = 0x100" by (simp add: vm_example_def)
  have "load mmu_example (tt_slot 0x100 0xed00c000 vm_example) vm_example = newSD 0 0 0 1 0x11000000"
    unfolding tt_load [OF tt_example(1)] ram_example by simp
  then have "getPhysicalAddress mmu_example 0x100 0xed00c000 vm_example = (0x11000000 AND NOT 0xFFFFF) + (0xed00c000 AND 0xFFFFF)"
    unfolding tt_slot_def by (rule walk_section)
  also have "\<dots> = 0x1100c000" by code_simp
  finally show "usable_table mmu_example vm_example 0xed00c000 0x11000000 [0x20] {}" "usable_table mmu_example vm_example 0xed00c000 0x11010000 [] {}"
    using t by (simp_all add: usable_table_def own_example mmu_example_table k mask_eq_exp_minus_1)
qed

lemma addVirtualPage_existing_witness:
  "\<exists>s'. addVirtualKernelPage mmu_example 0x13370000 0xe4005000 vm_example = Some (Ret s')
    \<and> getPhysicalAddress mmu_example 0x100 0xe4005123 s' = 0x13370123"
proof -
  have a: "(0xe4005000 :: u32) AND NOT 0xFFFFF = ll_data (heap vm_example) ([0x10] ! 0)" by (simp add: data_example)
  have k: "0x100 = kernel_space vm_example" by (simp add: vm_example_def)
  from addVirtualPage_existing [OF kernel_wf_example _ a, of _ "0x13370000"] k obtain s'
    where s': "addVirtualKernelPage mmu_example 0x13370000 0xe4005000 vm_example = Some (Ret s')"
      and g: "\<forall>w. getPhysicalAddress mmu_example 0x100 w s' = (if w AND NOT 0xFFF = 0xe4005000 AND NOT 0xFFF
         then (0x13370000 AND NOT 0xFFF) + (w AND 0xFFF) else getPhysicalAddress mmu_example 0x100 w vm_example)"
    by fastforce
  have "getPhysicalAddress mmu_example 0x100 0xe4005123 s' = 0x13370123" unfolding g [rule_format] by simp
  with s' show ?thesis by blast
qed

lemma fresh_example:
  "fresh_objects vm_example [0x10] [0x20] 0x40 0x50 0xed00c000" "fresh_objects vm_example [] [] 0x40 0x50 0xed00c000"
  by (simp_all add: fresh_objects_def vm_example_def)

lemma kernel_space_example: "kernel_space vm_example = 0x100"
  by (simp add: vm_example_def)

lemma addVirtualPage_new_section_witness:
  "\<exists>s'. addVirtualPage mmu_example 0x300 0x13370000 0x8000 vm_example = Some (Ret s')
    \<and> getPhysicalAddress mmu_example 0x300 0x8123 s' = 0x13370123 \<and> getPhysicalAddress mmu_example 0x300 0x9000 s' = NULL"
proof -
  have "\<exists>s'. addVirtualPage mmu_example 0x300 0x13370000 0x8000 vm_example = Some (Ret s')
    \<and> space_wf mmu_example s' 0x300 0x11010000 (0x40 # []) (0x50 # []) {}
    \<and> (\<forall>w. getPhysicalAddress mmu_example 0x300 w s' =
        (if w AND NOT 0xFFF = 0x8000 AND NOT 0xFFF then (0x13370000 AND NOT 0xFFF) + (w AND 0xFFF)
         else if w AND NOT 0xFFFFF = 0x8000 AND NOT 0xFFFFF then NULL else getPhysicalAddress mmu_example 0x300 w vm_example))"
    by (rule addVirtualPage_new_section [OF user_wf_example _ fresh_example(2) usable_example(2) _
          kernel_wf_example [folded kernel_space_example] usable_example(1)]) simp_all
  then obtain s' where s': "addVirtualPage mmu_example 0x300 0x13370000 0x8000 vm_example = Some (Ret s')"
    and g: "\<forall>w. getPhysicalAddress mmu_example 0x300 w s' =
        (if w AND NOT 0xFFF = 0x8000 AND NOT 0xFFF then (0x13370000 AND NOT 0xFFF) + (w AND 0xFFF)
         else if w AND NOT 0xFFFFF = 0x8000 AND NOT 0xFFFFF then NULL else getPhysicalAddress mmu_example 0x300 w vm_example)" by blast
  have "getPhysicalAddress mmu_example 0x300 0x8123 s' = 0x13370123" "getPhysicalAddress mmu_example 0x300 0x9000 s' = NULL"
    unfolding g [rule_format] by simp_all
  with s' show ?thesis by blast
qed

lemma addVirtualKernelPage_new_section_witness:
  "\<exists>s'. addVirtualKernelPage mmu_example 0x13370000 0xe5008000 vm_example = Some (Ret s')
    \<and> getPhysicalAddress mmu_example 0x300 0xe5008123 s' = 0x13370123"
proof -
  have sp: "\<forall>x \<in> set [0x30]. tt_at mmu_example vm_example (ll_data (heap vm_example) x) 0x11010000 \<and> 0x11010000 \<noteq> (0x11000000 :: u32)
          \<and> (\<forall>P \<in> insert (mmu_example 0xed00c000) (set (own_tables mmu_example vm_example [0x20]) \<union> {}). P AND NOT (mask 14) \<noteq> (0x11010000 :: u32))"
    using tt_example(2) by (simp add: data_example own_example mmu_example_table mask_eq_exp_minus_1)
  have "\<exists>s'. addVirtualKernelPage mmu_example 0x13370000 0xe5008000 vm_example = Some (Ret s')
    \<and> (\<forall>w. getPhysicalAddress mmu_example (kernel_space vm_example) w s' =
        (if w AND NOT 0xFFF = 0xe5008000 AND NOT 0xFFF then (0x13370000 AND NOT 0xFFF) + (w AND 0xFFF)
         else if w AND NOT 0xFFFFF = 0xe5008000 AND NOT 0xFFFFF then NULL
         else getPhysicalAddress mmu_example (kernel_space vm_example) w vm_example))
    \<and> (\<forall>x \<in> set [0x30]. \<forall>w. w AND NOT 0xFFFFF = 0xe5008000 AND NOT 0xFFFFF \<longrightarrow>
        getPhysicalAddress mmu_example (ll_data (heap vm_example) x) w s' = getPhysicalAddress mmu_example (kernel_space vm_example) w s')"
    by (rule addVirtualKernelPage_new_section [OF kernel_wf_example [folded kernel_space_example] _ fresh_example(1)
          usable_example(1) _ entries_example(5) _ sp]) (simp_all add: data_example)
  then obtain s' where s': "addVirtualKernelPage mmu_example 0x13370000 0xe5008000 vm_example = Some (Ret s')"
    and g: "\<forall>w. getPhysicalAddress mmu_example (kernel_space vm_example) w s' =
        (if w AND NOT 0xFFF = 0xe5008000 AND NOT 0xFFF then (0x13370000 AND NOT 0xFFF) + (w AND 0xFFF)
         else if w AND NOT 0xFFFFF = 0xe5008000 AND NOT 0xFFFFF then NULL
         else getPhysicalAddress mmu_example (kernel_space vm_example) w vm_example)"
    and u: "\<forall>w. w AND NOT 0xFFFFF = 0xe5008000 AND NOT 0xFFFFF \<longrightarrow>
        getPhysicalAddress mmu_example 0x300 w s' = getPhysicalAddress mmu_example (kernel_space vm_example) w s'"
    by (auto simp: data_example)
  have "getPhysicalAddress mmu_example 0x300 0xe5008123 s' = getPhysicalAddress mmu_example (kernel_space vm_example) 0xe5008123 s'"
    by (rule u [rule_format]) simp
  also have "\<dots> = 0x13370123" unfolding g [rule_format] by simp
  finally show ?thesis using s' by blast
qed

lemma descriptor_translation_witness: "getPhysicalAddress mmu_example 0x100 0xed000123 vm_example = 0x11000123"
proof -
  have "load mmu_example (sp_tt vm_example 0x100 + 4 * drop_bit 20 0xed000123) vm_example = newSD 0 0 0 1 0x11000000"
    using tt_load [OF tt_example(1), of "0xed000123"] unfolding ram_example tt_slot_def by simp
  from descriptor_translation [OF refl refl, of mmu_example vm_example "0x100" "0xed000123"] this
  have "getPhysicalAddress mmu_example 0x100 0xed000123 vm_example = (0x11000000 AND NOT 0xFFFFF) + (0xed000123 AND 0xFFFFF)"
    by blast
  also have "\<dots> = 0x11000123" by code_simp
  finally show ?thesis .
qed

end
