(* ===== verification/Address_Spaces.thy ===== *)
theory Address_Spaces
  imports Virtual_MM
begin

text \<open>
  Creating and destroying address spaces, freeing the pages of a page table, switching between
  address spaces and the migration of the kernel image at start-up; kernel/memory/virtual_MM.c.
\<close>

section \<open>Address spaces\<close>

text \<open>The RAM and the devices that every address space maps.\<close>

definition map_ram :: "(addr \<Rightarrow> addr) \<Rightarrow> addr \<Rightarrow> vm \<Rightarrow> vm" where
  "map_ram mmu tt s = fold (\<lambda>i. store mmu (tt + 4 * drop_bit 20 (remapped_RAM + of_nat i * SECTION_SIZE))
       (newSD 1 1 0 1 (0x10000000 + of_nat i * SECTION_SIZE))) [0..<64] s"

definition map_io :: "(addr \<Rightarrow> addr) \<Rightarrow> addr \<Rightarrow> vm \<Rightarrow> vm" where
  "map_io mmu tt s =
     (let s = store mmu (tt + 4 * drop_bit 20 0xe9000000) (newSD 0 0 0 1 0x90000000) s;
          s = store mmu (tt + 4 * drop_bit 20 (0xe9000000 + SECTION_SIZE)) (newSD 0 0 0 1 0xb0000000) s;
          s = store mmu (tt + 4 * drop_bit 20 (0xe9000000 + 2 * SECTION_SIZE)) (newSD 0 0 0 1 0xc0000000) s;
          s = store mmu (tt + 4 * drop_bit 20 (0xe9000000 + 3 * SECTION_SIZE)) (newSD 0 0 0 1 0xdc000000) s
      in store mmu (tt + 4 * drop_bit 20 (0xe9000000 + 4 * SECTION_SIZE)) (newSD 0 0 0 1 0xc4000000) s)"

text \<open>The loop over the sections of the kernel, by index.\<close>

partial_function (option) copy_kernel_sections :: "(addr \<Rightarrow> addr) \<Rightarrow> addr \<Rightarrow> u32 \<Rightarrow> vm \<Rightarrow> vm option" where
  "copy_kernel_sections mmu space i s =
     (let cptd = getLinkedListEntry (sp_cptds s (kernel_space s)) i (heap s)
      in if cptd \<noteq> NULL then
           let v = ll_data (heap s) cptd;
               s = store mmu (tt_slot space v s) (load mmu (tt_slot (kernel_space s) v s) s) s
           in copy_kernel_sections mmu space (i + 1) s
         else Some s)"

definition createAddressSpace :: "(addr \<Rightarrow> addr) \<Rightarrow> vm \<Rightarrow> (addr \<times> vm) option" where
  "createAddressSpace mmu s =
     (let (space, s) = request_space s;
          (tt, s) = request_tt s;
          s = s\<lparr>sp_tt := (sp_tt s)(space := tt)\<rparr>;
          s = s\<lparr>sp_cptds := (sp_cptds s)(space := NULL)\<rparr>;
          s = s\<lparr>sp_cpts := (sp_cpts s)(space := NULL)\<rparr>;
          s = clear_words mmu 4096 tt s;
          s = map_ram mmu tt s;
          s = map_io mmu tt s
      in map_option (\<lambda>s.
           let (l, s) = request_entry s;
               s = set_data l space s;
               (as, h) = addLinkedListEntry (address_spaces s) l (heap s)
           in (space, s\<lparr>address_spaces := as, heap := h\<rparr>))
         (copy_kernel_sections mmu space 0 s))"

text \<open>
  \<open>freePagesFromCoarsePageTable\<close> goes through 1024 words, \<open>n\<close> of them left from the word at \<open>p\<close>
  on; a coarse page table has 256.
\<close>

fun free_pages_from :: "(addr \<Rightarrow> addr) \<Rightarrow> nat \<Rightarrow> addr \<Rightarrow> vm \<Rightarrow> vm result" where
  "free_pages_from mmu 0 p s = Ret s"
| "free_pages_from mmu (Suc n) p s =
     (let ty = load mmu p s AND 3
      in if ty = 1 \<or> ty = 3 then Panic ''tiny or large page found in coarse page table while freeing coarse page table!''
         else if ty = 0 then free_pages_from mmu n (p + 4) s
         else free_pages_from mmu n (p + 4) (s\<lparr>mm := setPageUsedBit (load mmu p s AND NOT 0xFFF) False (mm s)\<rparr>))"

definition freePagesFromCoarsePageTable :: "(addr \<Rightarrow> addr) \<Rightarrow> addr \<Rightarrow> vm \<Rightarrow> vm result" where
  "freePagesFromCoarsePageTable mmu cpt s = free_pages_from mmu 1024 cpt s"

partial_function (option) destroy_tables :: "(addr \<Rightarrow> addr) \<Rightarrow> addr \<Rightarrow> u32 \<Rightarrow> vm \<Rightarrow> vm result option" where
  "destroy_tables mmu space i s =
     (if getLinkedListEntry (sp_cptds s space) i (heap s) \<noteq> NULL then
        let cpt = getLinkedListEntry (sp_cpts s space) i (heap s)
        in case freePagesFromCoarsePageTable mmu (ll_data (heap s) cpt) s of
             Panic m \<Rightarrow> Some (Panic m)
           | Ret s \<Rightarrow> destroy_tables mmu space (i + 1) (free_cpt (ll_data (heap s) cpt) s)
      else Some (Ret s))"

definition destroy_list :: "addr \<Rightarrow> vm \<Rightarrow> vm option" where
  "destroy_list l s = map_option (\<lambda>h. s\<lparr>heap := h, free_entries := drop (length (ll_freed (heap s))) (ll_freed h) @ free_entries s\<rparr>)
     (destroyLinkedList l (heap s))"

definition destroyAddressSpace :: "(addr \<Rightarrow> addr) \<Rightarrow> addr \<Rightarrow> vm \<Rightarrow> vm result option" where
  "destroyAddressSpace mmu space s =
     Option.bind (searchLinkedListEntry (address_spaces s) space (heap s)) (\<lambda>(entry, _).
     Option.bind
       (if entry \<noteq> NULL then
          map_option (\<lambda>(r, l, h). free_entry entry (s\<lparr>address_spaces := l, heap := h\<rparr>))
            (removeLinkedListEntry (address_spaces s) entry (heap s))
        else Some s) (\<lambda>s.
     Option.bind (destroy_tables mmu space 0 s) (\<lambda>r. case r of
       Panic m \<Rightarrow> Some (Panic m)
     | Ret s \<Rightarrow>
         Option.bind (destroy_list (sp_cpts s space) s) (\<lambda>s.
         map_option (\<lambda>s. Ret (free_tt (sp_tt s space) s)) (destroy_list (sp_cptds s space) s)))))"

section \<open>Switching\<close>

definition changeAddressSpace :: "(addr \<Rightarrow> addr) \<Rightarrow> addr \<Rightarrow> vm \<Rightarrow> vm" where
  "changeAddressSpace mmu space s =
     s\<lparr>ttbr := getPhysicalAddress mmu (kernel_space s) (sp_tt s space) s\<rparr>"

definition intoKernelSpace :: "(addr \<Rightarrow> addr) \<Rightarrow> vm \<Rightarrow> vm" where
  "intoKernelSpace mmu s =
     s\<lparr>ttbr := getPhysicalAddress mmu (kernel_space s) (sp_tt s (kernel_space s)) s\<rparr>"

definition intoKernelSpaceSaveAddressSpace :: "(addr \<Rightarrow> addr) \<Rightarrow> vm \<Rightarrow> vm result" where
  "intoKernelSpaceSaveAddressSpace mmu s =
     (let tt_base = ttbr s AND NOT 0x3FF
      in if tt_base = sp_tt s (kernel_space s) then Ret s
         else if saved_tt s \<noteq> 0 then Panic ''saved_tt already used!''
         else
           let s = s\<lparr>saved_tt := tt_base\<rparr>
           in Ret (s\<lparr>ttbr := getPhysicalAddress mmu (kernel_space s) (sp_tt s (kernel_space s)) s\<rparr>))"

definition restoreAddressSpace :: "vm \<Rightarrow> vm" where
  "restoreAddressSpace s = (if saved_tt s = 0 then s else s\<lparr>ttbr := saved_tt s, saved_tt := 0\<rparr>)"

text \<open>The sections \<open>initializeKernelSpace\<close> migrates, with the number of pages of each.\<close>

definition migrated_sections :: "u32 \<Rightarrow> (u32 \<times> u32) list" where
  "migrated_sections kernel_size =
     (let sections = kernel_size div SECTION_SIZE + 1;
          pages_left = kernel_size div SMALL_PAGE_SIZE + 1
      in map (\<lambda>i. (0xe0100000 + SECTION_SIZE * of_nat i,
                   if of_nat i = sections - 1 then pages_left mod 256 else 256)) [0..<unat sections])"

section \<open>Freeing the pages of a table\<close>

lemma load_mm [simp]: "load mmu p (s\<lparr>mm := m\<rparr>) = load mmu p s"
  by (simp add: load_def)

definition mapped_pages :: "(addr \<Rightarrow> addr) \<Rightarrow> nat \<Rightarrow> addr \<Rightarrow> vm \<Rightarrow> addr list" where
  "mapped_pages mmu n p s = map (\<lambda>w. w AND NOT 0xFFF) (filter (\<lambda>w. w AND 3 = 2) (map (\<lambda>i. load mmu (p + 4 * of_nat i) s) [0..<n]))"

lemma set_mapped_pages:
  "q \<in> set (mapped_pages mmu n p s) \<longleftrightarrow> (\<exists>i<n. load mmu (p + 4 * of_nat i) s AND 3 = 2 \<and> q = load mmu (p + 4 * of_nat i) s AND NOT 0xFFF)"
proof -
  have "set (mapped_pages mmu n p s) = (\<lambda>w. w AND NOT 0xFFF) ` {w. (\<exists>i<n. w = load mmu (p + 4 * of_nat i) s) \<and> w AND 3 = 2}"
    unfolding mapped_pages_def set_map set_filter by (rule arg_cong [where f = "image _"]) auto
  then show ?thesis by blast
qed

lemma mapped_pages_Suc:
  "mapped_pages mmu (Suc n) p s =
     (if load mmu p s AND 3 = 2 then [load mmu p s AND NOT 0xFFF] else []) @ mapped_pages mmu n (p + 4) s"
proof -
  have "map (\<lambda>i. load mmu (p + 4 * of_nat i) s) [0..<Suc n] = load mmu p s # map (\<lambda>i. load mmu (p + 4 + 4 * of_nat i) s) [0..<n]"
    by (rule nth_equalityI) (auto simp: nth_Cons algebra_simps simp del: upt_Suc split: nat.split)
  then show ?thesis by (simp add: mapped_pages_def del: upt_Suc)
qed

lemma free_pages_from_eq:
  assumes "\<forall>i<n. load mmu (p + 4 * of_nat i) s AND 3 \<in> {0, 2}"
  shows "free_pages_from mmu n p s = Ret (s\<lparr>mm := fold (\<lambda>q. setPageUsedBit q False) (mapped_pages mmu n p s) (mm s)\<rparr>)"
  using assms
proof (induction n arbitrary: p s)
  case 0
  then show ?case by (simp add: mapped_pages_def)
next
  case (Suc n)
  have z: "load mmu p s AND 3 \<in> {0, 2}" using Suc.prems [rule_format, of 0] by simp
  have r: "\<forall>i<n. load mmu (p + 4 + 4 * of_nat i) s AND 3 \<in> {0, 2}"
  proof (intro allI impI)
    fix i assume "i < n"
    then show "load mmu (p + 4 + 4 * of_nat i) s AND 3 \<in> {0, 2}" using Suc.prems [rule_format, of "Suc i"] by (simp add: algebra_simps)
  qed
  have m: "mapped_pages mmu n (p + 4) (s\<lparr>mm := u\<rparr>) = mapped_pages mmu n (p + 4) s" for u
    by (simp add: mapped_pages_def)
  have IH: "free_pages_from mmu n (p + 4) (s\<lparr>mm := u\<rparr>)
      = Ret (s\<lparr>mm := fold (\<lambda>q. setPageUsedBit q False) (mapped_pages mmu n (p + 4) s) u\<rparr>)" for u
    using Suc.IH [of "p + 4" "s\<lparr>mm := u\<rparr>"] r m by simp
  have IH0: "free_pages_from mmu n (p + 4) s
      = Ret (s\<lparr>mm := fold (\<lambda>q. setPageUsedBit q False) (mapped_pages mmu n (p + 4) s) (mm s)\<rparr>)"
    using IH [of "mm s"] by simp
  from z consider "load mmu p s AND 3 = 0" | "load mmu p s AND 3 = 2" by blast
  then show ?case by cases (simp_all add: Let_def IH IH0 mapped_pages_Suc)
qed

lemma page_of_word: "page_aligned (w AND NOT 0xFFF)"
proof -
  have m: "x mod 4096 = x AND mask 12" for x :: u32
    unfolding take_bit_eq_mask [symmetric] by (simp add: take_bit_eq_mod)
  have "(w AND NOT 0xFFF) mod 4096 = (w AND NOT (mask 12)) AND mask 12" unfolding m masks_u32 ..
  also have "\<dots> = 0" by (rule clear_and_mask) simp
  finally show ?thesis by (simp add: page_aligned_def)
qed

text \<open>
  C23. \<open>freePagesFromCoarsePageTable\<close> frees the pages of all small page descriptors in the 1024
  words from the table on, and no other page. A table has 256 words: the pages whose
  descriptors lie in the 768 words behind it, in tables of other address spaces, are freed too.
\<close>

theorem freePagesFromCoarsePageTable_overrun:
  assumes "pm_inv (mm s)" and "\<forall>i<1024. load mmu (cpt + 4 * of_nat i) s AND 3 \<in> {0, 2}" and "page_aligned q"
  shows "\<exists>s'. freePagesFromCoarsePageTable mmu cpt s = Ret s'
    \<and> isPageUsed q (mm s') = (isPageUsed q (mm s) \<and> \<not> (q \<in> set (tracked_pages (mm s)) \<and>
        (\<exists>i<1024. load mmu (cpt + 4 * of_nat i) s AND 3 = 2 \<and> q = load mmu (cpt + 4 * of_nat i) s AND NOT 0xFFF)))"
proof -
  let ?ps = "mapped_pages mmu 1024 cpt s"
  have "\<forall>p \<in> set ?ps. page_aligned p"
    unfolding mapped_pages_def set_map using page_of_word by blast
  from set_pages_effect [OF assms(1) this, of False q] assms(3)
  have "isPageUsed q (fold (\<lambda>p. setPageUsedBit p False) ?ps (mm s))
    = (if q \<in> set ?ps \<and> q \<in> set (tracked_pages (mm s)) then False else isPageUsed q (mm s))" by blast
  moreover have "q \<in> set ?ps \<longleftrightarrow> (\<exists>i<1024. load mmu (cpt + 4 * of_nat i) s AND 3 = 2 \<and> q = load mmu (cpt + 4 * of_nat i) s AND NOT 0xFFF)"
    by (rule set_mapped_pages)
  ultimately show ?thesis
    unfolding freePagesFromCoarsePageTable_def free_pages_from_eq [OF assms(2)] by auto
qed

section \<open>Switching and start-up\<close>

text \<open>
  A switch into kernel space and back restores the address space. But the test whether the
  kernel space is active already compares the physical address in the register with the virtual
  address \<open>initializeKernelSpace\<close> stored, so a second switch before the return panics
  instead of doing nothing.
\<close>

theorem intoKernelSpaceSaveAddressSpace_nested:
  assumes "saved_tt s = 0" and "ttbr s \<noteq> 0" and "ttbr s AND NOT 0x3FF = ttbr s" and "ttbr s \<noteq> sp_tt s (kernel_space s)"
    and "getPhysicalAddress mmu (kernel_space s) (sp_tt s (kernel_space s)) s = P"
    and "P AND NOT 0x3FF = P" and "P \<noteq> sp_tt s (kernel_space s)"
  shows "\<exists>s'. intoKernelSpaceSaveAddressSpace mmu s = Ret s' \<and> ttbr s' = P \<and> restoreAddressSpace s' = s
    \<and> intoKernelSpaceSaveAddressSpace mmu s' = Panic ''saved_tt already used!''"
proof -
  have g: "getPhysicalAddress mmu k v (s\<lparr>saved_tt := x\<rparr>) = getPhysicalAddress mmu k v s" for k v x
    unfolding getPhysicalAddress_def load_def Let_def by simp
  let ?s = "s\<lparr>saved_tt := ttbr s, ttbr := P\<rparr>"
  have "intoKernelSpaceSaveAddressSpace mmu s = Ret ?s"
    unfolding intoKernelSpaceSaveAddressSpace_def assms(3) using assms(1,4,5) by (simp add: g)
  moreover have "restoreAddressSpace ?s = s" using assms(1,2) by (simp add: restoreAddressSpace_def)
  moreover have "intoKernelSpaceSaveAddressSpace mmu ?s = Panic ''saved_tt already used!''"
    unfolding intoKernelSpaceSaveAddressSpace_def Let_def using assms(2,6,7) by simp
  ultimately show ?thesis by (intro exI [of _ ?s]) simp
qed

text \<open>The pages \<open>initializeKernelSpace\<close> migrates.\<close>

lemma last_section:
  fixes k q :: nat
  assumes "q = k div 256"
  shows "256 * q + (k + 1) mod 256 = (if 256 dvd (k + 1) then k + 1 - 256 else k + 1)"
proof -
  define r where "r = k mod 256"
  have r: "r < 256" "k + 1 = 256 * q + (r + 1)" by (simp_all add: r_def assms)
  show ?thesis
  proof (cases "r = 255")
    case True
    with r(2) have "k + 1 = 256 * (q + 1)" by simp
    then show ?thesis by simp
  next
    case False
    with r have "(k + 1) mod 256 = r + 1" by simp
    moreover from this have "\<not> 256 dvd (k + 1)" by (simp add: dvd_eq_mod_eq_0)
    ultimately show ?thesis using r(2) by simp
  qed
qed

lemma migrated_lemma:
  "sum_list (map (unat \<circ> snd) (migrated_sections n)) = (let p = unat n div 4096 + 1 in if 256 dvd p then p - 256 else p)"
proof -
  define q where "q = unat n div 1048576"
  have b: "unat n < 4294967296" by (rule unat_u32_bound)
  then have q: "q < 4096" by (simp add: q_def)
  have s: "n div SECTION_SIZE + 1 = (of_nat (q + 1) :: u32)" "unat (n div SECTION_SIZE + 1) = q + 1"
    using q by (simp_all add: q_def unat_div word_unat_eq_iff unat_word_ariths unat_of_nat)
  have pl: "unat ((n div SMALL_PAGE_SIZE + 1) mod 256) = (unat n div 4096 + 1) mod 256"
    using b by (simp add: unat_mod unat_div unat_word_ariths)
  have "map (unat \<circ> snd) (migrated_sections n) = map (\<lambda>i. if i = q then (unat n div 4096 + 1) mod 256 else 256) [0..<q + 1]"
    using q s pl
    by (auto simp: migrated_sections_def Let_def of_nat_inj_u32)
  then have "sum_list (map (unat \<circ> snd) (migrated_sections n)) = 256 * q + (unat n div 4096 + 1) mod 256"
  proof -
    have "map (\<lambda>i. if i = q then (unat n div 4096 + 1) mod 256 else 256) [0..<q] = map (\<lambda>_. 256) [0..<q]" by simp
    then have "sum_list (map (\<lambda>i. if i = q then (unat n div 4096 + 1) mod 256 else 256) [0..<q]) = 256 * q"
      by (simp only: sum_list_triv) simp
    then show ?thesis using \<open>map (unat \<circ> snd) (migrated_sections n) = _\<close> by simp
  qed
  also have "\<dots> = (if 256 dvd (unat n div 4096 + 1) then unat n div 4096 + 1 - 256 else unat n div 4096 + 1)"
    by (rule last_section) (simp add: q_def div_mult2_eq [of _ 4096 256, simplified])
  finally show ?thesis unfolding Let_def .
qed

text \<open>
  At start-up the page tables of the kernel image are migrated section by section. Together they
  cover the pages of the image, \<open>n div 4096 + 1\<close>, except that the last section migrates no page at
  all when that number is a multiple of 256.
\<close>

theorem migrated_pages:
  "sum_list (map (unat \<circ> snd) (migrated_sections n)) = (let p = unat n div 4096 + 1 in if 256 dvd p then p - 256 else p)"
  by (rule migrated_lemma)

section \<open>Examples\<close>

lemma freePagesFromCoarsePageTable_overrun_witness:
  "\<exists>s s'. isPageUsed 0x10001000 (mm s) \<and> list_all (\<lambda>i. load mmu_example (0xed008000 + 4 * of_nat i) s = 0) [0..<256]
    \<and> freePagesFromCoarsePageTable mmu_example 0xed008000 s = Ret s' \<and> \<not> isPageUsed 0x10001000 (mm s')"
proof -
  let ?s = "vm_example\<lparr>ram := (\<lambda>_. 0)(0x110084b0 := newSPD 1 1 0xFF 0x10001000)\<rparr>"
  have m: "mm ?s = setPageUsedBit 0x10001000 True mm_example" by (simp add: vm_example_def)
  have a: "page_aligned 0x10001000" by (simp add: page_aligned_def)
  have tr: "0x10001000 \<in> set (tracked_pages mm_example)"
    by (simp add: tracked_pages_def mm_example_live new_block_def slot_def makeSmallPageAligned_def)
       (rule image_eqI [of _ _ 0]; simp)
  note e = setPageUsedBit_effect [OF mm_example_inv a, where v = True]
  have u: "isPageUsed 0x10001000 (mm ?s)" using e(2) [OF a] tr by (simp add: m)
  have inv: "pm_inv (mm ?s)" using setPageUsedBit_inv [OF mm_example_inv a] by (simp add: m)
  have tr': "0x10001000 \<in> set (tracked_pages (mm ?s))"
    using tr same_frames_tracked [OF e(1) mm_example_inv] by (simp add: m)
  have l: "load mmu_example (0xed008000 + 4 * of_nat i) ?s = (if i = 300 then newSPD 1 1 0xFF 0x10001000 else 0)" if "i < 1024" for i
  proof -
    have "mmu_example (0xed008000 + 4 * of_nat i) = 0x110084b0 \<longleftrightarrow> i = 300"
    proof
      assume "mmu_example (0xed008000 + 4 * of_nat i) = 0x110084b0"
      then have "4 * (of_nat i :: u32) = 4 * of_nat 300" by (simp add: mmu_example_def algebra_simps)
      then have "unat (4 * (of_nat i :: u32)) = unat (4 * (of_nat 300 :: u32))" by simp
      with that show "i = 300" by (simp add: unat_word_ariths unat_of_nat)
    qed (simp add: mmu_example_def)
    then show ?thesis by (simp add: load_def)
  qed
  have "\<forall>i<1024. load mmu_example (0xed008000 + 4 * of_nat i) ?s AND 3 \<in> {0, 2}" using l by (simp add: type_bits)
  from freePagesFromCoarsePageTable_overrun [OF inv this a] obtain s'
    where s': "freePagesFromCoarsePageTable mmu_example 0xed008000 ?s = Ret s'"
      and g: "isPageUsed 0x10001000 (mm s') = (isPageUsed 0x10001000 (mm ?s) \<and> \<not> (0x10001000 \<in> set (tracked_pages (mm ?s)) \<and>
        (\<exists>i<1024. load mmu_example (0xed008000 + 4 * of_nat i) ?s AND 3 = 2 \<and> 0x10001000 = load mmu_example (0xed008000 + 4 * of_nat i) ?s AND NOT 0xFFF)))"
    by blast
  have "\<exists>i<1024. load mmu_example (0xed008000 + 4 * of_nat i) ?s AND 3 = 2 \<and> 0x10001000 = load mmu_example (0xed008000 + 4 * of_nat i) ?s AND NOT 0xFFF"
  proof (intro exI [of _ 300] conjI)
    have l300: "load mmu_example (0xed008000 + 4 * of_nat 300) ?s = newSPD 1 1 0xFF 0x10001000" by (subst l) simp_all
    show "load mmu_example (0xed008000 + 4 * of_nat 300) ?s AND 3 = 2" unfolding l300 by (rule type_bits)
    show "0x10001000 = load mmu_example (0xed008000 + 4 * of_nat 300) ?s AND NOT 0xFFF" unfolding l300 base_bits by simp
  qed simp
  with g tr' have "\<not> isPageUsed 0x10001000 (mm s')" by blast
  moreover have "list_all (\<lambda>i. load mmu_example (0xed008000 + 4 * of_nat i) ?s = 0) [0..<256]" using l by (simp add: list_all_iff)
  ultimately show ?thesis using u s' by blast
qed

lemma intoKernelSpaceSaveAddressSpace_nested_witness:
  "\<exists>s'. intoKernelSpaceSaveAddressSpace mmu_example vm_example = Ret s' \<and> ttbr s' = 0x11000000
    \<and> intoKernelSpaceSaveAddressSpace mmu_example s' = Panic ''saved_tt already used!''"
proof -
  have "load mmu_example (tt_slot 0x100 0xed000000 vm_example) vm_example = newSD 0 0 0 1 0x11000000"
    unfolding tt_load [OF tt_example(1)] ram_example by simp
  then have "getPhysicalAddress mmu_example 0x100 0xed000000 vm_example = (0x11000000 AND NOT 0xFFFFF) + (0xed000000 AND 0xFFFFF)"
    unfolding tt_slot_def by (rule walk_section)
  also have "\<dots> = 0x11000000" by code_simp
  finally have g: "getPhysicalAddress mmu_example 0x100 0xed000000 vm_example = 0x11000000" .
  have f: "kernel_space vm_example = 0x100" "sp_tt vm_example 0x100 = 0xed000000" "ttbr vm_example = 0x11010000" "saved_tt vm_example = 0"
    by (simp_all add: vm_example_def)
  show ?thesis using intoKernelSpaceSaveAddressSpace_nested [of vm_example mmu_example "0x11000000"] by (auto simp: f g)
qed

end
