(* ===== verification/Deferred_Actions.thy ===== *)
theory Deferred_Actions
  imports OS_Prelude
begin

text \<open>
  The interrupt masks (the first part of libk/modes.c), the queues of deferred actions
  (scheduling/deferred_action.c) and the locks (scheduling/lock.c).
\<close>

section \<open>Interrupt masks\<close>

record cpu =
  cpsr :: u32

record irq_state =
  is_irq :: bool
  is_fiq :: bool

definition isIRQ :: "'a cpu_scheme \<Rightarrow> bool" where
  "isIRQ s = (if drop_bit 7 (cpsr s) AND 1 = 1 then False else True)"

definition isFIQ :: "'a cpu_scheme \<Rightarrow> bool" where
  "isFIQ s = (if drop_bit 6 (cpsr s) AND 1 = 1 then False else True)"

definition enableIRQ :: "'a cpu_scheme \<Rightarrow> 'a cpu_scheme" where
  "enableIRQ s = s\<lparr>cpsr := cpsr s AND NOT 0x80\<rparr>"

definition disableIRQ :: "'a cpu_scheme \<Rightarrow> 'a cpu_scheme" where
  "disableIRQ s = s\<lparr>cpsr := cpsr s OR 0x80\<rparr>"

definition enableFIQ :: "'a cpu_scheme \<Rightarrow> 'a cpu_scheme" where
  "enableFIQ s = s\<lparr>cpsr := cpsr s AND NOT 0x40\<rparr>"

definition disableFIQ :: "'a cpu_scheme \<Rightarrow> 'a cpu_scheme" where
  "disableFIQ s = s\<lparr>cpsr := cpsr s OR 0x40\<rparr>"

definition irq_save_state :: "'a cpu_scheme \<Rightarrow> irq_state" where
  "irq_save_state s = \<lparr>is_irq = isIRQ s, is_fiq = isFIQ s\<rparr>"

definition irq_disable :: "'a cpu_scheme \<Rightarrow> 'a cpu_scheme" where
  "irq_disable s = disableIRQ (disableFIQ s)"

definition irq_restore_state :: "irq_state \<Rightarrow> 'a cpu_scheme \<Rightarrow> 'a cpu_scheme" where
  "irq_restore_state st s =
     (let s = (if is_irq st then enableIRQ s else s)
      in if is_fiq st then enableFIQ s else s)"

section \<open>Deferred actions\<close>

text \<open>
  \<open>queue_head q\<close> is what the pointer \<open>q\<close> to a queue points to. Of an action the type, the function and the
  next pointer are used.
\<close>

record actions = cpu +
  queue_head :: "addr \<Rightarrow> addr"
  act_type :: "addr \<Rightarrow> u8"
  act_function :: "addr \<Rightarrow> addr"
  act_next :: "addr \<Rightarrow> addr"

definition set_act_next :: "addr \<Rightarrow> addr \<Rightarrow> actions \<Rightarrow> actions" where
  "set_act_next p v s = s\<lparr>act_next := (act_next s)(p := v)\<rparr>"

definition action_get_next :: "addr \<Rightarrow> actions \<Rightarrow> addr" where
  "action_get_next queue s = (if queue = NULL then NULL else if queue_head s queue = NULL then NULL else queue_head s queue)"

partial_function (option) last_action :: "addr \<Rightarrow> actions \<Rightarrow> addr option" where
  "last_action nxt s = (if act_next s nxt \<noteq> NULL then last_action (act_next s nxt) s else Some nxt)"

definition action_add :: "addr \<Rightarrow> addr \<Rightarrow> actions \<Rightarrow> actions option" where
  "action_add queue action s =
     (if queue = NULL then Some s
      else if queue_head s queue = NULL then Some (s\<lparr>queue_head := (queue_head s)(queue := action)\<rparr>)
      else
        let st = irq_save_state s;
            s = irq_disable s
        in map_option (\<lambda>p. irq_restore_state st (set_act_next p action s)) (last_action (queue_head s queue) s))"

text \<open>The body of \<open>action_syscall\<close> is empty. \<open>call\<close> is the effect of calling a function.\<close>

definition action_syscall :: "addr \<Rightarrow> actions \<Rightarrow> actions" where
  "action_syscall action s = s"

definition action_do_next :: "(addr \<Rightarrow> actions \<Rightarrow> actions) \<Rightarrow> addr \<Rightarrow> actions \<Rightarrow> addr \<times> actions" where
  "action_do_next call queue s =
     (if queue = NULL then (NULL, s)
      else
        let st = irq_save_state s;
            s = irq_disable s
        in if queue_head s queue = NULL then (NULL, s)
           else
             let action = queue_head s queue;
                 s = (if act_type s action = 1 then action_syscall action s else s);
                 s = (if act_type s action = 2 then call (act_function s action) s else s)
             in (action, irq_restore_state st s))"

section \<open>Locks\<close>

record locks = cpu +
  lock_count :: "addr \<Rightarrow> u32"
  ref_count :: "addr \<Rightarrow> u32"
  lock_freed :: "addr list"

text \<open>\<open>lock\<close> is the address \<open>kmalloc\<close> returns.\<close>

definition lock_create :: "addr \<Rightarrow> locks \<Rightarrow> addr \<times> locks" where
  "lock_create lock s =
     (if lock = NULL then (NULL, s)
      else
        let s = s\<lparr>lock_count := (lock_count s)(lock := 0)\<rparr>;
            s = s\<lparr>ref_count := (ref_count s)(lock := 1)\<rparr>
        in (lock, s))"

definition lock_reference :: "addr \<Rightarrow> locks \<Rightarrow> addr \<times> locks" where
  "lock_reference lock s =
     (if lock = NULL then (NULL, s)
      else
        let state = irq_save_state s;
            s = irq_disable s;
            s = s\<lparr>ref_count := (ref_count s)(lock := ref_count s lock + 1)\<rparr>
        in (lock, irq_restore_state state s))"

definition lock_unreference :: "addr \<Rightarrow> locks \<Rightarrow> locks" where
  "lock_unreference lock s =
     (if lock = NULL then s
      else
        let state = irq_save_state s;
            s = irq_disable s;
            s = s\<lparr>ref_count := (ref_count s)(lock := ref_count s lock - 1)\<rparr>;
            s = (if ref_count s lock = 0 then s\<lparr>lock_freed := lock_freed s @ [lock]\<rparr> else s)
        in irq_restore_state state s)"

definition lock_lock :: "addr \<Rightarrow> locks \<Rightarrow> locks" where
  "lock_lock lock s =
     (if lock = NULL then s
      else
        let state = irq_save_state s;
            s = irq_disable s;
            s = s\<lparr>lock_count := (lock_count s)(lock := lock_count s lock + 1)\<rparr>
        in irq_restore_state state s)"

definition lock_unlock :: "addr \<Rightarrow> locks \<Rightarrow> locks" where
  "lock_unlock lock s =
     (if lock = NULL then s
      else
        let state = irq_save_state s;
            s = irq_disable s;
            s = (if lock_count s lock \<noteq> 0 then s\<lparr>lock_count := (lock_count s)(lock := lock_count s lock - 1)\<rparr> else s)
        in irq_restore_state state s)"

definition lock_locked :: "addr \<Rightarrow> locks \<Rightarrow> bool" where
  "lock_locked lock s = (if lock = NULL then False else if lock_count s lock \<noteq> 0 then True else False)"

section \<open>Masks are restored\<close>

lemma is_bits: "isIRQ s \<longleftrightarrow> \<not> bit (cpsr s) 7" "isFIQ s \<longleftrightarrow> \<not> bit (cpsr s) 6"
  by (simp_all add: isIRQ_def isFIQ_def and_one_eq bit_iff_odd_drop_bit odd_iff_mod_2_eq_one)

lemma mask_bits: "bit (0x80 :: u32) n \<longleftrightarrow> n = 7" "bit (0x40 :: u32) n \<longleftrightarrow> n = 6"
proof -
  have e: "bit (2 ^ k :: u32) n \<longleftrightarrow> n = k" if "k < 32" for k using that by (auto simp: bit_exp_iff)
  show "bit (0x80 :: u32) n \<longleftrightarrow> n = 7" "bit (0x40 :: u32) n \<longleftrightarrow> n = 6" using e [of 7] e [of 6] by simp_all
qed

text \<open>A section with the interrupts masked that does not touch the status register leaves it as it was.\<close>

lemma irq_bracket:
  assumes "cpsr s' = cpsr (irq_disable s)"
  shows "cpsr (irq_restore_state (irq_save_state s) s') = cpsr s"
proof -
  have "cpsr (irq_restore_state (irq_save_state s) s')
      = (let w = (cpsr s OR 0x40) OR 0x80; w = (if \<not> bit (cpsr s) 7 then w AND NOT 0x80 else w)
         in if \<not> bit (cpsr s) 6 then w AND NOT 0x40 else w)"
    by (simp only: irq_restore_state_def irq_save_state_def is_bits assms irq_disable_def disableIRQ_def disableFIQ_def
        enableIRQ_def enableFIQ_def Let_def cpu.simps irq_state.simps split: if_split) simp
  also have "\<dots> = cpsr s"
    by (rule bit_word_eqI) (auto simp only: Let_def bit_and_iff bit_or_iff bit_not_iff possible_bit_word mask_bits split: if_split)
  finally show ?thesis .
qed

section \<open>Queues\<close>

interpretation act: next_field act_next set_act_next
  by unfold_locales (simp add: set_act_next_def)

text \<open>The actions of a queue, the next one first.\<close>

definition queued :: "addr \<Rightarrow> actions \<Rightarrow> addr list \<Rightarrow> bool" where
  "queued queue s xs \<longleftrightarrow> path (act_next s) (queue_head s queue) xs NULL"

lemma mask_fields [simp]:
  "queue_head (irq_disable s) = queue_head s" "act_type (irq_disable s) = act_type s" "act_function (irq_disable s) = act_function s"
  "act_next (irq_disable s) = act_next s" "queue_head (irq_restore_state st s) = queue_head s" "act_type (irq_restore_state st s) = act_type s"
  "act_function (irq_restore_state st s) = act_function s" "act_next (irq_restore_state st s) = act_next s" for s :: actions
  by (simp_all add: irq_disable_def disableIRQ_def disableFIQ_def irq_restore_state_def enableIRQ_def enableFIQ_def Let_def)

lemma last_action_path: "path (act_next s) a (xs @ [p]) NULL \<Longrightarrow> last_action a s = Some p"
proof (induction xs arbitrary: a)
  case Nil
  then show ?case by (subst last_action.simps) simp
next
  case (Cons x xs)
  then have "act_next s x \<noteq> NULL" by (cases xs) auto
  with Cons show ?case by (subst last_action.simps) simp
qed

lemma set_act_next_fields [simp]: "queue_head (set_act_next p v s) = queue_head s" "cpsr (set_act_next p v s) = cpsr s"
  by (simp_all add: set_act_next_def)

text \<open>Adding an action ends, appends it to the queue, and leaves the interrupt masks as they were.\<close>

lemma action_add_appends:
  assumes "queue \<noteq> NULL" and "queued queue s xs" and "action \<noteq> NULL" and "action \<notin> set xs" and "act_next s action = NULL"
  shows "\<exists>s'. action_add queue action s = Some s' \<and> queued queue s' (xs @ [action]) \<and> cpsr s' = cpsr s"
proof (cases xs rule: rev_cases)
  case Nil
  then show ?thesis using assms by (simp add: queued_def action_add_def)
next
  case (snoc ys p)
  from assms(2) have path: "path (act_next s) (queue_head s queue) (ys @ [p]) NULL" by (simp add: queued_def snoc)
  then have "queue_head s queue \<noteq> NULL" by (cases ys) auto
  moreover have "last_action (queue_head s queue) (irq_disable s) = Some p" using path by (intro last_action_path [of _ _ ys]) simp
  ultimately have "action_add queue action s = Some (irq_restore_state (irq_save_state s) (set_act_next p action (irq_disable s)))"
    using assms(1) by (simp add: action_add_def Let_def)
  moreover have "path (act_next (set_act_next p action (irq_disable s))) (queue_head s queue) (ys @ [p, action]) NULL"
    by (rule act.append_last) (use path assms snoc in simp_all)
  moreover have "cpsr (irq_restore_state (irq_save_state s) (set_act_next p action (irq_disable s))) = cpsr s"
    by (rule irq_bracket) simp
  ultimately show ?thesis by (simp add: queued_def snoc)
qed

text \<open>
  Running the next action of a queue does not take it from the queue: the queue is the same afterwards, so the next call runs
  the same action again, and the caller, which frees the action, leaves a freed action in the queue. On an empty
  queue the call returns with both interrupts masked.
\<close>

theorem action_do_next_repeats:
  assumes "queue \<noteq> NULL" and "queued queue s xs"
    and "\<And>f s. queue_head (call f s) = queue_head s \<and> act_next (call f s) = act_next s"
  shows "let (action, s') = action_do_next call queue s in
    queued queue s' xs \<and> action = (if xs = [] then NULL else hd xs) \<and> action = fst (action_do_next call queue s')
    \<and> (xs = [] \<longrightarrow> \<not> isIRQ s' \<and> \<not> isFIQ s')"
proof (cases xs)
  case Nil
  then have h: "queue_head s queue = NULL" using assms(2) by (simp add: queued_def)
  have "cpsr (irq_disable s) = (cpsr s OR 0x40) OR 0x80" by (simp add: irq_disable_def disableIRQ_def disableFIQ_def)
  then have "bit (cpsr (irq_disable s)) 7" "bit (cpsr (irq_disable s)) 6" by (simp_all only: bit_or_iff mask_bits simp_thms)
  then show ?thesis using assms(1) Nil h by (simp add: action_do_next_def Let_def queued_def is_bits)
next
  case (Cons x ys)
  then have h: "queue_head s queue = x" "x \<noteq> NULL" using assms(2) by (auto simp: queued_def)
  obtain s' where s': "action_do_next call queue s = (x, s')" "queue_head s' = queue_head s" "act_next s' = act_next s"
    using assms(1,3) h by (auto simp: action_do_next_def Let_def action_syscall_def)
  have "fst (action_do_next call queue s') = x" using assms(1) h by (simp add: action_do_next_def Let_def s'(2))
  then show ?thesis using s' Cons assms(2) by (simp add: queued_def)
qed

lemma action_do_next_repeats_witness:
  "let s = \<lparr>cpsr = 0x13, queue_head = (\<lambda>_. 0)(0x10 := 0x100), act_type = (\<lambda>_. 2), act_function = (\<lambda>_. 0x8000), act_next = (\<lambda>_. 0)\<rparr>
   in fst (action_do_next (\<lambda>_ s. s) 0x10 s) = 0x100
     \<and> fst (action_do_next (\<lambda>_ s. s) 0x10 (snd (action_do_next (\<lambda>_ s. s) 0x10 s))) = 0x100"
  using action_do_next_repeats [of "0x10" "\<lparr>cpsr = 0x13, queue_head = (\<lambda>_. 0)(0x10 := 0x100), act_type = (\<lambda>_. 2), act_function = (\<lambda>_. 0x8000), act_next = (\<lambda>_. 0)\<rparr>"
      "[0x100]" "\<lambda>_ s. s"]
  by (simp add: queued_def Let_def split: prod.splits)

section \<open>Reference counts\<close>

lemma lock_fields [simp]:
  "lock_count (irq_disable s) = lock_count s" "ref_count (irq_disable s) = ref_count s" "lock_freed (irq_disable s) = lock_freed s"
  "lock_count (irq_restore_state st s) = lock_count s" "ref_count (irq_restore_state st s) = ref_count s"
  "lock_freed (irq_restore_state st s) = lock_freed s" for s :: locks
  by (simp_all add: irq_disable_def disableIRQ_def disableFIQ_def irq_restore_state_def enableIRQ_def enableFIQ_def Let_def)

text \<open>A lock is freed exactly when its last reference is given up; all operations keep the interrupt masks.\<close>

lemma lock_unreference_effect:
  assumes "lock \<noteq> NULL"
  shows "ref_count (lock_unreference lock s) = (ref_count s)(lock := ref_count s lock - 1)"
    and "lock_freed (lock_unreference lock s) = (if ref_count s lock = 1 then lock_freed s @ [lock] else lock_freed s)"
    and "cpsr (lock_unreference lock s) = cpsr s"
  using assms by (simp_all add: lock_unreference_def Let_def irq_bracket)

lemma lock_reference_effect:
  assumes "lock \<noteq> NULL"
  shows "ref_count (snd (lock_reference lock s)) = (ref_count s)(lock := ref_count s lock + 1)"
    and "lock_freed (snd (lock_reference lock s)) = lock_freed s" and "cpsr (snd (lock_reference lock s)) = cpsr s"
  using assms by (simp_all add: lock_reference_def Let_def irq_bracket)

text \<open>\<open>n\<close> references and as many times giving one up (and one more for the creator) free the lock exactly once.\<close>

lemma lock_references:
  assumes "lock \<noteq> NULL" and "unat (ref_count s lock) = n" and "n > 0"
  shows "lock_freed ((lock_unreference lock ^^ n) s) = lock_freed s @ [lock]"
  using assms(2,3)
proof (induction n arbitrary: s)
  case (Suc n)
  note e = lock_unreference_effect [OF assms(1), of s]
  show ?case
  proof (cases n)
    case 0
    then have "ref_count s lock = 1" using Suc.prems(1) by (intro unat_inj_u32) simp
    then show ?thesis using 0 e(2) by simp
  next
    case (Suc m)
    have "unat (ref_count s lock - 1) = n" using Suc.prems by (subst unat_sub_u32) (simp_all add: unat_le_u32)
    then have "unat (ref_count (lock_unreference lock s) lock) = n" using e(1) by simp
    from Suc.IH [OF this] Suc have "lock_freed ((lock_unreference lock ^^ n) (lock_unreference lock s)) = lock_freed (lock_unreference lock s) @ [lock]" by simp
    moreover have "ref_count s lock \<noteq> 1" using Suc Suc.prems(1) by auto
    ultimately show ?thesis using e(2) by (simp add: funpow_swap1)
  qed
qed simp

end
