(* ===== verification/Kernel_Lib.thy ===== *)
theory Kernel_Lib
  imports OS_Prelude
begin

text \<open>
  The C library of the kernel, kernel/libk: memory.c, math.c and string.c. The memory is a map
  from addresses to bytes. Characters are unsigned, as on the ARM target; an \<open>int32_t\<close> is the word
  that holds it.
\<close>

type_synonym bytes = "addr \<Rightarrow> u8"

section \<open>Memory\<close>

fun memset_loop :: "u8 \<Rightarrow> nat \<Rightarrow> addr \<Rightarrow> bytes \<Rightarrow> bytes" where
  "memset_loop cc 0 area m = m"
| "memset_loop cc (Suc n) area m = memset_loop cc n (area + 1) (m(area := cc))"

definition k_memset :: "addr \<Rightarrow> u32 \<Rightarrow> u32 \<Rightarrow> bytes \<Rightarrow> addr \<times> bytes" where
  "k_memset str c n m = (str, memset_loop (ucast c) (unat n) str m)"

fun memcpy_loop :: "nat \<Rightarrow> addr \<Rightarrow> addr \<Rightarrow> bytes \<Rightarrow> bytes" where
  "memcpy_loop 0 area1 area2 m = m"
| "memcpy_loop (Suc n) area1 area2 m = memcpy_loop n (area1 + 1) (area2 + 1) (m(area1 := m area2))"

definition k_memcpy :: "addr \<Rightarrow> addr \<Rightarrow> u32 \<Rightarrow> bytes \<Rightarrow> addr \<times> bytes" where
  "k_memcpy str1 str2 n m = (str1, memcpy_loop (unat n) str1 str2 m)"

fun memcmp_loop :: "nat \<Rightarrow> addr \<Rightarrow> addr \<Rightarrow> bytes \<Rightarrow> int" where
  "memcmp_loop 0 area1 area2 m = 0"
| "memcmp_loop (Suc n) area1 area2 m =
     (if m area1 \<noteq> m area2 then if m area1 < m area2 then - 1 else 1
      else memcmp_loop n (area1 + 1) (area2 + 1) m)"

definition k_memcmp :: "addr \<Rightarrow> addr \<Rightarrow> u32 \<Rightarrow> bytes \<Rightarrow> int" where
  "k_memcmp str1 str2 n m = memcmp_loop (unat n) str1 str2 m"

section \<open>Arithmetic\<close>

definition k_pow :: "u32 \<Rightarrow> u32 \<Rightarrow> u32" where
  "k_pow a b =
     (if b = 0 then 1 else if b = 1 then a
      else fold (\<lambda>_ sum. sum * a) [0..<unat (b - 1)] a)"

definition signedtounsigned32 :: "u32 \<Rightarrow> u32" where
  "signedtounsigned32 i = (if sint i < 0 then - i else i)"

definition signedtounsigned64 :: "u64 \<Rightarrow> u64" where
  "signedtounsigned64 i = (if sint i < 0 then - i else i)"

definition pow_of_2 :: "u32 \<Rightarrow> u32" where
  "pow_of_2 e = push_bit (unat e) 1"

text \<open>A shift by 32 (or 64) or more, which C leaves undefined, gives 0 here.\<close>

definition set_bits32 :: "u32 \<Rightarrow> u32" where
  "set_bits32 b = drop_bit (unat (32 - b)) 0xffffffff"

definition set_bits64 :: "u32 \<Rightarrow> u64" where
  "set_bits64 b = drop_bit (unat (64 - b)) 0xffffffffffffffff"

definition align4Bytes :: "addr \<Rightarrow> addr" where
  "align4Bytes address = (if address AND 3 = 0 then address else (address AND NOT 3) + 4)"

definition make4ByteAligned :: "addr \<Rightarrow> addr" where
  "make4ByteAligned p = (if p AND 3 \<noteq> 0 then (p AND NOT 3) + 4 else p)"

definition make1KAligned :: "addr \<Rightarrow> addr" where
  "make1KAligned p = (let tmp = p AND NOT 0x3FF in if p AND 0x3FF \<noteq> 0 then tmp + 0x400 else tmp)"

section \<open>Strings\<close>

function strlen_loop :: "bytes \<Rightarrow> u32 \<Rightarrow> addr \<Rightarrow> u32 \<Rightarrow> u32" where
  "strlen_loop m max_len c len =
     (if m c = 0 then len
      else if len \<ge> max_len then max_len
      else strlen_loop m max_len (c + 1) (len + 1))"
  by auto
termination
proof (relation "measure (\<lambda>(m, max_len, c, len). unat max_len - unat len)")
  fix max_len len :: u32
  assume "\<not> max_len \<le> len"
  then have l: "unat len < unat max_len" by (simp add: not_le unat_less_u32)
  then have "unat (len + 1) = unat len + 1" using unat_u32_bound [of max_len] by (subst unat_add_u32) simp_all
  with l show "((m, max_len, c + 1, len + 1), (m, max_len, c, len)) \<in> measure (\<lambda>(m, max_len, c, len). unat max_len - unat len)"
    for m :: bytes and c :: addr by simp
qed simp

declare strlen_loop.simps [simp del]

definition k_strlen :: "addr \<Rightarrow> u32 \<Rightarrow> bytes \<Rightarrow> u32" where
  "k_strlen string max_len m = strlen_loop m max_len string 0"

fun strcmp_loop :: "nat \<Rightarrow> addr \<Rightarrow> addr \<Rightarrow> u32 \<Rightarrow> bytes \<Rightarrow> u32" where
  "strcmp_loop 0 s1 s2 count m = count"
| "strcmp_loop (Suc n) s1 s2 count m =
     (if m s1 = 0 \<or> m s2 = 0 then count
      else strcmp_loop n (s1 + 1) (s2 + 1) (count + (ucast (m s1) - ucast (m s2))) m)"

definition k_strcmp :: "addr \<Rightarrow> addr \<Rightarrow> u32 \<Rightarrow> bytes \<Rightarrow> u32" where
  "k_strcmp s1 s2 max_len m = strcmp_loop (unat max_len) s1 s2 0 m"

fun streq_loop :: "nat \<Rightarrow> addr \<Rightarrow> addr \<Rightarrow> bytes \<Rightarrow> bool" where
  "streq_loop 0 s1 s2 m = True"
| "streq_loop (Suc n) s1 s2 m =
     (if m s1 = 0 \<or> m s2 = 0 then True
      else if m s1 \<noteq> m s2 then False
      else streq_loop n (s1 + 1) (s2 + 1) m)"

definition k_streq :: "addr \<Rightarrow> addr \<Rightarrow> u32 \<Rightarrow> bytes \<Rightarrow> bool" where
  "k_streq s1 s2 max_len m =
     (if k_strlen s1 max_len m \<noteq> k_strlen s2 max_len m then False
      else streq_loop (unat max_len) s1 s2 m)"

definition k_streq_len :: "addr \<Rightarrow> addr \<Rightarrow> u32 \<Rightarrow> bytes \<Rightarrow> bool" where
  "k_streq_len s1 s2 max_len m = streq_loop (unat max_len) s1 s2 m"

section \<open>Printing numbers\<close>

text \<open>
  The digits of a number, the last one first, as the loop puts them in \<open>buff\<close>; \<open>n\<close> is the index of
  the next one. A base of 0 or 1, or a number with more digits than the 36 bytes of \<open>buff\<close>, makes
  the loop leave the buffer: the result \<open>None\<close>.
\<close>

definition digit_char :: "nat \<Rightarrow> u8" where
  "digit_char tmp = (if tmp < 10 then 48 + of_nat tmp else 97 + of_nat tmp - 10)"

function digits_loop :: "nat \<Rightarrow> nat \<Rightarrow> nat \<Rightarrow> u8 list option" where
  "digits_loop n base a =
     (if n \<ge> 36 \<or> base = 0 then None
      else
        let tmp = a mod base
        in if tmp > 15 then Some [0]
           else if a div base = 0 then Some [digit_char tmp]
           else map_option (Cons (digit_char tmp)) (digits_loop (n + 1) base (a div base)))"
  by auto
termination by (relation "measure (\<lambda>(n, base, a). 36 - n)") auto

declare digits_loop.simps [simp del]

text \<open>The second loop copies them in reverse order, at most \<open>length - 1\<close> and at most 34 of them.\<close>

fun put_chars :: "u8 list \<Rightarrow> nat \<Rightarrow> addr \<Rightarrow> u32 \<Rightarrow> bytes \<Rightarrow> nat \<times> bytes" where
  "put_chars [] h string len m = (h, m)"
| "put_chars (c # cs) h string len m =
     (if of_nat h \<ge> len - 1 \<or> h \<ge> 34 then (h, m)
      else put_chars cs (h + 1) string len (m(string + of_nat h := c)))"

definition sprint_uint64_base_safe :: "addr \<Rightarrow> u32 \<Rightarrow> u64 \<Rightarrow> u32 \<Rightarrow> bytes \<Rightarrow> (u32 \<times> bytes) option" where
  "sprint_uint64_base_safe string len a base m =
     map_option (\<lambda>ds. let (h, m) = put_chars (rev ds) 0 string len m in (of_nat h, m)) (digits_loop 0 (unat base) (unat a))"

definition sprint_uint32_base_safe :: "addr \<Rightarrow> u32 \<Rightarrow> u32 \<Rightarrow> u32 \<Rightarrow> bytes \<Rightarrow> (u32 \<times> bytes) option" where
  "sprint_uint32_base_safe string len a base m =
     map_option (\<lambda>ds. let (h, m) = put_chars (rev ds) 0 string len m in (of_nat h, m)) (digits_loop 0 (unat base) (unat a))"

section \<open>Formatted printing\<close>

text \<open>
  The variable arguments of \<open>sprintf_safe\<close>: words, double words, pointers to strings, and doubles,
  whose conversion \<open>sprint_double_safe\<close> (floating point) is the parameter \<open>dbl\<close>: the number of characters and
  the memory after it. A missing argument, which C leaves undefined, ends the call with \<open>None\<close>.
\<close>

datatype vararg = Word32 u32 | Word64 u64 | Pointer addr | Double u64

fun va_word32 :: "vararg list \<Rightarrow> (u32 \<times> vararg list) option" where
  "va_word32 (Word32 w # va) = Some (w, va)"
| "va_word32 _ = None"

fun va_word64 :: "vararg list \<Rightarrow> (u64 \<times> vararg list) option" where
  "va_word64 (Word64 w # va) = Some (w, va)"
| "va_word64 _ = None"

fun va_pointer :: "vararg list \<Rightarrow> (addr \<times> vararg list) option" where
  "va_pointer (Pointer p # va) = Some (p, va)"
| "va_pointer _ = None"

fun va_double :: "vararg list \<Rightarrow> (u64 \<times> vararg list) option" where
  "va_double (Double d # va) = Some (d, va)"
| "va_double _ = None"

text \<open>The directive at a position of the format string, in the order of the tests.\<close>

datatype directive = Literal | Percent | String | Dec | Hex | Hex64 | Dec64 | Dbl

definition directive_at :: "bytes \<Rightarrow> addr \<Rightarrow> directive" where
  "directive_at m c =
     (if m c = 37 \<and> m (c + 1) \<noteq> 0 then
        if m (c + 1) = 37 then Percent
        else if m (c + 1) = 115 then String
        else if m (c + 1) = 100 then Dec
        else if m (c + 1) = 120 then Hex
        else if m (c + 1) = 108 \<and> m (c + 2) = 108 \<and> m (c + 3) = 120 then Hex64
        else if m (c + 1) = 108 \<and> m (c + 2) = 108 \<and> m (c + 3) = 100 then Dec64
        else if m (c + 1) = 76 \<and> m (c + 2) = 102 then Dbl
        else Literal
      else Literal)"

text \<open>
  A round of the loop: \<open>c\<close> is the position in the format string, \<open>index\<close> the number of characters
  written so far, \<open>va\<close> the arguments left.
\<close>

type_synonym sprintf_state = "addr \<times> u32 \<times> vararg list \<times> bytes"

fun sprintf_step ::
  "(addr \<Rightarrow> u32 \<Rightarrow> u64 \<Rightarrow> bytes \<Rightarrow> u32 \<times> bytes) \<Rightarrow> addr \<Rightarrow> u32 \<Rightarrow> sprintf_state \<Rightarrow> sprintf_state option" where
  "sprintf_step dbl result len (c, index, va, m) =
     (case directive_at m c of
        Percent \<Rightarrow>
          if \<not> (index + 1 \<ge> len - 1) then Some (c + 2, index + 1, va, m(result + index := 37))
          else Some (c, index, va, m)
      | String \<Rightarrow>
          map_option (\<lambda>(string, va).
            let copy = k_strlen string 100 m;
                copy = (if copy \<ge> index + len - 1 then index + len - 1 else copy);
                (_, m) = k_memcpy (result + index) string copy m
            in (c + 2, index + copy, va, m)) (va_pointer va)
      | Dec \<Rightarrow>
          Option.bind (va_word32 va) (\<lambda>(w, va).
          map_option (\<lambda>(h, m). (c + 2, index + h, va, m)) (sprint_uint32_base_safe (result + index) (len - index) w 10 m))
      | Hex \<Rightarrow>
          Option.bind (va_word32 va) (\<lambda>(w, va).
          map_option (\<lambda>(h, m). (c + 2, index + h, va, m)) (sprint_uint32_base_safe (result + index) (len - index) w 16 m))
      | Hex64 \<Rightarrow>
          Option.bind (va_word64 va) (\<lambda>(w, va).
          map_option (\<lambda>(h, m). (c + 4, index + h, va, m)) (sprint_uint64_base_safe (result + index) (len - index) w 16 m))
      | Dec64 \<Rightarrow>
          Option.bind (va_word64 va) (\<lambda>(w, va).
          map_option (\<lambda>(h, m). (c + 4, index + h, va, m)) (sprint_uint64_base_safe (result + index) (len - index) w 10 m))
      | Dbl \<Rightarrow>
          map_option (\<lambda>(d, va). let (h, m) = dbl (result + index) (len - index) d m in (c + 3, index + h, va, m)) (va_double va)
      | Literal \<Rightarrow> Some (c + 1, index + 1, va, m(result + index := m c)))"

fun sprintf_done :: "u32 \<Rightarrow> sprintf_state \<Rightarrow> bool" where
  "sprintf_done len (c, index, va, m) \<longleftrightarrow> index \<ge> len - 1 \<or> m c = 0"

partial_function (option) sprintf_loop ::
  "(addr \<Rightarrow> u32 \<Rightarrow> u64 \<Rightarrow> bytes \<Rightarrow> u32 \<times> bytes) \<Rightarrow> addr \<Rightarrow> u32 \<Rightarrow> sprintf_state \<Rightarrow> sprintf_state option" where
  "sprintf_loop dbl result len st =
     (if sprintf_done len st then Some st
      else Option.bind (sprintf_step dbl result len st) (sprintf_loop dbl result len))"

text \<open>\<open>sprintf_safe\<close> and \<open>sprintf_safe_va\<close> have the same body.\<close>

definition sprintf_safe ::
  "(addr \<Rightarrow> u32 \<Rightarrow> u64 \<Rightarrow> bytes \<Rightarrow> u32 \<times> bytes) \<Rightarrow> addr \<Rightarrow> addr \<Rightarrow> u32 \<Rightarrow> vararg list \<Rightarrow> bytes \<Rightarrow> bytes option" where
  "sprintf_safe dbl result str len va m = map_option (\<lambda>(_, _, _, m). m) (sprintf_loop dbl result len (str, 0, va, m))"

definition sprintf_safe_va ::
  "(addr \<Rightarrow> u32 \<Rightarrow> u64 \<Rightarrow> bytes \<Rightarrow> u32 \<times> bytes) \<Rightarrow> addr \<Rightarrow> addr \<Rightarrow> u32 \<Rightarrow> vararg list \<Rightarrow> bytes \<Rightarrow> bytes option" where
  "sprintf_safe_va dbl result str len va m = map_option (\<lambda>(_, _, _, m). m) (sprintf_loop dbl result len (str, 0, va, m))"

section \<open>Alignment\<close>

lemma align4Bytes_eq: "align4Bytes p = make4ByteAligned p"
  by (simp add: align4Bytes_def make4ByteAligned_def)

section \<open>Copying and filling\<close>

lemma memset_loop_eq:
  "memset_loop cc n p m a = (if \<exists>i<n. a = p + of_nat i then cc else m a)"
proof (induction n arbitrary: p m)
  case 0
  then show ?case by simp
next
  case (Suc n)
  have "(\<exists>i<Suc n. a = p + of_nat i) \<longleftrightarrow> a = p \<or> (\<exists>i<n. a = p + 1 + of_nat i)"
    by (auto simp: less_Suc_eq_0_disj algebra_simps)
  then show ?case by (simp add: Suc) blast
qed

text \<open>
  The copy goes forward byte by byte. It is right when no byte of the source is overwritten before
  it is read.
\<close>

lemma memcpy_loop_other: "\<forall>i<n. a \<noteq> p + of_nat i \<Longrightarrow> memcpy_loop n p q m a = m a"
proof (induction n arbitrary: p q m)
  case 0
  then show ?case by simp
next
  case (Suc n)
  have "a \<noteq> p + 1 + of_nat i" if "i < n" for i
    using Suc.prems [rule_format, of "Suc i"] that by (simp add: algebra_simps)
  moreover have "a \<noteq> p" using Suc.prems [rule_format, of 0] by simp
  ultimately show ?case using Suc.IH by simp
qed

lemma memcpy_loop_at:
  assumes "\<forall>i<n. \<forall>j<i. q + of_nat i \<noteq> p + of_nat j" and "n < 4294967296" and "i < n"
  shows "memcpy_loop n p q m (p + of_nat i) = m (q + of_nat i)"
  using assms
proof (induction n arbitrary: p q m i)
  case 0
  then show ?case by simp
next
  case (Suc n)
  show ?case
  proof (cases i)
    case 0
    have "p \<noteq> p + 1 + of_nat k" if "k < n" for k
    proof
      assume "p = p + 1 + of_nat k"
      then have "of_nat (Suc k) = (0 :: u32)" by (simp add: algebra_simps)
      then have "unat (of_nat (Suc k) :: u32) = 0" by simp
      moreover have "Suc k < 4294967296" using that Suc.prems(2) by simp
      ultimately show False by (simp only: unat_of_nat_u32)
    qed
    with 0 show ?thesis by (simp add: memcpy_loop_other)
  next
    case (Suc k)
    have d: "\<forall>i<n. \<forall>j<i. q + 1 + of_nat i \<noteq> p + 1 + of_nat j"
    proof (intro allI impI)
      fix i j assume "i < n" "j < i"
      then show "q + 1 + of_nat i \<noteq> p + 1 + of_nat j" using Suc.prems(1) [rule_format, of "Suc i" "Suc j"] by (simp add: algebra_simps)
    qed
    have "memcpy_loop n (p + 1) (q + 1) (m(p := m q)) (p + 1 + of_nat k) = (m(p := m q)) (q + 1 + of_nat k)"
      using Suc.prems(2,3) Suc by (intro Suc.IH d) simp_all
    moreover have "q + 1 + of_nat k \<noteq> p" using Suc.prems(1) [rule_format, of i 0] Suc.prems(3) Suc by (simp add: algebra_simps)
    ultimately show ?thesis using Suc by (simp add: algebra_simps)
  qed
qed

section \<open>Strings\<close>

text \<open>The string at an address, cut off after \<open>n\<close> characters.\<close>

fun cstring :: "bytes \<Rightarrow> addr \<Rightarrow> nat \<Rightarrow> u8 list" where
  "cstring m p 0 = []"
| "cstring m p (Suc n) = (if m p = 0 then [] else m p # cstring m (p + 1) n)"

lemma length_cstring: "length (cstring m p n) \<le> n"
  by (induction n arbitrary: p) auto

lemma strlen_loop_eq:
  "n = unat k - unat len \<Longrightarrow> len \<le> k \<Longrightarrow> unat (strlen_loop m k p len) = unat len + length (cstring m p n)"
proof (induction n arbitrary: p len)
  case 0
  then have "len = k" by (simp add: unat_le_u32 word_unat_eq_iff)
  then show ?case by (subst strlen_loop.simps) simp
next
  case (Suc n)
  from Suc.prems have l: "unat len < unat k" by simp
  have s: "unat (len + 1) = unat len + 1" using l unat_u32_bound [of k] by (subst unat_add_u32) simp_all
  have "unat (strlen_loop m k (p + 1) (len + 1)) = unat (len + 1) + length (cstring m (p + 1) n)"
    using Suc.prems l by (intro Suc.IH) (simp_all add: s unat_le_u32)
  then show ?case using l by (subst strlen_loop.simps) (simp add: s unat_le_u32)
qed

lemma k_strlen_eq: "unat (k_strlen p k m) = length (cstring m p (unat k))"
  unfolding k_strlen_def using strlen_loop_eq [of "unat k" k 0 m p] by simp

lemma streq_loop_eq:
  "length (cstring m p n) = length (cstring m q n) \<Longrightarrow> streq_loop n p q m \<longleftrightarrow> cstring m p n = cstring m q n"
  by (induction n arbitrary: p q) (auto split: if_splits)

lemma k_streq_iff: "k_streq p q k m \<longleftrightarrow> cstring m p (unat k) = cstring m q (unat k)"
proof -
  have "k_strlen p k m = k_strlen q k m \<longleftrightarrow> length (cstring m p (unat k)) = length (cstring m q (unat k))"
    by (simp add: word_unat_eq_iff k_strlen_eq)
  then show ?thesis using streq_loop_eq [of m p "unat k" q] by (auto simp: k_streq_def)
qed

text \<open>The sum of the characters, as \<open>k_strcmp\<close> adds them up.\<close>

definition char_sum :: "u8 list \<Rightarrow> u32" where
  "char_sum cs = sum_list (map ucast cs)"

lemma strcmp_loop_eq:
  "length (cstring m p n) = length (cstring m q n) \<Longrightarrow>
   strcmp_loop n p q k m = k + (char_sum (cstring m p n) - char_sum (cstring m q n))"
proof (induction n arbitrary: p q k)
  case 0
  then show ?case by (simp add: char_sum_def)
next
  case (Suc n)
  show ?case
  proof (cases "m p = 0 \<or> m q = 0")
    case True
    then have "cstring m p (Suc n) = []" "cstring m q (Suc n) = []" using Suc.prems by (auto split: if_splits)
    then show ?thesis using True by (auto simp: char_sum_def)
  next
    case False
    then have "length (cstring m (p + 1) n) = length (cstring m (q + 1) n)" using Suc.prems by simp
    from Suc.IH [OF this, of "k + (ucast (m p) - ucast (m q))"] show ?thesis
      using False by (simp add: char_sum_def)
  qed
qed

text \<open>
  C40. \<open>k_streq\<close> decides the equality of any two strings, cut off after the maximal length. \<open>k_strcmp\<close> on strings of the
  same length only compares the sums of their characters: it is 0 for every rearrangement of the characters.
\<close>

theorem k_streq_k_strcmp:
  "(k_streq p q k m \<longleftrightarrow> cstring m p (unat k) = cstring m q (unat k))
    \<and> (length (cstring m p (unat k)) = length (cstring m q (unat k)) \<longrightarrow>
        (k_strcmp p q k m = 0 \<longleftrightarrow> char_sum (cstring m p (unat k)) = char_sum (cstring m q (unat k))))"
  unfolding k_streq_iff k_strcmp_def using strcmp_loop_eq [of m p "unat k" q 0] by simp

lemma k_streq_k_strcmp_witness:
  "\<exists>m. cstring m 0x100 8 = [46, 103, 111, 116] \<and> cstring m 0x200 8 = [46, 116, 111, 103]
    \<and> k_strcmp 0x100 0x200 8 m = 0 \<and> \<not> k_streq 0x100 0x200 8 m"
proof -
  let ?m = "(\<lambda>_. 0)(0x100 := 46, 0x101 := 103, 0x102 := 111, 0x103 := 116, 0x200 := 46, 0x201 := 116, 0x202 := 111, 0x203 := 103) :: bytes"
  have c: "cstring ?m 0x100 8 = [46, 103, 111, 116]" "cstring ?m 0x200 8 = [46, 116, 111, 103]"
    by code_simp+
  from k_streq_k_strcmp [of "0x100" "0x200" 8 ?m] c have "k_strcmp 0x100 0x200 8 ?m = 0 \<and> \<not> k_streq 0x100 0x200 8 ?m"
    by (simp add: char_sum_def)
  with c show ?thesis by blast
qed

section \<open>Numbers\<close>

text \<open>The value of a digit, and of a list of digits with the last one first.\<close>

definition char_value :: "u8 \<Rightarrow> nat" where
  "char_value c = (if unat c < 58 then unat c - 48 else unat c - 87)"

lemma char_value_digit: "d \<le> 15 \<Longrightarrow> char_value (digit_char d) = d"
proof -
  assume "d \<le> 15"
  then have "d \<in> set [0..<16]" by simp
  moreover have "list_all (\<lambda>d. char_value (digit_char d) = d) [0..<16]" by code_simp
  ultimately show ?thesis by (simp add: list_all_iff)
qed

definition value_of :: "nat \<Rightarrow> u8 list \<Rightarrow> nat" where
  "value_of base ds = foldr (\<lambda>c v. char_value c + base * v) ds 0"

lemma digits_loop_value:
  assumes "2 \<le> base" and "base \<le> 16" and "a < base ^ (36 - n)" and "n < 36"
  shows "\<exists>ds. digits_loop n base a = Some ds \<and> value_of base ds = a \<and> ds \<noteq> [] \<and> length ds \<le> 36 - n
    \<and> (\<forall>k. a < base ^ k \<longrightarrow> 0 < k \<longrightarrow> length ds \<le> k)"
  using assms
proof (induction n base a rule: digits_loop.induct)
  case (1 n base a)
  have t: "a mod base \<le> 15" using "1.prems"(1,2) mod_less_divisor [of base a] by linarith
  show ?case
  proof (cases "a div base = 0")
    case True
    then have "a < base" using "1.prems"(1) by (simp add: div_eq_0_iff)
    with True t "1.prems" show ?thesis
      by (subst digits_loop.simps) (simp add: Let_def value_of_def char_value_digit Suc_leI)
  next
    case False
    have n: "Suc n < 36"
    proof (rule ccontr)
      assume "\<not> Suc n < 36"
      with "1.prems"(4) have "n = 35" by simp
      with "1.prems"(3) False show False by simp
    qed
    have div_less: "a div base < base ^ k" if "a < base ^ Suc k" for k
      using that "1.prems"(1) by (simp add: less_mult_imp_div_less mult.commute)
    have e: "36 - n = Suc (36 - Suc n)" using n by simp
    with "1.prems"(3) have "a < base ^ Suc (36 - Suc n)" by simp
    then have l: "a div base < base ^ (36 - (n + 1))" using div_less by simp
    obtain ds where ds: "digits_loop (n + 1) base (a div base) = Some ds" "value_of base ds = a div base" "length ds \<le> 36 - (n + 1)"
      and k: "\<And>k. a div base < base ^ k \<Longrightarrow> 0 < k \<Longrightarrow> length ds \<le> k"
      using "1.IH" [OF _ refl _ False "1.prems"(1,2) l] "1.prems" t n by auto
    have "digits_loop n base a = Some (digit_char (a mod base) # ds)"
      using "1.prems" t False ds(1) by (subst digits_loop.simps) (simp add: Let_def)
    moreover have "value_of base (digit_char (a mod base) # ds) = a"
      using ds(2) t by (simp add: value_of_def char_value_digit)
    moreover have "length (digit_char (a mod base) # ds) \<le> k'" if "a < base ^ k'" "0 < k'" for k'
    proof (cases k')
      case (Suc j)
      have "j \<noteq> 0"
      proof
        assume "j = 0"
        with that Suc have "a < base" by simp
        with False show False by simp
      qed
      moreover have "a div base < base ^ j" using that(1) Suc by (intro div_less) simp
      ultimately show ?thesis using k [of j] Suc by simp
    qed (use that in simp)
    ultimately show ?thesis using ds(3) n by simp
  qed
qed

text \<open>The characters are stored in a row, as many as fit.\<close>

lemma put_chars_fit:
  assumes "length cs + h < unat len" and "length cs + h \<le> 34"
  shows "\<exists>m'. put_chars cs h s len m = (h + length cs, m') \<and> (\<forall>i < length cs. m' (s + of_nat (h + i)) = cs ! i)
    \<and> (\<forall>a. (\<forall>i. h \<le> i \<and> i < h + length cs \<longrightarrow> a \<noteq> s + of_nat i) \<longrightarrow> m' a = m a)"
  using assms
proof (induction cs arbitrary: h m)
  case Nil
  then show ?case by simp
next
  case (Cons c cs)
  have l: "unat (len - 1) = unat len - 1" using Cons.prems by (subst unat_sub_u32) (simp_all add: unat_le_u32)
  have lt: "\<not> (of_nat h \<ge> len - 1)" using Cons.prems l unat_u32_bound [of len]
    by (simp add: unat_le_u32 unat_of_nat_u32 not_le)
  have "\<exists>m'. put_chars cs (h + 1) s len (m(s + of_nat h := c)) = (h + 1 + length cs, m')
    \<and> (\<forall>i < length cs. m' (s + of_nat (h + 1 + i)) = cs ! i)
    \<and> (\<forall>a. (\<forall>i. h + 1 \<le> i \<and> i < h + 1 + length cs \<longrightarrow> a \<noteq> s + of_nat i) \<longrightarrow> m' a = (m(s + of_nat h := c)) a)"
    by (rule Cons.IH) (use Cons.prems in simp_all)
  then obtain m' where m': "put_chars cs (h + 1) s len (m(s + of_nat h := c)) = (h + 1 + length cs, m')"
    and at: "\<forall>i < length cs. m' (s + of_nat (h + 1 + i)) = cs ! i"
    and oth: "\<forall>a. (\<forall>i. h + 1 \<le> i \<and> i < h + 1 + length cs \<longrightarrow> a \<noteq> s + of_nat i) \<longrightarrow> m' a = (m(s + of_nat h := c)) a" by blast
  have "m' (s + of_nat h) = c"
  proof (subst oth [rule_format])
    show "s + of_nat h \<noteq> s + of_nat i" if "h + 1 \<le> i \<and> i < h + 1 + length cs" for i
      using that Cons.prems by (auto simp: of_nat_inj_u32)
    show "(m(s + of_nat h := c)) (s + of_nat h) = c" by simp
  qed
  then have "m' (s + of_nat (h + i)) = (c # cs) ! i" if "i < length (c # cs)" for i
    using that at [rule_format, of "i - 1"] by (cases i) simp_all
  moreover have "m' a = m a" if "\<forall>i. h \<le> i \<and> i < h + length (c # cs) \<longrightarrow> a \<noteq> s + of_nat i" for a
  proof -
    have "m' a = (m(s + of_nat h := c)) a" using that by (intro oth [rule_format]) auto
    moreover have "a \<noteq> s + of_nat h" using that by auto
    ultimately show ?thesis by simp
  qed
  moreover have "put_chars (c # cs) h s len m = (h + length (c # cs), m')" using m' lt Cons.prems by simp
  ultimately show ?case by blast
qed

text \<open>
  C28. Printing a number and reading the characters back gives the number, for every base from 2 to
  16 and a buffer of more than 34 bytes; at most 32 characters are written, and nothing else.
\<close>

theorem sprint_uint32_roundtrip:
  fixes a base len :: u32
  assumes "2 \<le> unat base" and "unat base \<le> 16" and "34 < unat len"
  shows "\<exists>h m'. sprint_uint32_base_safe s len a base m = Some (h, m') \<and> unat h \<le> 32
    \<and> value_of (unat base) (rev (map (\<lambda>i. m' (s + of_nat i)) [0..<unat h])) = unat a
    \<and> (\<forall>x. (\<forall>i < unat h. x \<noteq> s + of_nat i) \<longrightarrow> m' x = m x)"
proof -
  have le: "(2 :: nat) ^ 32 \<le> unat base ^ 32" by (rule power_mono [OF assms(1)]) simp
  have "unat a < 2 ^ 32" using unat_u32_bound [of a] by simp
  with le have a32: "unat a < unat base ^ 32" by linarith
  also have "unat base ^ 32 \<le> unat base ^ 36" using assms(1) by (intro power_increasing) simp_all
  finally have "unat a < unat base ^ (36 - 0)" by simp
  from digits_loop_value [OF assms(1,2) this] obtain ds
    where ds: "digits_loop 0 (unat base) (unat a) = Some ds" "value_of (unat base) ds = unat a"
      and "\<forall>k. unat a < unat base ^ k \<longrightarrow> 0 < k \<longrightarrow> length ds \<le> k" by auto
  with a32 have l: "length ds \<le> 32" by (metis zero_less_numeral)
  then have "\<exists>m'. put_chars (rev ds) 0 s len m = (0 + length (rev ds), m')
      \<and> (\<forall>i < length (rev ds). m' (s + of_nat (0 + i)) = rev ds ! i)
      \<and> (\<forall>x. (\<forall>i. 0 \<le> i \<and> i < 0 + length (rev ds) \<longrightarrow> x \<noteq> s + of_nat i) \<longrightarrow> m' x = m x)"
    using assms(3) by (intro put_chars_fit) simp_all
  then obtain m' where m': "put_chars (rev ds) 0 s len m = (length ds, m')"
      "\<forall>i < length ds. m' (s + of_nat i) = rev ds ! i" "\<forall>x. (\<forall>i < length ds. x \<noteq> s + of_nat i) \<longrightarrow> m' x = m x" by auto
  have h: "unat (of_nat (length ds) :: u32) = length ds" using l by (simp add: unat_of_nat_u32)
  have "map (\<lambda>i. m' (s + of_nat i)) [0..<length ds] = rev ds"
    using m'(2) by (intro nth_equalityI) simp_all
  then have "rev (map (\<lambda>i. m' (s + of_nat i)) [0..<length ds]) = ds" by simp
  then show ?thesis
    using ds m'(1,3) l
    by (intro exI [of _ "of_nat (length ds)"] exI [of _ m']) (simp add: sprint_uint32_base_safe_def h)
qed

lemma sprint_uint32_roundtrip_witness:
  "\<exists>h m'. sprint_uint32_base_safe 0x1000 64 1234567 10 (\<lambda>_. 0) = Some (h, m')
    \<and> value_of 10 (rev (map (\<lambda>i. m' (0x1000 + of_nat i)) [0..<unat h])) = 1234567"
  using sprint_uint32_roundtrip [of "10" "64" "0x1000" "1234567" "\<lambda>_. 0"] by auto

section \<open>Formats that never end\<close>

lemma sprintf_loop_stuck:
  "sprintf_loop dbl result len st = Some r \<Longrightarrow> \<not> sprintf_done len st
    \<Longrightarrow> sprintf_step dbl result len st = Some st \<Longrightarrow> False"
proof (induction dbl result len st r rule: sprintf_loop.raw_induct [rotated, consumes 1, case_names step])
  case (step loop dbl result len st r)
  from step(2-4) have "loop dbl result len st = Some r" by (simp del: sprintf_step.simps sprintf_done.simps)
  then show False using step(3,4) by (rule step(1))
qed

text \<open>A literal character is copied.\<close>

lemma sprintf_loop_literal:
  assumes "\<not> index \<ge> len - 1" and "m c \<noteq> 0" and "directive_at m c = Literal"
  shows "sprintf_loop dbl result len (c, index, va, m)
    = sprintf_loop dbl result len (c + 1, index + 1, va, m(result + index := m c))"
  using assms by (subst sprintf_loop.simps) simp

lemma sprintf_loop_full:
  assumes "unat index + n + 2 = unat len" and "m (c + of_nat n) = 37" and "m (c + of_nat n + 1) = 37"
    and "\<forall>i < n. m (c + of_nat i) \<noteq> 0 \<and> m (c + of_nat i) \<noteq> 37"
    and "\<forall>i < n. \<forall>j < n + 2. result + index + of_nat i \<noteq> c + of_nat j"
  shows "sprintf_loop dbl result len (c, index, va, m) = None"
  using assms
proof (induction n arbitrary: c index m)
  case 0
  have "unat (len - 1) = unat len - 1" "unat (index + 1) = unat index + 1"
    using 0(1) unat_u32_bound [of len] by (simp_all add: unat_sub_u32 unat_add_u32 unat_le_u32)
  then have "\<not> sprintf_done len (c, index, va, m)" "sprintf_step dbl result len (c, index, va, m) = Some (c, index, va, m)"
    using 0 by (simp_all add: directive_at_def unat_le_u32)
  then show ?case using sprintf_loop_stuck [of dbl result len "(c, index, va, m)"]
    by (cases "sprintf_loop dbl result len (c, index, va, m)") blast+
next
  case (Suc n)
  let ?m = "m(result + index := m c)"
  have l: "unat (len - 1) = unat len - 1" "unat (index + 1) = unat index + 1"
    using Suc.prems(1) unat_u32_bound [of len] by (simp_all add: unat_sub_u32 unat_add_u32 unat_le_u32)
  have c0: "m c \<noteq> 0" "m c \<noteq> 37" using Suc.prems(4) [rule_format, of 0] by simp_all
  have keep: "?m (c + 1 + of_nat j) = m (c + of_nat (Suc j))" if "j < n + 2" for j
    using Suc.prems(5) [rule_format, of 0 "Suc j"] that by (auto simp: algebra_simps)
  have "sprintf_loop dbl result len (c + 1, index + 1, va, ?m) = None"
  proof (rule Suc.IH)
    show "unat (index + 1) + n + 2 = unat len" using Suc.prems(1) l by simp
    show "?m (c + 1 + of_nat n) = 37" using keep [of n] Suc.prems(2) by simp
    show "?m (c + 1 + of_nat n + 1) = 37" using keep [of "Suc n"] Suc.prems(3) by (simp add: algebra_simps)
    show "\<forall>i < n. ?m (c + 1 + of_nat i) \<noteq> 0 \<and> ?m (c + 1 + of_nat i) \<noteq> 37"
    proof (intro allI impI)
      fix i assume "i < n"
      then show "?m (c + 1 + of_nat i) \<noteq> 0 \<and> ?m (c + 1 + of_nat i) \<noteq> 37"
        using keep [of i] Suc.prems(4) [rule_format, of "Suc i"] by (simp only: fun_upd_apply) simp
    qed
    show "\<forall>i < n. \<forall>j < n + 2. result + (index + 1) + of_nat i \<noteq> c + 1 + of_nat j"
    proof (intro allI impI)
      fix i j assume "i < n" "j < n + 2"
      then show "result + (index + 1) + of_nat i \<noteq> c + 1 + of_nat j"
        using Suc.prems(5) [rule_format, of "Suc i" "Suc j"] by (simp add: algebra_simps)
    qed
  qed
  moreover have "\<not> index \<ge> len - 1" using Suc.prems(1) l by (simp add: unat_le_u32)
  ultimately show ?case using c0 by (simp add: sprintf_loop_literal directive_at_def)
qed

text \<open>
  \<open>sprintf_safe\<close> never returns when the format has a \<open>%%\<close> for which exactly one place is left in the
  buffer: the branch for a full buffer goes on with the loop and neither the position nor
  the index has changed.
\<close>

theorem sprintf_safe_hangs:
  assumes "n + 2 = unat len" and "m (str + of_nat n) = 37" and "m (str + of_nat n + 1) = 37"
    and "\<forall>i < n. m (str + of_nat i) \<noteq> 0 \<and> m (str + of_nat i) \<noteq> 37"
    and "\<forall>i < n. \<forall>j < n + 2. result + of_nat i \<noteq> str + of_nat j"
  shows "sprintf_safe dbl result str len va m = None"
  using sprintf_loop_full [of 0 n len m str result] assms by (simp add: sprintf_safe_def)

lemma sprintf_safe_hangs_witness:
  "sprintf_safe (\<lambda>_ _ _ m. (0, m)) 0x2000 0x100 3 [] ((\<lambda>_. 0)(0x100 := 97, 0x101 := 37, 0x102 := 37)) = None"
  by (rule sprintf_safe_hangs [where n = 1]) (simp_all add: less_Suc_eq)

end
