(* ===== verification/Slab_Growth.thy ===== *)
theory Slab_Growth
  imports Slab_Cache Address_Spaces Deferred_Actions Kernel_Lib
begin

text \<open>
  Growing a cache of the slab allocator, memory/slab.c: a page from the physical memory manager becomes a slab at the end of the
  kernel heap and is mapped by the virtual memory manager. The state of the caches is extended by the heap pointer, the states of
  the two managers and the interrupt masks.

  The memory of the TI OS that \<open>ti_malloc\<close> hands out next is a list. The requests that the virtual memory manager makes itself are
  served from the lists of its state, as in \<open>Page_Tables\<close>.
\<close>

section \<open>State\<close>

record growth = slab_state +
  gvm :: vm
  kernel_heap_next_page :: addr
  masks :: cpu
  ti_mallocs :: "addr list"
  ti_frees :: "addr list"

definition on_vm :: "(vm \<Rightarrow> vm) \<Rightarrow> growth \<Rightarrow> growth" where
  "on_vm f s = s\<lparr>gvm := f (gvm s)\<rparr>"

definition ti_malloc :: "growth \<Rightarrow> addr \<times> growth" where
  "ti_malloc s = (case ti_mallocs s of [] \<Rightarrow> (NULL, s) | a # as \<Rightarrow> (a, s\<lparr>ti_mallocs := as\<rparr>))"

definition ti_give_back :: "addr \<Rightarrow> growth \<Rightarrow> growth" where
  "ti_give_back p s = s\<lparr>ti_frees := ti_frees s @ [p]\<rparr>"

text \<open>A step that may panic or not end, followed by another.\<close>

definition and_then :: "'a result option \<Rightarrow> ('a \<Rightarrow> 'b result option) \<Rightarrow> 'b result option" where
  "and_then x f = Option.bind x (\<lambda>r. case r of Panic m \<Rightarrow> Some (Panic m) | Ret y \<Rightarrow> f y)"

lemma and_then_simps [simp]:
  "and_then None f = None" "and_then (Some (Panic m)) f = Some (Panic m)" "and_then (Some (Ret y)) f = f y"
  by (simp_all add: and_then_def)

definition vm_step :: "(vm \<Rightarrow> vm result option) \<Rightarrow> growth \<Rightarrow> growth result option" where
  "vm_step f s = and_then (f (gvm s)) (\<lambda>v. Some (Ret (s\<lparr>gvm := v\<rparr>)))"

abbreviation (input) CACHE_NO_MALLOC :: u16 where "CACHE_NO_MALLOC \<equiv> 1"
abbreviation (input) CACHE_NO_CACHE :: u16 where "CACHE_NO_CACHE \<equiv> 8"

definition addKernelHeapPage :: "(addr \<Rightarrow> addr) \<Rightarrow> addr \<Rightarrow> growth \<Rightarrow> growth result option" where
  "addKernelHeapPage mmu page s =
     and_then (vm_step (addVirtualKernelPage mmu page (kernel_heap_next_page s)) s) (\<lambda>s.
       Some (Ret (s\<lparr>kernel_heap_next_page := kernel_heap_next_page s + SMALL_PAGE_SIZE\<rparr>)))"

section \<open>Mapping a page the virtual memory manager does not know\<close>

text \<open>
  The two functions \<open>addUnlistedKernelPage\<close> and \<open>addUnlistedKernelPage_noncached\<close> differ in the cache bits \<open>cb\<close>. \<open>out\<close> are the
  words that \<open>cpt\<close> and \<open>cpt_unaligned\<close> point to. The translation table is indexed with the address of the section, not with its
  number.
\<close>

definition add_unlisted :: "u8 \<Rightarrow> (addr \<Rightarrow> addr) \<Rightarrow> addr \<Rightarrow> addr \<Rightarrow> addr \<times> addr \<Rightarrow> growth \<Rightarrow> ((addr \<times> addr) \<times> growth) result option" where
  "add_unlisted cb mmu page virtual_address out s =
     Option.bind (getKernelCPT virtual_address (gvm s)) (\<lambda>kernel_cpt.
       let section = virtual_address AND NOT 0xFFFFF;
           i = 4 * ((virtual_address - section) div SMALL_PAGE_SIZE);
           pd = newSPD cb cb 0x55 page
       in if kernel_cpt \<noteq> NULL then Some (Ret (out, on_vm (store mmu (kernel_cpt + i) pd) s))
          else
            let tt = (ttbr (gvm s) AND NOT 0x3FF) + remapped_RAM;
                slot = tt + 4 * section
            in if load mmu slot (gvm s) AND 3 = 1 then
                 let cpt_base = (load mmu slot (gvm s) AND NOT 0x3FF) + remapped_RAM
                 in Some (Ret (out, on_vm (store mmu (cpt_base + i) pd) s))
               else
                 and_then (vm_step (\<lambda>v. Some (intoKernelSpaceSaveAddressSpace mmu v)) s) (\<lambda>s.
                   let (tmp_pds_unaligned, s) = ti_malloc s
                   in if tmp_pds_unaligned = NULL then Some (Panic ''no memory for tmp_pds!n'')
                      else
                        let tmp_pds = make1KAligned tmp_pds_unaligned;
                            s = on_vm (clear_words mmu 256 tmp_pds) s;
                            s = on_vm (store mmu slot (newCPTD 0 tmp_pds)) s;
                            s = on_vm (store mmu (tmp_pds + i) pd) s
                        in Some (Ret ((tmp_pds, tmp_pds_unaligned), on_vm restoreAddressSpace s))))"

definition addUnlistedKernelPage :: "(addr \<Rightarrow> addr) \<Rightarrow> addr \<Rightarrow> addr \<Rightarrow> addr \<times> addr \<Rightarrow> growth \<Rightarrow> ((addr \<times> addr) \<times> growth) result option" where
  "addUnlistedKernelPage = add_unlisted 1"

definition addUnlistedKernelPage_noncached ::
  "(addr \<Rightarrow> addr) \<Rightarrow> addr \<Rightarrow> addr \<Rightarrow> addr \<times> addr \<Rightarrow> growth \<Rightarrow> ((addr \<times> addr) \<times> growth) result option" where
  "addUnlistedKernelPage_noncached = add_unlisted 0"

section \<open>Growing\<close>

definition noncached :: "addr \<Rightarrow> growth \<Rightarrow> bool" where
  "noncached cache s \<longleftrightarrow> drop_bit 3 (c_flags s cache) AND 1 = 1"

definition off_slab :: "addr \<Rightarrow> growth \<Rightarrow> bool" where
  "off_slab cache s \<longleftrightarrow> c_obj_size s cache \<ge> 128 \<or> c_flags s cache AND CACHE_SLAB_DESC_OFF_SLAB \<noteq> 0"

definition map_unlisted :: "(addr \<Rightarrow> addr) \<Rightarrow> addr \<Rightarrow> addr \<Rightarrow> addr \<Rightarrow> addr \<times> addr \<Rightarrow> growth \<Rightarrow> ((addr \<times> addr) \<times> growth) result option" where
  "map_unlisted mmu cache page virtpage out s =
     (if noncached cache s then addUnlistedKernelPage_noncached mmu page virtpage out s
      else addUnlistedKernelPage mmu page virtpage out s)"

text \<open>The page goes to the virtual memory manager: its table is migrated when one was made for it.\<close>

definition hand_over :: "(addr \<Rightarrow> addr) \<Rightarrow> addr \<Rightarrow> addr \<Rightarrow> addr \<Rightarrow> addr \<Rightarrow> addr \<times> addr \<Rightarrow> growth \<Rightarrow> growth result option" where
  "hand_over mmu cache section page virtpage out s =
     (let (cpt, cpt_unaligned) = out
      in if cpt \<noteq> NULL then
           and_then (vm_step (\<lambda>v. map_option Ret (migrateKernelCPT mmu section cpt 256 v)) s) (\<lambda>s.
           and_then (vm_step (\<lambda>v. Some (intoKernelSpaceSaveAddressSpace mmu v)) s) (\<lambda>s.
             let s = ti_give_back cpt_unaligned s
             in Some (Ret (on_vm restoreAddressSpace s))))
         else
           vm_step (if noncached cache s then addVirtualKernelPage_noncached mmu page virtpage
                    else addVirtualKernelPage mmu page virtpage) s)"

definition init_slab :: "addr \<Rightarrow> u32 \<Rightarrow> addr \<Rightarrow> growth \<Rightarrow> growth" where
  "init_slab slab sz start s =
     s\<lparr>sd_size := (sd_size s)(slab := sz), sd_start := (sd_start s)(slab := start),
       sd_next := (sd_next s)(slab := NULL)\<rparr>"

definition set_sd_used :: "addr \<Rightarrow> addr \<Rightarrow> growth \<Rightarrow> growth" where
  "set_sd_used slab used s = s\<lparr>sd_used := (sd_used s)(slab := used)\<rparr>"

definition enlist :: "addr \<Rightarrow> addr \<Rightarrow> growth \<Rightarrow> growth" where
  "enlist cache slab s = (let s = set_sd_next slab (c_free s cache) s in set_c_free cache slab s)"

text \<open>The used array of a slab that does not hold it itself; it is not cleared.\<close>

definition used_array :: "(addr \<Rightarrow> growth \<Rightarrow> growth result option) \<Rightarrow> nat \<Rightarrow> addr \<Rightarrow> u32 \<Rightarrow> growth \<Rightarrow> growth result option" where
  "used_array grow n slab len s =
     and_then (kmalloc grow n len s) (\<lambda>(used, s).
       let s = set_sd_used slab used s
       in if used = NULL then Some (Panic ''cache growth: could not kmalloc the used array for the slab!n'') else Some (Ret s))"

definition grow_small :: "(addr \<Rightarrow> growth \<Rightarrow> growth result option) \<Rightarrow> nat \<Rightarrow> (addr \<Rightarrow> addr) \<Rightarrow> addr \<Rightarrow> growth \<Rightarrow> growth result option" where
  "grow_small grow n mmu cache s =
     (let (page, m) = usePage (mm (gvm s));
          s = on_vm (mm_update (\<lambda>_. m)) s
      in if page = NULL then Some (Panic ''no page for a growing cache found!'')
         else
           and_then (map_unlisted mmu cache page (kernel_heap_next_page s) (NULL, NULL) s) (\<lambda>(out, s).
             let virtpage = kernel_heap_next_page s;
                 s = s\<lparr>mem := snd (k_memset virtpage 0 SMALL_PAGE_SIZE (mem s))\<rparr>;
                 s = s\<lparr>kernel_heap_next_page := kernel_heap_next_page s + SMALL_PAGE_SIZE\<rparr>
             in and_then (if off_slab cache s then requestSlabDesc grow n s else Some (Ret (virtpage, s))) (\<lambda>(slab, s).
                  let s = init_slab slab 1 virtpage s;
                      s = set_sd_used slab NULL s
                  in and_then (if off_slab cache s then used_array grow n slab (SMALL_PAGE_SIZE div c_obj_size s cache div 8 + 1) s
                               else Some (Ret s)) (\<lambda>s.
                     hand_over mmu cache page page virtpage out (enlist cache slab s)))))"

text \<open>The loops over the pages of a big object: the first maps them, the second goes over the 100 entries of the arrays.\<close>

fun map_pages :: "(addr \<Rightarrow> addr) \<Rightarrow> addr \<Rightarrow> addr \<Rightarrow> addr \<Rightarrow> nat list \<Rightarrow> growth \<Rightarrow> ((nat \<Rightarrow> addr \<times> addr) \<times> growth) result option" where
  "map_pages mmu cache page virtpage [] s = Some (Ret (\<lambda>_. (NULL, NULL), s))"
| "map_pages mmu cache page virtpage (i # is) s =
     and_then (map_unlisted mmu cache (page + SMALL_PAGE_SIZE * of_nat i) (virtpage + SMALL_PAGE_SIZE * of_nat i) (NULL, NULL) s) (\<lambda>(out, s).
     and_then (map_pages mmu cache page virtpage is s) (\<lambda>(outs, s). Some (Ret (outs(i := out), s))))"

fun hand_over_all :: "(addr \<Rightarrow> addr) \<Rightarrow> addr \<Rightarrow> addr \<Rightarrow> addr \<Rightarrow> (nat \<Rightarrow> addr \<times> addr) \<Rightarrow> nat list \<Rightarrow> growth \<Rightarrow> growth result option" where
  "hand_over_all mmu cache page virtpage outs [] s = Some (Ret s)"
| "hand_over_all mmu cache page virtpage outs (i # is) s =
     and_then (hand_over mmu cache (page + of_nat i * SMALL_PAGE_SIZE) page virtpage (outs i) s)
       (hand_over_all mmu cache page virtpage outs is)"

definition grow_big ::
  "(addr \<Rightarrow> growth \<Rightarrow> growth result option) \<Rightarrow> nat \<Rightarrow> (u32 \<Rightarrow> u32) \<Rightarrow> (addr \<Rightarrow> addr) \<Rightarrow> addr \<Rightarrow> growth \<Rightarrow> growth result option" where
  "grow_big grow n rem0 mmu cache s =
     (let sz = c_obj_size s cache div SMALL_PAGE_SIZE;
          sz = (if c_obj_size s cache mod SMALL_PAGE_SIZE \<noteq> 0 then sz + 1 else sz);
          (page, m) = useConsecutivePages rem0 sz (ucast (c_alignment s cache)) (mm (gvm s));
          s = on_vm (mm_update (\<lambda>_. m)) s
      in if page = NULL then Some (Panic ''not enough consecutive pages for cache growth!n'')
         else
           let virtpage = kernel_heap_next_page s;
               s = s\<lparr>kernel_heap_next_page := kernel_heap_next_page s + SMALL_PAGE_SIZE * sz\<rparr>
           in if sz \<ge> 100 then Some (Panic ''cache growth: object bigger than 100 pages!n'')
              else
                and_then (map_pages mmu cache page virtpage [0..<unat sz] s) (\<lambda>(outs, s).
                  let s = s\<lparr>mem := snd (k_memset virtpage 0 (SMALL_PAGE_SIZE * sz) (mem s))\<rparr>
                  in and_then (kmalloc grow n SLAB_DESC_SIZE s) (\<lambda>(slab, s).
                       if slab = NULL then Some (Panic ''cache growth: could not kmalloc a slab descriptor!n'')
                       else
                         let objs = (SMALL_PAGE_SIZE * sz) div c_obj_size s cache;
                             s = init_slab slab sz virtpage s
                         in and_then (used_array grow n slab (objs div 8 + 1) s) (\<lambda>s.
                              hand_over_all mmu cache page virtpage outs [0..<100] (enlist cache slab s)))))"

text \<open>\<open>fuel\<close> bounds how deep growing one cache makes others grow.\<close>

primrec growCache :: "(u32 \<Rightarrow> u32) \<Rightarrow> (addr \<Rightarrow> addr) \<Rightarrow> nat \<Rightarrow> addr \<Rightarrow> growth \<Rightarrow> growth result option" where
  "growCache rem0 mmu 0 cache s = None"
| "growCache rem0 mmu (Suc fuel) cache s =
     (let state = irq_save_state (masks s);
          s = s\<lparr>masks := irq_disable (masks s)\<rparr>
      in and_then (if c_obj_size s cache < SMALL_PAGE_SIZE then grow_small (growCache rem0 mmu fuel) fuel mmu cache s
                   else grow_big (growCache rem0 mmu fuel) fuel rem0 mmu cache s)
           (\<lambda>s. Some (Ret (s\<lparr>masks := irq_restore_state state (masks s)\<rparr>))))"

section \<open>Growth of a cache with small objects\<close>

lemma on_vm_simps [simp]:
  "gvm (on_vm f s) = f (gvm s)" "c_obj_size (on_vm f s) = c_obj_size s" "c_flags (on_vm f s) = c_flags s"
  "kernel_heap_next_page (on_vm f s) = kernel_heap_next_page s" "mem (on_vm f s) = mem s" "masks (on_vm f s) = masks s"
  "c_free (on_vm f s) = c_free s" "sd_next (on_vm f s) = sd_next s" "noncached c (on_vm f s) = noncached c s"
  "on_vm g (on_vm f s) = on_vm (g \<circ> f) s"
  by (simp_all add: on_vm_def noncached_def)

lemma mm_walk: "getPhysicalAddress mmu sp w (mm_update f v) = getPhysicalAddress mmu sp w v"
proof -
  have "load mmu p (mm_update f v) = load mmu p v" "sp_tt (mm_update f v) = sp_tt v" for p by (simp_all add: load_def)
  then show ?thesis by (simp only: getPhysicalAddress_def)
qed

lemma mm_wf: "space_wf mmu (mm_update f v) sp T ks vs G = space_wf mmu v sp T ks vs G"
  by (simp add: space_wf_def tt_at_def tt_slot_def own_tables_def)

text \<open>The section of the heap pointer has a page table, number \<open>i\<close> of the kernel's.\<close>

definition heap_section :: "(addr \<Rightarrow> addr) \<Rightarrow> vm \<Rightarrow> addr \<Rightarrow> addr list \<Rightarrow> addr list \<Rightarrow> addr set \<Rightarrow> nat \<Rightarrow> addr \<Rightarrow> bool" where
  "heap_section mmu v T ks vs G i va \<longleftrightarrow> space_wf mmu v (kernel_space v) T ks vs G \<and> i < length ks
     \<and> va AND NOT 0xFFFFF = ll_data (heap v) (ks ! i) \<and> ll_data (heap v) (vs ! i) \<noteq> NULL"

lemma getKernelCPT_hit:
  "heap_section mmu v T ks vs G i va \<Longrightarrow> getKernelCPT va v = Some (ll_data (heap v) (vs ! i))"
  unfolding heap_section_def getKernelCPT_def using search_section by (auto simp del: not_None_eq)

definition put_page :: "u8 \<Rightarrow> (addr \<Rightarrow> addr) \<Rightarrow> addr \<Rightarrow> addr \<Rightarrow> addr \<Rightarrow> vm \<Rightarrow> vm" where
  "put_page cb mmu table page va = store mmu (table + 4 * pix va) (newSPD cb cb 0x55 page)"

lemma add_unlisted_hit:
  assumes "heap_section mmu (gvm s) T ks vs G i va"
  shows "add_unlisted cb mmu page va out s
    = Some (Ret (out, on_vm (put_page cb mmu (ll_data (heap (gvm s)) (vs ! i)) page va) s))"
proof -
  have "ll_data (heap (gvm s)) (vs ! i) \<noteq> NULL" using assms by (simp add: heap_section_def)
  then show ?thesis
    unfolding add_unlisted_def Let_def table_index put_page_def getKernelCPT_hit [OF assms] by simp
qed

lemma put_page_fields [simp]:
  "heap (put_page cb mmu t page va v) = heap v" "kernel_space (put_page cb mmu t page va v) = kernel_space v" "mm (put_page cb mmu t page va v) = mm v"
  by (simp_all add: put_page_def store_def)

lemma put_page_heap_section:
  "heap_section mmu v T ks vs G i va \<Longrightarrow> heap_section mmu (put_page cb mmu (ll_data (heap v) (vs ! i)) page va v) T ks vs G i va"
  by (simp add: heap_section_def) (simp add: put_page_def wf_store_pte)

lemma put_page_walk:
  assumes "heap_section mmu v T ks vs G i va"
  shows "getPhysicalAddress mmu (kernel_space v) w (put_page cb mmu (ll_data (heap v) (vs ! i)) page va v)
    = (if w AND NOT 0xFFF = va AND NOT 0xFFF then (page AND NOT 0xFFF) + (w AND 0xFFF) else getPhysicalAddress mmu (kernel_space v) w v)"
proof -
  have "drop_bit 20 va = drop_bit 20 (ll_data (heap v) (ks ! i))" using assms section_index unfolding heap_section_def by metis
  with assms show ?thesis
    unfolding heap_section_def put_page_def using walk_store_pte [where pd = "newSPD cb cb 0x55 page", unfolded page_target_simps] by blast
qed

text \<open>Mapping a page of a section with a table, first unlisted and then through the virtual memory manager.\<close>

lemma map_unlisted_hit:
  assumes "heap_section mmu (gvm s) T ks vs G i va"
  shows "\<exists>cb. map_unlisted mmu c page va out s = Some (Ret (out, on_vm (put_page cb mmu (ll_data (heap (gvm s)) (vs ! i)) page va) s))"
  using add_unlisted_hit [OF assms]
  by (auto simp: map_unlisted_def addUnlistedKernelPage_def addUnlistedKernelPage_noncached_def)

lemma hand_over_hit:
  assumes "heap_section mmu (gvm s) T ks vs G i va"
  shows "\<exists>cb. hand_over mmu c sec page va (NULL, u) s = Some (Ret (on_vm (put_page cb mmu (ll_data (heap (gvm s)) (vs ! i)) page va) s))"
proof -
  have "add_kernel_page cb mmu page va (gvm s) = Some (Ret (put_page cb mmu (ll_data (heap (gvm s)) (vs ! i)) page va (gvm s)))" for cb
    using assms add_page_hit(2) unfolding heap_section_def put_page_def by blast
  then show ?thesis
    by (auto simp: hand_over_def vm_step_def addVirtualKernelPage_def addVirtualKernelPage_noncached_def on_vm_def)
qed


text \<open>The fresh slab at the end of the heap, all of whose objects are free.\<close>

definition fresh_slab :: "addr \<Rightarrow> addr \<Rightarrow> growth \<Rightarrow> bool" where
  "fresh_slab va cache s \<longleftrightarrow> slab_ok va (c_obj_size s cache) cache s \<and> has_free va cache s \<and> sd_start s va = va \<and> sd_size s va = 1
     \<and> list_all (\<lambda>j. \<not> allocated va (c_obj_size s cache) cache s j) [0..<slab_objs va (c_obj_size s cache) cache s]"

lemma fresh_slab_on_slab:
  assumes sz: "0 < c_obj_size s cache" "on_slab (c_obj_size s cache) cache s"
    and va: "va \<noteq> NULL" "unat va + 4096 < 4294967296"
    and f: "sd_start s va = va" "sd_size s va = 1" and m: "\<And>k. k < 4096 \<Longrightarrow> mem s (va + of_nat k) = 0"
  shows "fresh_slab va cache s"
proof -
  let ?sz = "c_obj_size s cache"
  have ok: "slab_ok va ?sz cache s" using assms by (auto simp: slab_ok_def)
  have l: "unat ?sz < 128" using sz(2) by (simp add: on_slab_def unat_less_u32)
  have u: "slab_used va ?sz cache s = va + 16" using sz(2) f by (simp add: slab_used_def)
  note lay = slab_layout [OF ok]
  have n: "slab_objs va ?sz cache s div 8 + 17 \<le> 4096"
  proof -
    have "unat (va + 16) = unat va + 16" using va(2) by (simp add: unat_add_u32)
    moreover have "unat (slab_base va ?sz cache s) \<le> unat va + 4096" using lay(1) f by simp
    ultimately show ?thesis using lay(3) [OF sz(2)] u by simp
  qed
  have free: "\<not> allocated va ?sz cache s j" if "j < slab_objs va ?sz cache s" for j
  proof -
    have "j div 8 + 16 < 4096" using n div_le_mono [of j "slab_objs va ?sz cache s" 8] that by linarith
    then have "mem s (va + of_nat (16 + j div 8)) = 0" by (intro m) simp
    moreover have "va + of_nat (16 + j div 8) = va + 16 + of_nat (j div 8)" by (simp add: add.assoc)
    ultimately have "mem s (va + 16 + of_nat (j div 8)) = 0" by (simp only:)
    then show ?thesis by (simp add: allocated_def used_bit_iff u)
  qed
  have "0 < slab_objs va ?sz cache s"
  proof -
    have b: "slab_base va ?sz cache s = objects_start va ?sz s" using sz(2) by (simp add: slab_base_def)
    note o = objects_start_bounds [OF ok, unfolded f]
    have "4096 div unat ?sz div 8 \<le> 4096 div 8" by (intro div_le_mono) simp
    then have s: "unat (objects_start va ?sz s) < unat va + 533" using o(2) by simp
    have e: "unat (va + 4096) = unat va + 4096" using va(2) by (simp add: unat_add_u32)
    have "unat (objs_on_slab va ?sz s) = (unat va + 4096 - unat (objects_start va ?sz s)) div unat ?sz"
      using s e by (simp add: objs_on_slab_def f unat_div unat_sub_u32 unat_le_u32)
    moreover have "128 \<le> unat va + 4096 - unat (objects_start va ?sz s)" using s by linarith
    ultimately have "0 < unat (objs_on_slab va ?sz s)" using l sz(1) by (simp add: div_greater_zero_iff unat_gt_0 word_gt_0)
    then show ?thesis using sz(2) by (simp add: slab_objs_def)
  qed
  with ok free show ?thesis using f by (auto simp: fresh_slab_def has_free_def list_all_iff)
qed


text \<open>
  Growing a cache of small objects whose slabs hold their own descriptor, where the section of the heap pointer has a page
  table: the page the physical memory manager hands out becomes a slab with free objects only at the head of the free list of the
  cache, at the old heap pointer; exactly the addresses of that page of the kernel space translate to it; the heap pointer moves on by
  a page, and the interrupt masks are as before.
\<close>

definition grown :: "(addr \<Rightarrow> addr) \<Rightarrow> addr \<Rightarrow> addr \<Rightarrow> growth \<Rightarrow> growth \<Rightarrow> bool" where
  "grown mmu cache page s s' \<longleftrightarrow>
     (let va = kernel_heap_next_page s in
      c_free s' = (c_free s)(cache := va) \<and> sd_next s' va = c_free s cache \<and> fresh_slab va cache s'
      \<and> kernel_heap_next_page s' = va + SMALL_PAGE_SIZE
      \<and> c_partial s' = c_partial s \<and> c_full s' = c_full s \<and> c_obj_size s' = c_obj_size s \<and> c_flags s' = c_flags s
      \<and> mm (gvm s') = snd (usePage (mm (gvm s))) \<and> cpsr (masks s') = cpsr (masks s)
      \<and> (\<forall>w. getPhysicalAddress mmu (kernel_space (gvm s)) w (gvm s') =
           (if w AND NOT 0xFFF = va AND NOT 0xFFF then (page AND NOT 0xFFF) + (w AND 0xFFF)
            else getPhysicalAddress mmu (kernel_space (gvm s)) w (gvm s))))"

lemma growCache_small:
  assumes sec: "heap_section mmu (gvm s) T ks vs G i (kernel_heap_next_page s)"
    and sz: "0 < c_obj_size s cache" "on_slab (c_obj_size s cache) cache s"
    and va: "kernel_heap_next_page s \<noteq> NULL" "unat (kernel_heap_next_page s) + 4096 < 4294967296"
    and page: "fst (usePage (mm (gvm s))) = page" "page \<noteq> NULL"
  shows "\<exists>s'. growCache rem0 mmu (Suc fuel) cache s = Some (Ret s') \<and> grown mmu cache page s s'
    \<and> heap_section mmu (gvm s') T ks vs G i (kernel_heap_next_page s)"
proof -
  let ?va = "kernel_heap_next_page s"
  let ?t = "ll_data (heap (gvm s)) (vs ! i)"
  define m where "m = snd (usePage (mm (gvm s)))"
  have u: "usePage (mm (gvm s)) = (page, m)" using page(1) by (metis m_def prod.collapse)
  define s0 where "s0 = on_vm (mm_update (\<lambda>_. m)) (s\<lparr>masks := irq_disable (masks s)\<rparr>)"
  have sec0: "heap_section mmu (gvm s0) T ks vs G i ?va" using sec by (simp add: s0_def heap_section_def mm_wf)
  have t0: "heap (gvm s0) = heap (gvm s)" "kernel_space (gvm s0) = kernel_space (gvm s)" by (simp_all add: s0_def)
  obtain cb where un: "map_unlisted mmu cache page ?va (NULL, NULL) s0 = Some (Ret ((NULL, NULL), on_vm (put_page cb mmu ?t page ?va) s0))"
    using map_unlisted_hit [OF sec0] t0 by metis
  define s1 where "s1 = on_vm (put_page cb mmu ?t page ?va) s0"
  have sec1: "heap_section mmu (gvm s1) T ks vs G i ?va" using put_page_heap_section [OF sec0, of cb page] by (simp add: s1_def t0)
  define s2 where "s2 = enlist cache ?va (set_sd_used ?va NULL (init_slab ?va 1 ?va
      (s1\<lparr>mem := snd (k_memset ?va 0 4096 (mem s1)), kernel_heap_next_page := ?va + 4096\<rparr>)))"
  have g2: "gvm s2 = gvm s1" by (simp add: s2_def enlist_def set_sd_used_def init_slab_def link_defs Let_def)
  have sec2: "heap_section mmu (gvm s2) T ks vs G i ?va" using sec1 g2 by simp
  have t2: "heap (gvm s2) = heap (gvm s)" "kernel_space (gvm s2) = kernel_space (gvm s)" by (simp_all add: g2 s1_def t0)
  obtain cb2 where ho: "hand_over mmu cache page page ?va (NULL, NULL) s2 = Some (Ret (on_vm (put_page cb2 mmu ?t page ?va) s2))"
    using hand_over_hit [OF sec2] t2 by metis
  define s3 where "s3 = on_vm (put_page cb2 mmu ?t page ?va) s2"
  let ?s' = "s3\<lparr>masks := irq_restore_state (irq_save_state (masks s)) (masks s3)\<rparr>"
  have off: "\<not> off_slab cache s" "c_obj_size s cache < 4096" using sz(2) order.strict_trans [of "c_obj_size s cache" 128 4096]
    by (auto simp: off_slab_def on_slab_def)
  have f1: "c_obj_size s1 = c_obj_size s" "c_flags s1 = c_flags s" "c_free s1 = c_free s" "kernel_heap_next_page s1 = ?va"
    "kernel_heap_next_page s0 = ?va"
    by (simp_all add: s1_def s0_def on_vm_def)
  have "growCache rem0 mmu (Suc fuel) cache s = Some (Ret ?s')"
  proof -
    let ?m = "s\<lparr>masks := irq_disable (masks s)\<rparr>"
    have o: "\<not> off_slab cache (s1\<lparr>mem := x, kernel_heap_next_page := y\<rparr>)"
      "\<not> off_slab cache (set_sd_used p NULL (init_slab p k q (s1\<lparr>mem := x, kernel_heap_next_page := y\<rparr>)))" for p q k x y
      using off(1) by (simp_all add: off_slab_def f1 set_sd_used_def init_slab_def)
    have "grow_small (growCache rem0 mmu fuel) fuel mmu cache ?m = Some (Ret s3)"
      using u page(2) un ho o f1
      unfolding grow_small_def s0_def [symmetric] s1_def [symmetric]
      by (simp add: s0_def [symmetric] s1_def [symmetric] s2_def [symmetric] s3_def)
    then show ?thesis using off(2) by simp
  qed
  moreover have "grown mmu cache page s ?s'"
  proof -
    note d3 = s3_def s2_def s1_def s0_def on_vm_def enlist_def set_sd_used_def init_slab_def link_defs
    have fields: "c_free ?s' = (c_free s)(cache := ?va)" "sd_next ?s' ?va = c_free s cache" "kernel_heap_next_page ?s' = ?va + 4096"
      "c_partial ?s' = c_partial s" "c_full ?s' = c_full s" "c_obj_size ?s' = c_obj_size s" "c_flags ?s' = c_flags s"
      "sd_start ?s' ?va = ?va" "sd_size ?s' ?va = 1" "mem ?s' = snd (k_memset ?va 0 4096 (mem s))"
      "masks s3 = irq_disable (masks s)" "gvm ?s' = put_page cb2 mmu ?t page ?va (put_page cb mmu ?t page ?va (mm_update (\<lambda>_. m) (gvm s)))"
      by (simp_all add: d3)
    have "fresh_slab ?va cache ?s'"
    proof (rule fresh_slab_on_slab)
      show "on_slab (c_obj_size ?s' cache) cache ?s'" using sz(2) [unfolded on_slab_def] by (simp only: on_slab_def fields(6,7))
      show "mem ?s' (?va + of_nat k) = 0" if "k < 4096" for k
        unfolding fields(10) k_memset_def using that by (auto simp: memset_loop_eq)
    qed (use sz(1) va fields in simp_all)
    moreover have "getPhysicalAddress mmu (kernel_space (gvm s)) w (gvm ?s') =
       (if w AND NOT 0xFFF = ?va AND NOT 0xFFF then (page AND NOT 0xFFF) + (w AND 0xFFF)
        else getPhysicalAddress mmu (kernel_space (gvm s)) w (gvm s))" for w
      using put_page_walk [OF sec2, of w cb2 page] put_page_walk [OF sec0, of w cb page]
      by (simp add: fields(12) g2 s1_def s0_def mm_walk)
    moreover have "cpsr (masks ?s') = cpsr (masks s)" using irq_bracket [of "irq_disable (masks s)" "masks s"] fields(11) by simp
    ultimately show ?thesis unfolding grown_def Let_def using fields by (simp add: m_def)
  qed
  moreover have "heap_section mmu (gvm ?s') T ks vs G i ?va" using put_page_heap_section [OF sec2, of cb2 page] by (simp add: s3_def t2)
  ultimately show ?thesis by blast
qed


section \<open>Allocation from an empty cache\<close>

lemma take_free_slab_keeps:
  assumes "take_free_slab c t = Ret (obj, s')"
  shows "gvm s' = gvm t" and "same_slabs t (s'\<lparr>mem := mem t\<rparr>)" and "masks s' = masks t"
  using assms by (auto simp: same_slabs_def take_free_slab_def alloc_object_from_slab_def take_object_def link_defs Let_def split: if_splits option.splits)

lemma within_page:
  assumes "va AND 0xFFF = (0 :: u32)" and "unat va \<le> unat w" "unat w < unat va + 4096"
  shows "w AND NOT 0xFFF = va AND NOT 0xFFF"
proof -
  have m: "unat (x AND NOT 0xFFF) = unat x div 4096 * 4096" for x :: u32
    using unat_and_not_mask [of x 12] by (simp add: mask_eq_exp_minus_1)
  have "va AND NOT 0xFFF = va" using and_not_mask_eq [of va 12] assms(1) by (simp add: mask_eq_exp_minus_1 take_bit_eq_mask)
  then have "unat va div 4096 * 4096 = unat va" using m by metis
  then obtain k where k: "unat va = 4096 * k" by (metis mult.commute)
  then have "unat w div 4096 = k" using assms(2,3) by (intro div_nat_eqI) simp_all
  then have "unat (w AND NOT 0xFFF) = unat (va AND NOT 0xFFF)" by (simp only: m k) simp
  then show ?thesis by (rule unat_inj_u32)
qed

text \<open>
  C6. Allocation from a cache without slabs, with small objects whose slabs hold their own descriptor, while the heap pointer is in a
  section whose page table the kernel has in its lists and a page is left, grows the cache and returns an
  object of the new slab: it lies in the page at the old heap pointer, translates to the page of the physical memory manager, was
  free, and is the only object of the slab allocated; the interrupt masks are as before.
\<close>

theorem alloc_object_from_cache_grows:
  assumes sec: "heap_section mmu (gvm s) T ks vs G i (kernel_heap_next_page s)"
    and sz: "0 < c_obj_size s cache" "on_slab (c_obj_size s cache) cache s"
    and va: "kernel_heap_next_page s \<noteq> NULL" "unat (kernel_heap_next_page s) + 4096 < 4294967296" "kernel_heap_next_page s AND 0xFFF = 0"
    and page: "fst (usePage (mm (gvm s))) = page" "page \<noteq> NULL"
    and empty: "c_partial s cache = NULL" "c_free s cache = NULL"
  shows "\<exists>obj s'. alloc_object_from_cache (growCache rem0 mmu (Suc fuel)) (Suc n) cache s = Some (Ret (obj, s'))
    \<and> unat (kernel_heap_next_page s) \<le> unat obj \<and> unat obj + unat (c_obj_size s cache) \<le> unat (kernel_heap_next_page s) + 4096
    \<and> getPhysicalAddress mmu (kernel_space (gvm s)) obj (gvm s') = (page AND NOT 0xFFF) + (obj AND 0xFFF)
    \<and> c_partial s' cache = kernel_heap_next_page s \<and> c_free s' cache = NULL
    \<and> list_all (\<lambda>j. allocated (kernel_heap_next_page s) (c_obj_size s cache) cache s' j
         = (object_at (kernel_heap_next_page s) (c_obj_size s cache) cache s' j = obj))
         [0..<slab_objs (kernel_heap_next_page s) (c_obj_size s cache) cache s']
    \<and> cpsr (masks s') = cpsr (masks s)"
proof -
  let ?va = "kernel_heap_next_page s" and ?sz = "c_obj_size s cache"
  obtain t where t: "growCache rem0 mmu (Suc fuel) cache s = Some (Ret t)" "grown mmu cache page s t"
    using growCache_small [OF sec sz va(1,2) page] by blast
  have g: "c_free t cache = ?va" "sd_next t ?va = NULL" "fresh_slab ?va cache t" "c_partial t cache = NULL" "c_obj_size t cache = ?sz"
    "\<And>w. w AND NOT 0xFFF = ?va AND NOT 0xFFF \<Longrightarrow> getPhysicalAddress mmu (kernel_space (gvm s)) w (gvm t) = (page AND NOT 0xFFF) + (w AND 0xFFF)"
    using t(2) empty unfolding grown_def Let_def by simp_all
  have cp: "cpsr (masks t) = cpsr (masks s)" using t(2) unfolding grown_def Let_def by blast
  have ok: "slab_ok ?va ?sz cache t" and hf: "has_free ?va cache t" and st: "sd_start t ?va = ?va" "sd_size t ?va = 1"
    and none: "\<And>j. j < slab_objs ?va ?sz cache t \<Longrightarrow> \<not> allocated ?va ?sz cache t j"
    using g(3) unfolding fresh_slab_def g(5) by (simp_all add: list_all_iff)
  obtain obj s' where r: "take_free_slab cache t = Ret (obj, s')" "takes ?va cache t obj s'" "c_partial s' cache = ?va" "c_free s' cache = sd_next t ?va"
    using take_free_slab_takes [of t t cache ?va] hf g(1) by auto
  have run: "alloc_object_from_cache (growCache rem0 mmu (Suc fuel)) (Suc n) cache s = Some (Ret (obj, s'))"
    using empty t(1) g(1,4) va(1) r(1)
    by (subst alloc_object_from_cache.simps, simp add: Let_def del: growCache.simps)
      (subst alloc_object_from_cache.simps, simp add: Let_def del: growCache.simps)
  note k = take_free_slab_keeps [OF r(1)]
  have lay: "slab_objs ?va ?sz cache s' = slab_objs ?va ?sz cache t" "object_at ?va ?sz cache s' j = object_at ?va ?sz cache t j" for j
    using same_slabs_layout(3,4) [OF k(2)] by simp_all
  obtain j where j: "j < slab_objs ?va ?sz cache t" "obj = object_at ?va ?sz cache t j"
    and al: "\<And>j'. j' < slab_objs ?va ?sz cache t \<Longrightarrow> allocated ?va ?sz cache s' j' = (j' = j)"
    using r(2) none unfolding takes_def g(5) by (auto simp: list_ex_iff list_all_iff)
  have at: "unat (object_at ?va ?sz cache t j') = unat (slab_base ?va ?sz cache t) + j' * unat ?sz" if "j' < slab_objs ?va ?sz cache t" for j'
    using unat_object_at [OF ok, of j'] that by simp
  have z: "0 < unat ?sz" using sz(1) by (simp add: unat_gt_0 word_gt_0)
  have "j * unat ?sz + unat ?sz \<le> slab_objs ?va ?sz cache t * unat ?sz" using mult_le_mono1 [of "Suc j" "slab_objs ?va ?sz cache t" "unat ?sz"] j(1) by simp
  then have b: "unat ?va \<le> unat obj" "unat obj + unat ?sz \<le> unat ?va + 4096"
    using at [OF j(1)] slab_layout(1,2) [OF ok] st j(2) by simp_all
  then have "obj AND NOT 0xFFF = ?va AND NOT 0xFFF" using z by (intro within_page va(3)) simp_all
  then have "getPhysicalAddress mmu (kernel_space (gvm s)) obj (gvm s') = (page AND NOT 0xFFF) + (obj AND 0xFFF)"
    unfolding k(1) by (rule g(6))
  moreover have "object_at ?va ?sz cache t j' = obj \<longleftrightarrow> j' = j" if "j' < slab_objs ?va ?sz cache t" for j'
    using at [OF that] at [OF j(1)] j(2) z by (metis add_left_cancel mult_cancel2 not_less_zero)
  ultimately show ?thesis using run b r(3,4) g(2) al k(3) cp by (auto simp: list_all_iff lay)
qed

section \<open>An example\<close>

text \<open>An empty cache of 64 byte objects at 0x100, the heap pointer in the section that has a page table, one page in use.\<close>

definition growth_example :: growth where
  "growth_example = slab_state.extend slab_example
     (growth.fields vm_example 0xe4005000 \<lparr>cpsr = 0x1F\<rparr> [] [])"

lemma growth_example_fields:
  "gvm growth_example = vm_example" "kernel_heap_next_page growth_example = 0xe4005000"
  "c_obj_size growth_example 0x100 = 64" "c_flags growth_example 0x100 = 0" "c_partial growth_example 0x100 = NULL"
  "c_free growth_example 0x100 = NULL"
  by (simp_all add: growth_example_def slab_example_def slab_state.defs growth.defs)

lemma growth_example_page: "fst (usePage (mm (gvm growth_example))) = 0x10002000"
proof -
  have "fst (usePage (setPageUsedBit 0x10001000 True mm_example)) = 0x10002000" by code_simp
  then show ?thesis by (simp add: growth_example_fields vm_example_def)
qed

lemma alloc_object_from_cache_grows_witness:
  "\<exists>obj s'. alloc_object_from_cache (growCache (\<lambda>_. 0) mmu_example 1) 1 0x100 growth_example = Some (Ret (obj, s'))
    \<and> getPhysicalAddress mmu_example 0x100 obj (gvm s') = 0x10002000 + (obj AND 0xFFF) \<and> c_partial s' 0x100 = 0xe4005000"
proof -
  note f = growth_example_fields
  have k: "kernel_space vm_example = 0x100" by (simp add: vm_example_def)
  have s: "heap_section mmu_example (gvm growth_example) 0x11000000 [0x10] [0x20] {} 0 (kernel_heap_next_page growth_example)"
    unfolding heap_section_def f k using kernel_wf_example by (simp add: data_example)
  show ?thesis
    using alloc_object_from_cache_grows [OF s _ _ _ _ _ growth_example_page, of "0x100" "\<lambda>_. 0" 0 0]
    by (auto simp: f k on_slab_def)
qed

end
