(* ===== verification/Slab_Init.thy ===== *)
theory Slab_Init
  imports Slab_Growth
begin

text \<open>
  Setting up the slab allocator, \<open>initSlabAllocator\<close> of memory/slab.c: four pages of the physical memory manager become the start of
  the kernel heap, the first four caches are carved out of them by hand, and the others are created through the first.
  \<open>rem0\<close> is the remainder by 0 and \<open>fuel\<close> the depth of growth, as for \<open>growCache\<close>.
\<close>

section \<open>Operations\<close>

abbreviation (input) kernel_heap_start :: addr where "kernel_heap_start \<equiv> 0xe4000000"
abbreviation (input) CACHE_SIZE :: u32 where "CACHE_SIZE \<equiv> 28"

definition getKernelHeapNextPage :: "growth \<Rightarrow> addr" where
  "getKernelHeapNextPage s = kernel_heap_next_page s"

definition setKernelHeapNextPage :: "addr \<Rightarrow> growth \<Rightarrow> growth" where
  "setKernelHeapNextPage nxt s = s\<lparr>kernel_heap_next_page := nxt\<rparr>"

definition use_page :: "growth \<Rightarrow> addr \<times> growth" where
  "use_page s = (let (page, m) = usePage (mm (gvm s)) in (page, on_vm (mm_update (\<lambda>_. m)) s))"

definition clear_page :: "addr \<Rightarrow> growth \<Rightarrow> growth" where
  "clear_page page s = s\<lparr>mem := snd (k_memset page 0 SMALL_PAGE_SIZE (mem s))\<rparr>"

text \<open>Page number \<open>k\<close> of the first section of the heap, \<open>k > 0\<close>.\<close>

definition boot_page :: "(addr \<Rightarrow> addr) \<Rightarrow> addr \<Rightarrow> nat \<Rightarrow> growth \<Rightarrow> addr \<times> growth" where
  "boot_page mmu tmp_pds k s =
     (let (page, s) = use_page s
      in if page = NULL then (NULL, s)
         else (page, clear_page page (on_vm (store mmu (tmp_pds + 4 * of_nat k) (newSPD 1 1 0x55 page)) s)))"

text \<open>\<open>invalidate_TLB\<close>: from now on the pages are seen at the start of the heap too.\<close>

definition show_pages :: "addr list \<Rightarrow> growth \<Rightarrow> growth" where
  "show_pages ps s = s\<lparr>mem := \<lambda>a. let k = unat (a - kernel_heap_start) div 4096 in
     if k < length ps then mem s (ps ! k + ((a - kernel_heap_start) AND 0xFFF)) else mem s a\<rparr>"

definition then_boot :: "(bool \<times> growth) result \<Rightarrow> (growth \<Rightarrow> (bool \<times> growth) result) \<Rightarrow> (bool \<times> growth) result" where
  "then_boot x f = bind_result x (\<lambda>(ok, s). if ok then f s else Ret (False, s))"

definition heap_page :: "growth \<Rightarrow> addr \<times> growth" where
  "heap_page s = (kernel_heap_next_page s, s\<lparr>kernel_heap_next_page := kernel_heap_next_page s + SMALL_PAGE_SIZE\<rparr>)"

text \<open>A slab at the start of its page and a cache, an object of \<open>cache_slab\<close>, that has it as its free slab.\<close>

definition boot_slab :: "addr \<Rightarrow> growth \<Rightarrow> growth" where
  "boot_slab slab s = set_sd_used slab NULL (init_slab slab 1 slab s)"

definition fill_cache :: "addr \<Rightarrow> addr \<Rightarrow> u32 \<Rightarrow> u16 \<Rightarrow> string \<Rightarrow> growth \<Rightarrow> growth" where
  "fill_cache c slab obj_size flags name s =
     s\<lparr>c_full := (c_full s)(c := NULL), c_partial := (c_partial s)(c := NULL), c_free := (c_free s)(c := slab),
       c_obj_size := (c_obj_size s)(c := obj_size), c_alignment := (c_alignment s)(c := 0), c_flags := (c_flags s)(c := flags),
       c_name := (c_name s)(c := name), c_next := (c_next s)(c := NULL)\<rparr>"

definition boot_cache ::
  "addr \<Rightarrow> addr \<Rightarrow> (addr \<Rightarrow> growth \<Rightarrow> growth) \<Rightarrow> addr \<Rightarrow> u32 \<Rightarrow> u16 \<Rightarrow> string \<Rightarrow> growth \<Rightarrow> (bool \<times> growth) result" where
  "boot_cache dummy cache_slab assign slab obj_size flags name s =
     bind_result (alloc_object_from_slab cache_slab CACHE_SIZE dummy s) (\<lambda>(c, s).
       let s = assign c s
       in if c = NULL then Ret (False, s) else Ret (True, fill_cache c slab obj_size flags name s))"

text \<open>The four caches made by hand. \<open>dummy\<close> is the address of a cache on the stack whose flags are 0.\<close>

definition boot_caches :: "addr \<Rightarrow> growth \<Rightarrow> (bool \<times> growth) result" where
  "boot_caches dummy s =
     (let s = s\<lparr>c_flags := (c_flags s)(dummy := 0)\<rparr>;
          cache_slab = kernel_heap_start;
          s = boot_slab cache_slab (snd (heap_page s))
      in then_boot (boot_cache dummy cache_slab (\<lambda>c. cache_cache_update (\<lambda>_. c)) cache_slab CACHE_SIZE 0 ''cache_cache'' s) (\<lambda>s.
         let (slab_slab, s) = heap_page s;
             s = boot_slab slab_slab s
         in then_boot (boot_cache dummy cache_slab (\<lambda>c. slab_cache_update (\<lambda>_. c)) slab_slab SLAB_DESC_SIZE 0 ''slab_cache'' s) (\<lambda>s.
         let (linkedlist_slab, s) = heap_page s;
             s = boot_slab linkedlist_slab s
         in then_boot (boot_cache dummy cache_slab (\<lambda>c. linkedlist_cache_update (\<lambda>_. c)) linkedlist_slab 8 0 ''linkedlist_cache'' s) (\<lambda>s.
         bind_result (alloc_object_from_slab slab_slab SLAB_DESC_SIZE dummy s) (\<lambda>(cpt_slab, s).
         if cpt_slab = NULL then Ret (False, s)
         else
           let (page, s) = heap_page s;
               s = init_slab cpt_slab 1 page s
           in bind_result (alloc_object_from_slab linkedlist_slab 8 dummy s) (\<lambda>(used, s).
              let s = set_sd_used cpt_slab used s
              in if used = NULL then Ret (False, s)
                 else then_boot (boot_cache dummy cache_slab (\<lambda>c. cpt_cache_update (\<lambda>_. c)) cpt_slab 1024 CACHE_NO_CACHE ''cpt_cache'' s) (\<lambda>s.
                   Ret (True, s\<lparr>caches := cache_cache s,
                     c_next := (c_next s)(cache_cache s := slab_cache s, slab_cache s := linkedlist_cache s,
                                          linkedlist_cache s := cpt_cache s, cpt_cache s := NULL)\<rparr>))))))))"

text \<open>The caches created through the first: the variable that keeps the cache, size, alignment, flags and name.\<close>

definition created_caches :: "((addr \<Rightarrow> growth \<Rightarrow> growth) \<times> u32 \<times> u16 \<times> u16 \<times> string) list" where
  "created_caches =
     [(\<lambda>c. tt_cache_update (\<lambda>_. c), 16384, 16384, CACHE_NO_MALLOC OR CACHE_NO_CACHE, ''translation_table_cache''),
      (\<lambda>c. address_space_cache_update (\<lambda>_. c), 12, 0, 0, ''address_space_cache''),
      (\<lambda>c. process_cache_update (\<lambda>_. c), 24, 0, 0, ''process_cache''),
      (\<lambda>c. thread_cache_update (\<lambda>_. c), 80, 0, 0, ''thread_cache''),
      (\<lambda>c. framebuffer_cache_update (\<lambda>_. c), SMALL_PAGE_SIZE * 38, 0, CACHE_NO_MALLOC OR CACHE_NO_CACHE, ''framebuffer_cache''),
      (\<lambda>c. action_cache_update (\<lambda>_. c), 44, 0, 0, ''action_cache''),
      (\<lambda>c. file_cache_update (\<lambda>_. c), 8, 0, 0, ''file_cache''),
      (\<lambda>c. usb_qh_cache_update (\<lambda>_. c), 48, 32, CACHE_NO_MALLOC OR CACHE_NO_CACHE OR CACHE_SLAB_DESC_OFF_SLAB, ''translation_table_cache''),
      (\<lambda>c. svc_thread_cache_update (\<lambda>_. c), 100, 0, 0, ''svc_thread_cache''),
      (\<lambda>c s. s, 1, 0, 0, ''1_byte_cache''), (\<lambda>c s. s, 2, 0, 0, ''2_byte_cache''), (\<lambda>c s. s, 4, 0, 0, ''4_byte_cache''),
      (\<lambda>c s. s, 16, 0, 0, ''16_byte_cache''), (\<lambda>c s. s, 32, 0, 0, ''32_byte_cache''), (\<lambda>c s. s, 64, 0, 0, ''64_byte_cache''),
      (\<lambda>c s. s, 128, 0, 0, ''128_byte_cache''), (\<lambda>c s. s, 256, 0, 0, ''256_byte_cache''), (\<lambda>c s. s, 512, 0, 0, ''512_byte_cache'')]"

primrec create_caches ::
  "(addr \<Rightarrow> growth \<Rightarrow> growth result option) \<Rightarrow> nat \<Rightarrow> ((addr \<Rightarrow> growth \<Rightarrow> growth) \<times> u32 \<times> u16 \<times> u16 \<times> string) list
    \<Rightarrow> growth \<Rightarrow> growth result option" where
  "create_caches grow n [] s = Some (Ret s)"
| "create_caches grow n (d # ds) s =
     (let (assign, obj_size, alignment, flags, name) = d
      in and_then (createCache grow n obj_size alignment flags name s) (\<lambda>(c, s). create_caches grow n ds (assign c s)))"

definition initSlabAllocator :: "(u32 \<Rightarrow> u32) \<Rightarrow> (addr \<Rightarrow> addr) \<Rightarrow> nat \<Rightarrow> addr \<Rightarrow> growth \<Rightarrow> (bool \<times> growth) result option" where
  "initSlabAllocator rem0 mmu fuel dummy s =
     (let (page0, s) = use_page s
      in if page0 = NULL then Some (Ret (False, s)) else
      let s = clear_page page0 s;
          (tmp_pds_unaligned, s) = ti_malloc s
      in if tmp_pds_unaligned = NULL then Some (Ret (False, s)) else
      let tmp_pds = make1KAligned tmp_pds_unaligned;
          s = on_vm (clear_words mmu 256 tmp_pds) s;
          tt = ttbr (gvm s) AND NOT 0x3FF;
          s = on_vm (store mmu (tt + 4 * drop_bit 20 kernel_heap_start) (newCPTD 0 tmp_pds)) s;
          s = on_vm (store mmu tmp_pds (newSPD 1 1 0x55 page0)) s;
          fail = (\<lambda>s. Some (Ret (False, ti_give_back tmp_pds_unaligned s)));
          (page1, s) = boot_page mmu tmp_pds 1 s
      in if page1 = NULL then fail s else
      let (page2, s) = boot_page mmu tmp_pds 2 s
      in if page2 = NULL then fail s else
      let (page3, s) = boot_page mmu tmp_pds 3 s
      in if page3 = NULL then fail s else
      (case boot_caches dummy (show_pages [page0, page1, page2, page3] s) of
         Panic m \<Rightarrow> Some (Panic m)
       | Ret (ok, s) \<Rightarrow>
           if \<not> ok then fail s
           else
             and_then (vm_step (\<lambda>v. map_option Ret (migrateKernelCPT mmu kernel_heap_start tmp_pds 4 v)) s) (\<lambda>s.
             and_then (create_caches (growCache rem0 mmu fuel) fuel created_caches s) (\<lambda>s. Some (Ret (True, s))))))"

section \<open>Carving objects out of a fresh slab\<close>

lemma carve_alloc:
  assumes ok: "slab_ok q sz c s" and n: "slab_objs q sz c s = n" "k < n" and u: "slab_used q sz c s = u"
    and used: "\<forall>i < n. used_bit u (mem s) i = (i < k)"
  shows "alloc_object_from_slab q sz c s = Ret (object_at q sz c s k, s\<lparr>mem := put_used_bit u (mem s) k True\<rparr>)"
  using ok
proof (cases rule: alloc_from_slab_cases)
  case full
  then show ?thesis using n used by (auto simp: allocated_def u)
next
  case (got i)
  then have "i = k" using n used by (metis allocated_def linorder_neqE_nat nat_less_le u)
  with got(4) show ?thesis by (simp add: u)
qed

text \<open>The slabs of the first three caches: a page each at the start of the heap.\<close>

definition page_slab :: "addr \<Rightarrow> addr \<Rightarrow> growth \<Rightarrow> bool" where
  "page_slab q c s \<longleftrightarrow> sd_start s q = q \<and> sd_size s q = 1 \<and> c_flags s c AND CACHE_SLAB_DESC_OFF_SLAB = 0"

lemma page_slab_layout:
  assumes "page_slab q c s"
  shows "q = 0xe4000000 \<Longrightarrow> slab_ok q 28 c s \<and> slab_objs q 28 c s = 145 \<and> slab_used q 28 c s = 0xe4000010
      \<and> object_at q 28 c s i = 0xe4000024 + of_nat i * 28"
    and "q = 0xe4001000 \<Longrightarrow> slab_ok q 16 c s \<and> slab_objs q 16 c s = 252 \<and> slab_used q 16 c s = 0xe4001010
      \<and> object_at q 16 c s i = 0xe4001034 + of_nat i * 16"
    and "q = 0xe4002000 \<Longrightarrow> slab_ok q 8 c s \<and> slab_objs q 8 c s = 501 \<and> slab_used q 8 c s = 0xe4002010
      \<and> object_at q 8 c s i = 0xe4002054 + of_nat i * 8"
  using assms
  by (auto simp: page_slab_def slab_ok_def slab_objs_def slab_used_def object_at_def slab_base_def on_slab_def objs_on_slab_def objects_start_def
      Slab.align4Bytes_def)


text \<open>Address of cache number \<open>k\<close>; the first \<open>k\<close> objects of the slab of caches are in use.\<close>

definition cache_at :: "nat \<Rightarrow> addr" where
  "cache_at k = 0xe4000024 + of_nat k * CACHE_SIZE"

definition in_use :: "nat \<Rightarrow> (addr \<Rightarrow> u8) \<Rightarrow> bool" where
  "in_use k m \<longleftrightarrow> (\<forall>i < 145. used_bit 0xe4000010 m i = (i < k))"

abbreviation (input) one_more :: "nat \<Rightarrow> growth \<Rightarrow> growth" where
  "one_more k s \<equiv> s\<lparr>mem := put_used_bit 0xe4000010 (mem s) k True\<rparr>"

lemma carve_cache:
  assumes "page_slab 0xe4000000 c s" "in_use k (mem s)" "k < 145"
  shows "alloc_object_from_slab 0xe4000000 28 c s = Ret (cache_at k, one_more k s)"
  using carve_alloc [of "0xe4000000" 28 c s 145 k "0xe4000010"] page_slab_layout(1) [OF assms(1) refl] assms(2,3)
  by (simp add: in_use_def cache_at_def)

lemma in_use_Suc: "in_use k m \<Longrightarrow> k < 145 \<Longrightarrow> in_use (Suc k) (put_used_bit 0xe4000010 m k True)"
proof -
  assume p: "in_use k m" "k < 145"
  have "used_bit 0xe4000010 (put_used_bit 0xe4000010 m k True) i = (i < Suc k)" if "i < 145" for i
    using used_bit_put [of k i "0xe4000010" m True] p that unfolding in_use_def by (cases "i = k") (simp_all add: less_Suc_eq)
  then show "in_use (Suc k) (put_used_bit 0xe4000010 m k True)" by (simp only: in_use_def) blast
qed

lemma unat_cache_at: "k < 145 \<Longrightarrow> unat (cache_at k) = 3825205284 + k * 28"
proof -
  assume k: "k < 145"
  then have r: "unat (of_nat k :: u32) = k" by (intro unat_of_nat_u32) simp
  have "unat (of_nat k * 28 :: u32) = k * 28" using k r by (subst unat_mult_u32) simp_all
  then show ?thesis using k unfolding cache_at_def by (subst unat_add_u32) simp_all
qed

lemma cache_at_eq [simp]: "j < 145 \<Longrightarrow> k < 145 \<Longrightarrow> cache_at j = cache_at k \<longleftrightarrow> j = k"
proof
  assume "j < 145" "k < 145" "cache_at j = cache_at k"
  then have "3825205284 + j * 28 = 3825205284 + k * 28" using unat_cache_at by metis
  then show "j = k" by simp
qed simp

lemma cache_at_not_NULL: "k < 145 \<Longrightarrow> cache_at k \<noteq> 0"
  using unat_cache_at [of k] by (metis add_is_0 unat_0 zero_neq_numeral)

lemma used_bit_put_apart:
  assumes "\<And>i. i < n \<Longrightarrow> u + of_nat (i div 8) \<noteq> u' + of_nat (k div 8)" and "i < n"
  shows "used_bit u (put_used_bit u' m k v) i = used_bit u m i"
  using assms by (simp add: used_bit_iff put_used_bit_def Let_def)

lemma slabs_apart:
  fixes u u' :: u32
  assumes "unat u + n < 4294967296" "j < n" "unat u' \<notin> {unat u..<unat u + n}"
  shows "u + of_nat j \<noteq> u'"
proof
  assume "u + of_nat j = u'"
  moreover have "unat (of_nat j :: u32) = j" using assms by (intro unat_of_nat_u32) simp
  then have "unat (u + of_nat j) = unat u + j" using assms by (subst unat_add_u32) simp_all
  ultimately show False using assms by auto
qed

lemma in_use_apart: "u \<in> {0xe4001010, 0xe4002010} \<Longrightarrow> in_use k (put_used_bit u m 0 v) = in_use k m"
proof -
  assume u: "u \<in> {0xe4001010, 0xe4002010}"
  have "0xe4000010 + of_nat (i div 8) \<noteq> u + of_nat (0 div 8)" if "i < 145" for i
    using slabs_apart [of "0xe4000010" 100 "i div 8" u] u that by (auto simp: less_mult_imp_div_less)
  then have "used_bit 0xe4000010 (put_used_bit u m 0 v) i = used_bit 0xe4000010 m i" if "i < 145" for i
    using that by (intro used_bit_put_apart [of 145]) simp_all
  then show ?thesis by (simp add: in_use_def)
qed


section \<open>The four caches made by hand\<close>

lemma fill_cache_fields:
  "c_free (fill_cache c slab sz fl nm s) = (c_free s)(c := slab)" "c_partial (fill_cache c slab sz fl nm s) = (c_partial s)(c := NULL)"
  "c_full (fill_cache c slab sz fl nm s) = (c_full s)(c := NULL)"
  "c_obj_size (fill_cache c slab sz fl nm s) = (c_obj_size s)(c := sz)" "c_flags (fill_cache c slab sz fl nm s) = (c_flags s)(c := fl)"
  "mem (fill_cache c slab sz fl nm s) = mem s" "sd_start (fill_cache c slab sz fl nm s) = sd_start s"
  "sd_size (fill_cache c slab sz fl nm s) = sd_size s" "kernel_heap_next_page (fill_cache c slab sz fl nm s) = kernel_heap_next_page s"
  "cache_cache (fill_cache c slab sz fl nm s) = cache_cache s" "slab_cache (fill_cache c slab sz fl nm s) = slab_cache s"
  "linkedlist_cache (fill_cache c slab sz fl nm s) = linkedlist_cache s" "cpt_cache (fill_cache c slab sz fl nm s) = cpt_cache s"
  "gvm (fill_cache c slab sz fl nm s) = gvm s" "sd_next (fill_cache c slab sz fl nm s) = sd_next s"
  "sd_used (fill_cache c slab sz fl nm s) = sd_used s"
  by (simp_all add: fill_cache_def)

lemma boot_slab_fields:
  "sd_start (boot_slab q s) = (sd_start s)(q := q)" "sd_size (boot_slab q s) = (sd_size s)(q := 1)" "mem (boot_slab q s) = mem s"
  "sd_next (boot_slab q s) = (sd_next s)(q := NULL)" "sd_used (boot_slab q s) = (sd_used s)(q := NULL)"
  "c_free (boot_slab q s) = c_free s" "c_partial (boot_slab q s) = c_partial s" "c_full (boot_slab q s) = c_full s"
  "c_obj_size (boot_slab q s) = c_obj_size s" "c_flags (boot_slab q s) = c_flags s" "gvm (boot_slab q s) = gvm s"
  "kernel_heap_next_page (boot_slab q s) = kernel_heap_next_page s" "cache_cache (boot_slab q s) = cache_cache s"
  "slab_cache (boot_slab q s) = slab_cache s" "linkedlist_cache (boot_slab q s) = linkedlist_cache s"
  by (simp_all add: boot_slab_def init_slab_def set_sd_used_def)

lemma boot_cache_carves:
  assumes "page_slab 0xe4000000 dummy s" "in_use k (mem s)" "k < 145"
  shows "boot_cache dummy 0xe4000000 assign slab sz fl nm s = Ret (True, fill_cache (cache_at k) slab sz fl nm (assign (cache_at k) (one_more k s)))"
  unfolding boot_cache_def carve_cache [OF assms] by (simp add: cache_at_not_NULL [OF assms(3)])

text \<open>The states between the steps.\<close>

definition boot1 :: "addr \<Rightarrow> growth \<Rightarrow> growth" where
  "boot1 dummy s = (let s = boot_slab 0xe4000000 (snd (heap_page (s\<lparr>c_flags := (c_flags s)(dummy := 0)\<rparr>)))
     in fill_cache (cache_at 0) 0xe4000000 28 0 ''cache_cache'' (one_more 0 s\<lparr>cache_cache := cache_at 0\<rparr>))"

definition boot2 :: "growth \<Rightarrow> growth" where
  "boot2 s = (let s = boot_slab 0xe4001000 (snd (heap_page s))
     in fill_cache (cache_at 1) 0xe4001000 16 0 ''slab_cache'' (one_more 1 s\<lparr>slab_cache := cache_at 1\<rparr>))"

definition boot3 :: "growth \<Rightarrow> growth" where
  "boot3 s = (let s = boot_slab 0xe4002000 (snd (heap_page s))
     in fill_cache (cache_at 2) 0xe4002000 8 0 ''linkedlist_cache'' (one_more 2 s\<lparr>linkedlist_cache := cache_at 2\<rparr>))"

definition boot4 :: "growth \<Rightarrow> growth" where
  "boot4 s = (let s = s\<lparr>mem := put_used_bit 0xe4001010 (mem s) 0 True\<rparr>;
       s = init_slab 0xe4001034 1 0xe4003000 (snd (heap_page s));
       s = set_sd_used 0xe4001034 0xe4002054 (s\<lparr>mem := put_used_bit 0xe4002010 (mem s) 0 True\<rparr>);
       s = fill_cache (cache_at 3) 0xe4001034 1024 8 ''cpt_cache'' (one_more 3 s\<lparr>cpt_cache := cache_at 3\<rparr>)
     in s\<lparr>caches := cache_at 0, c_next := (c_next s)(cache_at 0 := cache_at 1, cache_at 1 := cache_at 2, cache_at 2 := cache_at 3, cache_at 3 := NULL)\<rparr>)"

lemma boot1_fields:
  "sd_start (boot1 d s) = (sd_start s)(0xe4000000 := 0xe4000000)" "sd_size (boot1 d s) = (sd_size s)(0xe4000000 := 1)"
  "c_flags (boot1 d s) = (c_flags s)(d := 0, cache_at 0 := 0)" "mem (boot1 d s) = put_used_bit 0xe4000010 (mem s) 0 True"
  "kernel_heap_next_page (boot1 d s) = kernel_heap_next_page s + 4096" "cache_cache (boot1 d s) = cache_at 0"
  "c_free (boot1 d s) (cache_at 0) = 0xe4000000" "c_partial (boot1 d s) (cache_at 0) = NULL" "c_obj_size (boot1 d s) = (c_obj_size s)(cache_at 0 := 28)"
  "sd_next (boot1 d s) 0xe4000000 = NULL" "gvm (boot1 d s) = gvm s"
  by (simp_all add: boot1_def heap_page_def fill_cache_fields boot_slab_fields)

lemma boot2_fields:
  "sd_start (boot2 s) = (sd_start s)(0xe4001000 := 0xe4001000)" "sd_size (boot2 s) = (sd_size s)(0xe4001000 := 1)"
  "c_flags (boot2 s) = (c_flags s)(cache_at 1 := 0)" "mem (boot2 s) = put_used_bit 0xe4000010 (mem s) 1 True"
  "kernel_heap_next_page (boot2 s) = kernel_heap_next_page s + 4096" "cache_cache (boot2 s) = cache_cache s" "slab_cache (boot2 s) = cache_at 1"
  "c_free (boot2 s) = (c_free s)(cache_at 1 := 0xe4001000)" "c_partial (boot2 s) = (c_partial s)(cache_at 1 := NULL)"
  "c_obj_size (boot2 s) = (c_obj_size s)(cache_at 1 := 16)" "sd_next (boot2 s) = (sd_next s)(0xe4001000 := NULL)" "gvm (boot2 s) = gvm s"
  by (simp_all add: boot2_def heap_page_def fill_cache_fields boot_slab_fields)

lemma boot3_fields:
  "sd_start (boot3 s) = (sd_start s)(0xe4002000 := 0xe4002000)" "sd_size (boot3 s) = (sd_size s)(0xe4002000 := 1)"
  "c_flags (boot3 s) = (c_flags s)(cache_at 2 := 0)" "mem (boot3 s) = put_used_bit 0xe4000010 (mem s) 2 True"
  "kernel_heap_next_page (boot3 s) = kernel_heap_next_page s + 4096" "cache_cache (boot3 s) = cache_cache s" "slab_cache (boot3 s) = slab_cache s"
  "linkedlist_cache (boot3 s) = cache_at 2"
  "c_free (boot3 s) = (c_free s)(cache_at 2 := 0xe4002000)" "c_partial (boot3 s) = (c_partial s)(cache_at 2 := NULL)"
  "c_obj_size (boot3 s) = (c_obj_size s)(cache_at 2 := 8)" "sd_next (boot3 s) = (sd_next s)(0xe4002000 := NULL)" "gvm (boot3 s) = gvm s"
  by (simp_all add: boot3_def heap_page_def fill_cache_fields boot_slab_fields)

text \<open>The pages of the first three slabs are clear.\<close>

definition clear_heap :: "(addr \<Rightarrow> u8) \<Rightarrow> bool" where
  "clear_heap m \<longleftrightarrow> (\<forall>a. unat a \<in> {0xe4000000..<0xe4003000} \<longrightarrow> m a = 0)"

lemma clear_used:
  assumes "clear_heap m" "u \<in> {0xe4000010, 0xe4001010, 0xe4002010}" "i < 512"
  shows "\<not> used_bit u m i"
proof -
  have "i div 8 < 64" using assms(3) by (simp add: less_mult_imp_div_less)
  then have "unat (of_nat (i div 8) :: u32) = i div 8" by (intro unat_of_nat_u32) simp
  then have "unat (u + of_nat (i div 8)) = unat u + i div 8" using assms(2) \<open>i div 8 < 64\<close> by (subst unat_add_u32) auto
  then have "m (u + of_nat (i div 8)) = 0" using assms \<open>i div 8 < 64\<close> unfolding clear_heap_def by auto
  then show ?thesis by (simp add: used_bit_def)
qed

lemma used_apart:
  assumes "u \<in> {0xe4001010, 0xe4002010}" "u' \<in> {0xe4000010, 0xe4001010}" "u \<noteq> u'" "k < 8" "i < 512"
  shows "used_bit u (put_used_bit u' m k v) i = used_bit u m i"
proof (rule used_bit_put_apart [of 512])
  show "u + of_nat (i div 8) \<noteq> u' + of_nat (k div 8)" if "i < 512" for i
    using slabs_apart [of u 100 "i div 8" u'] assms that by (auto simp: less_mult_imp_div_less)
qed fact

lemma carve_first:
  assumes "page_slab q c s" "(q, sz, u, obj) \<in> {(0xe4001000, 16, 0xe4001010, 0xe4001034), (0xe4002000, 8, 0xe4002010, 0xe4002054)}"
    and "\<And>i. i < 512 \<Longrightarrow> \<not> used_bit u (mem s) i"
  shows "alloc_object_from_slab q sz c s = Ret (obj, s\<lparr>mem := put_used_bit u (mem s) 0 True\<rparr>)"
proof -
  obtain n where n: "slab_ok q sz c s" "slab_objs q sz c s = n" "0 < n" "n < 512" "slab_used q sz c s = u" "object_at q sz c s 0 = obj"
    using assms(2) page_slab_layout(2,3) [OF assms(1), where i = 0] by auto
  then show ?thesis using carve_alloc [OF n(1,2,3,5)] assms(3) by simp
qed

text \<open>The caches made by hand, from clear pages at the start of the heap.\<close>

lemma boot_caches_eq:
  assumes clear: "clear_heap (mem s)" and h: "kernel_heap_next_page s = 0xe4000000"
    and s1_def: "s1 = boot1 dummy s" and s2_def: "s2 = boot2 s1" and s3_def: "s3 = boot3 s2"
  shows "boot_caches dummy s = Ret (True, boot4 s3)" and "in_use 4 (mem (boot4 s3))"
proof -
  have u0: "in_use 0 (mem s)" using clear_used [OF clear] by (simp add: in_use_def)
  have u1: "in_use 1 (mem s1)" using in_use_Suc [OF u0] by (simp add: s1_def boot1_fields)
  have u2: "in_use 2 (mem s2)" using in_use_Suc [OF u1] by (simp add: s1_def s2_def boot1_fields boot2_fields numeral_2_eq_2)
  have u3: "in_use 3 (mem s3)" using in_use_Suc [OF u2] by (simp add: s2_def s3_def boot2_fields boot3_fields numeral_3_eq_3)
  let ?s0 = "boot_slab 0xe4000000 (snd (heap_page (s\<lparr>c_flags := (c_flags s)(dummy := 0)\<rparr>)))"
  let ?t1 = "boot_slab 0xe4001000 (snd (heap_page s1))"
  let ?t2 = "boot_slab 0xe4002000 (snd (heap_page s2))"
  let ?t3 = "s3\<lparr>mem := put_used_bit 0xe4001010 (mem s3) 0 True\<rparr>"
  let ?t4 = "init_slab 0xe4001034 1 0xe4003000 (snd (heap_page ?t3))"
  let ?t5 = "set_sd_used 0xe4001034 0xe4002054 (?t4\<lparr>mem := put_used_bit 0xe4002010 (mem ?t4) 0 True\<rparr>)"
  note step = boot1_fields boot2_fields boot3_fields heap_page_def boot_slab_fields init_slab_def set_sd_used_def
  have heads: "fst (heap_page s1) = 0xe4001000" "fst (heap_page s2) = 0xe4002000" "fst (heap_page ?t3) = 0xe4003000"
    by (simp_all add: step s1_def s2_def s3_def h)
  have slabs: "page_slab 0xe4000000 dummy ?s0" "page_slab 0xe4000000 dummy ?t1" "page_slab 0xe4000000 dummy ?t2" "page_slab 0xe4000000 dummy ?t5"
    "page_slab 0xe4001000 dummy s3" "page_slab 0xe4002000 dummy ?t4"
    by (simp_all add: page_slab_def s1_def s2_def s3_def step)
  have m: "mem ?t1 = mem s1" "mem ?t2 = mem s2" "mem ?t4 = put_used_bit 0xe4001010 (mem s3) 0 True"
      "mem ?t5 = put_used_bit 0xe4002010 (put_used_bit 0xe4001010 (mem s3) 0 True) 0 True" "mem ?s0 = mem s"
    by (simp_all add: heap_page_def boot_slab_fields init_slab_def set_sd_used_def)
  have u5: "in_use 3 (mem ?t5)" unfolding m(4) using u3 by (simp add: in_use_apart)
  show "in_use 4 (mem (boot4 s3))" using in_use_Suc [OF u5] by (simp add: boot4_def Let_def fill_cache_fields)
  have z: "\<not> used_bit u (mem s3) i" if "u \<in> {0xe4001010, 0xe4002010}" "i < 512" for u i
    using clear_used [OF clear, of u i] used_apart [of u "0xe4000010" _ i] that by (auto simp: s1_def s2_def s3_def boot1_fields boot2_fields boot3_fields)
  have b1: "boot_cache dummy 0xe4000000 (\<lambda>c. cache_cache_update (\<lambda>_. c)) 0xe4000000 28 0 ''cache_cache'' ?s0 = Ret (True, s1)"
    using boot_cache_carves [OF slabs(1), of 0] u0 m by (simp add: s1_def boot1_def Let_def)
  have b2: "boot_cache dummy 0xe4000000 (\<lambda>c. slab_cache_update (\<lambda>_. c)) 0xe4001000 16 0 ''slab_cache'' ?t1 = Ret (True, s2)"
    using boot_cache_carves [OF slabs(2), of 1] u1 m by (simp add: s2_def boot2_def Let_def)
  have b3: "boot_cache dummy 0xe4000000 (\<lambda>c. linkedlist_cache_update (\<lambda>_. c)) 0xe4002000 8 0 ''linkedlist_cache'' ?t2 = Ret (True, s3)"
    using boot_cache_carves [OF slabs(3), of 2] u2 m by (simp add: s3_def boot3_def Let_def)
  have b4: "alloc_object_from_slab 0xe4001000 16 dummy s3 = Ret (0xe4001034, ?t3)"
    by (rule carve_first [OF slabs(5)]) (use z in simp_all)
  have b5: "alloc_object_from_slab 0xe4002000 8 dummy ?t4 = Ret (0xe4002054, ?t4\<lparr>mem := put_used_bit 0xe4002010 (mem ?t4) 0 True\<rparr>)"
    by (rule carve_first [OF slabs(6)]) (use z used_apart in \<open>simp_all add: m\<close>)
  let ?t6 = "fill_cache (cache_at 3) 0xe4001034 1024 8 ''cpt_cache'' (one_more 3 ?t5\<lparr>cpt_cache := cache_at 3\<rparr>)"
  have b6: "boot_cache dummy 0xe4000000 (\<lambda>c. cpt_cache_update (\<lambda>_. c)) 0xe4001034 1024 8 ''cpt_cache'' ?t5 = Ret (True, ?t6)"
    using boot_cache_carves [OF slabs(4), of 3] u5 by simp
  have v: "cache_cache ?t6 = cache_at 0" "slab_cache ?t6 = cache_at 1" "linkedlist_cache ?t6 = cache_at 2" "cpt_cache ?t6 = cache_at 3"
    by (simp_all add: fill_cache_fields s3_def s2_def s1_def step)
  have e: "boot4 s3 = ?t6\<lparr>caches := cache_at 0, c_next := (c_next ?t6)(cache_at 0 := cache_at 1, cache_at 1 := cache_at 2, cache_at 2 := cache_at 3, cache_at 3 := NULL)\<rparr>"
    unfolding boot4_def Let_def by (rule refl)
  show "boot_caches dummy s = Ret (True, boot4 s3)"
    unfolding boot_caches_def Let_def split_beta then_boot_def
    by (simp only: b1 b2 b3 b4 b5 b6 heads v e bind_result.simps prod.sel if_True if_False not_False_eq_True refl) simp
qed

section \<open>The caches created through the first\<close>

definition cache_vars :: "growth \<Rightarrow> addr list" where
  "cache_vars s = [cache_cache s, slab_cache s, linkedlist_cache s, cpt_cache s, tt_cache s, address_space_cache s, process_cache s,
     thread_cache s, framebuffer_cache s, action_cache s, file_cache s, usb_qh_cache s, svc_thread_cache s]"

definition cache_sizes :: "u32 list" where
  "cache_sizes = [28, 16, 8, 1024] @ map (\<lambda>(_, sz, _). sz) created_caches"

definition cache_flags :: "u16 list" where
  "cache_flags = [0, 0, 0, 8] @ map (\<lambda>(_, _, _, fl, _). fl) created_caches"

text \<open>The first \<open>k\<close> caches have been made.\<close>

definition booted :: "nat \<Rightarrow> growth \<Rightarrow> bool" where
  "booted k s \<longleftrightarrow> page_slab 0xe4000000 (cache_at 0) s \<and> in_use k (mem s)
     \<and> (c_partial s (cache_at 0) = NULL \<and> c_free s (cache_at 0) = 0xe4000000 \<or> c_partial s (cache_at 0) = 0xe4000000)
     \<and> (\<forall>j < k. j < 13 \<longrightarrow> cache_vars s ! j = cache_at j)
     \<and> (\<forall>j < k. c_obj_size s (cache_at j) = cache_sizes ! j \<and> c_flags s (cache_at j) = cache_flags ! j)
     \<and> (\<forall>j < k. 4 \<le> j \<longrightarrow> c_full s (cache_at j) = NULL \<and> c_partial s (cache_at j) = NULL \<and> c_free s (cache_at j) = NULL)
     \<and> path (c_next s) (caches s) (map cache_at (rev [4..<k] @ [0..<4])) NULL
     \<and> kernel_heap_next_page s = 0xe4004000"

lemma cache_sizes_0 [simp]: "cache_sizes ! 0 = 28" "cache_flags ! 0 = 0"
  by (simp_all add: cache_sizes_def cache_flags_def)

text \<open>Allocation from the first cache.\<close>

lemma booted_alloc:
  assumes b: "booted k s" and k: "0 < k" "k < 145"
  obtains t where "alloc_object_from_cache grow n (cache_cache s) s = Some (Ret (cache_at k, t))"
    and "mem t = put_used_bit 0xe4000010 (mem s) k True" and "c_partial t = (c_partial s)(cache_at 0 := 0xe4000000)"
    and "\<exists>f g. t = s\<lparr>mem := mem t, c_partial := c_partial t, c_free := (c_free s)(cache_at 0 := f), sd_next := g\<rparr>"
proof -
  let ?c = "cache_at 0"
  have f: "page_slab 0xe4000000 ?c s" "in_use k (mem s)" "cache_vars s ! 0 = ?c" "c_obj_size s ?c = 28"
    using b k(1) cache_sizes_0 unfolding booted_def by (metis zero_less_numeral)+
  have c: "cache_cache s = ?c" using f(3) by (simp add: cache_vars_def)
  have nz: "cache_at k \<noteq> NULL" using cache_at_not_NULL k(2) by blast
  show ?thesis
  proof (cases "c_partial s ?c = NULL")
    case True
    then have fr: "c_free s ?c = 0xe4000000" using b by (auto simp: booted_def)
    let ?s = "set_c_partial ?c 0xe4000000 (set_sd_next 0xe4000000 NULL (set_c_free ?c (sd_next s 0xe4000000) s))"
    have "page_slab 0xe4000000 ?c ?s" "mem ?s = mem s" "c_obj_size ?s ?c = 28" using f(1,4) by (simp_all add: page_slab_def link_defs)
    then have "alloc_object_from_slab 0xe4000000 (c_obj_size ?s ?c) ?c ?s = Ret (cache_at k, one_more k ?s)"
      using carve_cache [of ?c ?s k] f(2) k(2) by simp
    then have "take_free_slab ?c s = Ret (cache_at k, one_more k ?s)" using fr True nz by (simp add: take_free_slab_def Let_def)
    then have "alloc_object_from_cache grow n ?c s = Some (Ret (cache_at k, one_more k ?s))"
      using True fr by (subst alloc_object_from_cache.simps) (simp add: Let_def)
    then show ?thesis unfolding c [symmetric]
      by (rule that) (unfold c, auto simp: link_defs intro!: exI [of _ "sd_next s 0xe4000000"] exI [of _ "(sd_next s)(0xe4000000 := NULL)"])
  next
    case False
    then have p: "c_partial s ?c = 0xe4000000" using b by (auto simp: booted_def)
    have a: "alloc_object_from_slab 0xe4000000 (c_obj_size s ?c) ?c s = Ret (cache_at k, one_more k s)"
      using carve_cache [OF f(1,2) k(2)] f(4) by simp
    have "alloc_walk ?c NULL 0xe4000000 s = Some (Ret (cache_at k, one_more k s))"
      using nz a by (subst alloc_walk.simps) simp
    then have "alloc_object_from_cache grow n ?c s = Some (Ret (cache_at k, one_more k s))"
      using p nz by (subst alloc_object_from_cache.simps) (simp add: Let_def)
    moreover have "(c_partial s)(?c := 0xe4000000) = c_partial s" using p by (simp add: fun_upd_idem)
    moreover have "one_more k s = s\<lparr>mem := mem (one_more k s), c_partial := c_partial (one_more k s), c_free := (c_free s)(?c := c_free s ?c), sd_next := sd_next s\<rparr>"
      by simp
    ultimately show ?thesis using that [of "one_more k s"] c by fastforce
  qed
qed


lemma length_cache_vars: "length (cache_vars s) = 13"
  by (simp add: cache_vars_def)

lemma length_created: "length created_caches = 18"
  by (simp add: created_caches_def)

text \<open>Keeping the address of a cache changes nothing else.\<close>

lemma assign_keeps:
  assumes "(assign, d) \<in> set created_caches"
  shows "c_partial (assign c s) = c_partial s" "c_free (assign c s) = c_free s" "c_full (assign c s) = c_full s"
    "c_obj_size (assign c s) = c_obj_size s" "c_flags (assign c s) = c_flags s" "c_next (assign c s) = c_next s"
    "caches (assign c s) = caches s" "mem (assign c s) = mem s" "sd_start (assign c s) = sd_start s" "sd_size (assign c s) = sd_size s"
    "kernel_heap_next_page (assign c s) = kernel_heap_next_page s" "gvm (assign c s) = gvm s" "masks (assign c s) = masks s"
  using assms by (auto simp: created_caches_def)

lemma assign_var:
  assumes "created_caches ! j = (assign, d)" "j < 18"
  shows "cache_vars (assign c s) = (cache_vars s)[j + 4 := c]"
proof -
  have "\<forall>j < 18. cache_vars (fst (created_caches ! j) c s) = (cache_vars s)[j + 4 := c]"
    by (simp add: numeral_eq_Suc All_less_Suc created_caches_def cache_vars_def)
  then show ?thesis using assms by (metis fst_conv)
qed

lemma cache_sizes_nth:
  assumes "created_caches ! j = (assign, sz, al, fl, nm)" "j < 18"
  shows "cache_sizes ! (j + 4) = sz" "cache_flags ! (j + 4) = fl"
  using assms by (simp_all add: cache_sizes_def cache_flags_def nth_append length_created)

lemma createCache_booted:
  assumes b: "booted k s" and k: "4 \<le> k" "k < 22" and d: "created_caches ! (k - 4) = (assign, sz, al, fl, nm)"
  obtains t where "createCache grow n sz al fl nm s = Some (Ret (cache_at k, t))" and "booted (Suc k) (assign (cache_at k) t)"
    and "gvm (assign (cache_at k) t) = gvm s" and "masks (assign (cache_at k) t) = masks s"
proof -
  let ?c = "cache_at k"
  have k': "0 < k" "k < 145" using k by simp_all
  obtain t where t: "alloc_object_from_cache grow n (cache_cache s) s = Some (Ret (?c, t))"
      "mem t = put_used_bit 0xe4000010 (mem s) k True" "c_partial t = (c_partial s)(cache_at 0 := 0xe4000000)"
    and "\<exists>f g. t = s\<lparr>mem := mem t, c_partial := c_partial t, c_free := (c_free s)(cache_at 0 := f), sd_next := g\<rparr>"
    using booted_alloc [OF b k'] by blast
  then obtain f g where e: "t = s\<lparr>mem := mem t, c_partial := c_partial t, c_free := (c_free s)(cache_at 0 := f), sd_next := g\<rparr>" by blast
  define t' where "t' = t\<lparr>c_full := (c_full t)(?c := NULL), c_partial := (c_partial t)(?c := NULL),
           c_free := (c_free t)(?c := NULL), c_obj_size := (c_obj_size t)(?c := sz),
           c_alignment := (c_alignment t)(?c := al), c_flags := (c_flags t)(?c := fl),
           c_name := (c_name t)(?c := nm), c_next := (c_next t)(?c := caches t), caches := ?c\<rparr>"
  have run: "createCache grow n sz al fl nm s = Some (Ret (?c, t'))" by (simp add: createCache_def t(1) t'_def)
  have ne: "cache_at j \<noteq> ?c" if "j < k" for j using that k by simp
  have fields: "c_partial t' = (c_partial s)(cache_at 0 := 0xe4000000, ?c := NULL)" "c_free t' = (c_free s)(cache_at 0 := f, ?c := NULL)"
    "c_full t' = (c_full s)(?c := NULL)" "c_obj_size t' = (c_obj_size s)(?c := sz)" "c_flags t' = (c_flags s)(?c := fl)"
    "c_next t' = (c_next s)(?c := caches s)" "caches t' = ?c" "mem t' = put_used_bit 0xe4000010 (mem s) k True"
    "sd_start t' = sd_start s" "sd_size t' = sd_size s" "kernel_heap_next_page t' = kernel_heap_next_page s" "cache_vars t' = cache_vars s"
    "gvm t' = gvm s" "masks t' = masks s"
    unfolding t'_def using t(2,3) by (subst e, simp add: cache_vars_def)+
  let ?t = "assign ?c t'"
  have j: "k - 4 < 18" "k - 4 + 4 = k" using k by simp_all
  have "created_caches ! (k - 4) \<in> set created_caches" using j(1) length_created by (intro nth_mem) simp
  then have mem: "(assign, sz, al, fl, nm) \<in> set created_caches" using d by simp
  note keep = assign_keeps [OF mem]
  have var: "cache_vars ?t = (cache_vars s)[k := ?c]" using assign_var [OF d j(1)] j(2) fields(12) by simp
  have sz: "cache_sizes ! k = sz" "cache_flags ! k = fl" using cache_sizes_nth [OF d j(1)] j(2) by simp_all
  have "booted (Suc k) ?t"
    unfolding booted_def
  proof (intro conjI)
    show "page_slab 0xe4000000 (cache_at 0) ?t" using b ne [of 0] k by (simp add: booted_def page_slab_def keep fields)
    show "in_use (Suc k) (mem ?t)" using b in_use_Suc k' by (simp add: booted_def keep fields)
    show "c_partial ?t (cache_at 0) = NULL \<and> c_free ?t (cache_at 0) = 0xe4000000 \<or> c_partial ?t (cache_at 0) = 0xe4000000"
      using ne [of 0] k by (simp add: keep fields)
    show "\<forall>j < Suc k. j < 13 \<longrightarrow> cache_vars ?t ! j = cache_at j"
      using b by (auto simp: var booted_def less_Suc_eq length_cache_vars)
    show "\<forall>j < Suc k. c_obj_size ?t (cache_at j) = cache_sizes ! j \<and> c_flags ?t (cache_at j) = cache_flags ! j"
      using b ne sz by (auto simp: booted_def keep fields less_Suc_eq)
    show "\<forall>j < Suc k. 4 \<le> j \<longrightarrow> c_full ?t (cache_at j) = NULL \<and> c_partial ?t (cache_at j) = NULL \<and> c_free ?t (cache_at j) = NULL"
      using b ne k by (auto simp: booted_def keep fields less_Suc_eq)
    show "kernel_heap_next_page ?t = 0xe4004000" using b by (simp add: booted_def keep fields)
    show "path (c_next ?t) (caches ?t) (map cache_at (rev [4..<Suc k] @ [0..<4])) NULL"
    proof -
      let ?L = "map cache_at (rev [4..<k] @ [0..<4])"
      have "path (c_next s) (caches s) ?L NULL" using b by (simp only: booted_def)
      moreover have "?c \<notin> set ?L" using ne k by force
      ultimately have "path (c_next ?t) (caches s) ?L NULL"
        by (subst path_cong [of _ _ "c_next s"]) (auto simp: keep fields)
      moreover have "map cache_at (rev [4..<Suc k] @ [0..<4]) = ?c # ?L" using k by simp
      ultimately show ?thesis using cache_at_not_NULL [OF k'(2)] by (simp only: path.simps) (simp add: keep fields)
    qed
  qed
  then show ?thesis using that [OF run] by (simp add: keep fields)
qed

lemma create_caches_booted:
  assumes "booted k s" "4 \<le> k" "k \<le> 22"
  shows "\<exists>t. create_caches grow n (drop (k - 4) created_caches) s = Some (Ret t) \<and> booted 22 t \<and> gvm t = gvm s \<and> masks t = masks s"
  using assms
proof (induction "22 - k" arbitrary: k s)
  case 0
  then show ?case by (simp add: length_created)
next
  case (Suc m)
  then have k: "k < 22" "m = 22 - Suc k" by simp_all
  have j: "k - 4 < length created_caches" "Suc (k - 4) = Suc k - 4" using k(1) Suc.prems(2) by (simp_all add: length_created)
  obtain assign sz al fl nm where d: "created_caches ! (k - 4) = (assign, sz, al, fl, nm)" by (metis prod.collapse)
  obtain t where t: "createCache grow n sz al fl nm s = Some (Ret (cache_at k, t))" "booted (Suc k) (assign (cache_at k) t)"
      "gvm (assign (cache_at k) t) = gvm s" "masks (assign (cache_at k) t) = masks s"
    using createCache_booted [OF Suc.prems(1,2) k(1) d] by blast
  have "create_caches grow n (drop (k - 4) created_caches) s = create_caches grow n (drop (Suc k - 4) created_caches) (assign (cache_at k) t)"
    by (simp add: Cons_nth_drop_Suc [OF j(1), symmetric] d t(1) j(2) del: drop_Suc)
  then show ?case using Suc.hyps(1) [OF k(2) t(2)] t(3,4) Suc.prems(2) k(1) by simp
qed

section \<open>The whole start\<close>

lemma boot4_fields:
  "sd_start (boot4 s) = (sd_start s)(0xe4001034 := 0xe4003000)" "sd_size (boot4 s) = (sd_size s)(0xe4001034 := 1)"
  "c_flags (boot4 s) = (c_flags s)(cache_at 3 := 8)" "kernel_heap_next_page (boot4 s) = kernel_heap_next_page s + 4096"
  "cache_cache (boot4 s) = cache_cache s" "slab_cache (boot4 s) = slab_cache s" "linkedlist_cache (boot4 s) = linkedlist_cache s"
  "cpt_cache (boot4 s) = cache_at 3" "caches (boot4 s) = cache_at 0" "c_free (boot4 s) = (c_free s)(cache_at 3 := 0xe4001034)"
  "c_partial (boot4 s) = (c_partial s)(cache_at 3 := NULL)" "c_obj_size (boot4 s) = (c_obj_size s)(cache_at 3 := 1024)" "gvm (boot4 s) = gvm s"
  "c_next (boot4 s) (cache_at 0) = cache_at 1" "c_next (boot4 s) (cache_at (Suc 0)) = cache_at 2" "c_next (boot4 s) (cache_at 2) = cache_at 3"
  "c_next (boot4 s) (cache_at 3) = NULL"
  by (simp_all add: boot4_def Let_def heap_page_def fill_cache_fields init_slab_def set_sd_used_def)

lemma boot_caches_booted:
  assumes clear: "clear_heap (mem s)" and h: "kernel_heap_next_page s = 0xe4000000"
  obtains t where "boot_caches dummy s = Ret (True, t)" and "booted 4 t" and "gvm t = gvm s"
proof -
  let ?s3 = "boot3 (boot2 (boot1 dummy s))"
  note r = boot_caches_eq [OF clear h refl refl refl, of dummy]
  note step = boot1_fields boot2_fields boot3_fields boot4_fields
  have l: "rev [4..<4] @ [0..<4] = [0, 1, 2, 3 :: nat]" by (simp add: upt_conv_Cons)
  have "\<forall>j < 4. j < 13 \<longrightarrow> cache_vars (boot4 ?s3) ! j = cache_at j"
    by (simp add: numeral_eq_Suc All_less_Suc cache_vars_def step)
  moreover have "\<forall>j < 4. c_obj_size (boot4 ?s3) (cache_at j) = cache_sizes ! j \<and> c_flags (boot4 ?s3) (cache_at j) = cache_flags ! j"
    by (simp add: numeral_eq_Suc All_less_Suc cache_sizes_def cache_flags_def step)
  ultimately have "booted 4 (boot4 ?s3)"
    unfolding booted_def l using r(2) h cache_at_not_NULL
    by (simp add: page_slab_def step)
  then show ?thesis using that r(1) by (simp add: step)
qed


text \<open>The pages of the physical memory manager that \<open>n\<close> requests return.\<close>

primrec page_requests :: "nat \<Rightarrow> phys_mm \<Rightarrow> addr list" where
  "page_requests 0 m = []"
| "page_requests (Suc n) m = (let (page, m) = usePage m in page # page_requests n m)"

lemma clear_page_mem:
  "j < 4096 \<Longrightarrow> mem (clear_page p s) (p + of_nat j) = 0" "mem s x = 0 \<Longrightarrow> mem (clear_page p s) x = 0"
  by (auto simp: clear_page_def k_memset_def memset_loop_eq)

lemma show_pages_clear:
  assumes "\<And>p j. p \<in> {p0, p1, p2} \<Longrightarrow> j < 4096 \<Longrightarrow> mem s (p + of_nat j) = 0"
  shows "clear_heap (mem (show_pages [p0, p1, p2, p3] s))"
  unfolding clear_heap_def
proof (intro allI impI)
  fix a :: addr
  assume a: "unat a \<in> {0xe4000000..<0xe4003000}"
  let ?d = "a - 0xe4000000"
  have "unat ?d = unat a - 0xe4000000" using a by (simp add: unat_sub_u32 unat_le_u32)
  moreover have "unat a - 0xe4000000 < 3 * 4096" using a by auto
  ultimately have k: "unat ?d div 4096 < 3" by (simp only: less_mult_imp_div_less)
  have m: "(0xFFF :: u32) = mask 12" by (simp add: mask_eq_exp_minus_1)
  have "unat (?d AND 0xFFF) < 4096" unfolding m take_bit_eq_mask [symmetric] by (simp add: take_bit_eq_mod unat_mod)
  moreover have "?d AND 0xFFF = of_nat (unat (?d AND 0xFFF))" by simp
  ultimately have z: "mem s (p + (?d AND 0xFFF)) = 0" if "p \<in> {p0, p1, p2}" for p using assms [OF that] by metis
  consider "unat ?d div 4096 = 0" | "unat ?d div 4096 = 1" | "unat ?d div 4096 = 2" using k by linarith
  then show "mem (show_pages [p0, p1, p2, p3] s) a = 0" by cases (use z in \<open>simp_all add: show_pages_def Let_def numeral_2_eq_2\<close>)
qed

lemma clear_words_lists [simp]:
  "heap (clear_words mmu n p v) = heap v" "sp_cptds (clear_words mmu n p v) = sp_cptds v" "kernel_space (clear_words mmu n p v) = kernel_space v"
  "mm (clear_words mmu n p v) = mm v"
  by (induction n arbitrary: p v) (simp_all add: store_def)

lemma migrate_returns:
  assumes "entries (heap v) (sp_cptds v (kernel_space v)) ks" and "sec AND NOT 0xFFFFF \<notin> ll_data (heap v) ` set ks"
  shows "\<exists>r. migrateKernelCPT mmu sec t n v = Some r"
proof -
  have "first_index (\<lambda>x. ll_data (heap v) x = sec AND NOT 0xFFFFF) ks = None"
    unfolding first_index_None using assms(2) by force
  then have "searchLinkedListEntry (sp_cptds v (kernel_space v)) (sec AND NOT 0xFFFFF) (heap v) = Some (NULL, 0)"
    using assms(1) by (simp only: search_entries option.case)
  then show ?thesis by (simp add: migrateKernelCPT_def Let_def split_beta)
qed

lemma on_vm_rest [simp]: "kernel_heap_next_page (clear_page p s) = kernel_heap_next_page s" "gvm (clear_page p s) = gvm s"
  "gvm (show_pages ps s) = gvm s" "kernel_heap_next_page (show_pages ps s) = kernel_heap_next_page s"
  by (simp_all add: clear_page_def show_pages_def)


definition same_lists :: "growth \<Rightarrow> growth \<Rightarrow> bool" where
  "same_lists s s' \<longleftrightarrow> heap (gvm s') = heap (gvm s) \<and> sp_cptds (gvm s') = sp_cptds (gvm s) \<and> kernel_space (gvm s') = kernel_space (gvm s)
     \<and> kernel_heap_next_page s' = kernel_heap_next_page s"

lemma boot_page_ok:
  assumes "usePage (mm (gvm s)) = (p, m)" "p \<noteq> NULL"
  obtains s' where "boot_page mmu tmp k s = (p, s')" and "mm (gvm s') = m" and "same_lists s s'"
    and "\<And>j. j < 4096 \<Longrightarrow> mem s' (p + of_nat j) = 0" and "\<And>x. mem s x = 0 \<Longrightarrow> mem s' x = 0"
proof
  let ?s = "clear_page p (on_vm (store mmu (tmp + 4 * of_nat k) (newSPD 1 1 0x55 p)) (on_vm (mm_update (\<lambda>_. m)) s))"
  show "boot_page mmu tmp k s = (p, ?s)" by (simp only: boot_page_def use_page_def assms prod.case Let_def if_False)
  show "mm (gvm ?s) = m" "same_lists s ?s" by (simp_all add: store_def same_lists_def)
  show "mem ?s (p + of_nat j) = 0" if "j < 4096" for j by (rule clear_page_mem(1) [OF that])
  show "mem ?s x = 0" if "mem s x = 0" for x using that by (intro clear_page_mem(2)) simp
qed

text \<open>
  C19. Setting up the slab allocator, given four pages, memory for the first page table and no section of the heap in the lists of
  the kernel, returns true: the list of caches holds the 22 caches, all objects of the first slab, in the order in which they were
  made except for the first four; the variables point to the first 13; their sizes are those of the structures and the powers of
  two; the heap has four pages, and exactly the 22 objects of the slab of caches are in use.
\<close>

theorem initSlabAllocator_correct:
  assumes pages: "NULL \<notin> set (page_requests 4 (mm (gvm s)))" and tmp: "ti_mallocs s = t # ts" "t \<noteq> NULL"
    and heap: "kernel_heap_next_page s = 0xe4000000"
    and lists: "entries (heap (gvm s)) (sp_cptds (gvm s) (kernel_space (gvm s))) ks" "0xe4000000 \<notin> ll_data (heap (gvm s)) ` set ks"
  shows "\<exists>s'. initSlabAllocator rem0 mmu fuel dummy s = Some (Ret (True, s'))
    \<and> path (c_next s') (caches s') (map cache_at (rev [4..<22] @ [0..<4])) NULL
    \<and> cache_vars s' = map cache_at [0..<13]
    \<and> map (\<lambda>k. c_obj_size s' (cache_at k)) [0..<22]
        = [28, 16, 8, 1024, 16384, 12, 24, 80, 155648, 44, 8, 48, 100, 1, 2, 4, 16, 32, 64, 128, 256, 512]
    \<and> kernel_heap_next_page s' = 0xe4004000
    \<and> map (allocated 0xe4000000 28 (cache_cache s') s') [0..<145] = replicate 22 True @ replicate 123 False"
proof -
  obtain p0 m0 where p0: "usePage (mm (gvm s)) = (p0, m0)" by fastforce
  obtain p1 m1 where p1: "usePage m0 = (p1, m1)" by fastforce
  obtain p2 m2 where p2: "usePage m1 = (p2, m2)" by fastforce
  obtain p3 m3 where p3: "usePage m2 = (p3, m3)" by fastforce
  have nz: "p0 \<noteq> NULL" "p1 \<noteq> NULL" "p2 \<noteq> NULL" "p3 \<noteq> NULL" using pages by (auto simp: numeral_eq_Suc p0 p1 p2 p3)
  let ?tmp = "make1KAligned t"
  define c0 where "c0 = clear_page p0 (on_vm (mm_update (\<lambda>_. m0)) s)"
  define c1 where "c1 = on_vm (clear_words mmu 256 ?tmp) (c0\<lparr>ti_mallocs := ts\<rparr>)"
  define c2 where "c2 = on_vm (store mmu ((ttbr (gvm c1) AND NOT 0x3FF) + 4 * drop_bit 20 0xe4000000) (newCPTD 0 ?tmp)) c1"
  define d0 where "d0 = on_vm (store mmu ?tmp (newSPD 1 1 0x55 p0)) c2"
  have u: "use_page s = (p0, on_vm (mm_update (\<lambda>_. m0)) s)" by (simp add: use_page_def p0)
  have m: "ti_malloc c0 = (t, c0\<lparr>ti_mallocs := ts\<rparr>)" using tmp(1) by (simp add: ti_malloc_def c0_def clear_page_def on_vm_def)
  have g0: "mm (gvm d0) = m0" "same_lists s d0" "\<And>x. mem d0 x = mem c0 x"
    by (simp_all add: d0_def c2_def c1_def c0_def same_lists_def store_def)
  obtain d1 where d1: "boot_page mmu ?tmp 1 d0 = (p1, d1)" "mm (gvm d1) = m1" "same_lists d0 d1"
      "\<And>j. j < 4096 \<Longrightarrow> mem d1 (p1 + of_nat j) = 0" "\<And>x. mem d0 x = 0 \<Longrightarrow> mem d1 x = 0"
    using boot_page_ok [of d0 p1 m1] g0(1) p1 nz by metis
  obtain d2 where d2: "boot_page mmu ?tmp 2 d1 = (p2, d2)" "mm (gvm d2) = m2" "same_lists d1 d2"
      "\<And>j. j < 4096 \<Longrightarrow> mem d2 (p2 + of_nat j) = 0" "\<And>x. mem d1 x = 0 \<Longrightarrow> mem d2 x = 0"
    using boot_page_ok [of d1 p2 m2] d1(2) p2 nz by metis
  obtain d3 where d3: "boot_page mmu ?tmp 3 d2 = (p3, d3)" "mm (gvm d3) = m3" "same_lists d2 d3"
      "\<And>j. j < 4096 \<Longrightarrow> mem d3 (p3 + of_nat j) = 0" "\<And>x. mem d2 x = 0 \<Longrightarrow> mem d3 x = 0"
    using boot_page_ok [of d2 p3 m3] d2(2) p3 nz by metis
  let ?sh = "show_pages [p0, p1, p2, p3] d3"
  have sl: "same_lists s ?sh" using g0(2) d1(3) d2(3) d3(3) by (simp add: same_lists_def)
  have "mem d0 (p0 + of_nat j) = 0" if "j < 4096" for j using clear_page_mem(1) [OF that] g0(3) by (simp add: c0_def)
  then have "mem d3 (p + of_nat j) = 0" if "p \<in> {p0, p1, p2}" "j < 4096" for p j using that d1(4,5) d2(4,5) d3(5) by auto
  then have clear: "clear_heap (mem ?sh)" by (rule show_pages_clear)
  have kh: "kernel_heap_next_page ?sh = 0xe4000000" using sl heap by (simp only: same_lists_def)
  obtain b where b: "boot_caches dummy ?sh = Ret (True, b)" "booted 4 b" "gvm b = gvm ?sh"
    by (rule boot_caches_booted [OF clear kh, of dummy]) blast
  obtain v where v: "migrateKernelCPT mmu 0xe4000000 ?tmp 4 (gvm b) = Some v"
    using migrate_returns [of "gvm b" ks "0xe4000000" mmu ?tmp 4] lists sl unfolding b(3) same_lists_def by auto
  let ?v = "b\<lparr>gvm := v\<rparr>"
  have "booted 4 ?v" using b(2) by (simp add: booted_def page_slab_def cache_vars_def)
  then obtain s' where s': "create_caches (growCache rem0 mmu fuel) fuel created_caches ?v = Some (Ret s')" "booted 22 s'"
    using create_caches_booted [of 4 ?v "growCache rem0 mmu fuel" fuel] by auto
  have "initSlabAllocator rem0 mmu fuel dummy s = Some (Ret (True, s'))"
    unfolding initSlabAllocator_def Let_def u prod.case if_not_P [OF nz(1)] c0_def [symmetric] m if_not_P [OF tmp(2)] c1_def [symmetric]
      c2_def [symmetric] d0_def [symmetric] d1(1) d2(1) d3(1) if_not_P [OF nz(2)] if_not_P [OF nz(3)] if_not_P [OF nz(4)] b(1)
    using v s'(1) by (simp add: vm_step_def)
  moreover have "map (\<lambda>k. c_obj_size s' (cache_at k)) [0..<22] = cache_sizes"
    using s'(2) by (intro nth_equalityI) (auto simp: booted_def cache_sizes_def length_created)
  moreover have "cache_vars s' = map cache_at [0..<13]"
    using s'(2) by (intro nth_equalityI) (auto simp: booted_def length_cache_vars)
  moreover have "map (allocated 0xe4000000 28 (cache_cache s') s') [0..<145] = replicate 22 True @ replicate 123 False"
  proof (rule nth_equalityI)
    fix i assume "i < length (map (allocated 0xe4000000 28 (cache_cache s') s') [0..<145])"
    then have i: "i < 145" by simp
    have "cache_vars s' ! 0 = cache_at 0" using s'(2) by (simp add: booted_def)
    then have c: "cache_cache s' = cache_at 0" by (simp add: cache_vars_def)
    have "slab_used 0xe4000000 28 (cache_at 0) s' = 0xe4000010" using page_slab_layout(1) [OF _ refl] s'(2) by (simp add: booted_def)
    then show "map (allocated 0xe4000000 28 (cache_cache s') s') [0..<145] ! i = (replicate 22 True @ replicate 123 False) ! i"
      using s'(2) i by (auto simp: c allocated_def booted_def in_use_def nth_append)
  qed simp
  ultimately show ?thesis using s'(2) by (auto simp: booted_def cache_sizes_def created_caches_def)
qed

section \<open>An example\<close>

text \<open>Six pages from 0x10001000 on, memory at 0x11800010 for the first page table, no sections of the kernel.\<close>

definition boot_example :: growth where
  "boot_example = growth_example\<lparr>kernel_heap_next_page := 0xe4000000, ti_mallocs := [0x11800010],
     gvm := vm_example\<lparr>sp_cptds := (\<lambda>_. 0), mm := snd (allocPageblock (\<lambda>_. 0x10000004) 6 mm_boot)\<rparr>\<rparr>"

lemma boot_example_pages: "page_requests 4 (mm (gvm boot_example)) = [0x10001000, 0x10002000, 0x10003000, 0x10004000]"
proof -
  have "page_requests 4 (snd (allocPageblock (\<lambda>_. 0x10000004) 6 mm_boot)) = [0x10001000, 0x10002000, 0x10003000, 0x10004000]" by code_simp
  then show ?thesis by (simp add: boot_example_def)
qed

lemma initSlabAllocator_correct_witness:
  "\<exists>s'. initSlabAllocator (\<lambda>_. 0) mmu_example 3 0x12000000 boot_example = Some (Ret (True, s')) \<and> kernel_heap_next_page s' = 0xe4004000
    \<and> cache_vars s' = map cache_at [0..<13]"
proof -
  have e: "entries (heap (gvm boot_example)) (sp_cptds (gvm boot_example) (kernel_space (gvm boot_example))) []"
    by (simp add: boot_example_def entries_def)
  have t: "ti_mallocs boot_example = 0x11800010 # []" "kernel_heap_next_page boot_example = 0xe4000000" by (simp_all add: boot_example_def)
  show ?thesis
    using initSlabAllocator_correct [OF _ t(1) _ t(2) e, of "\<lambda>_. 0" mmu_example 3 "0x12000000"] by (auto simp: boot_example_pages)
qed

end
