(* ===== verification/Memory_Words.thy ===== *)
theory Memory_Words
  imports Kernel_Lib
begin

text \<open>
  Half words and words in the memory of bytes, the low byte first: how the kernel reads the fields of a
  file header, writes the pixels of a frame buffer and patches the instructions of the TI OS.
\<close>

definition get16 :: "bytes \<Rightarrow> addr \<Rightarrow> u16" where
  "get16 m p = ucast (m p) OR push_bit 8 (ucast (m (p + 1)))"

definition put16 :: "addr \<Rightarrow> u16 \<Rightarrow> bytes \<Rightarrow> bytes" where
  "put16 p v m = m(p := ucast v, p + 1 := ucast (drop_bit 8 v))"

definition get32 :: "bytes \<Rightarrow> addr \<Rightarrow> u32" where
  "get32 m p = ucast (m p) OR push_bit 8 (ucast (m (p + 1))) OR push_bit 16 (ucast (m (p + 2))) OR push_bit 24 (ucast (m (p + 3)))"

definition put32 :: "addr \<Rightarrow> u32 \<Rightarrow> bytes \<Rightarrow> bytes" where
  "put32 p v m = m(p := ucast v, p + 1 := ucast (drop_bit 8 v), p + 2 := ucast (drop_bit 16 v), p + 3 := ucast (drop_bit 24 v))"

section \<open>Reading depends on the bytes read\<close>

lemma get32_cong: "(\<And>k. k < 4 \<Longrightarrow> m' (p + of_nat k) = m (p + of_nat k)) \<Longrightarrow> get32 m' p = get32 m p"
proof -
  assume a: "\<And>k. k < 4 \<Longrightarrow> m' (p + of_nat k) = m (p + of_nat k)"
  from a [of 0] a [of 1] a [of 2] a [of 3] show ?thesis by (simp add: get32_def)
qed

lemma get16_cong: "(\<And>k. k < 2 \<Longrightarrow> m' (p + of_nat k) = m (p + of_nat k)) \<Longrightarrow> get16 m' p = get16 m p"
proof -
  assume a: "\<And>k. k < 2 \<Longrightarrow> m' (p + of_nat k) = m (p + of_nat k)"
  from a [of 0] a [of 1] show ?thesis by (simp add: get16_def)
qed

text \<open>A field of a structure at \<open>p\<close>, \<open>o\<close> bytes behind its start.\<close>

lemma field32_cong:
  assumes "\<And>k. k < n \<Longrightarrow> m' (p + of_nat k) = m (p + of_nat k)" and "off + 4 \<le> n"
  shows "get32 m' (p + of_nat off) = get32 m (p + of_nat off)"
proof (rule get32_cong)
  fix k :: nat assume "k < 4"
  then have "off + k < n" using assms(2) by simp
  from assms(1) [OF this] show "m' (p + of_nat off + of_nat k) = m (p + of_nat off + of_nat k)" by (simp add: add.assoc)
qed

lemma field16_cong:
  assumes "\<And>k. k < n \<Longrightarrow> m' (p + of_nat k) = m (p + of_nat k)" and "off + 2 \<le> n"
  shows "get16 m' (p + of_nat off) = get16 m (p + of_nat off)"
proof (rule get16_cong)
  fix k :: nat assume "k < 2"
  then have "off + k < n" using assms(2) by simp
  from assms(1) [OF this] show "m' (p + of_nat off + of_nat k) = m (p + of_nat off + of_nat k)" by (simp add: add.assoc)
qed

section \<open>Reading what was written\<close>

lemma get16_put16 [simp]: "get16 (put16 p v m) p = v"
proof -
  have "get16 (put16 p v m) p = ucast (ucast v :: u8) OR push_bit 8 (ucast (ucast (drop_bit 8 v) :: u8))"
    by (simp add: get16_def put16_def)
  also have "\<dots> = v"
    by (rule bit_word_eqI) (auto simp: bit_simps)
  finally show ?thesis .
qed

lemma get32_put32 [simp]: "get32 (put32 p v m) p = v"
proof -
  have "get32 (put32 p v m) p = ucast (ucast v :: u8) OR push_bit 8 (ucast (ucast (drop_bit 8 v) :: u8))
      OR push_bit 16 (ucast (ucast (drop_bit 16 v) :: u8)) OR push_bit 24 (ucast (ucast (drop_bit 24 v) :: u8))"
    by (simp add: get32_def put32_def)
  also have "\<dots> = v"
  proof (rule bit_word_eqI)
    fix n assume "n < LENGTH(32)"
    then show "bit (ucast (ucast v :: u8) OR push_bit 8 (ucast (ucast (drop_bit 8 v) :: u8))
      OR push_bit 16 (ucast (ucast (drop_bit 16 v) :: u8)) OR push_bit 24 (ucast (ucast (drop_bit 24 v) :: u8)) :: u32) n = bit v n"
      by (cases "n < 16"; cases "n < 24") (auto simp: bit_simps)
  qed
  finally show ?thesis .
qed

text \<open>Writing back what was read leaves the memory as it is.\<close>

lemma put32_get32: "put32 p (get32 m p) m = m"
proof -
  have b: "ucast (get32 m p) = m p" "ucast (drop_bit 8 (get32 m p)) = m (p + 1)"
    "ucast (drop_bit 16 (get32 m p)) = m (p + 2)" "ucast (drop_bit 24 (get32 m p)) = m (p + 3)"
    unfolding get32_def by (rule bit_word_eqI; auto simp: bit_simps dest: bit_imp_le_length)+
  show ?thesis by (simp add: put32_def b fun_upd_idem)
qed

lemma put32_put32 [simp]: "put32 p v (put32 p w m) = put32 p v m"
  by (auto simp: put32_def fun_eq_iff)

text \<open>A write changes its own bytes only.\<close>

lemma put16_other: "a \<noteq> p \<Longrightarrow> a \<noteq> p + 1 \<Longrightarrow> put16 p v m a = m a"
  by (simp add: put16_def)

lemma put32_other: "(\<And>k. k < 4 \<Longrightarrow> a \<noteq> p + of_nat k) \<Longrightarrow> put32 p v m a = m a"
proof -
  assume h: "\<And>k. k < 4 \<Longrightarrow> a \<noteq> p + of_nat k"
  from h [of 0] h [of 1] h [of 2] h [of 3] show ?thesis by (simp add: put32_def)
qed

section \<open>Strings\<close>

text \<open>A string of the memory that ends with NUL.\<close>

fun string_at :: "bytes \<Rightarrow> addr \<Rightarrow> u8 list \<Rightarrow> bool" where
  "string_at m p [] \<longleftrightarrow> m p = 0"
| "string_at m p (c # cs) \<longleftrightarrow> c \<noteq> 0 \<and> m p = c \<and> string_at m (p + 1) cs"

lemma string_at_cstring: "string_at m p cs \<Longrightarrow> length cs \<le> n \<Longrightarrow> cstring m p n = cs"
proof (induction cs arbitrary: p n)
  case Nil
  then show ?case by (cases n) simp_all
next
  case (Cons c cs)
  then show ?case by (cases n) simp_all
qed

lemma string_at_strlen: "string_at m p cs \<Longrightarrow> length cs \<le> 100 \<Longrightarrow> unat (k_strlen p 100 m) = length cs"
  by (simp add: k_strlen_eq string_at_cstring)

lemma string_at_iff:
  "string_at m p cs \<longleftrightarrow> (\<forall>i<length cs. cs ! i \<noteq> 0 \<and> m (p + of_nat i) = cs ! i) \<and> m (p + of_nat (length cs)) = 0"
proof (induction cs arbitrary: p)
  case Nil
  then show ?case by simp
next
  case (Cons c cs)
  then show ?case by (auto simp: All_less_Suc2 algebra_simps)
qed

text \<open>Copying a string into a region that it lies outside of.\<close>

lemma copy_string:
  assumes "string_at m q cs" and "\<And>i j. i < length cs \<Longrightarrow> j < n \<Longrightarrow> q + of_nat i \<noteq> p + of_nat j"
    and "k + length cs \<le> n" and "n < 4294967296"
  shows "i < length cs \<Longrightarrow> memcpy_loop (length cs) (p + of_nat k) q m (p + of_nat (k + i)) = cs ! i"
    and "(\<And>i. i < length cs \<Longrightarrow> a \<noteq> p + of_nat (k + i)) \<Longrightarrow> memcpy_loop (length cs) (p + of_nat k) q m a = m a"
proof -
  have "\<forall>i<length cs. \<forall>j<i. q + of_nat i \<noteq> p + of_nat k + of_nat j"
  proof (intro allI impI)
    fix i j assume "i < length cs" "j < i"
    then show "q + of_nat i \<noteq> p + of_nat k + of_nat j" using assms(2) [of i "k + j"] assms(3) by (simp add: add.assoc)
  qed
  from memcpy_loop_at [OF this] assms(4) assms(3)
  show "i < length cs \<Longrightarrow> memcpy_loop (length cs) (p + of_nat k) q m (p + of_nat (k + i)) = cs ! i"
    using assms(1) by (simp add: string_at_iff add.assoc)
  show "(\<And>i. i < length cs \<Longrightarrow> a \<noteq> p + of_nat (k + i)) \<Longrightarrow> memcpy_loop (length cs) (p + of_nat k) q m a = m a"
    by (rule memcpy_loop_other) (simp add: add.assoc)
qed

end
