(* ===== verification/Elf_Loader.thy ===== *)
theory Elf_Loader
  imports Phys_MM Memory_Words
begin

text \<open>
  The loader for ELF files, kernel/elf/elf.c: reading the headers, loading the file, allocating and filling the
  image, and patching the global offset table. The state is the memory, the page allocator, the
  descriptors and those freed. \<open>kmalloc\<close> is seen as the address it returns, a file of the TI OS as its bytes.
\<close>

section \<open>Data\<close>

record elf_header =
  eh_magic :: "u8 list"
  eh_wordwidth :: u8
  eh_endianness :: u8
  eh_elf_h_version :: u8
  eh_abi :: u8
  eh_type :: u16
  eh_instruction_set :: u16
  eh_elf_version :: u32
  eh_entry :: u32
  eh_prog_table :: u32
  eh_sect_table :: u32
  eh_header_size :: u16
  eh_prog_size :: u16
  eh_prog_count :: u16
  eh_sect_size :: u16
  eh_sect_count :: u16
  eh_sect_strtab :: u16

record elf_desc =
  ed_pages :: u32
  ed_start :: addr
  ed_image :: addr
  ed_image_pages :: u32

record elf_prog_header =
  ph_type :: u32
  ph_offset :: u32
  ph_vaddr :: u32
  ph_paddr :: u32
  ph_filesz :: u32
  ph_memsz :: u32
  ph_flags :: u32
  ph_align :: u32

record elf_sect_header =
  sh_name :: u32
  sh_type :: u32
  sh_flags :: u32
  sh_addr :: addr
  sh_offset :: u32
  sh_size :: u32
  sh_link :: u32
  sh_info :: u32
  sh_addraling :: u32
  sh_entsize :: u32

record elf_sys =
  mem :: bytes
  phys :: phys_mm
  desc :: "addr \<Rightarrow> elf_desc"
  desc_freed :: "addr list"

section \<open>Headers\<close>

definition elf_check_header :: "elf_header \<Rightarrow> bool" where
  "elf_check_header h =
     (if eh_magic h ! 0 \<noteq> 0x7f \<or> eh_magic h ! 1 \<noteq> 0x45 \<or> eh_magic h ! 2 \<noteq> 0x4c \<or> eh_magic h ! 3 \<noteq> 0x46 then False
      else if eh_wordwidth h \<noteq> 1 then False
      else if eh_endianness h \<noteq> 1 then False
      else if eh_instruction_set h \<noteq> 0x28 then False
      else True)"

definition elf_read_header_mem :: "bytes \<Rightarrow> addr \<Rightarrow> elf_header" where
  "elf_read_header_mem m header =
     \<lparr>eh_magic = [m header, m (header + 1), m (header + 2), m (header + 3)],
      eh_wordwidth = m (header + 4), eh_endianness = m (header + 5),
      eh_elf_h_version = m (header + 6), eh_abi = m (header + 7),
      eh_type = get16 m (header + 0x10), eh_instruction_set = get16 m (header + 0x12),
      eh_elf_version = get32 m (header + 0x14), eh_entry = get32 m (header + 0x18),
      eh_prog_table = get32 m (header + 0x1c), eh_sect_table = get32 m (header + 0x20),
      eh_header_size = get16 m (header + 0x28), eh_prog_size = get16 m (header + 0x2a),
      eh_prog_count = get16 m (header + 0x2c), eh_sect_size = get16 m (header + 0x2e),
      eh_sect_count = get16 m (header + 0x30), eh_sect_strtab = get16 m (header + 0x32)\<rparr>"

text \<open>The same from the first 52 bytes of a file, which \<open>nuc_fread\<close> puts in a buffer.\<close>

definition elf_read_header :: "(nat \<Rightarrow> u8) \<Rightarrow> elf_header" where
  "elf_read_header file = elf_read_header_mem (\<lambda>a. file (unat a)) 0"

definition read_prog_header :: "bytes \<Rightarrow> addr \<Rightarrow> elf_prog_header" where
  "read_prog_header m p =
     \<lparr>ph_type = get32 m p, ph_offset = get32 m (p + 4), ph_vaddr = get32 m (p + 8), ph_paddr = get32 m (p + 12),
      ph_filesz = get32 m (p + 16), ph_memsz = get32 m (p + 20), ph_flags = get32 m (p + 24), ph_align = get32 m (p + 28)\<rparr>"

definition read_sect_header :: "bytes \<Rightarrow> addr \<Rightarrow> elf_sect_header" where
  "read_sect_header m p =
     \<lparr>sh_name = get32 m p, sh_type = get32 m (p + 4), sh_flags = get32 m (p + 8), sh_addr = get32 m (p + 12),
      sh_offset = get32 m (p + 16), sh_size = get32 m (p + 20), sh_link = get32 m (p + 24), sh_info = get32 m (p + 28),
      sh_addraling = get32 m (p + 32), sh_entsize = get32 m (p + 36)\<rparr>"

section \<open>Loading\<close>

text \<open>\<open>nuc_fread(elf->start,1,size,f)\<close>\<close>

definition fread :: "addr \<Rightarrow> u32 \<Rightarrow> (nat \<Rightarrow> u8) \<Rightarrow> bytes \<Rightarrow> bytes" where
  "fread p n file m = (\<lambda>a. if unat (a - p) < unat n then file (unat (a - p)) else m a)"

definition elf_load_file :: "(u32 \<Rightarrow> u32) \<Rightarrow> addr \<Rightarrow> (nat \<Rightarrow> u8) \<Rightarrow> u32 \<Rightarrow> elf_sys \<Rightarrow> addr \<times> elf_sys" where
  "elf_load_file rem0 elf file sz s =
     (if elf = NULL then (NULL, s)
      else
        let (start, p) = useConsecutivePages rem0 (sz div SMALL_PAGE_SIZE + 1) 0 (phys s);
            d = (desc s elf)\<lparr>ed_pages := sz div SMALL_PAGE_SIZE + 1, ed_start := start\<rparr>;
            s = s\<lparr>phys := p, desc := (desc s)(elf := d)\<rparr>
        in if start = NULL then (NULL, s\<lparr>desc_freed := desc_freed s @ [elf]\<rparr>)
           else
             let d = d\<lparr>ed_image := NULL, ed_image_pages := 0\<rparr>
             in (elf, s\<lparr>desc := (desc s)(elf := d), mem := fread start sz file (mem s)\<rparr>))"

definition elf_entry :: "addr \<Rightarrow> elf_sys \<Rightarrow> addr" where
  "elf_entry elf s =
     (if elf = NULL then NULL
      else
        let d = desc s elf
        in if ed_image d = NULL then NULL
           else if ed_start d = NULL then NULL
           else
             let h = elf_read_header_mem (mem s) (ed_start d)
             in if \<not> elf_check_header h then NULL
                else if eh_entry h \<ge> ed_image_pages d * SMALL_PAGE_SIZE then NULL
                else ed_image d + eh_entry h)"

text \<open>
  The loop over the program headers, the same in \<open>elf_alloc_image\<close> and \<open>elf_assemble_image\<close>: the first header
  of type 1, unless one before it is out of bounds.
\<close>

fun find_load :: "bytes \<Rightarrow> elf_desc \<Rightarrow> u32 \<Rightarrow> nat \<Rightarrow> addr \<Rightarrow> elf_prog_header option" where
  "find_load m d prog_size 0 prog_pointer = None"
| "find_load m d prog_size (Suc headers) prog_pointer =
     (if prog_pointer < ed_start d \<or> prog_pointer + 32 \<ge> ed_start d + ed_pages d * SMALL_PAGE_SIZE then None
      else
        let prog_h = read_prog_header m prog_pointer
        in if ph_type prog_h = 1 then Some prog_h
           else find_load m d prog_size headers (prog_pointer + prog_size))"

definition load_header :: "bytes \<Rightarrow> elf_desc \<Rightarrow> elf_prog_header option" where
  "load_header m d =
     (let h = elf_read_header_mem m (ed_start d)
      in if \<not> elf_check_header h then None
         else find_load m d (ucast (eh_prog_size h)) (unat (eh_prog_count h)) (ed_start d + eh_prog_table h))"

definition elf_alloc_image :: "(u32 \<Rightarrow> u32) \<Rightarrow> addr \<Rightarrow> elf_sys \<Rightarrow> elf_sys" where
  "elf_alloc_image rem0 elf s =
     (let d = desc s elf
      in if elf = NULL \<or> ed_start d = NULL \<or> ed_image d \<noteq> NULL then s
         else
           case load_header (mem s) d of
             None \<Rightarrow> s
           | Some prog_h \<Rightarrow>
               let (img, p) = useConsecutivePages rem0 (ph_memsz prog_h div SMALL_PAGE_SIZE + 1) 0 (phys s);
                   d = d\<lparr>ed_image := img\<rparr>;
                   s = s\<lparr>phys := p, desc := (desc s)(elf := d)\<rparr>
               in if img = NULL then s
                  else
                    let d = d\<lparr>ed_image_pages := ph_memsz prog_h div SMALL_PAGE_SIZE + 1\<rparr>
                    in s\<lparr>desc := (desc s)(elf := d),
                         mem := snd (k_memset img 0 (ed_image_pages d * SMALL_PAGE_SIZE) (mem s))\<rparr>)"

definition elf_assemble_image :: "addr \<Rightarrow> elf_sys \<Rightarrow> elf_sys" where
  "elf_assemble_image elf s =
     (let d = desc s elf
      in if elf = NULL \<or> ed_start d = NULL \<or> ed_image d = NULL then s
         else
           case load_header (mem s) d of
             None \<Rightarrow> s
           | Some prog_h \<Rightarrow>
               if ph_offset prog_h > ed_pages d * SMALL_PAGE_SIZE
                 \<or> ph_offset prog_h + ph_filesz prog_h > ed_pages d * SMALL_PAGE_SIZE then s
               else s\<lparr>mem := snd (k_memcpy (ed_image d) (ed_start d + ph_offset prog_h) (ph_filesz prog_h) (mem s))\<rparr>)"

section \<open>Sections\<close>

text \<open>
  The search for a section by its name: \<open>matches name maxlen\<close> is the test of the name. The result is
  \<open>None\<close> when a header or name is out of bounds or when there is no such section; both make the callers return.
\<close>

fun find_section ::
  "(addr \<Rightarrow> u32 \<Rightarrow> bool) \<Rightarrow> bytes \<Rightarrow> elf_desc \<Rightarrow> u32 \<Rightarrow> u32 \<Rightarrow> nat \<Rightarrow> addr \<Rightarrow> elf_sect_header option" where
  "find_section matches m d strtab_offset sect_size 0 sect_header = None"
| "find_section matches m d strtab_offset sect_size (Suc n) sect_header =
     (if sect_header < ed_start d \<or> sect_header + 40 \<ge> ed_start d + ed_pages d * SMALL_PAGE_SIZE then None
      else
        let section = read_sect_header m sect_header;
            name = ed_start d + strtab_offset + sh_name section
        in if name < ed_start d \<or> name \<ge> ed_start d + ed_pages d * SMALL_PAGE_SIZE then None
           else
             let maxlen = (ed_start d + ed_pages d * SMALL_PAGE_SIZE) - name
             in if matches name maxlen then Some section
                else find_section matches m d strtab_offset sect_size n (sect_header + sect_size))"

definition section_named :: "(addr \<Rightarrow> u32 \<Rightarrow> bool) \<Rightarrow> bytes \<Rightarrow> elf_desc \<Rightarrow> elf_sect_header option" where
  "section_named matches m d =
     (let h = elf_read_header_mem m (ed_start d)
      in if \<not> elf_check_header h then None
         else if eh_sect_count h = 0 then None
         else if eh_sect_table h + ucast (eh_sect_strtab h) * ucast (eh_sect_size h) + 40 > ed_pages d * SMALL_PAGE_SIZE then None
         else
           let strtab = read_sect_header m (ed_start d + eh_sect_table h + ucast (eh_sect_strtab h) * ucast (eh_sect_size h))
           in if sh_offset strtab \<ge> ed_pages d * SMALL_PAGE_SIZE then None
              else find_section matches m d (sh_offset strtab) (ucast (eh_sect_size h)) (unat (eh_sect_count h))
                     (ed_start d + eh_sect_table h))"

text \<open>The result is the copy and the number of its pages.\<close>

definition elf_copy_section ::
  "(u32 \<Rightarrow> u32) \<Rightarrow> addr \<Rightarrow> addr \<Rightarrow> addr \<Rightarrow> u32 \<Rightarrow> elf_sys \<Rightarrow> addr \<times> u32 \<times> elf_sys" where
  "elf_copy_section rem0 elf searched_name sect_pages old_pages s =
     (let d = desc s elf
      in if elf = NULL \<or> ed_start d = NULL \<or> sect_pages = NULL then (NULL, old_pages, s)
         else
           let matches = (\<lambda>name maxlen. k_strcmp name searched_name (maxlen - 1) (mem s) = 0
                            \<and> k_strlen name (maxlen - 1) (mem s) = k_strlen searched_name 100 (mem s))
           in case section_named matches (mem s) d of
                None \<Rightarrow> (NULL, old_pages, s)
              | Some section \<Rightarrow>
                  if sh_offset section + sh_size section > ed_pages d * SMALL_PAGE_SIZE then (NULL, old_pages, s)
                  else
                    let n = sh_size section div SMALL_PAGE_SIZE + 1;
                        (copy, p) = useConsecutivePages rem0 n 0 (phys s);
                        s = s\<lparr>phys := p\<rparr>
                    in if copy = NULL then (NULL, 0, s) else (copy, n, s))"

text \<open>The entries of the table, one word after the other.\<close>

fun patch_got :: "u32 \<Rightarrow> nat \<Rightarrow> addr \<Rightarrow> bytes \<Rightarrow> bytes" where
  "patch_got img 0 got_entry m = m"
| "patch_got img (Suc n) got_entry m =
     patch_got img n (got_entry + 4)
       (if get32 m got_entry \<noteq> 0xffffffff then put32 got_entry (get32 m got_entry + img) m else m)"

text \<open>\<open>got_name\<close> is the address of the string \<open>.got\<close> of the kernel.\<close>

definition elf_fix_got :: "addr \<Rightarrow> addr \<Rightarrow> elf_sys \<Rightarrow> elf_sys" where
  "elf_fix_got got_name elf s =
     (let d = desc s elf
      in if elf = NULL \<or> ed_start d = NULL then s
         else
           let matches = (\<lambda>name maxlen. k_strcmp name got_name (maxlen - 1) (mem s) = 0 \<and> k_strlen name (maxlen - 1) (mem s) = 4)
           in case section_named matches (mem s) d of
                None \<Rightarrow> s
              | Some got \<Rightarrow>
                  if sh_offset got \<ge> ed_pages d * SMALL_PAGE_SIZE then s
                  else if sh_offset got mod 4 \<noteq> 0 then s
                  else if sh_offset got + sh_size got \<ge> ed_pages d * SMALL_PAGE_SIZE then s
                  else s\<lparr>mem := patch_got (ed_image d) (unat (sh_size got div 4)) (ed_start d + sh_offset got) (mem s)\<rparr>)"

section \<open>Release\<close>

definition elf_destroy :: "addr \<Rightarrow> elf_sys \<Rightarrow> elf_sys" where
  "elf_destroy elf s =
     (if elf = NULL then s
      else
        let d = desc s elf;
            s = (if ed_start d \<noteq> NULL then s\<lparr>phys := freeConsecutivePages (ed_start d) (ed_pages d) (phys s)\<rparr> else s);
            s = (if ed_image d \<noteq> NULL then s\<lparr>phys := freeConsecutivePages (ed_image d) (ed_image_pages d) (phys s)\<rparr> else s)
        in s\<lparr>desc_freed := desc_freed s @ [elf]\<rparr>)"

definition elf_destroy_without_image :: "addr \<Rightarrow> elf_sys \<Rightarrow> elf_sys" where
  "elf_destroy_without_image elf s =
     (if elf = NULL then s
      else
        let d = desc s elf;
            s = (if ed_start d \<noteq> NULL then s\<lparr>phys := freeConsecutivePages (ed_start d) (ed_pages d) (phys s)\<rparr> else s)
        in s\<lparr>desc_freed := desc_freed s @ [elf]\<rparr>)"

definition elf_destroy_file_mem :: "addr \<Rightarrow> elf_sys \<Rightarrow> elf_sys" where
  "elf_destroy_file_mem elf s =
     (if elf = NULL then s
      else
        let d = desc s elf;
            s = (if ed_start d \<noteq> NULL then s\<lparr>phys := freeConsecutivePages (ed_start d) (ed_pages d) (phys s)\<rparr> else s)
        in s\<lparr>desc := (desc s)(elf := d\<lparr>ed_start := NULL, ed_pages := 0\<rparr>)\<rparr>)"

definition elf_destroy_image :: "addr \<Rightarrow> elf_sys \<Rightarrow> elf_sys" where
  "elf_destroy_image elf s =
     (if elf = NULL then s
      else
        let d = desc s elf;
            s = (if ed_image d \<noteq> NULL then s\<lparr>phys := freeConsecutivePages (ed_image d) (ed_image_pages d) (phys s)\<rparr> else s)
        in s\<lparr>desc := (desc s)(elf := d\<lparr>ed_image := NULL, ed_image_pages := 0\<rparr>)\<rparr>)"

section \<open>The headers only depend on their bytes\<close>

lemma read_prog_header_cong:
  assumes "\<And>k. k < 32 \<Longrightarrow> m' (p + of_nat k) = m (p + of_nat k)"
  shows "read_prog_header m' p = read_prog_header m p"
proof -
  note f = field32_cong [of 32 m' p m, OF assms]
  from f [of 0] f [of 4] f [of 8] f [of 12] f [of 16] f [of 20] f [of 24] f [of 28]
  show ?thesis by (simp add: read_prog_header_def)
qed

lemma elf_read_header_cong:
  assumes "\<And>k. k < 52 \<Longrightarrow> m' (p + of_nat k) = m (p + of_nat k)"
  shows "elf_read_header_mem m' p = elf_read_header_mem m p"
proof -
  note f = field32_cong [of 52 m' p m, OF assms] and g = field16_cong [of 52 m' p m, OF assms]
  from f [of "0x14"] f [of "0x18"] f [of "0x1c"] f [of "0x20"] g [of "0x10"] g [of "0x12"] g [of "0x28"] g [of "0x2a"]
    g [of "0x2c"] g [of "0x2e"] g [of "0x30"] g [of "0x32"]
    assms [of 0] assms [of 1] assms [of 2] assms [of 3] assms [of 4] assms [of 5] assms [of 6] assms [of 7]
  show ?thesis by (simp add: elf_read_header_mem_def)
qed

text \<open>
  The bytes the loader reads to find the program header: the file, and, because the bound of a header is computed
  with wrap-around, the ends of the address space.
\<close>

definition readable :: "elf_desc \<Rightarrow> addr \<Rightarrow> bool" where
  "readable d a \<longleftrightarrow> unat (ed_start d) \<le> unat a \<and> unat a < unat (ed_start d) + unat (ed_pages d) * 4096
     \<or> unat a < 32 \<or> 2 ^ 32 - 32 \<le> unat a"

lemma unat_plus_cases:
  "unat (p + of_nat k :: u32) = unat p + k \<or> 2 ^ 32 \<le> unat p + k \<and> unat (p + of_nat k :: u32) = unat p + k - 2 ^ 32" if "k < 2 ^ 31"
proof -
  have "unat (p + of_nat k :: u32) = (unat p + k) mod 2 ^ 32"
    using that by (simp add: unat_word_ariths unat_of_nat mod_add_right_eq)
  then show ?thesis using that unat_u32_bound [of p] by (cases "unat p + k < 2 ^ 32") (simp_all add: le_mod_geq)
qed

lemma end_of_file:
  assumes "unat (ed_start d) + unat (ed_pages d) * 4096 < 2 ^ 32"
  shows "unat (ed_start d + ed_pages d * 4096) = unat (ed_start d) + unat (ed_pages d) * 4096"
proof -
  have "unat (ed_pages d * 4096) = unat (ed_pages d) * 4096" using assms by (subst unat_mult_u32) simp_all
  then show ?thesis using assms by (subst unat_add_u32) simp_all
qed

lemma readable_header:
  assumes "unat (ed_start d) + unat (ed_pages d) * 4096 < 2 ^ 32"
    and "\<not> (p < ed_start d \<or> p + 32 \<ge> ed_start d + ed_pages d * SMALL_PAGE_SIZE)" and "k < 32"
  shows "readable d (p + of_nat k)"
proof -
  have b: "unat (ed_start d) \<le> unat p" "unat (p + of_nat 32) < unat (ed_start d) + unat (ed_pages d) * 4096"
    using assms(2) end_of_file [OF assms(1)] by (simp_all add: unat_le_u32 not_less not_le unat_less_u32)
  show ?thesis
    using b unat_plus_cases [of 32 p] unat_plus_cases [of k p] assms(3) unat_u32_bound [of p] unfolding readable_def by auto
qed

lemma find_load_cong:
  assumes "unat (ed_start d) + unat (ed_pages d) * 4096 < 2 ^ 32" and "\<And>a. readable d a \<Longrightarrow> m' a = m a"
    and "ed_start d' = ed_start d" and "ed_pages d' = ed_pages d"
  shows "find_load m' d' ps n p = find_load m d ps n p"
proof (induction n arbitrary: p)
  case (Suc n)
  show ?case
  proof (cases "p < ed_start d \<or> p + 32 \<ge> ed_start d + ed_pages d * SMALL_PAGE_SIZE")
    case True
    then show ?thesis by (simp add: assms(3,4))
  next
    case False
    then have "read_prog_header m' p = read_prog_header m p"
      by (intro read_prog_header_cong assms(2) readable_header [OF assms(1)])
    with Suc False show ?thesis by (simp add: assms(3,4) Let_def)
  qed
qed simp

lemma load_header_cong:
  assumes "unat (ed_start d) + unat (ed_pages d) * 4096 < 2 ^ 32" and "ed_pages d \<noteq> 0" and "\<And>a. readable d a \<Longrightarrow> m' a = m a"
    and "ed_start d' = ed_start d" and "ed_pages d' = ed_pages d"
  shows "load_header m' d' = load_header m d"
proof -
  have "0 < unat (ed_pages d)" using assms(2) by (simp add: unat_gt_0)
  then have "readable d (ed_start d + of_nat k)" if "k < 52" for k
    using that assms(1) unat_plus_cases [of k "ed_start d"] unfolding readable_def by auto
  then have "elf_read_header_mem m' (ed_start d) = elf_read_header_mem m (ed_start d)"
    by (intro elf_read_header_cong assms(3))
  then show ?thesis using find_load_cong [OF assms(1,3,4,5)] by (simp add: load_header_def assms(4) Let_def)
qed

section \<open>The image\<close>

text \<open>
  A file with a program to load, and pages for its image that overlap neither the file nor the ends of the address
  space; its program header stays within the file and asks for at least the memory that its data in the file takes.
\<close>

definition loadable :: "(u32 \<Rightarrow> u32) \<Rightarrow> addr \<Rightarrow> elf_sys \<Rightarrow> elf_prog_header \<Rightarrow> addr \<Rightarrow> bool" where
  "loadable rem0 elf s ph img \<longleftrightarrow>
     (let d = desc s elf; n = (unat (ph_memsz ph) div 4096 + 1) * 4096
      in elf \<noteq> NULL \<and> ed_start d \<noteq> NULL \<and> ed_image d = NULL \<and> ed_pages d \<noteq> 0
       \<and> unat (ed_start d) + unat (ed_pages d) * 4096 < 2 ^ 32
       \<and> load_header (mem s) d = Some ph
       \<and> fst (useConsecutivePages rem0 (ph_memsz ph div 4096 + 1) 0 (phys s)) = img \<and> img \<noteq> NULL
       \<and> 32 \<le> unat img \<and> unat img + n \<le> 2 ^ 32 - 32
       \<and> (unat (ed_start d) + unat (ed_pages d) * 4096 \<le> unat img \<or> unat img + n \<le> unat (ed_start d))
       \<and> unat (ph_offset ph) + unat (ph_filesz ph) \<le> unat (ed_pages d) * 4096
       \<and> ph_filesz ph \<le> ph_memsz ph)"

lemma elf_alloc_image_eq:
  assumes "loadable rem0 elf s ph img"
  shows "mem (elf_alloc_image rem0 elf s) = memset_loop 0 ((unat (ph_memsz ph) div 4096 + 1) * 4096) img (mem s)"
    and "desc (elf_alloc_image rem0 elf s) elf = (desc s elf)\<lparr>ed_image := img, ed_image_pages := ph_memsz ph div 4096 + 1\<rparr>"
proof -
  note l = assms [unfolded loadable_def Let_def]
  have pg: "unat (ph_memsz ph div 4096 + 1) = unat (ph_memsz ph) div 4096 + 1"
    using l by (subst unat_add_u32) (simp_all add: unat_div)
  have "unat ((ph_memsz ph div 4096 + 1) * 4096) = (unat (ph_memsz ph) div 4096 + 1) * 4096"
    using l by (subst unat_mult_u32) (simp_all only: pg, simp_all)
  then show "mem (elf_alloc_image rem0 elf s) = memset_loop 0 ((unat (ph_memsz ph) div 4096 + 1) * 4096) img (mem s)"
    and "desc (elf_alloc_image rem0 elf s) elf = (desc s elf)\<lparr>ed_image := img, ed_image_pages := ph_memsz ph div 4096 + 1\<rparr>"
    using l by (auto simp: elf_alloc_image_def Let_def k_memset_def split: prod.splits)
qed

text \<open>Bytes of the image, by their distance from its start.\<close>

lemma image_byte:
  assumes "unat img + n \<le> 2 ^ 32 - 32" and "i < n"
  shows "unat (img + of_nat i :: u32) = unat img + i"
proof -
  have "unat (of_nat i :: u32) = i" using assms by (intro unat_of_nat_u32) simp
  then show ?thesis using assms by (subst unat_add_u32) simp_all
qed

lemma memset_region:
  assumes "unat p + n \<le> 2 ^ 32 - 32"
  shows "memset_loop c n p m a = (if unat p \<le> unat a \<and> unat a < unat p + n then c else m a)"
proof -
  have "(\<exists>i<n. a = p + of_nat i) \<longleftrightarrow> unat p \<le> unat a \<and> unat a < unat p + n"
  proof
    assume "\<exists>i<n. a = p + of_nat i"
    then show "unat p \<le> unat a \<and> unat a < unat p + n" using image_byte [OF assms] by auto
  next
    assume h: "unat p \<le> unat a \<and> unat a < unat p + n"
    then have "unat a - unat p < n" by linarith
    moreover from image_byte [OF assms this] h have "a = p + of_nat (unat a - unat p)" by (intro unat_inj_u32) simp
    ultimately show "\<exists>i<n. a = p + of_nat i" by blast
  qed
  then show ?thesis by (simp add: memset_loop_eq)
qed

text \<open>The bytes of the image of \<open>ph\<close> at \<open>img\<close>.\<close>

definition inside :: "elf_prog_header \<Rightarrow> addr \<Rightarrow> addr \<Rightarrow> bool" where
  "inside ph img a \<longleftrightarrow> unat img \<le> unat a \<and> unat a < unat img + (unat (ph_memsz ph) div 4096 + 1) * 4096"

lemma elf_alloc_image_mem:
  assumes "loadable rem0 elf s ph img"
  shows "mem (elf_alloc_image rem0 elf s) a = (if inside ph img a then 0 else mem s a)"
proof -
  have "unat img + (unat (ph_memsz ph) div 4096 + 1) * 4096 \<le> 2 ^ 32 - 32" using assms unfolding loadable_def Let_def by blast
  then show ?thesis unfolding elf_alloc_image_eq(1) [OF assms] inside_def by (rule memset_region)
qed

text \<open>The data of the program in the file is outside the image.\<close>

lemma program_outside:
  assumes "loadable rem0 elf s ph img" and "i < unat (ph_filesz ph)"
  shows "\<not> inside ph img (ed_start (desc s elf) + ph_offset ph + of_nat i)"
proof -
  note l = assms(1) [unfolded loadable_def Let_def]
  have "unat (ed_start (desc s elf) + ph_offset ph) = unat (ed_start (desc s elf)) + unat (ph_offset ph)" using l by (subst unat_add_u32) simp_all
  moreover have "unat (of_nat i :: u32) = i" using assms(2) unat_u32_bound [of "ph_filesz ph"] by (intro unat_of_nat_u32) simp
  ultimately have "unat (ed_start (desc s elf) + ph_offset ph + of_nat i) = unat (ed_start (desc s elf)) + unat (ph_offset ph) + i"
    using l assms(2) by (subst unat_add_u32) simp_all
  then show ?thesis using l assms(2) unfolding inside_def by linarith
qed

lemma elf_assemble_image_eq:
  assumes "loadable rem0 elf s ph img"
  shows "elf_assemble_image elf (elf_alloc_image rem0 elf s) = (elf_alloc_image rem0 elf s)\<lparr>mem :=
      memcpy_loop (unat (ph_filesz ph)) img (ed_start (desc s elf) + ph_offset ph) (mem (elf_alloc_image rem0 elf s))\<rparr>"
proof -
  note l = assms [unfolded loadable_def Let_def] and s1 = elf_alloc_image_eq(2) [OF assms]
  let ?d = "desc s elf" and ?s1 = "elf_alloc_image rem0 elf s"
  have "\<not> inside ph img a" if "readable ?d a" for a
    using that l unfolding readable_def inside_def by auto
  then have "mem ?s1 a = mem s a" if "readable ?d a" for a using that elf_alloc_image_mem [OF assms] by simp
  then have "load_header (mem ?s1) (desc ?s1 elf) = load_header (mem s) ?d"
    using l by (intro load_header_cong) (simp_all add: s1)
  then have "load_header (mem ?s1) (desc ?s1 elf) = Some ph" using l by simp
  moreover have "unat (ed_pages ?d * 4096) = unat (ed_pages ?d) * 4096" using l by (subst unat_mult_u32) simp_all
  moreover have "unat (ph_offset ph + ph_filesz ph) = unat (ph_offset ph) + unat (ph_filesz ph)" using l by (subst unat_add_u32) simp_all
  ultimately show ?thesis using l by (simp add: elf_assemble_image_def Let_def s1 k_memcpy_def unat_less_u32)
qed

text \<open>
  C4. Allocating and assembling the image of a file with a program to load: the image holds the bytes of the program
  and zeros behind them up to its last page, no byte outside of it changes, and the descriptor records its pages.
\<close>

theorem elf_image_correct:
  assumes "loadable rem0 elf s ph img"
  shows "let s' = elf_assemble_image elf (elf_alloc_image rem0 elf s); d = desc s' elf; n = (unat (ph_memsz ph) div 4096 + 1) * 4096 in
    ed_image d = img \<and> unat (ed_image_pages d) * 4096 = n
    \<and> (\<forall>i < n. mem s' (img + of_nat i)
        = (if i < unat (ph_filesz ph) then mem s (ed_start d + ph_offset ph + of_nat i) else 0))
    \<and> (\<forall>a. \<not> (unat img \<le> unat a \<and> unat a < unat img + n) \<longrightarrow> mem s' a = mem s a)"
proof -
  note l = assms [unfolded loadable_def Let_def] and s1 = elf_alloc_image_eq(2) [OF assms] and m1 = elf_alloc_image_mem [OF assms]
  let ?n = "(unat (ph_memsz ph) div 4096 + 1) * 4096" and ?s1 = "elf_alloc_image rem0 elf s"
  let ?q = "ed_start (desc s elf) + ph_offset ph" and ?f = "unat (ph_filesz ph)"
  note s2 = elf_assemble_image_eq [OF assms] and q_out = program_outside [OF assms]
  have img: "unat (img + of_nat i) = unat img + i" "inside ph img (img + of_nat i)" if "i < ?n" for i
    using l that image_byte [of img ?n i] by (simp_all add: inside_def)
  have "?f \<le> unat (ph_memsz ph)" using l by (simp add: unat_le_u32)
  also have "unat (ph_memsz ph) < ?n" by (simp add: mult.commute dividend_less_times_div)
  finally have fl: "?f < ?n" .
  have "mem (elf_assemble_image elf ?s1) (img + of_nat i) = (if i < ?f then mem s (?q + of_nat i) else 0)" if "i < ?n" for i
  proof (cases "i < ?f")
    case True
    have "?q + of_nat i \<noteq> img + of_nat j" if "i < ?f" "j < i" for i j
      using q_out [OF that(1)] img(2) [of j] that fl by auto
    then have "memcpy_loop ?f img ?q (mem ?s1) (img + of_nat i) = mem ?s1 (?q + of_nat i)"
      using True unat_u32_bound [of "ph_filesz ph"] by (intro memcpy_loop_at) auto
    then show ?thesis using True q_out [OF True] by (simp add: s2 m1)
  next
    case False
    have "memcpy_loop ?f img ?q (mem ?s1) (img + of_nat i) = mem ?s1 (img + of_nat i)"
    proof (rule memcpy_loop_other, intro allI impI)
      fix j assume "j < ?f"
      then show "img + of_nat i \<noteq> img + of_nat j" using img(1) [OF that] img(1) [of j] fl False by auto
    qed
    then show ?thesis using False img(2) [OF that] by (simp add: s2 m1)
  qed
  moreover have "mem (elf_assemble_image elf ?s1) a = mem s a" if "\<not> inside ph img a" for a
  proof -
    have "\<forall>i < ?f. a \<noteq> img + of_nat i" using that img(2) fl by auto
    from memcpy_loop_other [OF this, of ?q "mem ?s1"] that show ?thesis by (simp add: s2 m1)
  qed
  moreover have "unat (ph_memsz ph div 4096 + 1) * 4096 = ?n" using l by (subst unat_add_u32) (simp_all add: unat_div)
  ultimately show ?thesis by (simp add: Let_def s2 s1 inside_def)
qed

text \<open>A file of one program header, for a program of four bytes.\<close>

definition elf_bytes :: "u8 list" where
  "elf_bytes = [0x7f, 0x45, 0x4c, 0x46, 1, 1, 1, 0, 0, 0, 0, 0, 0, 0, 0, 0, 2, 0, 0x28, 0, 1, 0, 0, 0, 0, 0, 0, 0, 52, 0, 0, 0,
     0, 0, 0, 0, 0, 0, 0, 0, 52, 0, 32, 0, 1, 0, 40, 0, 0, 0, 0, 0,
     1, 0, 0, 0, 84, 0, 0, 0, 0, 0, 0, 0, 0, 0, 0, 0, 4, 0, 0, 0, 8, 0, 0, 0, 5, 0, 0, 0, 4, 0, 0, 0,
     0xde, 0xad, 0xbe, 0xef]"

definition elf_example :: elf_sys where
  "elf_example = \<lparr>mem = fread 0x20000000 88 (\<lambda>i. elf_bytes ! i) (\<lambda>_. 0), phys = mm_example,
     desc = (\<lambda>_. \<lparr>ed_pages = 1, ed_start = 0x20000000, ed_image = 0, ed_image_pages = 0\<rparr>), desc_freed = []\<rparr>"

lemma elf_example_header:
  "load_header (mem elf_example) (desc elf_example 0x300) = Some \<lparr>ph_type = 1, ph_offset = 84, ph_vaddr = 0, ph_paddr = 0,
     ph_filesz = 4, ph_memsz = 8, ph_flags = 5, ph_align = 4\<rparr>"
  by code_simp

lemma elf_example_pages: "fst (useConsecutivePages (\<lambda>_. 0) 1 0 mm_example) = 0x10001000"
  by code_simp

lemma elf_image_correct_witness:
  "let s' = elf_assemble_image 0x300 (elf_alloc_image (\<lambda>_. 0) 0x300 elf_example)
   in ed_image (desc s' 0x300) = 0x10001000 \<and> mem s' 0x10001001 = 0xad \<and> mem s' 0x10001007 = 0"
proof -
  let ?ph = "\<lparr>ph_type = 1, ph_offset = 84, ph_vaddr = 0, ph_paddr = 0, ph_filesz = 4, ph_memsz = 8, ph_flags = 5, ph_align = 4\<rparr>"
  let ?s' = "elf_assemble_image 0x300 (elf_alloc_image (\<lambda>_. 0) 0x300 elf_example)"
  have l: "loadable (\<lambda>_. 0) 0x300 elf_example ?ph 0x10001000"
    unfolding loadable_def Let_def using elf_example_header elf_example_pages by (simp add: elf_example_def)
  from elf_image_correct [OF l] have d: "ed_image (desc ?s' 0x300) = 0x10001000"
    and b: "\<And>i. i < 4096 \<Longrightarrow> mem ?s' (0x10001000 + of_nat i)
      = (if i < 4 then mem elf_example (ed_start (desc ?s' 0x300) + 84 + of_nat i) else 0)" by (simp_all add: Let_def)
  have "ed_start (desc ?s' 0x300) = ed_start (desc elf_example 0x300)"
    by (simp add: elf_assemble_image_eq [OF l] elf_alloc_image_eq(2) [OF l])
  then have st: "ed_start (desc ?s' 0x300) = 0x20000000" by (simp add: elf_example_def)
  have "mem elf_example 0x20000055 = 0xad" by (simp add: elf_example_def fread_def elf_bytes_def)
  with b [of 1] b [of 7] d st show ?thesis by (simp add: Let_def)
qed

section \<open>The global offset table\<close>

text \<open>An entry after the table is patched.\<close>

definition patched :: "u32 \<Rightarrow> u32 \<Rightarrow> u32" where
  "patched img w = (if w \<noteq> 0xffffffff then w + img else w)"

lemma patch_got_other:
  "(\<And>k. k < 4 * n \<Longrightarrow> a \<noteq> p + of_nat k) \<Longrightarrow> patch_got img n p m a = m a"
proof (induction n arbitrary: p m)
  case (Suc n)
  have "a \<noteq> p + 4 + of_nat k" if "k < 4 * n" for k using Suc.prems [of "k + 4"] that by (simp add: algebra_simps)
  then have "patch_got img (Suc n) p m a = (if get32 m p \<noteq> 0xffffffff then put32 p (get32 m p + img) m else m) a"
    using Suc.IH by (simp add: Let_def)
  also have "\<dots> = m a" using Suc.prems put32_other [of a p] by simp
  finally show ?case .
qed simp

lemma patch_got_at:
  assumes "4 * n < 2 ^ 32" and "i < n"
  shows "get32 (patch_got img n p m) (p + of_nat (4 * i)) = patched img (get32 m (p + of_nat (4 * i)))"
  using assms
proof (induction n arbitrary: i p m)
  case (Suc n)
  let ?m = "if get32 m p \<noteq> 0xffffffff then put32 p (get32 m p + img) m else m"
  have ne: "p + of_nat j \<noteq> p + of_nat k" if "j < 4" "4 \<le> k" "k < 4 * Suc n" for j k
  proof
    assume "p + of_nat j = p + of_nat k"
    then have "(of_nat j :: u32) = of_nat k" by simp
    moreover have "j < 4294967296" "k < 4294967296" using that Suc.prems(1) by simp_all
    ultimately have "j = k" by (simp add: of_nat_inj_u32)
    with that show False by simp
  qed
  show ?case
  proof (cases i)
    case 0
    have "get32 (patch_got img n (p + 4) ?m) p = get32 ?m p"
    proof (rule get32_cong)
      fix j :: nat assume j: "j < 4"
      show "patch_got img n (p + 4) ?m (p + of_nat j) = ?m (p + of_nat j)"
      proof (rule patch_got_other)
        fix k assume "k < 4 * n"
        then show "p + of_nat j \<noteq> p + 4 + of_nat k" using ne [OF j, of "k + 4"] by (simp add: algebra_simps)
      qed
    qed
    moreover have "get32 ?m p = patched img (get32 m p)" by (simp add: patched_def)
    ultimately show ?thesis using 0 by simp
  next
    case (Suc i')
    have e: "p + of_nat (4 * i) = p + 4 + of_nat (4 * i')" using Suc by (simp add: algebra_simps)
    have g: "get32 ?m (p + of_nat (4 * i)) = get32 m (p + of_nat (4 * i))"
    proof (rule get32_cong)
      fix j :: nat assume "j < 4"
      then have "p + of_nat k \<noteq> p + of_nat (4 * i + j)" if "k < 4" for k
        using ne [OF that, of "4 * i + j"] Suc Suc.prems(2) by simp
      then show "?m (p + of_nat (4 * i) + of_nat j) = m (p + of_nat (4 * i) + of_nat j)"
        using put32_other [of "p + of_nat (4 * i + j)" p] by (simp add: add.assoc) metis
    qed
    have "get32 (patch_got img n (p + 4) ?m) (p + 4 + of_nat (4 * i')) = patched img (get32 ?m (p + 4 + of_nat (4 * i')))"
      by (rule Suc.IH) (use Suc Suc.prems in simp_all)
    then show ?thesis unfolding patch_got.simps e [symmetric] g .
  qed
qed simp

text \<open>The test by which the table is found.\<close>

definition named_got :: "addr \<Rightarrow> bytes \<Rightarrow> addr \<Rightarrow> u32 \<Rightarrow> bool" where
  "named_got got_name m name maxlen \<longleftrightarrow> k_strcmp name got_name (maxlen - 1) m = 0 \<and> k_strlen name (maxlen - 1) m = 4"

text \<open>
  C24. In a file with a global offset table inside its pages, every entry but those of 0xffffffff is moved by the
  address of the image, and no other byte of the memory changes.
\<close>

theorem elf_fix_got_correct:
  assumes "elf \<noteq> NULL" and "ed_start (desc s elf) \<noteq> NULL"
    and "section_named (named_got got_name (mem s)) (mem s) (desc s elf) = Some got"
    and "sh_offset got mod 4 = 0" and "unat (sh_offset got) + unat (sh_size got) < unat (ed_pages (desc s elf)) * 4096"
    and "unat (ed_pages (desc s elf)) * 4096 < 2 ^ 32"
  shows "let s' = elf_fix_got got_name elf s; d = desc s elf; table = ed_start d + sh_offset got; n = unat (sh_size got) div 4 in
    (\<forall>i < n. get32 (mem s') (table + of_nat (4 * i)) = patched (ed_image d) (get32 (mem s) (table + of_nat (4 * i))))
    \<and> (\<forall>a. (\<forall>k < 4 * n. a \<noteq> table + of_nat k) \<longrightarrow> mem s' a = mem s a) \<and> s' = s\<lparr>mem := mem s'\<rparr>"
proof -
  let ?d = "desc s elf" and ?n = "unat (sh_size got) div 4"
  have p: "unat (ed_pages ?d * 4096) = unat (ed_pages ?d) * 4096" using assms(6) by (subst unat_mult_u32) simp_all
  have o: "unat (sh_offset got + sh_size got) = unat (sh_offset got) + unat (sh_size got)" using assms(5,6) by (subst unat_add_u32) simp_all
  have "\<not> ed_pages ?d * 4096 \<le> sh_offset got" "\<not> ed_pages ?d * 4096 \<le> sh_offset got + sh_size got"
    using assms(5) by (simp_all add: unat_le_u32 p o)
  then have e: "elf_fix_got got_name elf s = s\<lparr>mem := patch_got (ed_image ?d) ?n (ed_start ?d + sh_offset got) (mem s)\<rparr>"
    using assms(1-4) by (simp add: elf_fix_got_def Let_def named_got_def [abs_def] unat_div)
  have "4 * ?n < 2 ^ 32" using unat_u32_bound [of "sh_size got"] by simp
  then show ?thesis unfolding e Let_def by (simp add: patch_got_at patch_got_other del: of_nat_mult)
qed

definition got_bytes :: "u8 list" where
  "got_bytes = [0x7f, 0x45, 0x4c, 0x46, 1, 1, 1, 0, 0, 0, 0, 0, 0, 0, 0, 0, 2, 0, 0x28, 0, 1, 0, 0, 0, 0, 0, 0, 0, 52, 0, 0, 0,
     52, 0, 0, 0, 0, 0, 0, 0, 52, 0, 32, 0, 0, 0, 40, 0, 2, 0, 1, 0,
     0, 0, 0, 0, 1, 0, 0, 0, 0, 0, 0, 0, 0, 0, 0, 0, 132, 0, 0, 0, 8, 0, 0, 0, 0, 0, 0, 0, 0, 0, 0, 0, 4, 0, 0, 0, 4, 0, 0, 0,
     4, 0, 0, 0, 3, 0, 0, 0, 0, 0, 0, 0, 0, 0, 0, 0, 140, 0, 0, 0, 5, 0, 0, 0, 0, 0, 0, 0, 0, 0, 0, 0, 1, 0, 0, 0, 0, 0, 0, 0,
     0x10, 0, 0, 0, 0xff, 0xff, 0xff, 0xff, 46, 103, 111, 116, 0]"

definition got_example :: elf_sys where
  "got_example = \<lparr>mem = (fread 0x20000000 145 (\<lambda>i. got_bytes ! i) (\<lambda>_. 0))(0x500 := 46, 0x501 := 103, 0x502 := 111, 0x503 := 116),
     phys = mm_example, desc = (\<lambda>_. \<lparr>ed_pages = 1, ed_start = 0x20000000, ed_image = 0x10001000, ed_image_pages = 1\<rparr>), desc_freed = []\<rparr>"

lemma got_example_section:
  "map_option (\<lambda>h. (sh_offset h, sh_size h)) (section_named (named_got 0x500 (mem got_example)) (mem got_example) (desc got_example 0x300)) = Some (132, 8)"
  by code_simp

lemma elf_fix_got_correct_witness:
  "let s' = elf_fix_got 0x500 0x300 got_example
   in get32 (mem s') 0x20000084 = 0x10001010 \<and> get32 (mem s') 0x20000088 = 0xffffffff \<and> mem s' 0x20000000 = 0x7f"
proof -
  obtain got where got: "section_named (named_got 0x500 (mem got_example)) (mem got_example) (desc got_example 0x300) = Some got"
    "sh_offset got = 132" "sh_size got = 8" using got_example_section by auto
  have d: "desc got_example 0x300 = \<lparr>ed_pages = 1, ed_start = 0x20000000, ed_image = 0x10001000, ed_image_pages = 1\<rparr>"
    by (simp add: got_example_def)
  note c = elf_fix_got_correct [of "0x300" got_example "0x500", OF _ _ got(1), unfolded d got(2,3) Let_def, simplified]
  have w: "get32 (mem got_example) 0x20000084 = 0x10" "get32 (mem got_example) 0x20000088 = 0xffffffff" "mem got_example 0x20000000 = 0x7f"
    by code_simp+
  from c have e: "\<And>i. i < 2 \<Longrightarrow> get32 (mem (elf_fix_got 0x500 0x300 got_example)) (0x20000084 + 4 * of_nat i)
      = patched 0x10001000 (get32 (mem got_example) (0x20000084 + 4 * of_nat i))"
    and o: "\<And>a. (\<forall>k < 8. a \<noteq> 0x20000084 + of_nat k) \<Longrightarrow> mem (elf_fix_got 0x500 0x300 got_example) a = mem got_example a" by blast+
  have "list_all (\<lambda>k. (0x20000000 :: u32) \<noteq> 0x20000084 + of_nat k) [0..<8]" by code_simp
  then have "\<forall>k < 8. (0x20000000 :: u32) \<noteq> 0x20000084 + of_nat k" by (simp only: list_all_iff set_upt) simp
  from o [OF this] e [of 0] e [of 1] w show ?thesis by (simp add: patched_def Let_def)
qed

end
