(* ===== verification/Devices.thy ===== *)
theory Devices
  imports OS_Prelude
begin

text \<open>
  The memory mapped devices that the kernel keeps time with: the power and interrupt controllers
  (drivers/power.c, drivers/irq_controller.c), the timer modules (drivers/timer.c), the real time
  clock (drivers/rtc.c) and the watchdog (drivers/watchdog.c). A register is the word at an
  address. What a device makes of a write is not part of the sources: the state keeps the last
  word written to each register and the sequence of all writes, and whatever relies on
  a counter that runs by itself says so in its hypotheses.
\<close>

section \<open>Registers\<close>

record mmio =
  regs :: "addr \<Rightarrow> u32"
  writes :: "(addr \<times> u32) list"

definition rd :: "addr \<Rightarrow> 'a mmio_scheme \<Rightarrow> u32" where
  "rd a s = regs s a"

definition wr :: "addr \<Rightarrow> u32 \<Rightarrow> 'a mmio_scheme \<Rightarrow> 'a mmio_scheme" where
  "wr a v s = s\<lparr>regs := (regs s)(a := v), writes := writes s @ [(a, v)]\<rparr>"

text \<open>\<open>array[i]\<close> for an array of words, and the compound assignments \<open>|=\<close> and \<open>&=\<close>.\<close>

definition reg :: "addr \<Rightarrow> u32 \<Rightarrow> addr" where
  "reg base i = base + 4 * i"

definition or_wr :: "addr \<Rightarrow> u32 \<Rightarrow> 'a mmio_scheme \<Rightarrow> 'a mmio_scheme" where
  "or_wr a v s = wr a (rd a s OR v) s"

definition and_wr :: "addr \<Rightarrow> u32 \<Rightarrow> 'a mmio_scheme \<Rightarrow> 'a mmio_scheme" where
  "and_wr a v s = wr a (rd a s AND v) s"

section \<open>Power\<close>

definition remapped_power :: addr where "remapped_power = 0xe90b0000"

definition power_device_powered :: "u32 \<Rightarrow> 'a mmio_scheme \<Rightarrow> bool" where
  "power_device_powered device s =
     (if drop_bit (unat device) (rd (reg remapped_power 6) s) AND 1 = 1 then False else True)"

definition power_enable_device :: "u32 \<Rightarrow> 'a mmio_scheme \<Rightarrow> 'a mmio_scheme" where
  "power_enable_device device s =
     (let power = rd (reg remapped_power 6) s;
          power = power AND NOT (push_bit (unat device) 1)
      in wr (reg remapped_power 6) power s)"

definition power_disable_device :: "u32 \<Rightarrow> 'a mmio_scheme \<Rightarrow> 'a mmio_scheme" where
  "power_disable_device device s =
     (let power = rd (reg remapped_power 6) s;
          power = power OR push_bit (unat device) 1
      in wr (reg remapped_power 6) power s)"

section \<open>The interrupt controller\<close>

definition remapped_vic :: addr where "remapped_vic = 0xe9300000"

definition vic_irq_status :: "'a mmio_scheme \<Rightarrow> u32" where
  "vic_irq_status s = rd (reg remapped_vic 0) s"

definition vic_fiq_status :: "'a mmio_scheme \<Rightarrow> u32" where
  "vic_fiq_status s = rd (reg remapped_vic 1) s"

definition vic_enable :: "u32 \<Rightarrow> 'a mmio_scheme \<Rightarrow> 'a mmio_scheme" where
  "vic_enable irq s =
     (let enable = rd (reg remapped_vic 4) s;
          enable = enable OR push_bit (unat irq) 1
      in wr (reg remapped_vic 4) enable s)"

definition vic_disable :: "u32 \<Rightarrow> 'a mmio_scheme \<Rightarrow> 'a mmio_scheme" where
  "vic_disable irq s = wr (reg remapped_vic 5) (push_bit (unat irq) 1) s"

definition vic_disable_all :: "'a mmio_scheme \<Rightarrow> 'a mmio_scheme" where
  "vic_disable_all s = wr (reg remapped_vic 5) 0xffffffff s"

definition vic_enable_all :: "'a mmio_scheme \<Rightarrow> 'a mmio_scheme" where
  "vic_enable_all s = wr (reg remapped_vic 4) 0xffffffff s"

definition vic_set_fiq :: "u32 \<Rightarrow> 'a mmio_scheme \<Rightarrow> 'a mmio_scheme" where
  "vic_set_fiq irq s =
     (let select = rd (reg remapped_vic 3) s;
          select = select OR push_bit (unat irq) 1
      in wr (reg remapped_vic 3) select s)"

definition vic_set_irq :: "u32 \<Rightarrow> 'a mmio_scheme \<Rightarrow> 'a mmio_scheme" where
  "vic_set_irq irq s =
     (let select = rd (reg remapped_vic 3) s;
          select = select AND NOT (push_bit (unat irq) 1)
      in wr (reg remapped_vic 3) select s)"

definition vic_is_fiq :: "u32 \<Rightarrow> 'a mmio_scheme \<Rightarrow> bool" where
  "vic_is_fiq fiq s = (if drop_bit (unat fiq) (rd (reg remapped_vic 3) s) AND 1 = 1 then True else False)"

section \<open>Timers\<close>

definition remapped_fast_timer :: addr where "remapped_fast_timer = 0xe9010000"
definition remapped_first_timer :: addr where "remapped_first_timer = 0xe90c0000"
definition remapped_second_timer :: addr where "remapped_second_timer = 0xe90d0000"

text \<open>The head that the functions share: the choice of the module and the power of its devices.\<close>

definition remapped_timer :: "u32 \<Rightarrow> addr" where
  "remapped_timer timermodule =
     (if timermodule = 2 then remapped_second_timer
      else if timermodule = 1 then remapped_first_timer
      else remapped_fast_timer)"

definition timer_power :: "'a mmio_scheme \<Rightarrow> 'a mmio_scheme" where
  "timer_power s = power_enable_device 13 (power_enable_device 12 (power_enable_device 11 s))"

record timer_state =
  ts_load :: u32
  ts_control :: u32
  ts_bgload :: u32

definition timer_save_state :: "u32 \<Rightarrow> u32 \<Rightarrow> timer_state \<Rightarrow> 'a mmio_scheme \<Rightarrow> timer_state \<times> 'a mmio_scheme" where
  "timer_save_state timermodule timer state s =
     (if timer > 1 then (state, s)
      else if timermodule > 2 then (state, s)
      else
        let t = remapped_timer timermodule;
            s = timer_power s
        in (state\<lparr>ts_load := rd (reg t (0 + timer * 8)) s, ts_control := rd (reg t (2 + timer * 8)) s,
                  ts_bgload := rd (reg t (6 + timer * 8)) s\<rparr>, s))"

definition timer_resume_state :: "u32 \<Rightarrow> u32 \<Rightarrow> timer_state \<Rightarrow> 'a mmio_scheme \<Rightarrow> 'a mmio_scheme" where
  "timer_resume_state timermodule timer state s =
     (if timer > 1 then s
      else if timermodule > 2 then s
      else
        let t = remapped_timer timermodule;
            s = timer_power s;
            s = and_wr (reg t (2 + timer * 8)) (NOT (push_bit 7 1)) s;
            s = wr (reg t (0 + timer * 8)) (ts_load state) s;
            s = wr (reg t (6 + timer * 8)) (ts_bgload state) s;
            s = wr (reg t (2 + timer * 8)) (ts_control state AND NOT (push_bit 7 1)) s
        in or_wr (reg t (2 + timer * 8)) (ts_control state AND push_bit 7 1) s)"

definition timer_return_os :: "u32 \<Rightarrow> u32 \<Rightarrow> timer_state \<Rightarrow> 'a mmio_scheme \<Rightarrow> 'a mmio_scheme" where
  "timer_return_os timermodule timer state s =
     (if timer > 1 then s
      else if timermodule > 2 then s
      else
        let s = vic_disable (17 + timermodule) s;
            s = vic_set_irq (17 + timermodule) s;
            s = timer_resume_state timermodule timer state s
        in vic_enable (17 + timermodule) s)"

definition timer_enable :: "u32 \<Rightarrow> u32 \<Rightarrow> 'a mmio_scheme \<Rightarrow> 'a mmio_scheme" where
  "timer_enable timermodule timer s =
     (if timer > 1 then s
      else if timermodule > 2 then s
      else
        let t = remapped_timer timermodule;
            s = timer_power s;
            s = vic_set_fiq (17 + timermodule) s;
            s = vic_enable (17 + timermodule) s
        in or_wr (reg t (2 + timer * 8)) 0xA0 s)"

definition timer_disable :: "u32 \<Rightarrow> u32 \<Rightarrow> 'a mmio_scheme \<Rightarrow> 'a mmio_scheme" where
  "timer_disable timermodule timer s =
     (if timer > 1 then s
      else if timermodule > 2 then s
      else
        let t = remapped_timer timermodule;
            s = timer_power s;
            s = vic_disable (17 + timermodule) s;
            s = vic_set_irq (17 + timermodule) s
        in and_wr (reg t (2 + timer * 8)) (NOT 0xA0) s)"

definition timer_get_clockselect :: "u32 \<Rightarrow> u32 \<Rightarrow> 'a mmio_scheme \<Rightarrow> u32 \<times> 'a mmio_scheme" where
  "timer_get_clockselect timermodule timer s =
     (if timermodule > 2 then (- 1, s)
      else
        let t = remapped_timer timermodule;
            s = timer_power s
        in (rd (reg t 32) s, s))"

definition timer_set_clockselect :: "u32 \<Rightarrow> u32 \<Rightarrow> u32 \<Rightarrow> 'a mmio_scheme \<Rightarrow> 'a mmio_scheme" where
  "timer_set_clockselect timermodule timer select s =
     (if timermodule > 2 then s
      else
        let t = remapped_timer timermodule;
            s = timer_power s
        in wr (reg t 32) select s)"

definition timer_value :: "u32 \<Rightarrow> u32 \<Rightarrow> 'a mmio_scheme \<Rightarrow> u32 \<times> 'a mmio_scheme" where
  "timer_value timermodule timer s =
     (if timer > 1 then (0, s)
      else if timermodule > 2 then (0, s)
      else
        let t = remapped_timer timermodule;
            s = timer_power s
        in (rd (reg t (1 + timer * 8)) s, s))"

definition timer_set_load :: "u32 \<Rightarrow> u32 \<Rightarrow> u32 \<Rightarrow> 'a mmio_scheme \<Rightarrow> 'a mmio_scheme" where
  "timer_set_load timermodule timer load s =
     (if timer > 1 then s
      else if timermodule > 2 then s
      else
        let t = remapped_timer timermodule;
            s = timer_power s
        in wr (reg t (timer * 8)) load s)"

definition timer_set_bg_load :: "u32 \<Rightarrow> u32 \<Rightarrow> u32 \<Rightarrow> 'a mmio_scheme \<Rightarrow> 'a mmio_scheme" where
  "timer_set_bg_load timermodule timer bgload s =
     (if timer > 1 then s
      else if timermodule > 2 then s
      else
        let t = remapped_timer timermodule;
            s = timer_power s
        in wr (reg t (timer * 8 + 6)) bgload s)"

definition timer_set_size :: "u32 \<Rightarrow> u32 \<Rightarrow> u32 \<Rightarrow> 'a mmio_scheme \<Rightarrow> 'a mmio_scheme" where
  "timer_set_size timermodule timer sz s =
     (if timer > 1 then s
      else if timermodule > 2 then s
      else
        let c = reg (remapped_timer timermodule) (2 + timer * 8);
            s = timer_power s;
            enabled = drop_bit 7 (rd c s) AND 1;
            s = (if enabled \<noteq> 0 then and_wr c (NOT 0x80) s else s);
            s = and_wr c (NOT 2) s;
            s = or_wr c (push_bit 1 (sz AND 1)) s
        in if enabled \<noteq> 0 then or_wr c 0x80 s else s)"

definition timer_set_prescaler :: "u32 \<Rightarrow> u32 \<Rightarrow> u8 \<Rightarrow> 'a mmio_scheme \<Rightarrow> 'a mmio_scheme" where
  "timer_set_prescaler timermodule timer prescale s =
     (if timer > 1 then s
      else if timermodule > 2 then s
      else
        let c = reg (remapped_timer timermodule) (2 + timer * 8);
            s = timer_power s;
            enabled = drop_bit 7 (rd c s) AND 1;
            s = (if enabled \<noteq> 0 then and_wr c (NOT 0x80) s else s);
            s = and_wr c (NOT 0xC) s;
            s = or_wr c (push_bit 2 (ucast prescale AND 3)) s
        in if enabled \<noteq> 0 then or_wr c 0x80 s else s)"

definition timer_set_mode :: "u32 \<Rightarrow> u32 \<Rightarrow> u8 \<Rightarrow> 'a mmio_scheme \<Rightarrow> 'a mmio_scheme" where
  "timer_set_mode timermodule timer mode s =
     (if timer > 1 then s
      else if timermodule > 2 then s
      else
        let c = reg (remapped_timer timermodule) (2 + timer * 8);
            s = timer_power s;
            enabled = drop_bit 7 (rd c s) AND 1;
            s = (if enabled \<noteq> 0 then and_wr c (NOT 0x80) s else s);
            s = and_wr c (NOT (push_bit 6 1)) s;
            s = or_wr c (push_bit 6 (ucast mode AND 1)) s
        in if enabled \<noteq> 0 then or_wr c 0x80 s else s)"

definition timer_irq_status :: "u32 \<Rightarrow> u32 \<Rightarrow> 'a mmio_scheme \<Rightarrow> bool" where
  "timer_irq_status timermodule timer s =
     (if timer > 1 then False
      else if timermodule > 2 then False
      else if rd (reg (remapped_timer timermodule) (4 + timer * 8)) s AND 1 = 1 then True else False)"

definition timer_irq_clear :: "u32 \<Rightarrow> u32 \<Rightarrow> 'a mmio_scheme \<Rightarrow> 'a mmio_scheme" where
  "timer_irq_clear timermodule timer s =
     (if timer > 1 then s
      else if timermodule > 2 then s
      else wr (reg (remapped_timer timermodule) (3 + timer * 8)) 0 s)"

definition timer_irq_enabled :: "u32 \<Rightarrow> u32 \<Rightarrow> 'a mmio_scheme \<Rightarrow> bool \<times> 'a mmio_scheme" where
  "timer_irq_enabled timermodule timer s =
     (if timer > 1 then (False, s)
      else if timermodule > 2 then (False, s)
      else
        let s = timer_power s
        in (if drop_bit 5 (rd (reg (remapped_timer timermodule) (2 + timer * 8)) s) AND 1 = 1 then True else False, s))"

definition timer_set_irq_enabled :: "u32 \<Rightarrow> u32 \<Rightarrow> bool \<Rightarrow> 'a mmio_scheme \<Rightarrow> 'a mmio_scheme" where
  "timer_set_irq_enabled timermodule timer irq s =
     (if timer > 1 then s
      else if timermodule > 2 then s
      else
        let c = reg (remapped_timer timermodule) (2 + timer * 8);
            s = timer_power s
        in if irq then or_wr c 0x20 s else and_wr c (NOT 0x20) s)"

definition timer_set_oneshot :: "u32 \<Rightarrow> u32 \<Rightarrow> bool \<Rightarrow> 'a mmio_scheme \<Rightarrow> 'a mmio_scheme" where
  "timer_set_oneshot timermodule timer oneshot s =
     (if timer > 1 then s
      else if timermodule > 2 then s
      else
        let c = reg (remapped_timer timermodule) (2 + timer * 8);
            s = timer_power s;
            enabled = drop_bit 7 (rd c s) AND 1;
            s = (if enabled \<noteq> 0 then and_wr c (NOT 0x80) s else s);
            s = and_wr c (NOT 1) s;
            s = (if oneshot then or_wr c 1 s else s)
        in if enabled \<noteq> 0 then or_wr c 0x80 s else s)"

definition timer_is_oneshot :: "u32 \<Rightarrow> u32 \<Rightarrow> 'a mmio_scheme \<Rightarrow> bool \<times> 'a mmio_scheme" where
  "timer_is_oneshot timermodule timer s =
     (if timer > 1 then (False, s)
      else if timermodule > 2 then (False, s)
      else
        let s = timer_power s
        in (if rd (reg (remapped_timer timermodule) (2 + timer * 8)) s AND 1 = 1 then True else False, s))"

section \<open>The real time clock\<close>

definition remapped_rtc :: addr where "remapped_rtc = 0xe9090000"

text \<open>The bytes of \<open>id\<close>, the low one first.\<close>

definition rtc_peripheral_id :: "'a mmio_scheme \<Rightarrow> u64" where
  "rtc_peripheral_id s =
     fold (\<lambda>i id. id OR push_bit (8 * i) (take_bit 8 (ucast (rd (reg remapped_rtc (1016 + of_nat i)) s)))) [0..<8] 0"

definition rtc_get_value :: "'a mmio_scheme \<Rightarrow> u32" where
  "rtc_get_value s = rd (reg remapped_rtc 0) s"

definition rtc_set_value :: "u32 \<Rightarrow> 'a mmio_scheme \<Rightarrow> 'a mmio_scheme" where
  "rtc_set_value newval s = wr (reg remapped_rtc 2) newval s"

definition rtc_irq_status :: "'a mmio_scheme \<Rightarrow> bool" where
  "rtc_irq_status s = (if rd (reg remapped_rtc 6) s AND 1 = 1 then True else False)"

definition rtc_irq_clear :: "'a mmio_scheme \<Rightarrow> 'a mmio_scheme" where
  "rtc_irq_clear s = wr (reg remapped_rtc 7) 1 s"

definition rtc_disable_interrupt :: "'a mmio_scheme \<Rightarrow> 'a mmio_scheme" where
  "rtc_disable_interrupt s = wr (reg remapped_rtc 4) 0 s"

definition rtc_enable_interrupt :: "'a mmio_scheme \<Rightarrow> 'a mmio_scheme" where
  "rtc_enable_interrupt s = wr (reg remapped_rtc 4) 1 s"

definition rtc_claim :: "'a mmio_scheme \<Rightarrow> 'a mmio_scheme" where
  "rtc_claim s =
     (let s = vic_enable 4 s;
          s = vic_set_fiq 4 s;
          s = wr (reg remapped_rtc 3) 1 s
      in wr (reg remapped_rtc 4) 1 s)"

definition rtc_set_alarm :: "u32 \<Rightarrow> 'a mmio_scheme \<Rightarrow> 'a mmio_scheme" where
  "rtc_set_alarm alarm s = wr (reg remapped_rtc 1) alarm s"

definition rtc_get_alarm :: "'a mmio_scheme \<Rightarrow> u32" where
  "rtc_get_alarm s = rd (reg remapped_rtc 1) s"

section \<open>Registers read back\<close>

lemma rd_wr: "rd a (wr b v s) = (if a = b then v else rd a s)"
  by (simp add: rd_def wr_def)

lemma rd_or_wr: "rd a (or_wr b v s) = (if a = b then rd b s OR v else rd a s)"
  by (simp add: or_wr_def rd_wr)

lemma rd_and_wr: "rd a (and_wr b v s) = (if a = b then rd b s AND v else rd a s)"
  by (simp add: and_wr_def rd_wr)

lemma regs_timer_power: "a \<noteq> reg remapped_power 6 \<Longrightarrow> rd a (timer_power s) = rd a s"
  by (simp add: timer_power_def power_enable_device_def Let_def rd_wr)

lemmas rd_simps = rd_wr rd_or_wr rd_and_wr regs_timer_power

text \<open>The eight words of a timer of a module; all these registers are different.\<close>

definition timer_reg :: "u32 \<Rightarrow> u32 \<Rightarrow> nat \<Rightarrow> addr" where
  "timer_reg timermodule timer i = reg (remapped_timer timermodule) (of_nat i + timer * 8)"

lemma u32_cases3: "(m :: u32) \<le> 2 \<Longrightarrow> m = 0 \<or> m = 1 \<or> m = 2"
proof -
  assume "m \<le> 2"
  then have "unat m \<le> 2" by (simp add: unat_le_u32)
  then consider "unat m = 0" | "unat m = 1" | "unat m = 2" by linarith
  then show ?thesis by cases (auto intro: unat_inj_u32)
qed

lemma u32_cases2: "(t :: u32) \<le> 1 \<Longrightarrow> t = 0 \<or> t = 1"
proof -
  assume "t \<le> 1"
  then have "unat t \<le> 1" by (simp add: unat_le_u32)
  then consider "unat t = 0" | "unat t = 1" by linarith
  then show ?thesis by cases (auto intro: unat_inj_u32)
qed

lemma unat_timer_bases:
  "unat (remapped_timer m) \<in> {0xe9010000, 0xe90c0000, 0xe90d0000}"
  by (simp add: remapped_timer_def remapped_fast_timer_def remapped_first_timer_def remapped_second_timer_def)

lemma unat_timer_reg:
  assumes "t \<le> 1" and "i < 8"
  shows "unat (timer_reg m t i) = unat (remapped_timer m) + 4 * i + 32 * unat t"
proof -
  have t: "unat t \<le> 1" using assms(1) by (simp add: unat_le_u32)
  have e: "timer_reg m t i = of_nat (unat (remapped_timer m) + 4 * i + 32 * unat t)"
    by (simp add: timer_reg_def reg_def algebra_simps)
  have "unat (remapped_timer m) + 4 * i + 32 * unat t < 4294967296"
    using t assms(2) unat_timer_bases [of m] by auto
  then show ?thesis by (simp only: e unat_of_nat_u32)
qed

lemma timer_reg_range:
  assumes "t \<le> 1" and "i < 8"
  shows "unat (timer_reg m t i) < 0xe90b0000 \<or> 0xe90c0000 \<le> unat (timer_reg m t i) \<and> unat (timer_reg m t i) < 0xe9300000"
proof -
  have t: "unat t \<le> 1" using assms(1) by (simp add: unat_le_u32)
  consider "unat (remapped_timer m) = 0xe9010000" | "unat (remapped_timer m) = 0xe90c0000" | "unat (remapped_timer m) = 0xe90d0000"
    using unat_timer_bases [of m] by blast
  then show ?thesis unfolding unat_timer_reg [OF assms] using t assms(2) by cases linarith+
qed

lemma timer_reg_other:
  assumes "t \<le> 1" and "i < 8"
  shows "timer_reg m t i \<noteq> reg remapped_power 6" "timer_reg m t i \<noteq> reg remapped_vic 3"
    "timer_reg m t i \<noteq> reg remapped_vic 4" "timer_reg m t i \<noteq> reg remapped_vic 5"
  using timer_reg_range [OF assms, of m] by (auto simp: reg_def remapped_power_def remapped_vic_def)

lemma timer_reg_inj:
  assumes "t \<le> 1" and "i < 8" and "j < 8"
  shows "timer_reg m t i = timer_reg m t j \<longleftrightarrow> i = j"
  using assms by (auto simp: word_unat_eq_iff unat_timer_reg)

text \<open>The registers of the functions, in this form.\<close>

lemma timer_reg_eq:
  "reg (remapped_timer m) (0 + t * 8) = timer_reg m t 0" "reg (remapped_timer m) (t * 8) = timer_reg m t 0"
  "reg (remapped_timer m) (1 + t * 8) = timer_reg m t 1" "reg (remapped_timer m) (2 + t * 8) = timer_reg m t 2"
  "reg (remapped_timer m) (3 + t * 8) = timer_reg m t 3" "reg (remapped_timer m) (4 + t * 8) = timer_reg m t 4"
  "reg (remapped_timer m) (6 + t * 8) = timer_reg m t 6" "reg (remapped_timer m) (t * 8 + 6) = timer_reg m t 6"
  by (simp_all add: timer_reg_def reg_def algebra_simps)

section \<open>Configuration of a timer\<close>

text \<open>Bits of the words the functions write.\<close>

lemma bit_known:
  "bit (0x80 :: u32) n \<longleftrightarrow> n = 7" "bit (0xC :: u32) n \<longleftrightarrow> n = 2 \<or> n = 3" "bit (2 :: u32) n \<longleftrightarrow> n = 1"
  "bit (1 :: u32) n \<longleftrightarrow> n = 0" "bit (3 :: u32) n \<longleftrightarrow> n = 0 \<or> n = 1"
proof -
  have e: "bit (2 ^ k :: u32) n \<longleftrightarrow> n = k" if "k < 32" for k
    using that by (auto simp: bit_exp_iff)
  have o: "bit (2 ^ k OR 2 ^ l :: u32) n \<longleftrightarrow> n = k \<or> n = l" if "k < 32" "l < 32" for k l
    using that by (simp only: bit_or_iff e)
  show "bit (0x80 :: u32) n \<longleftrightarrow> n = 7" using e [of 7] by simp
  show "bit (2 :: u32) n \<longleftrightarrow> n = 1" using e [of 1] by simp
  show "bit (1 :: u32) n \<longleftrightarrow> n = 0" using e [of 0] by simp
  show "bit (0xC :: u32) n \<longleftrightarrow> n = 2 \<or> n = 3" using o [of 2 3] by simp
  show "bit (3 :: u32) n \<longleftrightarrow> n = 0 \<or> n = 1" using o [of 0 1] by simp
qed

text \<open>
  The configuration functions replace a field of the control register. The spare word \<open>v\<close> holds the
  new bits in their place, if there are any to set; \<open>field\<close> marks the field.
\<close>

definition reconfigure :: "addr \<Rightarrow> u32 \<Rightarrow> bool \<Rightarrow> u32 \<Rightarrow> 'a mmio_scheme \<Rightarrow> 'a mmio_scheme" where
  "reconfigure c field put v s =
     (let enabled = drop_bit 7 (rd c s) AND 1;
          s = (if enabled \<noteq> 0 then and_wr c (NOT 0x80) s else s);
          s = and_wr c (NOT field) s;
          s = (if put then or_wr c v s else s)
      in if enabled \<noteq> 0 then or_wr c 0x80 s else s)"

lemma enabled_bit: "drop_bit 7 (w :: u32) AND 1 \<noteq> 0 \<longleftrightarrow> bit w 7"
  by (simp add: and_one_eq bit_iff_odd_drop_bit odd_iff_mod_2_eq_one)

lemma rd_reconfigure:
  assumes "\<not> bit field 7" and "\<forall>n. bit v n \<longrightarrow> bit field n" and "put \<or> v = 0"
  shows "bit (rd c (reconfigure c field put v s)) n \<longleftrightarrow> n < 32 \<and> (if bit field n then bit v n else bit (rd c s) n)"
proof -
  have l: "bit w n \<Longrightarrow> n < 32" for w :: u32 using bit_imp_le_length [of w n] by simp
  have nb: "bit (NOT w) n \<longleftrightarrow> n < 32 \<and> \<not> bit w n" for w :: u32 by (simp add: bit_not_iff)
  have "bit (rd c (reconfigure c field put v s)) n \<longleftrightarrow>
      (if bit (rd c s) 7
       then bit (((rd c s AND NOT 0x80) AND NOT field OR v) OR 0x80) n
       else bit ((rd c s AND NOT field) OR v) n)"
    using assms(3)
    by (cases put) (simp only: reconfigure_def Let_def enabled_bit rd_simps simp_thms if_True if_False or.right_neutral split: if_split, blast)+
  then show ?thesis using assms l
    by (simp only: bit_or_iff bit_and_iff nb bit_known split: if_split) blast
qed

lemma rd_reconfigure_other: "a \<noteq> c \<Longrightarrow> rd a (reconfigure c field put v s) = rd a s"
  by (simp add: reconfigure_def Let_def rd_simps)

text \<open>
  A write to the control register is safe when it only switches the timer on or off or when the timer is
  off before and after it; \<open>w\<close> is the content before the writes.
\<close>

fun config_safe :: "addr \<Rightarrow> u32 \<Rightarrow> (addr \<times> u32) list \<Rightarrow> bool" where
  "config_safe c w [] \<longleftrightarrow> True"
| "config_safe c w ((a, v) # log) \<longleftrightarrow>
     (if a = c then (w AND NOT 0x80 = v AND NOT 0x80 \<or> \<not> bit w 7 \<and> \<not> bit v 7) \<and> config_safe c v log
      else config_safe c w log)"

lemma same_but_enable: "(w AND NOT 0x80) AND NOT 0x80 = w AND NOT (0x80 :: u32)"
    "(w OR 0x80) AND NOT 0x80 = w AND NOT (0x80 :: u32)"
  by (rule bit_word_eqI; simp only: bit_and_iff bit_or_iff bit_not_iff; blast)+

lemma not_enabled: "\<not> bit (w AND NOT (0x80 :: u32)) 7"
  by (simp only: bit_and_iff bit_not_iff bit_known) blast

lemma and_not_keeps: "\<not> bit (w :: u32) 7 \<Longrightarrow> \<not> bit (w AND v) 7"
  by (simp add: bit_and_iff)

lemma reconfigure_log:
  assumes "\<not> bit v 7"
  shows "\<exists>log. writes (reconfigure c field put v s) = writes s @ log \<and> config_safe c (rd c s) log"
proof (cases "bit (rd c s) 7")
  case True
  let ?w = "(rd c s AND NOT 0x80) AND NOT field"
  let ?u = "if put then ?w OR v else ?w"
  let ?log = "[(c, rd c s AND NOT 0x80), (c, ?w)] @ (if put then [(c, ?w OR v)] else []) @ [(c, ?u OR 0x80)]"
  have "\<not> bit ?w 7" "\<not> bit (?w OR v) 7"
    using assms not_enabled [of "rd c s"] by (simp_all only: bit_and_iff bit_or_iff) blast+
  then have "config_safe c (rd c s) ?log"
    using not_enabled [of "rd c s"] by (cases put) (simp_all only: if_True if_False append.simps config_safe.simps same_but_enable, simp_all)
  moreover have "writes (reconfigure c field put v s) = writes s @ ?log"
    using True unfolding reconfigure_def Let_def enabled_bit
    by (cases put) (simp_all only: if_True if_False and_wr_def or_wr_def rd_wr, simp_all add: wr_def)
  ultimately show ?thesis by blast
next
  case False
  let ?w = "rd c s AND NOT field"
  let ?log = "[(c, ?w)] @ (if put then [(c, ?w OR v)] else [])"
  have "\<not> bit ?w 7" "\<not> bit (?w OR v) 7"
    using assms False by (simp_all only: bit_and_iff bit_or_iff) blast+
  then have "config_safe c (rd c s) ?log"
    using False by (cases put) (simp_all only: if_True if_False append.simps config_safe.simps, simp_all)
  moreover have "writes (reconfigure c field put v s) = writes s @ ?log"
    using False unfolding reconfigure_def Let_def enabled_bit
    by (cases put) (simp_all only: if_True if_False and_wr_def or_wr_def rd_wr, simp_all add: wr_def)
  ultimately show ?thesis by blast
qed

lemma timer_power_log:
  "\<exists>log. writes (timer_power s) = writes s @ log \<and> (\<forall>(a, v) \<in> set log. a = reg remapped_power 6)"
  by (simp add: timer_power_def power_enable_device_def Let_def wr_def)

lemma config_safe_append_other:
  "\<forall>(a, v) \<in> set log. a \<noteq> c \<Longrightarrow> config_safe c w (log @ log') = config_safe c w log'"
  by (induction log) auto

text \<open>What a configuration function does: \<open>new\<close> are the bits of the control register \<open>c\<close> after it.\<close>

definition configures :: "('a mmio_scheme \<Rightarrow> 'a mmio_scheme) \<Rightarrow> addr \<Rightarrow> (nat \<Rightarrow> bool) \<Rightarrow> 'a mmio_scheme \<Rightarrow> bool" where
  "configures f c new s \<longleftrightarrow>
     (\<forall>n < 32. bit (rd c (f s)) n = new n)
     \<and> (\<forall>a. a \<noteq> c \<longrightarrow> a \<noteq> reg remapped_power 6 \<longrightarrow> rd a (f s) = rd a s)
     \<and> (\<exists>log. writes (f s) = writes s @ log \<and> config_safe c (rd c s) log)"

lemma configures_reconfigure:
  assumes "f s = reconfigure c field put v (timer_power s)" and "c \<noteq> reg remapped_power 6"
    and "\<not> bit field 7" and "\<forall>n. bit v n \<longrightarrow> bit field n" and "put \<or> v = 0"
    and "\<And>n. n < 32 \<Longrightarrow> new n = (if bit field n then bit v n else bit (rd c s) n)"
  shows "configures f c new s"
proof -
  have c: "rd c (timer_power s) = rd c s" using assms(2) by (rule regs_timer_power)
  obtain log where log: "writes (timer_power s) = writes s @ log" "\<forall>(a, v) \<in> set log. a \<noteq> c"
    using timer_power_log [of s] assms(2) by fastforce
  have "\<not> bit v 7" using assms(3,4) by blast
  from reconfigure_log [OF this, of c field put "timer_power s"] obtain log'
    where log': "writes (f s) = writes (timer_power s) @ log'" "config_safe c (rd c s) log'"
    unfolding assms(1) c by blast
  then have "writes (f s) = writes s @ (log @ log') \<and> config_safe c (rd c s) (log @ log')"
    using log by (simp add: config_safe_append_other)
  then show ?thesis
    unfolding configures_def using assms(1,6) rd_reconfigure [OF assms(3-5), of c "timer_power s"]
    by (auto simp: c rd_reconfigure_other regs_timer_power)
qed

lemma bit_low_fields:
  "bit (push_bit 1 (x AND 1) :: u32) n \<longleftrightarrow> n = 1 \<and> bit x 0"
  "bit (push_bit 6 (x AND 1) :: u32) n \<longleftrightarrow> n = 6 \<and> bit x 0"
  "bit (push_bit 2 (x AND 3) :: u32) n \<longleftrightarrow> n = 2 \<and> bit x 0 \<or> n = 3 \<and> bit x 1"
  "bit (push_bit 6 1 :: u32) n \<longleftrightarrow> n = 6"
proof -
  have p: "bit (push_bit k w :: u32) n \<longleftrightarrow> k \<le> n \<and> n < 32 \<and> bit w (n - k)" for k w
    by (auto simp: bit_push_bit_iff)
  show "bit (push_bit 1 (x AND 1) :: u32) n \<longleftrightarrow> n = 1 \<and> bit x 0"
    "bit (push_bit 6 (x AND 1) :: u32) n \<longleftrightarrow> n = 6 \<and> bit x 0"
    "bit (push_bit 2 (x AND 3) :: u32) n \<longleftrightarrow> n = 2 \<and> bit x 0 \<or> n = 3 \<and> bit x 1"
    "bit (push_bit 6 1 :: u32) n \<longleftrightarrow> n = 6"
    unfolding p bit_and_iff bit_known
    by (auto dest: diff_eq_diff_less simp: le_Suc_eq numeral_2_eq_2 numeral_3_eq_3)
qed

text \<open>
  Each of the functions that configure a timer replaces exactly its field of the control register
  of that timer, changes no other register but the power register, and writes the control register only
  while the timer is switched off, whether it runs before the call or not.
\<close>

theorem timer_configuration:
  assumes "timer \<le> 1" and "timermodule \<le> 2"
  shows "let c = timer_reg timermodule timer 2; old = bit (rd c s) in
    configures (timer_set_size timermodule timer sz) c (old(1 := bit sz 0)) s
    \<and> configures (timer_set_prescaler timermodule timer prescale) c (old(2 := bit prescale 0, 3 := bit prescale 1)) s
    \<and> configures (timer_set_mode timermodule timer mode) c (old(6 := bit mode 0)) s
    \<and> configures (timer_set_oneshot timermodule timer oneshot) c (old(0 := oneshot)) s"
proof -
  let ?c = "timer_reg timermodule timer 2"
  have g: "\<not> timer > 1" "\<not> timermodule > 2" using assms by (simp_all add: not_less)
  have c: "?c \<noteq> reg remapped_power 6" using assms(1) by (intro timer_reg_other) simp_all
  have "configures (timer_set_size timermodule timer sz) ?c ((bit (rd ?c s))(1 := bit sz 0)) s"
    by (rule configures_reconfigure [where field = 2 and put = True and v = "push_bit 1 (sz AND 1)"])
      (use g c in \<open>simp_all add: timer_set_size_def reconfigure_def timer_reg_eq bit_low_fields bit_known Let_def del: bit_numeral_word_iff One_nat_def push_bit_and\<close>)
  moreover have "configures (timer_set_prescaler timermodule timer prescale) ?c ((bit (rd ?c s))(2 := bit prescale 0, 3 := bit prescale 1)) s"
    by (rule configures_reconfigure [where field = "0xC" and put = True and v = "push_bit 2 (ucast prescale AND 3)"])
      (use g c in \<open>auto simp: timer_set_prescaler_def reconfigure_def timer_reg_eq bit_low_fields bit_known bit_ucast_iff Let_def simp del: bit_numeral_word_iff push_bit_numeral push_bit_and\<close>)
  moreover have "configures (timer_set_mode timermodule timer mode) ?c ((bit (rd ?c s))(6 := bit mode 0)) s"
    by (rule configures_reconfigure [where field = "push_bit 6 1" and put = True and v = "push_bit 6 (ucast mode AND 1)"])
      (use g c in \<open>simp_all add: timer_set_mode_def reconfigure_def timer_reg_eq bit_low_fields bit_ucast_iff Let_def del: push_bit_of_1 push_bit_and push_bit_numeral\<close>)
  moreover have "configures (timer_set_oneshot timermodule timer oneshot) ?c ((bit (rd ?c s))(0 := oneshot)) s"
    by (rule configures_reconfigure [where field = 1 and put = oneshot and v = "if oneshot then 1 else 0"])
      (use g c in \<open>simp_all add: timer_set_oneshot_def reconfigure_def timer_reg_eq bit_known Let_def del: bit_numeral_word_iff\<close>)
  ultimately show ?thesis by (simp add: Let_def)
qed

lemma timer_configuration_witness:
  "configures (timer_set_mode 1 0 1) (timer_reg 1 0 2) ((bit (0xA0 :: u32))(6 := True))
     \<lparr>regs = (\<lambda>_. 0)(timer_reg 1 0 2 := 0xA0), writes = []\<rparr>"
  using timer_configuration [of 0 1 "\<lparr>regs = (\<lambda>_. 0)(timer_reg 1 0 2 := 0xA0), writes = []\<rparr>" 0 0 1 False]
  by (simp add: Let_def rd_def)

section \<open>Saving and restoring a timer\<close>

text \<open>
  A timer handed back gets the load, background load and control words it had when its state was saved,
  whatever happened in between; it is switched off while they are written, and no other register
  but the power register changes.
\<close>

theorem timer_save_resume:
  assumes "timer \<le> 1" and "timermodule \<le> 2"
    and "timer_save_state timermodule timer x s = (state, s1)"
  shows "let s3 = timer_resume_state timermodule timer state s2; r = timer_reg timermodule timer in
    (\<forall>i \<in> {0, 2, 6}. rd (r i) s3 = rd (r i) s)
    \<and> (\<forall>a. a \<noteq> r 0 \<and> a \<noteq> r 2 \<and> a \<noteq> r 6 \<and> a \<noteq> reg remapped_power 6 \<longrightarrow> rd a s3 = rd a s2)
    \<and> (\<exists>log. writes s3 = writes s2 @ log \<and> config_safe (r 2) (rd (r 2) s2) log)"
proof -
  let ?r = "timer_reg timermodule timer"
  have g: "\<not> timer > 1" "\<not> timermodule > 2" using assms by (simp_all add: not_less)
  have p: "?r i \<noteq> reg remapped_power 6" if "i < 8" for i using that assms(1) by (intro timer_reg_other) simp_all
  have d: "?r i = ?r j \<longleftrightarrow> i = j" if "i < 8" "j < 8" for i j using that assms(1) by (intro timer_reg_inj) simp_all
  have st: "ts_load state = rd (?r 0) s" "ts_control state = rd (?r 2) s" "ts_bgload state = rd (?r 6) s"
    using assms(3) g by (auto simp: timer_save_state_def timer_reg_eq Let_def regs_timer_power p)
  let ?s3 = "timer_resume_state timermodule timer state s2"
  let ?off = "NOT (push_bit 7 1) :: u32"
  have e: "?s3 = or_wr (?r 2) (ts_control state AND push_bit 7 1) (wr (?r 2) (ts_control state AND ?off)
      (wr (?r 6) (ts_bgload state) (wr (?r 0) (ts_load state) (and_wr (?r 2) ?off (timer_power s2)))))"
    using g unfolding timer_resume_state_def timer_reg_eq Let_def by simp
  have "(w AND ?off) OR (w AND push_bit 7 1) = w" for w :: u32
    by (rule bit_word_eqI) (auto simp only: bit_and_iff bit_or_iff bit_not_iff possible_bit_word)
  then have r: "rd (?r 0) ?s3 = rd (?r 0) s" "rd (?r 2) ?s3 = rd (?r 2) s" "rd (?r 6) ?s3 = rd (?r 6) s"
    unfolding e by (simp_all only: rd_simps d st) simp_all
  have o: "rd a ?s3 = rd a s2" if "a \<noteq> ?r 0 \<and> a \<noteq> ?r 2 \<and> a \<noteq> ?r 6 \<and> a \<noteq> reg remapped_power 6" for a
    unfolding e using that by (simp add: rd_simps)
  obtain log where log: "writes (timer_power s2) = writes s2 @ log" "\<forall>(a, v) \<in> set log. a \<noteq> ?r 2"
    using timer_power_log [of s2] p [of 2] by fastforce
  let ?w = "rd (?r 2) s2 AND ?off"
  let ?u = "ts_control state AND ?off"
  let ?log = "[(?r 2, ?w), (?r 0, ts_load state), (?r 6, ts_bgload state), (?r 2, ?u), (?r 2, ?u OR (ts_control state AND push_bit 7 1))]"
  have k: "(push_bit 7 1 :: u32) = 0x80" by simp
  have n: "(w OR (v AND 0x80)) AND NOT 0x80 = w AND NOT (0x80 :: u32)" for w v
    by (rule bit_word_eqI) (auto simp only: bit_and_iff bit_or_iff bit_not_iff possible_bit_word)
  have "config_safe (?r 2) (rd (?r 2) s2) ?log"
    unfolding k by (simp only: config_safe.simps same_but_enable n not_enabled d) simp
  then have "config_safe (?r 2) (rd (?r 2) s2) (log @ ?log)" using log(2) by (simp only: config_safe_append_other)
  moreover have "writes ?s3 = writes s2 @ (log @ ?log)"
    unfolding e or_wr_def and_wr_def rd_wr using log(1) by (simp add: wr_def regs_timer_power p)
  ultimately show ?thesis using r o by (simp only: Let_def) blast
qed

lemma timer_save_resume_witness:
  "let s = \<lparr>regs = (\<lambda>_. 0)(timer_reg 2 1 2 := 0xE2), writes = []\<rparr>;
       state = fst (timer_save_state 2 1 \<lparr>ts_load = 0, ts_control = 0, ts_bgload = 0\<rparr> s)
   in rd (timer_reg 2 1 2) (timer_resume_state 2 1 state (timer_disable 2 1 s)) = 0xE2"
  using timer_save_resume [of 1 2 "\<lparr>ts_load = 0, ts_control = 0, ts_bgload = 0\<rparr>"
      "\<lparr>regs = (\<lambda>_. 0)(timer_reg 2 1 2 := 0xE2), writes = []\<rparr>"
      "fst (timer_save_state 2 1 \<lparr>ts_load = 0, ts_control = 0, ts_bgload = 0\<rparr> \<lparr>regs = (\<lambda>_. 0)(timer_reg 2 1 2 := 0xE2), writes = []\<rparr>)"
      "snd (timer_save_state 2 1 \<lparr>ts_load = 0, ts_control = 0, ts_bgload = 0\<rparr> \<lparr>regs = (\<lambda>_. 0)(timer_reg 2 1 2 := 0xE2), writes = []\<rparr>)"
      "timer_disable 2 1 \<lparr>regs = (\<lambda>_. 0)(timer_reg 2 1 2 := 0xE2), writes = []\<rparr>"]
  by (simp add: Let_def rd_def)

section \<open>Devices that are handed back\<close>

text \<open>
  The contract of the functions that save and restore a device for the TI OS: its registers \<open>R\<close> get the
  words they had, and but for the side registers \<open>X\<close> (power, interrupt controller, lock) no other register changes.
\<close>

locale saved_device =
  fixes save :: "'s mmio_scheme \<Rightarrow> 'st" and restore :: "'st \<Rightarrow> 's mmio_scheme \<Rightarrow> 's mmio_scheme"
    and R :: "addr set" and X :: "addr set"
  assumes restored: "a \<in> R \<Longrightarrow> rd a (restore (save s) s') = rd a s"
    and kept: "a \<notin> R \<Longrightarrow> a \<notin> X \<Longrightarrow> rd a (restore st s') = rd a s'"
begin

text \<open>Saving the state of a device that was just restored gives back its registers again.\<close>

lemma restore_again: "a \<in> R \<Longrightarrow> rd a (restore (save (restore (save s) s1)) s2) = rd a s"
  by (simp add: restored)

end

text \<open>Two devices that do not share registers can be handed back one after the other.\<close>

locale two_saved_devices =
  one: saved_device save1 restore1 R1 X1 + two: saved_device save2 restore2 R2 X2
  for save1 :: "'s mmio_scheme \<Rightarrow> 'st1" and restore1 :: "'st1 \<Rightarrow> 's mmio_scheme \<Rightarrow> 's mmio_scheme" and R1 X1
    and save2 :: "'s mmio_scheme \<Rightarrow> 'st2" and restore2 :: "'st2 \<Rightarrow> 's mmio_scheme \<Rightarrow> 's mmio_scheme" and R2 X2 +
  assumes apart: "R1 \<inter> R2 = {}" "R1 \<inter> X2 = {}"
begin

lemma both_restored:
  assumes "a \<in> R1 \<union> R2"
  shows "rd a (restore2 (save2 s) (restore1 (save1 s) s')) = rd a s"
proof (cases "a \<in> R2")
  case True
  then show ?thesis by (rule two.restored)
next
  case False
  with assms have "a \<in> R1" "a \<notin> X2" using apart by auto
  with False show ?thesis by (simp add: two.kept one.restored)
qed

end

text \<open>A timer and the registers that its functions touch besides its own.\<close>

definition timer_saved :: "u32 \<Rightarrow> u32 \<Rightarrow> 'a mmio_scheme \<Rightarrow> timer_state" where
  "timer_saved timermodule timer s = fst (timer_save_state timermodule timer \<lparr>ts_load = 0, ts_control = 0, ts_bgload = 0\<rparr> s)"

definition side_registers :: "addr set" where
  "side_registers = {reg remapped_power 6, reg remapped_vic 3, reg remapped_vic 4, reg remapped_vic 5}"

lemma timer_return_os_device:
  assumes "timer \<le> 1" and "timermodule \<le> 2"
  shows "saved_device (timer_saved timermodule timer) (timer_return_os timermodule timer)
    (timer_reg timermodule timer ` {0, 2, 6}) side_registers"
proof
  let ?r = "timer_reg timermodule timer"
  have g: "\<not> timer > 1" "\<not> timermodule > 2" using assms by (simp_all add: not_less)
  let ?w = "\<lambda>s. vic_set_irq (17 + timermodule) (vic_disable (17 + timermodule) s)"
  have e: "timer_return_os timermodule timer st s = vic_enable (17 + timermodule) (timer_resume_state timermodule timer st (?w s))" for st and s :: "'a mmio_scheme"
    using g by (simp add: timer_return_os_def Let_def)
  have v: "rd a (vic_enable n s) = rd a s" "rd a (vic_set_irq n s) = rd a s" "rd a (vic_disable n s) = rd a s"
    if "a \<notin> side_registers" for a n and s :: "'a mmio_scheme"
    using that by (auto simp: side_registers_def vic_enable_def vic_set_irq_def vic_disable_def Let_def rd_wr)
  have out: "?r i \<notin> side_registers" if "i < 8" for i
    using timer_reg_other [OF assms(1) that, of timermodule] by (simp add: side_registers_def)
  have st: "timer_save_state timermodule timer \<lparr>ts_load = 0, ts_control = 0, ts_bgload = 0\<rparr> s
    = (timer_saved timermodule timer s, snd (timer_save_state timermodule timer \<lparr>ts_load = 0, ts_control = 0, ts_bgload = 0\<rparr> s))" for s :: "'a mmio_scheme"
    by (simp add: timer_saved_def)
  show "rd a (timer_return_os timermodule timer (timer_saved timermodule timer s) s') = rd a s"
    if "a \<in> ?r ` {0, 2, 6}" for a and s s' :: "'a mmio_scheme"
    using that timer_save_resume [OF assms st, of s "?w s'"] out by (auto simp: e v Let_def)
  show "rd a (timer_return_os timermodule timer st s') = rd a s'"
    if "a \<notin> ?r ` {0, 2, 6}" "a \<notin> side_registers" for a st and s' :: "'a mmio_scheme"
  proof -
    have "a \<noteq> reg remapped_power 6" using that(2) by (simp add: side_registers_def)
    then have "rd a (timer_resume_state timermodule timer st (?w s')) = rd a (?w s')"
      using that(1) g by (simp add: timer_resume_state_def timer_reg_eq Let_def rd_simps)
    then show ?thesis using that(2) by (simp add: e v)
  qed
qed

end
