(* ===== verification/Watchdog.thy ===== *)
theory Watchdog
  imports Devices
begin

text \<open>
  The watchdog timer, drivers/watchdog.c: its registers, its flags in the kernel and the mask bit of the
  fast interrupts that \<open>watchdog_clear_usr_expired\<close> switches.
\<close>

record watchdog = mmio +
  watchdog_oneshot :: bool
  watchdog_reset :: bool
  usr_expired :: bool
  wd_function :: u32
  fiq_on :: bool

record watchdog_state =
  ws_load :: u32
  ws_control :: u32

definition remapped_watchdog :: addr where "remapped_watchdog = 0xe9060000"

abbreviation wreg :: "u32 \<Rightarrow> addr" where
  "wreg i \<equiv> reg remapped_watchdog i"

definition watchdog_save_state :: "watchdog_state \<Rightarrow> 'a mmio_scheme \<Rightarrow> watchdog_state \<times> 'a mmio_scheme" where
  "watchdog_save_state state s =
     (let s = power_enable_device 13 s
      in (state\<lparr>ws_load := rd (wreg 0) s, ws_control := rd (wreg 2) s\<rparr>, s))"

definition watchdog_resume_state :: "watchdog_state \<Rightarrow> 'a mmio_scheme \<Rightarrow> 'a mmio_scheme" where
  "watchdog_resume_state state s =
     (let s = power_enable_device 13 s;
          s = wr (wreg 0x300) 0x1ACCE551 s;
          s = wr (wreg 2) 0 s;
          s = wr (wreg 0) (ws_load state) s;
          s = wr (wreg 2) (ws_control state) s
      in wr (wreg 0x300) 0 s)"

definition watchdog_return_os :: "watchdog_state \<Rightarrow> 'a mmio_scheme \<Rightarrow> 'a mmio_scheme" where
  "watchdog_return_os state s =
     (let s = vic_disable 3 s;
          s = vic_set_irq 3 s;
          s = watchdog_resume_state state s
      in vic_enable 3 s)"

definition watchdog_usr_expired :: "watchdog \<Rightarrow> bool" where
  "watchdog_usr_expired s = usr_expired s"

definition watchdog_clear_usr_expired :: "watchdog \<Rightarrow> watchdog" where
  "watchdog_clear_usr_expired s =
     (let fiq = fiq_on s;
          s = (if fiq then s\<lparr>fiq_on := False\<rparr> else s);
          s = s\<lparr>usr_expired := False\<rparr>
      in if fiq then s\<lparr>fiq_on := True\<rparr> else s)"

definition watchdog_function :: "watchdog \<Rightarrow> u32" where
  "watchdog_function s = wd_function s"

definition watchdog_set_function :: "u32 \<Rightarrow> watchdog \<Rightarrow> watchdog" where
  "watchdog_set_function func s = s\<lparr>wd_function := func\<rparr>"

definition watchdog_enable :: "watchdog \<Rightarrow> watchdog" where
  "watchdog_enable s =
     (let s = vic_set_fiq 3 s;
          s = vic_enable 3 s;
          s = power_enable_device 13 s;
          s = wr (wreg 0x300) 0x1ACCE551 s;
          s = wr (wreg 2) ((rd (wreg 2) s AND NOT 3) OR 1) s;
          s = (if watchdog_reset s then wr (wreg 2) ((rd (wreg 2) s AND NOT 3) OR 3) s else s)
      in wr (wreg 0x300) 0 s)"

definition watchdog_enabled :: "watchdog \<Rightarrow> bool \<times> watchdog" where
  "watchdog_enabled s =
     (let s = power_enable_device 13 s
      in (if rd (wreg 2) s AND 1 = 1 then True else False, s))"

definition watchdog_disable :: "watchdog \<Rightarrow> watchdog" where
  "watchdog_disable s =
     (let s = vic_disable 3 s;
          s = vic_set_irq 3 s;
          s = power_enable_device 13 s;
          s = wr (wreg 0x300) 0x1ACCE551 s;
          s = wr (wreg 2) (rd (wreg 2) s AND NOT 3) s
      in wr (wreg 0x300) 0 s)"

definition watchdog_value :: "watchdog \<Rightarrow> u32 \<times> watchdog" where
  "watchdog_value s = (let s = power_enable_device 13 s in (rd (wreg 1) s, s))"

definition watchdog_load :: "watchdog \<Rightarrow> u32 \<times> watchdog" where
  "watchdog_load s = (let s = power_enable_device 13 s in (rd (wreg 0) s, s))"

definition watchdog_set_load :: "u32 \<Rightarrow> watchdog \<Rightarrow> watchdog" where
  "watchdog_set_load load s =
     (let s = power_enable_device 13 s;
          s = wr (wreg 0x300) 0x1ACCE551 s;
          s = wr (wreg 0) load s
      in wr (wreg 0x300) 0 s)"

definition watchdog_set_period :: "u32 \<Rightarrow> watchdog \<Rightarrow> watchdog" where
  "watchdog_set_period milis s =
     (let s = power_enable_device 13 s;
          s = wr (wreg 0x300) 0x1ACCE551 s;
          s = wr (wreg 0) (33000 * milis) s
      in wr (wreg 0x300) 0 s)"

definition watchdog_set_period_micro :: "u32 \<Rightarrow> watchdog \<Rightarrow> watchdog" where
  "watchdog_set_period_micro micro s =
     (let s = power_enable_device 13 s;
          s = wr (wreg 0x300) 0x1ACCE551 s;
          s = wr (wreg 0) (33 * micro) s
      in wr (wreg 0x300) 0 s)"

definition watchdog_irq_status :: "watchdog \<Rightarrow> bool \<times> watchdog" where
  "watchdog_irq_status s =
     (let s = power_enable_device 13 s
      in (if rd (wreg 5) s = 1 then True else False, s))"

definition watchdog_irq_clear :: "watchdog \<Rightarrow> watchdog" where
  "watchdog_irq_clear s =
     (let s = power_enable_device 13 s;
          s = wr (wreg 0x300) 0x1ACCE551 s;
          s = wr (wreg 3) 0xffffffff s;
          s = wr (wreg 0x300) 0 s
      in if watchdog_oneshot s then watchdog_disable s else s)"

definition watchdog_is_oneshot :: "watchdog \<Rightarrow> bool" where
  "watchdog_is_oneshot s = watchdog_oneshot s"

definition watchdog_set_oneshot :: "bool \<Rightarrow> watchdog \<Rightarrow> watchdog" where
  "watchdog_set_oneshot oneshot s = s\<lparr>watchdog_oneshot := oneshot\<rparr>"

definition watchdog_is_reset :: "watchdog \<Rightarrow> bool" where
  "watchdog_is_reset s = watchdog_reset s"

definition watchdog_set_reset :: "bool \<Rightarrow> watchdog \<Rightarrow> watchdog" where
  "watchdog_set_reset reset s =
     (let s = power_enable_device 13 s
      in if reset
         then
           let s = s\<lparr>watchdog_reset := True\<rparr>;
               s = wr (wreg 0x300) 0x1ACCE551 s;
               s = wr (wreg 2) ((rd (wreg 2) s AND NOT 3) OR 2) s
           in wr (wreg 0x300) 0 s
         else
           let s = s\<lparr>watchdog_reset := False\<rparr>;
               s = wr (wreg 0x300) 0x1ACCE551 s;
               s = wr (wreg 2) (rd (wreg 2) s AND NOT 2) s
           in wr (wreg 0x300) 0 s)"

section \<open>The lock\<close>

text \<open>
  The watchdog ignores writes while it is locked. A sequence of writes keeps to the lock when the
  load, control and interrupt clear registers are only written between an unlock and a lock, and
  when it leaves the watchdog locked; \<open>u\<close> tells whether it is unlocked before.
\<close>

fun lock_ok :: "bool \<Rightarrow> (addr \<times> u32) list \<Rightarrow> bool" where
  "lock_ok u [] \<longleftrightarrow> \<not> u"
| "lock_ok u ((a, v) # log) \<longleftrightarrow>
     (if a = wreg 0x300 then lock_ok (v = 0x1ACCE551) log
      else (a \<in> {wreg 0, wreg 2, wreg 3} \<longrightarrow> u) \<and> lock_ok u log)"

definition watchdog_writers :: "u32 \<Rightarrow> bool \<Rightarrow> watchdog_state \<Rightarrow> (watchdog \<Rightarrow> watchdog) list" where
  "watchdog_writers n b state =
     [watchdog_resume_state state, watchdog_return_os state, watchdog_clear_usr_expired, watchdog_set_function n,
      watchdog_enable, snd \<circ> watchdog_enabled, watchdog_disable, snd \<circ> watchdog_value, snd \<circ> watchdog_load,
      watchdog_set_load n, watchdog_set_period n, watchdog_set_period_micro n, snd \<circ> watchdog_irq_status,
      watchdog_irq_clear, watchdog_set_oneshot b, watchdog_set_reset b]"

lemmas watchdog_defs = watchdog_resume_state_def watchdog_return_os_def watchdog_clear_usr_expired_def
  watchdog_set_function_def watchdog_enable_def watchdog_enabled_def watchdog_disable_def watchdog_value_def
  watchdog_load_def watchdog_set_load_def watchdog_set_period_def watchdog_set_period_micro_def
  watchdog_irq_status_def watchdog_irq_clear_def watchdog_set_oneshot_def watchdog_set_reset_def

lemma writes_wr: "writes (wr a v s) = writes s @ [(a, v)]"
  by (simp add: wr_def)

text \<open>The sequence a function adds to the log keeps to the lock.\<close>

definition keeps_lock :: "(watchdog \<Rightarrow> watchdog) \<Rightarrow> watchdog \<Rightarrow> bool" where
  "keeps_lock f s \<longleftrightarrow> (\<exists>log. writes (f s) = writes s @ log \<and> lock_ok False log)"

lemmas lock_simps = writes_wr reg_def remapped_watchdog_def remapped_power_def remapped_vic_def Let_def comp_def
  power_enable_device_def vic_disable_def vic_set_irq_def vic_set_fiq_def vic_enable_def

text \<open>
  C37. Every function of the watchdog driver unlocks the watchdog before it writes a protected register and
  leaves it locked.
\<close>

theorem watchdog_lock_protocol: "list_all (\<lambda>f. keeps_lock f s) (watchdog_writers n b state)"
  unfolding watchdog_writers_def list.pred_inject keeps_lock_def
  by (auto simp: watchdog_defs lock_simps)

section \<open>The operation of the watchdog\<close>

text \<open>The load and control words survive saving and restoring, whatever happens in between.\<close>

lemma watchdog_save_resume:
  assumes "watchdog_save_state x s = (state, s1)"
  shows "rd (wreg 0) (watchdog_resume_state state s2) = rd (wreg 0) s"
    and "rd (wreg 2) (watchdog_resume_state state s2) = rd (wreg 2) s"
  using assms by (auto simp: watchdog_save_state_def watchdog_resume_state_def Let_def rd_wr
      power_enable_device_def reg_def remapped_watchdog_def remapped_power_def)

text \<open>The periods are 33000 (33) ticks for each millisecond (microsecond), up to about 130 seconds.\<close>

lemma watchdog_period:
  "unat (rd (wreg 0) (watchdog_set_period n s)) = 33000 * unat n \<longleftrightarrow> unat n \<le> 130150"
  "unat (rd (wreg 0) (watchdog_set_period_micro n s)) = 33 * unat n \<longleftrightarrow> unat n \<le> 130150524"
proof -
  have r: "rd (wreg 0) (watchdog_set_period n s) = 33000 * n" "rd (wreg 0) (watchdog_set_period_micro n s) = 33 * n"
    by (simp_all add: watchdog_set_period_def watchdog_set_period_micro_def Let_def rd_wr reg_def remapped_watchdog_def)
  have k: "unat (33000 * n) = 33000 * unat n" if "unat n \<le> 130150"
    using that by (subst unat_mult_u32) simp_all
  have k': "unat (33 * n) = 33 * unat n" if "unat n \<le> 130150524"
    using that by (subst unat_mult_u32) simp_all
  show "unat (rd (wreg 0) (watchdog_set_period n s)) = 33000 * unat n \<longleftrightarrow> unat n \<le> 130150"
    unfolding r using k unat_u32_bound [of "33000 * n"] by linarith
  show "unat (rd (wreg 0) (watchdog_set_period_micro n s)) = 33 * unat n \<longleftrightarrow> unat n \<le> 130150524"
    unfolding r using k' unat_u32_bound [of "33 * n"] by linarith
qed

text \<open>
  Choosing the reset on expiry clears the bit that lets the watchdog count: a running watchdog is stopped.
  Choosing no reset leaves it running.
\<close>

lemma watchdog_set_reset_stops:
  "fst (watchdog_enabled (watchdog_set_reset True s)) = False"
  "fst (watchdog_enabled (watchdog_set_reset False s)) = fst (watchdog_enabled s)"
proof -
  have b: "w AND 1 = 1 \<longleftrightarrow> bit w 0" for w :: u32 by (simp add: and_one_eq bit_0 odd_iff_mod_2_eq_one)
  have w: "rd (wreg 2) (watchdog_set_reset r s) = (if r then (rd (wreg 2) s AND NOT 3) OR 2 else rd (wreg 2) s AND NOT 2)" for r
    by (simp only: watchdog_set_reset_def Let_def rd_wr reg_def remapped_watchdog_def remapped_power_def power_enable_device_def)
      (simp add: rd_def wr_def)
  have e: "fst (watchdog_enabled s) = bit (rd (wreg 2) s) 0" for s
    by (simp add: watchdog_enabled_def Let_def rd_wr reg_def remapped_watchdog_def remapped_power_def power_enable_device_def b)
  have "\<not> bit ((w AND NOT 3) OR 2) 0" "bit (w AND NOT 2) 0 = bit w 0" for w :: u32
    by (simp_all only: bit_and_iff bit_or_iff bit_not_iff bit_known possible_bit_word) simp_all
  then show "fst (watchdog_enabled (watchdog_set_reset True s)) = False"
    "fst (watchdog_enabled (watchdog_set_reset False s)) = fst (watchdog_enabled s)"
    unfolding e w by simp_all
qed

section \<open>Handing the devices back\<close>

definition watchdog_saved :: "'a mmio_scheme \<Rightarrow> watchdog_state" where
  "watchdog_saved s = fst (watchdog_save_state \<lparr>ws_load = 0, ws_control = 0\<rparr> s)"

lemma watchdog_return_os_device:
  "saved_device watchdog_saved (watchdog_return_os :: _ \<Rightarrow> 'a mmio_scheme \<Rightarrow> _) {wreg 0, wreg 2} (insert (wreg 0x300) side_registers)"
proof
  have ne: "wreg 0 \<noteq> wreg 2" "wreg 0 \<noteq> wreg 0x300" "wreg 2 \<noteq> wreg 0x300" "wreg 0 \<notin> side_registers" "wreg 2 \<notin> side_registers"
    by (simp_all add: side_registers_def reg_def remapped_watchdog_def remapped_power_def remapped_vic_def)
  note defs = watchdog_return_os_def watchdog_resume_state_def vic_enable_def vic_set_irq_def vic_disable_def
    power_enable_device_def watchdog_saved_def watchdog_save_state_def side_registers_def
  show "rd a (watchdog_return_os (watchdog_saved s) s') = rd a s" if "a \<in> {wreg 0, wreg 2}" for a and s s' :: "'a mmio_scheme"
    using that ne by (auto simp: defs Let_def rd_wr)
  show "rd a (watchdog_return_os st s') = rd a s'"
    if "a \<notin> {wreg 0, wreg 2}" "a \<notin> insert (wreg 0x300) side_registers" for a st and s' :: "'a mmio_scheme"
    using that by (simp add: defs Let_def rd_wr)
qed

text \<open>The timer of the system time and the watchdog.\<close>

interpretation os_devices: two_saved_devices "timer_saved 1 0" "timer_return_os 1 0" "timer_reg 1 0 ` {0, 2, 6}" side_registers
    watchdog_saved watchdog_return_os "{wreg 0, wreg 2}" "insert (wreg 0x300) side_registers"
proof (rule two_saved_devices.intro)
  show "saved_device (timer_saved 1 0) (timer_return_os 1 0) (timer_reg 1 0 ` {0, 2, 6}) side_registers"
    by (rule timer_return_os_device) simp_all
  show "two_saved_devices_axioms (timer_reg 1 0 ` {0, 2, 6}) {wreg 0, wreg 2} (insert (wreg 0x300) side_registers)"
    by unfold_locales (auto simp: side_registers_def timer_reg_def reg_def remapped_timer_def remapped_first_timer_def
      remapped_watchdog_def remapped_power_def remapped_vic_def)
qed (rule watchdog_return_os_device)

text \<open>
  C39. When the kernel hands the timer of the system time and the watchdog back to the TI OS, their load and control
  registers hold what they held when their states were saved, whatever the kernel did in between.
\<close>

theorem os_devices_restored:
  fixes s s' :: "'a mmio_scheme"
  assumes "a \<in> timer_reg 1 0 ` {0, 2, 6} \<union> {wreg 0, wreg 2}"
  shows "rd a (watchdog_return_os (watchdog_saved s) (timer_return_os 1 0 (timer_saved 1 0 s) s')) = rd a s"
  using assms by (rule os_devices.both_restored)

lemma os_devices_restored_witness:
  "rd (wreg 2) (watchdog_return_os (watchdog_saved \<lparr>regs = (\<lambda>_. 0)(wreg 2 := 3), writes = []\<rparr>)
     (timer_return_os 1 0 (timer_saved 1 0 \<lparr>regs = (\<lambda>_. 0)(wreg 2 := 3), writes = []\<rparr>) \<lparr>regs = (\<lambda>_. 7), writes = []\<rparr>)) = 3"
  using os_devices_restored [of "wreg 2" "\<lparr>regs = (\<lambda>_. 0)(wreg 2 := 3), writes = []\<rparr>"] by (simp add: rd_def)

end
