(* ===== verification/Syscalls.thy ===== *)
theory Syscalls
  imports OS_Prelude
begin

text \<open>
  The system call handler, kernel/exceptions/syscalls.c: the registers of the caller, which the
  assembly wrapper pushes on the supervisor stack, and the dispatch through the tables of
  handlers. The pushed words are the list \<open>frame\<close> (r2 to r12, the return address, the saved
  status, r1, the status of the handler, r0) at the address \<open>base\<close>.
\<close>

section \<open>The registers of the caller\<close>

definition syscall_set_reg :: "u32 list \<Rightarrow> u32 \<Rightarrow> u32 \<Rightarrow> u32 list" where
  "syscall_set_reg frame reg value =
     (let frame = (if reg > 1 \<and> reg < 13 then frame[unat (reg - 2) := value] else frame);
          frame = (if reg = 1 then frame[13 := value] else frame);
          frame = (if reg = 0 then frame[15 := value] else frame)
      in if reg = 15 then frame[11 := value] else frame)"

definition syscall_get_reg :: "addr \<Rightarrow> u32 list \<Rightarrow> u32 \<Rightarrow> u32" where
  "syscall_get_reg base frame reg =
     (if reg > 1 \<and> reg < 13 then frame ! unat (reg - 2)
      else if reg = 1 then frame ! 13
      else if reg = 0 then frame ! 15
      else if reg = 15 then frame ! 11
      else if reg = 13 then base + 64
      else if reg = 16 then frame ! 12
      else 0)"

text \<open>The word of the frame a register is kept in.\<close>

definition reg_index :: "u32 \<Rightarrow> nat" where
  "reg_index r = (if r > 1 \<and> r < 13 then unat (r - 2) else if r = 1 then 13 else if r = 0 then 15 else 11)"

lemma reg_index_high:
  fixes r :: u32
  assumes "r > 1" and "r < 13"
  shows "unat (r - 2) = unat r - 2" and "unat r - 2 < 11" and "2 \<le> unat r"
proof -
  from assms have n: "1 < unat r" "unat r < 13" by (simp_all add: unat_less_u32)
  then show "unat (r - 2) = unat r - 2" by (simp add: unat_le_u32 unat_sub_u32)
  from n show "unat r - 2 < 11" and "2 \<le> unat r" by linarith+
qed

lemma settable_reg:
  fixes r :: u32
  assumes "r < 13 \<or> r = 15"
  shows "(r > 1 \<and> r < 13) \<or> r = 1 \<or> r = 0 \<or> r = 15"
proof -
  from assms have "unat r < 13 \<or> r = 15" by (simp add: unat_less_u32)
  then consider "unat r > 1 \<and> unat r < 13" | "unat r = 1" | "unat r = 0" | "r = 15" by linarith
  then show ?thesis
  proof cases
    case 2
    then have "r = 1" by (intro unat_inj_u32) simp
    then show ?thesis by simp
  qed (auto simp: unat_less_u32 unat_eq_zero)
qed

lemma reg_index_range: "reg_index r < 16 \<and> reg_index r \<noteq> 12"
  using reg_index_high(1,2) [of r] by (auto simp: reg_index_def)

lemma unat_reg:
  fixes r :: u32
  shows "r < 13 \<longleftrightarrow> unat r < 13" and "r = 15 \<longleftrightarrow> unat r = 15" and "r > 1 \<longleftrightarrow> unat r > 1"
    and "r = 1 \<longleftrightarrow> unat r = 1" and "r = 0 \<longleftrightarrow> unat r = 0"
proof -
  show "r < 13 \<longleftrightarrow> unat r < 13" "r > 1 \<longleftrightarrow> unat r > 1" by (simp_all add: unat_less_u32)
  have "r = k \<longleftrightarrow> unat r = unat k" for k by (rule word_unat_eq_iff)
  from this [of 15] this [of 1] this [of 0]
  show "r = 15 \<longleftrightarrow> unat r = 15" "r = 1 \<longleftrightarrow> unat r = 1" "r = 0 \<longleftrightarrow> unat r = 0" by simp_all
qed

text \<open>The same on the number of the register.\<close>

definition reg_slot :: "nat \<Rightarrow> nat" where
  "reg_slot m = (if 1 < m \<and> m < 13 then m - 2 else if m = 1 then 13 else if m = 0 then 15 else 11)"

lemma reg_index_slot: "reg_index r = reg_slot (unat r)"
  using reg_index_high(1) [of r] unfolding reg_index_def reg_slot_def unat_reg by simp

lemma reg_slot_inj:
  assumes "m < 13 \<or> m = 15" and "n < 13 \<or> n = 15" and "reg_slot m = reg_slot n"
  shows "m = n"
proof -
  have "1 < m \<Longrightarrow> m < 13 \<Longrightarrow> reg_slot m = m - 2" "reg_slot 1 = 13" "reg_slot 0 = 15" "reg_slot 15 = 11" for m
    by (simp_all add: reg_slot_def)
  moreover have "1 < m \<and> m < 13 \<or> m = 1 \<or> m = 0 \<or> m = 15" "1 < n \<and> n < 13 \<or> n = 1 \<or> n = 0 \<or> n = 15"
    using assms(1,2) by linarith+
  ultimately show ?thesis
    using assms(3) by (elim disjE conjE; simp del: One_nat_def)
qed

lemma reg_index_inj:
  fixes q r :: u32
  assumes "q < 13 \<or> q = 15" and "r < 13 \<or> r = 15"
  shows "reg_index q = reg_index r \<longleftrightarrow> q = r"
  using assms reg_slot_inj [of "unat q" "unat r"] unfolding reg_index_slot unat_reg
  by (auto intro: unat_inj_u32)

lemma syscall_set_reg_eq:
  fixes r :: u32
  shows "syscall_set_reg frame r v = (if r < 13 \<or> r = 15 then frame[reg_index r := v] else frame)"
  using settable_reg [of r] by (auto simp: syscall_set_reg_def reg_index_def Let_def)

lemma syscall_get_reg_eq:
  fixes q :: u32
  shows "syscall_get_reg base frame q = (if q < 13 \<or> q = 15 then frame ! reg_index q
     else if q = 13 then base + 64 else if q = 16 then frame ! 12 else 0)"
  using settable_reg [of q] by (auto simp: syscall_get_reg_def reg_index_def)

text \<open>
  A register of the caller reads back what the handler wrote, for r0 to r12 and the return
  address; writes to any other register number change nothing, and no write changes another register.
\<close>

theorem syscall_get_set_reg:
  assumes "length frame = 16"
  shows "syscall_get_reg base (syscall_set_reg frame r v) q
    = (if q = r \<and> (r < 13 \<or> r = 15) then v else syscall_get_reg base frame q)
    \<and> length (syscall_set_reg frame r v) = 16"
proof (cases "r < 13 \<or> r = 15")
  case r: True
  then have set: "syscall_set_reg frame r v = frame[reg_index r := v]" by (simp only: syscall_set_reg_eq if_True)
  have ix: "reg_index r < length frame" "reg_index r \<noteq> 12" using assms reg_index_range [of r] by simp_all
  show ?thesis
  proof (cases "q < 13 \<or> q = 15")
    case q: True
    then have "syscall_get_reg base f q = f ! reg_index q" for f by (simp only: syscall_get_reg_eq if_True)
    moreover have "reg_index r = reg_index q \<longleftrightarrow> r = q" using r q by (rule reg_index_inj)
    then have "frame[reg_index r := v] ! reg_index q = (if q = r then v else frame ! reg_index q)"
      using ix(1) by (cases "q = r") (simp_all add: nth_list_update)
    ultimately show ?thesis using r assms by (simp add: set)
  next
    case q: False
    then have "q \<noteq> r" using r by blast
    with q ix assms show ?thesis unfolding set syscall_get_reg_eq by simp
  qed
next
  case r: False
  then have "syscall_set_reg frame r v = frame" by (simp only: syscall_set_reg_eq if_False)
  with r assms show ?thesis by simp
qed

lemma syscall_get_set_reg_witness:
  "syscall_get_reg 0x1000 (syscall_set_reg (replicate 16 0) 3 7) 3 = 7"
  using syscall_get_set_reg [of "replicate 16 0" "0x1000" 3 7 3] by simp

section \<open>Dispatch\<close>

text \<open>The handlers of the two tables, in the order \<open>init_syscall_table\<close> enters them.\<close>

datatype syscall =
    Uninstall_osext | Version | Unix_time | Unix_time_milli | Unix_time_micro | Set_unix_time
  | Set_unix_time_milli | Enable_kernel_thread_scheduling | Disable_kernel_thread_scheduling
  | Kernel_thread_wait_millis | Kernel_thread_wait_for | Kernel_thread_create | Kernel_thread_delete
  | Dummy_syscall

definition swi_table :: "syscall list" where
  "swi_table = [Uninstall_osext, Version, Unix_time, Unix_time_milli, Unix_time_micro, Set_unix_time,
     Set_unix_time_milli, Enable_kernel_thread_scheduling, Disable_kernel_thread_scheduling,
     Kernel_thread_wait_millis, Kernel_thread_wait_for, Kernel_thread_create, Kernel_thread_delete]"

definition user_swi_table :: "syscall list" where
  "user_swi_table = [Dummy_syscall]"

text \<open>The code a word outside the table is taken for: \<open>Wild n\<close> calls word \<open>n\<close> behind its start.\<close>

datatype call_target = Handler syscall | Wild nat

definition table_entry :: "syscall list \<Rightarrow> u32 \<Rightarrow> call_target" where
  "table_entry table n = (if unat n < length table then Handler (table ! unat n) else Wild (unat n))"

definition swi_handler :: "u32 \<Rightarrow> call_target result" where
  "swi_handler swi_number =
     (if swi_number \<ge> of_nat (length swi_table) then Panic ''unknown syscall!''
      else Ret (table_entry swi_table swi_number))"

text \<open>The user mode handler only logs a number that is out of range; its panic is commented out.\<close>

definition swi_handler_usr :: "u32 \<Rightarrow> call_target result" where
  "swi_handler_usr swi_number = Ret (table_entry user_swi_table swi_number)"

text \<open>
  The supervisor mode handler never calls outside its table: every number below 13 reaches
  its handler and every other one panics. The user mode handler has no such bound: every number but 0 calls
  through a word behind the table.
\<close>

theorem swi_dispatch:
  "swi_handler n = (if unat n < 13 then Ret (Handler (swi_table ! unat n)) else Panic ''unknown syscall!'')
    \<and> swi_handler_usr n = Ret (if n = 0 then Handler Dummy_syscall else Wild (unat n))"
proof -
  have "(of_nat (length swi_table) :: u32) \<le> n \<longleftrightarrow> \<not> unat n < 13"
    by (simp add: swi_table_def unat_le_u32 not_less)
  moreover have "unat n < 1 \<longleftrightarrow> n = 0" by (auto simp: unat_eq_zero)
  ultimately show ?thesis
    by (auto simp: swi_handler_def swi_handler_usr_def table_entry_def swi_table_def user_swi_table_def)
qed

section \<open>Nesting\<close>

text \<open>
  \<open>__syscall_in_progress\<close> and the fast interrupt mask. \<open>syscall_mark_as_finished\<close> masks fast
  interrupts around the decrement and restores the mask.
\<close>

record syscall_state =
  syscalls_active :: u32
  fiq_on :: bool

definition syscall_in_progress :: "syscall_state \<Rightarrow> bool" where
  "syscall_in_progress s = (syscalls_active s \<noteq> 0)"

definition nested_syscalls :: "syscall_state \<Rightarrow> u32" where
  "nested_syscalls s = syscalls_active s"

definition syscall_mark_as_finished :: "syscall_state \<Rightarrow> syscall_state" where
  "syscall_mark_as_finished s =
     (let fiq = fiq_on s;
          s = s\<lparr>fiq_on := False\<rparr>;
          s = s\<lparr>syscalls_active := syscalls_active s - 1\<rparr>
      in if fiq then s\<lparr>fiq_on := True\<rparr> else s)"

lemma syscall_mark_as_finished_eq:
  "syscall_mark_as_finished s = s\<lparr>syscalls_active := syscalls_active s - 1\<rparr>"
  by (cases s) (simp add: syscall_mark_as_finished_def Let_def)

end
