(* ===== verification/Kernel_Threads.thy ===== *)
theory Kernel_Threads
  imports Syscalls
begin

text \<open>
  The kernel threads and their scheduler, kernel/scheduling/scheduler.c and
  kernel/scheduling/thread.c. The threads form a ring through \<open>next\<close>; the scheduler state points
  at the running one. A function of the scheduler returns to its caller, resumes a thread (and
  does not return), panics, or divides by a time slice of 0, which C leaves undefined: the type \<open>outcome\<close>. A result \<open>None\<close> is a walk that does not end.

  The registers and status words the assembly parts read are arguments. \<open>cur_task\<close> is the task
  the TI OS reports as the current one. Sleeping is recorded in \<open>slept\<close>, freed threads in
  \<open>th_freed\<close>.
\<close>

section \<open>Data\<close>

record threads =
  th_regs :: "addr \<Rightarrow> nat \<Rightarrow> u32"
  th_main :: "addr \<Rightarrow> bool"
  th_stack :: "addr \<Rightarrow> addr"
  th_stacksize :: "addr \<Rightarrow> u32"
  th_status :: "addr \<Rightarrow> u16"
  th_waiting :: "addr \<Rightarrow> u32"
  th_status_data :: "addr \<Rightarrow> addr"
  th_next :: "addr \<Rightarrow> addr"
  running_kernel_thread :: addr
  timeslice_length :: u32
  nuc_gui_task :: addr
  cur_task :: addr
  irq_on :: bool
  scheduler_timer_on :: bool
  scheduler_timer_load :: u32
  sys :: syscall_state
  slept :: "u32 list"
  th_freed :: "addr list"

abbreviation (input) SVC_THREAD_RUNNABLE :: u16 where "SVC_THREAD_RUNNABLE \<equiv> 0"
abbreviation (input) SVC_THREAD_WAITING :: u16 where "SVC_THREAD_WAITING \<equiv> 1"
abbreviation (input) SVC_THREAD_WAITING_FOR :: u16 where "SVC_THREAD_WAITING_FOR \<equiv> 2"

datatype outcome = Returned | Resumed addr | Panicked string | Undefined

definition disableFIQ :: "threads \<Rightarrow> threads" where
  "disableFIQ s = s\<lparr>sys := (sys s)\<lparr>fiq_on := False\<rparr>\<rparr>"

definition enableFIQ :: "threads \<Rightarrow> threads" where
  "enableFIQ s = s\<lparr>sys := (sys s)\<lparr>fiq_on := True\<rparr>\<rparr>"

definition msleep :: "u32 \<Rightarrow> threads \<Rightarrow> threads" where
  "msleep ms s = s\<lparr>slept := slept s @ [ms]\<rparr>"

definition set_status :: "addr \<Rightarrow> u16 \<Rightarrow> threads \<Rightarrow> threads" where
  "set_status p v s = s\<lparr>th_status := (th_status s)(p := v)\<rparr>"

definition set_waiting :: "addr \<Rightarrow> u32 \<Rightarrow> threads \<Rightarrow> threads" where
  "set_waiting p v s = s\<lparr>th_waiting := (th_waiting s)(p := v)\<rparr>"

definition set_status_data :: "addr \<Rightarrow> addr \<Rightarrow> threads \<Rightarrow> threads" where
  "set_status_data p v s = s\<lparr>th_status_data := (th_status_data s)(p := v)\<rparr>"

definition set_th_next :: "addr \<Rightarrow> addr \<Rightarrow> threads \<Rightarrow> threads" where
  "set_th_next p v s = s\<lparr>th_next := (th_next s)(p := v)\<rparr>"

section \<open>Threads\<close>

text \<open>
  \<open>t\<close> is the object the thread cache hands out, \<open>exit_address\<close> the address of
  \<open>scheduler_svc_thread_destroy_self\<close>, where a thread returns to.
\<close>

definition create_svc_thread :: "addr \<Rightarrow> addr \<Rightarrow> addr \<Rightarrow> u32 \<Rightarrow> addr \<Rightarrow> threads \<Rightarrow> threads" where
  "create_svc_thread exit_address t stack stacksize entry s =
     s\<lparr>th_regs := (th_regs s)(t := (\<lambda>_. 0)(13 := (stack AND NOT 7) - 8 + stacksize, 14 := exit_address,
                                          16 := 0x93, 15 := entry)),
       th_main := (th_main s)(t := False), th_stack := (th_stack s)(t := stack),
       th_stacksize := (th_stacksize s)(t := stacksize), th_status := (th_status s)(t := 0),
       th_status_data := (th_status_data s)(t := NULL), th_waiting := (th_waiting s)(t := 0),
       th_next := (th_next s)(t := NULL)\<rparr>"

definition destroy_svc_thread :: "addr \<Rightarrow> threads \<Rightarrow> threads" where
  "destroy_svc_thread t s = s\<lparr>th_freed := th_freed s @ [t]\<rparr>"

section \<open>The scheduler\<close>

definition scheduler_set_timelice_length :: "u32 \<Rightarrow> threads \<Rightarrow> threads" where
  "scheduler_set_timelice_length millis s = s\<lparr>timeslice_length := millis\<rparr>"

definition scheduler_get_timeslice_length :: "threads \<Rightarrow> u32" where
  "scheduler_get_timeslice_length s = timeslice_length s"

definition scheduler_is_kernel_scheduling :: "threads \<Rightarrow> bool" where
  "scheduler_is_kernel_scheduling s = (running_kernel_thread s \<noteq> NULL)"

definition scheduler_get_running_kernel_thread :: "threads \<Rightarrow> addr" where
  "scheduler_get_running_kernel_thread s = running_kernel_thread s"

definition scheduler_enable_kernel_thread_scheduling :: "addr \<Rightarrow> addr \<Rightarrow> threads \<Rightarrow> threads" where
  "scheduler_enable_kernel_thread_scheduling exit_address t s =
     (if running_kernel_thread s \<noteq> NULL then s
      else
        let s = s\<lparr>nuc_gui_task := cur_task s\<rparr>;
            s = s\<lparr>irq_on := False\<rparr>;
            s = create_svc_thread exit_address t NULL (1024 * 128) NULL s;
            s = s\<lparr>th_main := (th_main s)(t := True)\<rparr>;
            s = set_th_next t t s;
            s = s\<lparr>running_kernel_thread := t\<rparr>
        in s\<lparr>scheduler_timer_load := 32000 * timeslice_length s, scheduler_timer_on := True\<rparr>)"

text \<open>The next pointer is read before the thread is destroyed.\<close>

partial_function (option) destroy_ring :: "addr \<Rightarrow> threads \<Rightarrow> threads option" where
  "destroy_ring t s =
     (let tmp = th_next s t;
          s = destroy_svc_thread t s
      in if tmp \<noteq> running_kernel_thread s then destroy_ring tmp s else Some s)"

definition scheduler_disable_kernel_thread_scheduling :: "threads \<Rightarrow> threads option" where
  "scheduler_disable_kernel_thread_scheduling s =
     (if running_kernel_thread s = NULL then Some s
      else if \<not> th_main s (running_kernel_thread s) then Some s
      else
        let s = s\<lparr>scheduler_timer_on := False\<rparr>
        in map_option (\<lambda>s. s\<lparr>running_kernel_thread := NULL, irq_on := True\<rparr>)
             (destroy_ring (running_kernel_thread s) s))"

text \<open>The search for the waiting thread with the fewest ticks left.\<close>

definition pick_min :: "threads \<Rightarrow> addr \<Rightarrow> u32 \<times> addr \<Rightarrow> u32 \<times> addr" where
  "pick_min s nxt = (\<lambda>(min_wait, min_wait_thread).
     if th_status s nxt = SVC_THREAD_WAITING then
       if th_waiting s nxt < min_wait then (th_waiting s nxt, nxt)
       else if th_waiting s nxt = min_wait \<and> nxt \<noteq> running_kernel_thread s then (min_wait, nxt)
       else (min_wait, min_wait_thread)
     else (min_wait, min_wait_thread))"

text \<open>What a sleep of \<open>min_wait\<close> ticks does to a thread.\<close>

definition elapse :: "u32 \<Rightarrow> addr \<Rightarrow> threads \<Rightarrow> threads" where
  "elapse min_wait nxt s =
     (if th_status s nxt = SVC_THREAD_WAITING then
        if th_waiting s nxt \<le> min_wait then set_waiting nxt 0 (set_status nxt SVC_THREAD_RUNNABLE s)
        else set_waiting nxt (th_waiting s nxt - min_wait) s
      else s)"

definition scan_threads :: "(addr \<Rightarrow> bool) \<Rightarrow> threads \<Rightarrow> addr option option" where
  "scan_threads P s = scan_ring (th_next s) P (running_kernel_thread s) (running_kernel_thread s)"

definition schedule_kernel_thread_current_saved :: "threads \<Rightarrow> (outcome \<times> threads) option" where
  "schedule_kernel_thread_current_saved s =
     (if running_kernel_thread s = NULL then Some (Returned, s)
      else if cur_task s \<noteq> nuc_gui_task s then Some (Returned, s)
      else
        Option.bind (scan_threads (\<lambda>t. th_status s t = SVC_THREAD_RUNNABLE) s) (\<lambda>runnable.
          case runnable of
            Some t \<Rightarrow> Some (Resumed t, s\<lparr>running_kernel_thread := t\<rparr>)
          | None \<Rightarrow>
              Option.bind
                (if th_status s (running_kernel_thread s) = SVC_THREAD_WAITING then Some (Some (running_kernel_thread s))
                 else scan_threads (\<lambda>t. th_status s t = SVC_THREAD_WAITING) s) (\<lambda>waiting.
              case waiting of
                None \<Rightarrow>
                  map_option (\<lambda>m. case m of
                      Some t \<Rightarrow> (Resumed t, s\<lparr>running_kernel_thread := t\<rparr>)
                    | None \<Rightarrow> (Panicked ''deadlock and no main thread to return to!n'', s))
                    (scan_threads (th_main s) s)
              | Some _ \<Rightarrow>
                  Option.bind (do_ring (\<lambda>_. th_next s) (pick_min s) (running_kernel_thread s) (running_kernel_thread s)
                                 (0xFFFFFFFF, NULL)) (\<lambda>(min_wait, min_wait_thread).
                  if min_wait_thread = NULL then Some (Panicked ''could not find a kernel thread to wait for!'', s)
                  else
                    let s = s\<lparr>scheduler_timer_on := False\<rparr>;
                        s = enableFIQ s;
                        s = msleep (min_wait * timeslice_length s) s;
                        s = disableFIQ s;
                        s = s\<lparr>scheduler_timer_on := True\<rparr>
                    in map_option (\<lambda>s. (Resumed min_wait_thread, s\<lparr>running_kernel_thread := min_wait_thread\<rparr>))
                         (do_ring th_next (elapse min_wait) (running_kernel_thread s) (running_kernel_thread s) s)))))"

text \<open>
  The timer interrupt. Its loop that counts down the waiting threads starts at the running thread
  and ends there: \<open>tick_walk\<close> is called with the thread it stops at.
\<close>

definition tick :: "addr \<Rightarrow> threads \<Rightarrow> threads" where
  "tick nxt s =
     (if th_status s nxt = SVC_THREAD_WAITING then
        if th_waiting s nxt = 0 then set_status nxt SVC_THREAD_RUNNABLE s
        else
          let s = set_waiting nxt (th_waiting s nxt - 1) s
          in if th_waiting s nxt = 0 then set_status nxt SVC_THREAD_RUNNABLE s else s
      else s)"

partial_function (option) tick_walk :: "addr \<Rightarrow> threads \<Rightarrow> threads option" where
  "tick_walk nxt s =
     (if nxt \<noteq> running_kernel_thread s then
        let s = tick nxt s in tick_walk (th_next s nxt) s
      else Some s)"

text \<open>
  \<open>regs\<close> are the words the interrupt entry pushed, \<open>svc_regs\<close> the supervisor mode r8 to r14,
  \<open>spsr\<close> and \<open>svc_spsr\<close> the saved status words of the two modes; 0x13 is the supervisor mode.
\<close>

definition save_interrupted :: "(nat \<Rightarrow> u32) \<Rightarrow> (nat \<Rightarrow> u32) \<Rightarrow> u32 \<Rightarrow> u32 \<Rightarrow> threads \<Rightarrow> threads" where
  "save_interrupted regs svc_regs spsr svc_spsr s =
     s\<lparr>th_regs := (th_regs s)(running_kernel_thread s := (\<lambda>i.
         if i \<le> 7 then regs (i + 1)
         else if i \<le> 14 then svc_regs i
         else if i = 15 then regs 9 - 4
         else if i = 16 then spsr
         else if i = 17 then svc_spsr
         else th_regs s (running_kernel_thread s) i))\<rparr>"

definition schedule_kernel_thread ::
  "(nat \<Rightarrow> u32) \<Rightarrow> (nat \<Rightarrow> u32) \<Rightarrow> u32 \<Rightarrow> u32 \<Rightarrow> threads \<Rightarrow> (outcome \<times> threads) option" where
  "schedule_kernel_thread regs svc_regs spsr svc_spsr s =
     (if running_kernel_thread s = NULL then Some (Returned, s)
      else if cur_task s \<noteq> nuc_gui_task s then Some (Returned, s)
      else if th_next s (running_kernel_thread s) = running_kernel_thread s then Some (Returned, s)
      else if spsr AND 0x1F \<noteq> 0x13 then Some (Returned, s)
      else
        Option.bind (tick_walk (running_kernel_thread s) s)
          (\<lambda>s. schedule_kernel_thread_current_saved (save_interrupted regs svc_regs spsr svc_spsr s)))"

section \<open>Waiting\<close>

text \<open>The registers 0 to 16 of the running thread, from the frame of the system call.\<close>

definition save_syscall_regs :: "addr \<Rightarrow> u32 list \<Rightarrow> threads \<Rightarrow> threads" where
  "save_syscall_regs base frame s =
     s\<lparr>th_regs := (th_regs s)(running_kernel_thread s := (\<lambda>i.
         if i \<le> 16 then syscall_get_reg base frame (of_nat i) else th_regs s (running_kernel_thread s) i))\<rparr>"

definition mark_as_finished :: "threads \<Rightarrow> threads" where
  "mark_as_finished s = s\<lparr>sys := syscall_mark_as_finished (sys s)\<rparr>"

definition scheduler_kernel_thread_wait ::
  "addr \<Rightarrow> u32 \<Rightarrow> addr \<Rightarrow> u32 list \<Rightarrow> threads \<Rightarrow> (outcome \<times> threads) option" where
  "scheduler_kernel_thread_wait t millis base frame s =
     (if t = NULL \<or> running_kernel_thread s = NULL then Some (Returned, s)
      else if timeslice_length s = 0 then Some (Undefined, s)
      else
        let ticks = millis div timeslice_length s
        in if ticks = 0 then Some (Returned, s)
           else if t = running_kernel_thread s then
             let ticks = ticks + 1
             in if th_next s (running_kernel_thread s) = running_kernel_thread s
                then Some (Returned, msleep millis s)
                else
                  let s = disableFIQ s;
                      s = set_status (running_kernel_thread s) SVC_THREAD_WAITING s;
                      s = set_waiting (running_kernel_thread s) ticks s;
                      s = save_syscall_regs base frame s;
                      s = mark_as_finished s
                  in schedule_kernel_thread_current_saved s
           else
             let s = disableFIQ s;
                 s = set_status t SVC_THREAD_WAITING s;
                 s = set_waiting t ticks s;
                 s = enableFIQ s
             in Some (Returned, s))"

definition scheduler_kernel_thread_wait_thread ::
  "addr \<Rightarrow> addr \<Rightarrow> addr \<Rightarrow> u32 list \<Rightarrow> threads \<Rightarrow> (outcome \<times> threads) option" where
  "scheduler_kernel_thread_wait_thread t wait_for base frame s =
     (if t = NULL \<or> wait_for = NULL \<or> running_kernel_thread s = NULL \<or> t = wait_for then Some (Returned, s)
      else if t = running_kernel_thread s then
        let s = disableFIQ s;
            s = set_status (running_kernel_thread s) SVC_THREAD_WAITING_FOR s;
            s = set_status_data (running_kernel_thread s) wait_for s;
            s = save_syscall_regs base frame s;
            s = mark_as_finished s
        in schedule_kernel_thread_current_saved s
      else
        let s = disableFIQ s;
            s = set_status t SVC_THREAD_WAITING_FOR s;
            s = set_status_data t wait_for s;
            s = enableFIQ s
        in Some (Returned, s))"

section \<open>Adding and removing threads\<close>

definition scheduler_add_kernel_thread :: "addr \<Rightarrow> threads \<Rightarrow> threads" where
  "scheduler_add_kernel_thread t s =
     (if t = NULL \<or> running_kernel_thread s = NULL then s
      else
        let s = disableFIQ s;
            s = set_th_next t (th_next s (running_kernel_thread s)) s;
            s = set_th_next (running_kernel_thread s) t s
        in enableFIQ s)"

text \<open>A thread that waits for \<open>t\<close> becomes runnable.\<close>

definition release_waiter :: "addr \<Rightarrow> addr \<Rightarrow> threads \<Rightarrow> threads" where
  "release_waiter t p s =
     (if th_status s p = SVC_THREAD_WAITING_FOR \<and> th_status_data s p = t
      then set_status_data p NULL (set_status p SVC_THREAD_RUNNABLE s) else s)"

text \<open>The walk to the predecessor of the running thread; it returns the predecessor.\<close>

partial_function (option) release_walk :: "addr \<Rightarrow> threads \<Rightarrow> (addr \<times> threads) option" where
  "release_walk nxt s =
     (if th_next s nxt \<noteq> running_kernel_thread s then
        let s = release_waiter (running_kernel_thread s) (th_next s nxt) s
        in release_walk (th_next s nxt) s
      else Some (nxt, s))"

definition scheduler_svc_thread_destroy_self :: "threads \<Rightarrow> (outcome \<times> threads) option" where
  "scheduler_svc_thread_destroy_self s =
     (if running_kernel_thread s = NULL \<or> th_main s (running_kernel_thread s)
         \<or> th_next s (running_kernel_thread s) = running_kernel_thread s
      then Some (Returned, s)
      else
        Option.bind (release_walk (running_kernel_thread s) (disableFIQ s)) (\<lambda>(prev, s).
          let s = set_th_next prev (th_next s (running_kernel_thread s)) s;
              this = running_kernel_thread s;
              s = s\<lparr>running_kernel_thread := th_next s (running_kernel_thread s)\<rparr>;
              s = destroy_svc_thread this s
          in schedule_kernel_thread_current_saved s))"

text \<open>The outer loop of \<open>scheduler_remove_kernel_thread\<close> looks for the predecessor of \<open>t\<close>.\<close>

definition scheduler_remove_kernel_thread :: "addr \<Rightarrow> threads \<Rightarrow> (outcome \<times> threads) option" where
  "scheduler_remove_kernel_thread t s =
     (if t = NULL \<or> running_kernel_thread s = NULL \<or> th_main s t then Some (Returned, s)
      else
        let s = disableFIQ s
        in if t = running_kernel_thread s then
             map_option (\<lambda>(r, s). case r of Returned \<Rightarrow> (Returned, enableFIQ s) | _ \<Rightarrow> (r, s))
               (scheduler_svc_thread_destroy_self (mark_as_finished s))
           else
             Option.bind (scan_threads (\<lambda>p. th_next s p = t) s) (\<lambda>found.
               case found of
                 None \<Rightarrow> Some (Returned, enableFIQ s)
               | Some p \<Rightarrow>
                   let s = set_th_next p (th_next s t) s;
                       s = destroy_svc_thread t s
                   in map_option (\<lambda>s. (Returned, enableFIQ s))
                        (do_ring th_next (release_waiter t) (running_kernel_thread s) (running_kernel_thread s) s)))"

section \<open>The ring\<close>

text \<open>The threads in the order the scheduler visits them: the running one and the others \<open>xs\<close>.\<close>

definition ring :: "threads \<Rightarrow> addr list \<Rightarrow> bool" where
  "ring s xs \<longleftrightarrow> path (th_next s) (running_kernel_thread s) (running_kernel_thread s # xs) (running_kernel_thread s)
     \<and> distinct (running_kernel_thread s # xs)"

interpretation thread_ring: next_field th_next set_th_next
  by unfold_locales (simp add: set_th_next_def)

named_theorems thread_simps "fields of the scheduler state after an update"

lemma thread_fields [thread_simps]:
  "th_next (disableFIQ s) = th_next s" "th_next (enableFIQ s) = th_next s" "th_next (msleep ms s) = th_next s"
  "th_next (set_status p v s) = th_next s" "th_next (set_waiting p w s) = th_next s"
  "th_next (set_status_data p d s) = th_next s" "th_next (set_th_next p n s) = (th_next s)(p := n)"
  "th_next (destroy_svc_thread p s) = th_next s" "th_next (save_syscall_regs base frame s) = th_next s"
  "th_next (mark_as_finished s) = th_next s"
  "running_kernel_thread (disableFIQ s) = running_kernel_thread s" "running_kernel_thread (enableFIQ s) = running_kernel_thread s"
  "running_kernel_thread (msleep ms s) = running_kernel_thread s"
  "running_kernel_thread (set_status p v s) = running_kernel_thread s"
  "running_kernel_thread (set_waiting p w s) = running_kernel_thread s"
  "running_kernel_thread (set_status_data p d s) = running_kernel_thread s"
  "running_kernel_thread (set_th_next p n s) = running_kernel_thread s"
  "running_kernel_thread (destroy_svc_thread p s) = running_kernel_thread s"
  "running_kernel_thread (save_syscall_regs base frame s) = running_kernel_thread s"
  "running_kernel_thread (mark_as_finished s) = running_kernel_thread s"
  "th_status (disableFIQ s) = th_status s" "th_status (enableFIQ s) = th_status s" "th_status (msleep ms s) = th_status s"
  "th_status (set_status p v s) = (th_status s)(p := v)" "th_status (set_waiting p w s) = th_status s"
  "th_status (set_status_data p d s) = th_status s" "th_status (set_th_next p n s) = th_status s"
  "th_status (destroy_svc_thread p s) = th_status s" "th_status (save_syscall_regs base frame s) = th_status s"
  "th_status (mark_as_finished s) = th_status s"
  "th_waiting (disableFIQ s) = th_waiting s" "th_waiting (enableFIQ s) = th_waiting s" "th_waiting (msleep ms s) = th_waiting s"
  "th_waiting (set_status p v s) = th_waiting s" "th_waiting (set_waiting p w s) = (th_waiting s)(p := w)"
  "th_waiting (set_status_data p d s) = th_waiting s" "th_waiting (set_th_next p n s) = th_waiting s"
  "th_waiting (destroy_svc_thread p s) = th_waiting s" "th_waiting (save_syscall_regs base frame s) = th_waiting s"
  "th_waiting (mark_as_finished s) = th_waiting s"
  "th_status_data (disableFIQ s) = th_status_data s" "th_status_data (set_status p v s) = th_status_data s"
  "th_status_data (set_status_data p d s) = (th_status_data s)(p := d)" "th_status_data (set_th_next p n s) = th_status_data s"
  "th_status_data (destroy_svc_thread p s) = th_status_data s" "th_status_data (enableFIQ s) = th_status_data s"
  "th_main (disableFIQ s) = th_main s" "th_main (enableFIQ s) = th_main s" "th_main (set_status p v s) = th_main s"
  "th_main (set_waiting p w s) = th_main s" "th_main (set_status_data p d s) = th_main s"
  "th_main (set_th_next p n s) = th_main s" "th_main (destroy_svc_thread p s) = th_main s"
  "th_main (msleep ms s) = th_main s" "th_status_data (msleep ms s) = th_status_data s"
  "cur_task (disableFIQ s) = cur_task s" "cur_task (set_status p v s) = cur_task s"
  "nuc_gui_task (disableFIQ s) = nuc_gui_task s"
  "th_freed (disableFIQ s) = th_freed s" "th_freed (enableFIQ s) = th_freed s" "th_freed (set_th_next p n s) = th_freed s"
  "th_freed (destroy_svc_thread p s) = th_freed s @ [p]"
  "th_main (save_syscall_regs base frame s) = th_main s" "th_main (mark_as_finished s) = th_main s"
  by (simp_all add: disableFIQ_def enableFIQ_def msleep_def set_status_def set_waiting_def set_status_data_def
      set_th_next_def destroy_svc_thread_def save_syscall_regs_def mark_as_finished_def)

lemma scan_threads_ring: "ring s xs \<Longrightarrow> scan_threads P s = Some (List.find P (running_kernel_thread s # xs))"
  unfolding scan_threads_def ring_def by (intro scan_ring_path) auto

text \<open>The ring after \<open>n\<close> steps: another thread of it becomes the running one.\<close>

lemma ring_rotate:
  assumes "ring s xs" and "t \<in> set (running_kernel_thread s # xs)"
  shows "\<exists>ys. ring (s\<lparr>running_kernel_thread := t\<rparr>) ys \<and> set (t # ys) = set (running_kernel_thread s # xs)"
proof -
  from assms(2) obtain us vs where sp: "running_kernel_thread s # xs = us @ t # vs" by (meson split_list)
  let ?r = "running_kernel_thread s"
  from assms(1) sp have d: "distinct (us @ t # vs)" and "path (th_next s) ?r (us @ t # vs) ?r"
    by (simp_all only: ring_def)
  then have p: "path (th_next s) ?r us t" "path (th_next s) t (t # vs) ?r" by (auto simp: path_append)
  then have "path (th_next s) t ((t # vs) @ us) t" unfolding path_append by blast
  with d sp show ?thesis by (intro exI [of _ "vs @ us"]) (auto simp: ring_def)
qed

section \<open>What a step of the scheduler does\<close>

definition waiting_threads :: "threads \<Rightarrow> addr list \<Rightarrow> addr list" where
  "waiting_threads s ts = filter (\<lambda>t. th_status s t = SVC_THREAD_WAITING) ts"

text \<open>The threads after a sleep of \<open>m\<close> ticks.\<close>

definition aged :: "u32 \<Rightarrow> addr list \<Rightarrow> threads \<Rightarrow> threads" where
  "aged m ts s =
     s\<lparr>th_status := (\<lambda>p. if p \<in> set (waiting_threads s ts) \<and> th_waiting s p \<le> m then SVC_THREAD_RUNNABLE else th_status s p),
       th_waiting := (\<lambda>p. if p \<in> set (waiting_threads s ts) then
                            if th_waiting s p \<le> m then 0 else th_waiting s p - m
                          else th_waiting s p)\<rparr>"

lemma fold_elapse:
  "distinct ts \<Longrightarrow> fold (elapse m) ts s = aged m ts s"
proof (induction ts arbitrary: s)
  case Nil
  then show ?case by (simp add: aged_def waiting_threads_def)
next
  case (Cons t ts)
  then have "fold (elapse m) (t # ts) s = aged m ts (elapse m t s)" by simp
  also have "\<dots> = aged m (t # ts) s"
    using Cons.prems
    by (auto simp: aged_def elapse_def waiting_threads_def set_status_def set_waiting_def fun_eq_iff)
  finally show ?case .
qed

text \<open>The fairest thread to wait for: the last of those that have the fewest ticks left.\<close>

definition min_ticks :: "threads \<Rightarrow> addr list \<Rightarrow> u32" where
  "min_ticks s ts = Min (th_waiting s ` set (waiting_threads s ts))"

definition last_min :: "threads \<Rightarrow> addr list \<Rightarrow> addr" where
  "last_min s ts = last (filter (\<lambda>t. th_waiting s t = min_ticks s ts) (waiting_threads s ts))"

lemma fold_pick_min:
  assumes "running_kernel_thread s \<notin> set ts" and "ps = running_kernel_thread s # ts"
    and "\<forall>t \<in> set (waiting_threads s ps). th_waiting s t < 0xFFFFFFFF"
  shows "fold (pick_min s) ps (0xFFFFFFFF, NULL) =
    (if waiting_threads s ps = [] then (0xFFFFFFFF, NULL) else (min_ticks s ps, last_min s ps))"
  using assms
proof (induction ts arbitrary: ps rule: rev_induct)
  case Nil
  then show ?case
    by (auto simp: pick_min_def waiting_threads_def min_ticks_def last_min_def)
next
  case (snoc t ts)
  let ?qs = "running_kernel_thread s # ts"
  have w: "waiting_threads s ps = waiting_threads s ?qs @ (if th_status s t = SVC_THREAD_WAITING then [t] else [])"
    by (simp add: snoc.prems(2) waiting_threads_def)
  have IH: "fold (pick_min s) ?qs (0xFFFFFFFF, NULL) =
      (if waiting_threads s ?qs = [] then (0xFFFFFFFF, NULL) else (min_ticks s ?qs, last_min s ?qs))"
    using snoc.prems w by (intro snoc.IH) auto
  have f: "fold (pick_min s) ps (0xFFFFFFFF, NULL) = pick_min s t (fold (pick_min s) ?qs (0xFFFFFFFF, NULL))"
    by (simp add: snoc.prems(2))
  have tr: "t \<noteq> running_kernel_thread s" using snoc.prems(1) by auto
  show ?case
  proof (cases "th_status s t = SVC_THREAD_WAITING")
    case False
    with w have "waiting_threads s ps = waiting_threads s ?qs" by simp
    with False show ?thesis unfolding f IH by (simp add: pick_min_def min_ticks_def last_min_def)
  next
    case True
    then have w': "waiting_threads s ps = waiting_threads s ?qs @ [t]" using w by simp
    have lt: "th_waiting s t < 0xFFFFFFFF" using snoc.prems(3) w' by simp
    show ?thesis
    proof (cases "waiting_threads s ?qs = []")
      case e: True
      with w' True lt show ?thesis unfolding f IH by (simp add: pick_min_def min_ticks_def last_min_def)
    next
      case ne: False
      then have m: "min_ticks s ps = min (th_waiting s t) (min_ticks s ?qs)"
        by (simp add: min_ticks_def w' min.commute)
      have no: "filter (\<lambda>p. th_waiting s p = th_waiting s t) (waiting_threads s ?qs) = []" if "th_waiting s t < min_ticks s ?qs"
      proof -
        have "min_ticks s ?qs \<le> th_waiting s p" if "p \<in> set (waiting_threads s ?qs)" for p
          using that by (simp add: min_ticks_def)
        with that show ?thesis by (fastforce simp: filter_empty_conv)
      qed
      show ?thesis
        using True ne tr m no unfolding f IH by (auto simp: pick_min_def last_min_def w' min_def not_less)
    qed
  qed
qed

lemma schedule_spec:
  assumes "ring s xs" and "cur_task s = nuc_gui_task s"
    and "\<forall>t \<in> set (waiting_threads s (running_kernel_thread s # xs)). th_waiting s t < 0xFFFFFFFF"
  defines "ts \<equiv> running_kernel_thread s # xs"
  shows "schedule_kernel_thread_current_saved s = Some
    (case List.find (\<lambda>t. th_status s t = SVC_THREAD_RUNNABLE) ts of
       Some t \<Rightarrow> (Resumed t, s\<lparr>running_kernel_thread := t\<rparr>)
     | None \<Rightarrow>
         if waiting_threads s ts \<noteq> [] then
           (Resumed (last_min s ts),
            (aged (min_ticks s ts) ts (disableFIQ (msleep (min_ticks s ts * timeslice_length s) s)))
              \<lparr>scheduler_timer_on := True, running_kernel_thread := last_min s ts\<rparr>)
         else (case List.find (th_main s) ts of
             Some t \<Rightarrow> (Resumed t, s\<lparr>running_kernel_thread := t\<rparr>)
           | None \<Rightarrow> (Panicked ''deadlock and no main thread to return to!n'', s)))"
proof -
  let ?r = "running_kernel_thread s"
  from assms(1) have p: "path (th_next s) ?r ts ?r" and d: "distinct ts" and r: "?r \<noteq> NULL" "?r \<notin> set xs"
    by (auto simp: ring_def ts_def)
  note scan = scan_threads_ring [OF assms(1), folded ts_def]
  have pick: "do_ring (\<lambda>_. th_next s) (pick_min s) ?r ?r (0xFFFFFFFF, NULL) = Some (fold (pick_min s) ts (0xFFFFFFFF, NULL))"
    using p r(2) unfolding ts_def by (intro do_ring_path) auto
  note fp = fold_pick_min [OF r(2) ts_def [THEN meta_eq_to_obj_eq] assms(3) [folded ts_def]]
  have wt: "waiting_threads s ts \<noteq> [] \<longleftrightarrow> List.find (\<lambda>t. th_status s t = SVC_THREAD_WAITING) ts \<noteq> None"
    by (auto simp: waiting_threads_def filter_empty_conv find_None_iff)
  have lm: "last_min s ts \<noteq> NULL" if "waiting_threads s ts \<noteq> []"
  proof -
    have "min_ticks s ts \<in> th_waiting s ` set (waiting_threads s ts)"
      unfolding min_ticks_def using that by (intro Min_in) auto
    then have "filter (\<lambda>t. th_waiting s t = min_ticks s ts) (waiting_threads s ts) \<noteq> []" by (auto simp: filter_empty_conv)
    then have "last_min s ts \<in> set ts" unfolding last_min_def waiting_threads_def
      using last_in_set by fastforce
    then show ?thesis using path_not_NULL [OF p] by auto
  qed
  define m q where "m = min_ticks s ts" and "q = last_min s ts"
  show ?thesis
  proof (cases "List.find (\<lambda>t. th_status s t = SVC_THREAD_RUNNABLE) ts")
    case (Some t)
    then show ?thesis
      by (simp add: schedule_kernel_thread_current_saved_def scan r(1) assms(2))
  next
    case none: None
    show ?thesis
    proof (cases "waiting_threads s ts = []")
      case True
      then have nw: "List.find (\<lambda>t. th_status s t = SVC_THREAD_WAITING) ts = None" using wt by blast
      then have "th_status s ?r \<noteq> SVC_THREAD_WAITING" unfolding ts_def by auto
      with none nw True show ?thesis
        by (cases "List.find (th_main s) ts")
           (simp_all add: schedule_kernel_thread_current_saved_def scan r(1) assms(2))
    next
      case False
      let ?s = "disableFIQ (msleep (m * timeslice_length s) (enableFIQ (s\<lparr>scheduler_timer_on := False\<rparr>)))\<lparr>scheduler_timer_on := True\<rparr>"
      obtain x where x: "List.find (\<lambda>t. th_status s t = SVC_THREAD_WAITING) ts = Some x"
        using False wt by blast
      have f: "fold (pick_min s) ts (0xFFFFFFFF, NULL) = (m, q)" using fp False by (simp add: m_def q_def)
      have "th_next ?s = th_next s" "running_kernel_thread ?s = ?r" by (simp_all add: thread_simps)
      moreover have "th_next (elapse k t u) = th_next u" for k t u by (simp add: elapse_def thread_simps)
      ultimately have "do_ring th_next (elapse m) ?r ?r ?s = Some (fold (elapse m) ts ?s)"
        using p r(2) unfolding ts_def by (intro do_ring_path) auto
      then have e: "do_ring th_next (elapse m) ?r ?r ?s = Some (aged m ts ?s)" by (simp add: fold_elapse d)
      have s: "(aged m ts ?s)\<lparr>running_kernel_thread := q\<rparr>
          = (aged m ts (disableFIQ (msleep (m * timeslice_length s) s)))\<lparr>scheduler_timer_on := True, running_kernel_thread := q\<rparr>"
        by (simp add: aged_def waiting_threads_def disableFIQ_def enableFIQ_def msleep_def cong: if_cong)
      have "schedule_kernel_thread_current_saved s = Some (Resumed q, (aged m ts ?s)\<lparr>running_kernel_thread := q\<rparr>)"
        unfolding schedule_kernel_thread_current_saved_def scan none x
        using lm [OF False, folded q_def] e
        by (simp add: r(1) assms(2) pick f Let_def thread_simps msleep_def enableFIQ_def)
      then show ?thesis unfolding s using none False by (simp add: m_def q_def)
    qed
  qed
qed

text \<open>
  C34. The scheduler on a ring of threads, as a function of the threads in ring order: it resumes
  the first runnable thread; if there is none but some wait for time, it sleeps for the fewest
  ticks any of them has left, takes those ticks off all of them and resumes the last of those
  that had the fewest; if all wait for other threads, it resumes the main thread. Without a main
  thread it panics. It always ends.
\<close>

theorem schedule_correct:
  assumes "ring s xs" and "cur_task s = nuc_gui_task s"
    and "\<forall>t \<in> set (waiting_threads s (running_kernel_thread s # xs)). th_waiting s t < 0xFFFFFFFF"
  defines "ts \<equiv> running_kernel_thread s # xs"
  shows "schedule_kernel_thread_current_saved s = Some
    (case List.find (\<lambda>t. th_status s t = SVC_THREAD_RUNNABLE) ts of
       Some t \<Rightarrow> (Resumed t, s\<lparr>running_kernel_thread := t\<rparr>)
     | None \<Rightarrow>
         if waiting_threads s ts \<noteq> [] then
           (Resumed (last_min s ts),
            (aged (min_ticks s ts) ts (disableFIQ (msleep (min_ticks s ts * timeslice_length s) s)))
              \<lparr>scheduler_timer_on := True, running_kernel_thread := last_min s ts\<rparr>)
         else (case List.find (th_main s) ts of
             Some t \<Rightarrow> (Resumed t, s\<lparr>running_kernel_thread := t\<rparr>)
           | None \<Rightarrow> (Panicked ''deadlock and no main thread to return to!n'', s)))"
  unfolding ts_def by (rule schedule_spec [OF assms(1-3)])

text \<open>
  C33. The timer interrupt never counts the waiting threads down: its loop starts at the thread it
  is to stop at, so it does nothing. And since the search for a runnable thread starts at the
  running thread too, the interrupt resumes the interrupted thread as long as that is runnable: the other
  threads of the ring never run.
\<close>

theorem timer_interrupt_keeps_running:
  assumes "ring s xs" and "cur_task s = nuc_gui_task s" and "xs \<noteq> []" and "spsr AND 0x1F = 0x13"
    and "th_status s (running_kernel_thread s) = SVC_THREAD_RUNNABLE"
  shows "schedule_kernel_thread regs svc_regs spsr svc_spsr s
    = Some (Resumed (running_kernel_thread s), save_interrupted regs svc_regs spsr svc_spsr s)"
proof -
  let ?t = "save_interrupted regs svc_regs spsr svc_spsr s"
  have f: "th_next ?t = th_next s" "running_kernel_thread ?t = running_kernel_thread s" "th_status ?t = th_status s"
    "cur_task ?t = cur_task s" "nuc_gui_task ?t = nuc_gui_task s" by (simp_all add: save_interrupted_def)
  have r: "ring ?t xs" using assms(1) by (simp add: ring_def f)
  have nz: "running_kernel_thread s \<noteq> NULL" using assms(1) by (simp add: ring_def)
  have nn: "th_next s (running_kernel_thread s) \<noteq> running_kernel_thread s"
    using assms(1,3) by (cases xs) (auto simp: ring_def)
  have w: "tick_walk (running_kernel_thread s) s = Some s" by (subst tick_walk.simps) simp
  have c: "schedule_kernel_thread_current_saved ?t = Some (Resumed (running_kernel_thread s), ?t\<lparr>running_kernel_thread := running_kernel_thread s\<rparr>)"
    using assms(2,5) nz by (simp add: schedule_kernel_thread_current_saved_def scan_threads_ring [OF r] f)
  have "?t\<lparr>running_kernel_thread := running_kernel_thread s\<rparr> = ?t" by (simp add: save_interrupted_def)
  with c w nn nz assms(2,4) show ?thesis by (simp add: schedule_kernel_thread_def)
qed

text \<open>
  A new thread enters the ring behind the running one; nothing else about the ring changes.
\<close>

theorem add_kernel_thread_ring:
  assumes "ring s xs" and "t \<noteq> NULL" and "t \<notin> set (running_kernel_thread s # xs)"
  shows "ring (scheduler_add_kernel_thread t s) (t # xs)
    \<and> running_kernel_thread (scheduler_add_kernel_thread t s) = running_kernel_thread s
    \<and> th_status (scheduler_add_kernel_thread t s) = th_status s"
proof -
  let ?r = "running_kernel_thread s"
  from assms(1) have p: "path (th_next s) ?r (?r # xs) ?r" "distinct (?r # xs)" "?r \<noteq> NULL"
    by (simp_all add: ring_def)
  note thread_ring.insert_after [OF p(1,2) assms(2,3)]
  then have "ring (scheduler_add_kernel_thread t s) (t # xs)"
    using p assms(2,3) by (auto simp: ring_def scheduler_add_kernel_thread_def Let_def thread_simps)
  then show ?thesis using assms(2) p(3) by (simp add: scheduler_add_kernel_thread_def Let_def thread_simps)
qed

definition released :: "addr \<Rightarrow> addr list \<Rightarrow> threads \<Rightarrow> threads" where
  "released t ts s =
     s\<lparr>th_status := (\<lambda>p. if p \<in> set ts \<and> th_status s p = SVC_THREAD_WAITING_FOR \<and> th_status_data s p = t
                         then SVC_THREAD_RUNNABLE else th_status s p),
       th_status_data := (\<lambda>p. if p \<in> set ts \<and> th_status s p = SVC_THREAD_WAITING_FOR \<and> th_status_data s p = t
                         then NULL else th_status_data s p)\<rparr>"

lemma fold_release: "distinct ts \<Longrightarrow> fold (release_waiter t) ts s = released t ts s"
proof (induction ts arbitrary: s)
  case Nil
  then show ?case by (simp add: released_def)
next
  case (Cons p ts)
  then have "fold (release_waiter t) (p # ts) s = released t ts (release_waiter t p s)" by simp
  also have "\<dots> = released t (p # ts) s"
    using Cons.prems
    by (auto simp: released_def release_waiter_def set_status_def set_status_data_def fun_eq_iff cong: if_cong)
  finally show ?case .
qed

lemma released_fields [thread_simps]:
  "th_next (released t ts s) = th_next s" "running_kernel_thread (released t ts s) = running_kernel_thread s"
  "th_main (released t ts s) = th_main s" "th_waiting (released t ts s) = th_waiting s" "th_freed (released t ts s) = th_freed s"
  "cur_task (released t ts s) = cur_task s" "nuc_gui_task (released t ts s) = nuc_gui_task s"
  by (simp_all add: released_def)

lemma th_next_release_waiter: "th_next (release_waiter t x s) = th_next s"
  by (simp add: release_waiter_def thread_simps)

lemma remove_spec:
  assumes "ring s (us @ t # vs)" and "\<not> th_main s t"
  defines "s' \<equiv> enableFIQ (released t (running_kernel_thread s # us @ vs)
    (destroy_svc_thread t (set_th_next (last (running_kernel_thread s # us)) (th_next s t) (disableFIQ s))))"
  shows "scheduler_remove_kernel_thread t s = Some (Returned, s')" and "ring s' (us @ vs)"
proof -
  let ?r = "running_kernel_thread s"
  define q where "q = last (?r # us)"
  have qs: "butlast (?r # us) @ [q] = ?r # us" by (simp add: q_def)
  from assms(1) have p: "path (th_next s) ?r (?r # us @ t # vs) ?r" and d: "distinct (?r # us @ t # vs)" and r: "?r \<noteq> NULL"
    by (simp_all add: ring_def)
  then have p': "path (th_next s) ?r (butlast (?r # us) @ q # t # vs) ?r" and d': "distinct (butlast (?r # us) @ q # t # vs)"
    using qs by (metis append_Cons append_assoc append_Nil)+
  have t: "t \<noteq> NULL" "t \<noteq> ?r" using path_not_NULL [OF p] d by auto
  have nxt: "th_next s q = t" using p' by (auto simp: path_append)
  have qin: "q \<in> set (?r # us @ t # vs)" using qs by (metis UnCI in_set_conv_decomp set_append append_Cons)
  have fnd: "List.find (\<lambda>x. th_next s x = t) (?r # us @ t # vs) = Some q"
  proof (rule find_unique [where P = "\<lambda>x. th_next s x = t"])
    fix x
    assume "x \<in> set (?r # us @ t # vs)" and "th_next s x = t"
    then show "x = q" using inj_onD [OF ring_inj_on [OF p d], of x q] qin nxt by simp
  qed (use qin nxt in simp_all)
  have rd: "ring (disableFIQ s) (us @ t # vs)" using assms(1) by (simp add: ring_def thread_simps)
  let ?s = "destroy_svc_thread t (set_th_next q (th_next s t) (disableFIQ s))"
  have "path (th_next ?s) ?r (butlast (?r # us) @ q # vs) ?r"
    using thread_ring.unlink_inner [OF p' d'] by (simp add: thread_simps)
  then have pr: "path (th_next ?s) ?r (?r # us @ vs) ?r"
    using qs by (metis append_Cons append_assoc append_Nil)
  have dr: "distinct (?r # us @ vs)" using d by auto
  have walk: "do_ring th_next (release_waiter t) ?r ?r ?s = Some (released t (?r # us @ vs) ?s)"
    using do_ring_path [of th_next ?s ?r "us @ vs" ?r "release_waiter t"] pr dr fold_release [OF dr] th_next_release_waiter
    by simp
  have s': "s' = enableFIQ (released t (?r # us @ vs) ?s)" unfolding s'_def q_def ..
  show "scheduler_remove_kernel_thread t s = Some (Returned, s')" unfolding s'
    using t r assms(2) walk scan_threads_ring [OF rd, of "\<lambda>x. th_next s x = t"] fnd
    by (simp add: scheduler_remove_kernel_thread_def Let_def thread_simps)
  show "ring s' (us @ vs)" using pr dr by (simp add: s' ring_def thread_simps)
qed

text \<open>
  Removing a thread other than the running and the main one takes it out of the ring,
  destroys it once and makes exactly the threads that waited for it runnable.
\<close>

theorem remove_kernel_thread_correct:
  assumes "ring s (us @ t # vs)" and "\<not> th_main s t"
  shows "\<exists>s'. scheduler_remove_kernel_thread t s = Some (Returned, s')
    \<and> ring s' (us @ vs) \<and> running_kernel_thread s' = running_kernel_thread s
    \<and> th_freed s' = th_freed s @ [t]
    \<and> (\<forall>p \<in> set (running_kernel_thread s # us @ vs).
         th_status s' p = (if th_status s p = SVC_THREAD_WAITING_FOR \<and> th_status_data s p = t
                           then SVC_THREAD_RUNNABLE else th_status s p))"
  by (rule exI, intro conjI, rule remove_spec(1) [OF assms], rule remove_spec(2) [OF assms])
     (simp_all add: thread_simps released_def)

section \<open>The thread that ends itself, and the end of scheduling\<close>

lemma release_walk_path:
  assumes "path (th_next s) p (p # us) (running_kernel_thread s)" and "running_kernel_thread s \<notin> set us"
  shows "release_walk p s = Some (last (p # us), fold (release_waiter (running_kernel_thread s)) us s)"
  using assms
proof (induction us arbitrary: p s)
  case Nil
  then show ?case by (subst release_walk.simps) simp
next
  case (Cons u us)
  let ?s = "release_waiter (running_kernel_thread s) u s"
  have f: "th_next ?s = th_next s" "running_kernel_thread ?s = running_kernel_thread s"
    by (simp_all add: release_waiter_def thread_simps)
  from Cons.prems have u: "th_next s p = u" "u \<noteq> running_kernel_thread s" by auto
  from Cons.prems have "path (th_next s) u (u # us) (running_kernel_thread s)" "running_kernel_thread s \<notin> set us" by auto
  then have "path (th_next ?s) u (u # us) (running_kernel_thread ?s)" "running_kernel_thread ?s \<notin> set us"
    unfolding f .
  then have "release_walk u ?s = Some (last (u # us), fold (release_waiter (running_kernel_thread ?s)) us ?s)"
    by (rule Cons.IH)
  with u show ?case by (subst release_walk.simps) (simp add: f Let_def)
qed

text \<open>
  A thread that ends itself: the threads that waited for it are released, it leaves the ring,
  and the scheduler goes on with the next one.
\<close>

lemma destroy_self_spec:
  assumes "ring s (y # ys)" and "\<not> th_main s (running_kernel_thread s)"
  defines "s' \<equiv> destroy_svc_thread (running_kernel_thread s)
    ((set_th_next (last (y # ys)) y (released (running_kernel_thread s) (y # ys) (disableFIQ s)))\<lparr>running_kernel_thread := y\<rparr>)"
  shows "scheduler_svc_thread_destroy_self s = schedule_kernel_thread_current_saved s'" and "ring s' ys"
proof -
  let ?r = "running_kernel_thread s" and ?q = "last (y # ys)"
  from assms(1) have p: "path (th_next s) ?r (?r # y # ys) ?r" and d: "distinct (?r # y # ys)"
    by (simp_all only: ring_def)
  have r0: "?r \<noteq> NULL" "th_next s ?r = y" using p by simp_all
  have "y \<noteq> ?r" using d by auto
  note r = r0 this
  have q: "?q \<noteq> ?r" using d last_in_set [of "y # ys"] by (metis distinct.simps(2) list.distinct(1))
  have "path (th_next (disableFIQ s)) ?r (?r # y # ys) (running_kernel_thread (disableFIQ s))"
    using p by (simp add: thread_simps)
  then have "release_walk ?r (disableFIQ s) = Some (?q, fold (release_waiter ?r) (y # ys) (disableFIQ s))"
    using release_walk_path [of "disableFIQ s" ?r "y # ys"] d by (simp add: thread_simps)
  also have "fold (release_waiter ?r) (y # ys) (disableFIQ s) = released ?r (y # ys) (disableFIQ s)"
    using d by (intro fold_release) simp
  finally have w: "release_walk ?r (disableFIQ s) = Some (?q, released ?r (y # ys) (disableFIQ s))" .
  show "scheduler_svc_thread_destroy_self s = schedule_kernel_thread_current_saved s'"
    unfolding scheduler_svc_thread_destroy_self_def w s'_def
    using r q assms(2) by (simp add: thread_simps Let_def)
  have b: "butlast (y # ys) @ [?q] = y # ys" by (rule append_butlast_last_id) simp
  have "path (th_next s) y ((y # ys) @ [?r]) y" using p r by (simp add: path_append)
  then have "path (th_next s) y (butlast (y # ys) @ ?q # ?r # []) y" using b by (metis append_Cons append_Nil append_assoc)
  moreover have "distinct (butlast (y # ys) @ ?q # ?r # [])" using d b by (metis (no_types) append_Cons append_Nil append_assoc distinct.simps(2) distinct1_rotate rotate1.simps(2))
  ultimately have "path ((th_next s)(?q := y)) y (butlast (y # ys) @ [?q]) y"
    using thread_ring.unlink_inner [of s y "butlast (y # ys)" ?q ?r "[]" y] r(2) by (simp add: thread_simps)
  then have "path ((th_next s)(?q := y)) y (y # ys) y" unfolding b .
  with d show "ring s' ys" by (simp add: ring_def s'_def thread_simps)
qed

lemma destroy_ring_path:
  assumes "path (th_next s) p (p # us) (running_kernel_thread s)" and "running_kernel_thread s \<notin> set us"
  shows "destroy_ring p s = Some (s\<lparr>th_freed := th_freed s @ p # us\<rparr>)"
  using assms
proof (induction us arbitrary: p s)
  case Nil
  then show ?case by (subst destroy_ring.simps) (simp add: destroy_svc_thread_def)
next
  case (Cons u us)
  from Cons.prems have u: "th_next s p = u" "u \<noteq> running_kernel_thread s" by auto
  have "destroy_ring u (destroy_svc_thread p s)
      = Some (destroy_svc_thread p s\<lparr>th_freed := th_freed (destroy_svc_thread p s) @ u # us\<rparr>)"
    using Cons.prems by (intro Cons.IH) (simp_all add: destroy_svc_thread_def)
  with u show ?case by (subst destroy_ring.simps) (simp add: destroy_svc_thread_def)
qed

lemma disable_spec:
  assumes "ring s xs"
  shows "scheduler_disable_kernel_thread_scheduling s = Some
    (if th_main s (running_kernel_thread s)
     then s\<lparr>scheduler_timer_on := False, th_freed := th_freed s @ running_kernel_thread s # xs,
            running_kernel_thread := NULL, irq_on := True\<rparr>
     else s)"
proof -
  let ?s = "s\<lparr>scheduler_timer_on := False\<rparr>"
  from assms have "path (th_next ?s) (running_kernel_thread ?s) (running_kernel_thread ?s # xs) (running_kernel_thread ?s)"
    and "running_kernel_thread ?s \<notin> set xs" and "running_kernel_thread s \<noteq> NULL"
    by (simp_all add: ring_def)
  then show ?thesis using destroy_ring_path
    by (fastforce simp: scheduler_disable_kernel_thread_scheduling_def Let_def)
qed

text \<open>
  Only the main thread ends the scheduling, and then every thread of the ring is destroyed
  exactly once, the timer is off, interrupts are on again and no thread is running.
\<close>

theorem disable_scheduling_correct:
  assumes "ring s xs"
  shows "scheduler_disable_kernel_thread_scheduling s = Some
    (if th_main s (running_kernel_thread s)
     then s\<lparr>scheduler_timer_on := False, th_freed := th_freed s @ running_kernel_thread s # xs,
            running_kernel_thread := NULL, irq_on := True\<rparr>
     else s)"
  using assms by (rule disable_spec)

section \<open>Reachable schedulers\<close>

text \<open>
  A scheduler that is switched on has a ring of threads with the main thread in it, and no
  thread waits for more than 0xFFFFFFFE ticks.
\<close>

definition good_ring :: "threads \<Rightarrow> addr list \<Rightarrow> bool" where
  "good_ring s xs \<longleftrightarrow> ring s xs \<and> list_ex (th_main s) (running_kernel_thread s # xs)
     \<and> list_all (\<lambda>t. th_waiting s t < 0xFFFFFFFF) (running_kernel_thread s # xs)"

definition sched_inv :: "threads \<Rightarrow> bool" where
  "sched_inv s \<longleftrightarrow> running_kernel_thread s = NULL \<or> (\<exists>xs. good_ring s xs)"

lemma good_ring_same:
  assumes "good_ring s xs" and "th_next s' = th_next s" and "running_kernel_thread s' = running_kernel_thread s"
    and "th_main s' = th_main s" and "\<And>t. th_waiting s' t < 0xFFFFFFFF \<or> th_waiting s' t \<le> th_waiting s t"
  shows "good_ring s' xs"
  using assms(1) unfolding good_ring_def ring_def assms(2,3,4) list_all_iff
  by (meson assms(5) le_less_trans)

lemma aged_waiting_le: "th_waiting (aged m ts s) t \<le> th_waiting s t"
proof (cases "th_waiting s t \<le> m")
  case True
  then show ?thesis by (simp add: aged_def)
next
  case False
  then have "th_waiting s t - m \<le> th_waiting s t"
    by (simp add: unat_le_u32 unat_sub_u32)
  with False show ?thesis by (simp add: aged_def)
qed

lemma good_ring_rotate:
  assumes "good_ring s xs" and "t \<in> set (running_kernel_thread s # xs)"
  shows "\<exists>ys. good_ring (s\<lparr>running_kernel_thread := t\<rparr>) ys"
proof -
  from assms have "ring s xs" by (simp add: good_ring_def)
  from ring_rotate [OF this assms(2)] obtain ys
    where r: "ring (s\<lparr>running_kernel_thread := t\<rparr>) ys" "set (t # ys) = set (running_kernel_thread s # xs)" by blast
  have "list_ex (th_main s) (t # ys)" "list_all (\<lambda>t. th_waiting s t < 0xFFFFFFFF) (t # ys)"
    using assms(1) unfolding good_ring_def list_ex_iff list_all_iff r(2) by blast+
  with r(1) show ?thesis by (auto simp: good_ring_def)
qed

lemma last_min_in: "waiting_threads s ts \<noteq> [] \<Longrightarrow> last_min s ts \<in> set ts"
proof -
  assume "waiting_threads s ts \<noteq> []"
  then have "min_ticks s ts \<in> th_waiting s ` set (waiting_threads s ts)"
    unfolding min_ticks_def by (intro Min_in) auto
  then have "filter (\<lambda>t. th_waiting s t = min_ticks s ts) (waiting_threads s ts) \<noteq> []" by (auto simp: filter_empty_conv)
  then show ?thesis unfolding last_min_def waiting_threads_def using last_in_set by fastforce
qed

lemma schedule_good:
  assumes g: "good_ring s xs" and task: "cur_task s = nuc_gui_task s"
  shows "\<exists>t s' ys. schedule_kernel_thread_current_saved s = Some (Resumed t, s') \<and> good_ring s' ys
    \<and> running_kernel_thread s' = t \<and> t \<in> set (running_kernel_thread s # xs)"
proof -
  let ?ts = "running_kernel_thread s # xs"
  from g have r: "ring s xs" and m: "list_ex (th_main s) ?ts" and w: "list_all (\<lambda>t. th_waiting s t < 0xFFFFFFFF) ?ts"
    by (simp_all add: good_ring_def)
  have b: "\<forall>t \<in> set (waiting_threads s ?ts). th_waiting s t < 0xFFFFFFFF"
    using w by (auto simp: list_all_iff waiting_threads_def)
  note sched = schedule_spec [OF r task b]
  have pick: ?thesis if "schedule_kernel_thread_current_saved s = Some (Resumed t, s\<lparr>running_kernel_thread := t\<rparr>)" "t \<in> set ?ts" for t
  proof -
    from good_ring_rotate [OF g that(2)] obtain ys where "good_ring (s\<lparr>running_kernel_thread := t\<rparr>) ys" by blast
    moreover have "running_kernel_thread (s\<lparr>running_kernel_thread := t\<rparr>) = t" by simp
    ultimately show ?thesis using that by blast
  qed
  show ?thesis
  proof (cases "List.find (\<lambda>t. th_status s t = SVC_THREAD_RUNNABLE) ?ts")
    case (Some t)
    then have "t \<in> set ?ts" by (rule find_in_set [THEN conjunct1])
    moreover have "schedule_kernel_thread_current_saved s = Some (Resumed t, s\<lparr>running_kernel_thread := t\<rparr>)"
      using sched unfolding Some option.case .
    ultimately show ?thesis by (intro pick)
  next
    case none: None
    show ?thesis
    proof (cases "waiting_threads s ?ts = []")
      case True
      have "List.find (th_main s) ?ts \<noteq> None" using m unfolding find_None_iff list_ex_iff by blast
      then obtain t where t: "List.find (th_main s) ?ts = Some t" by blast
      then have "t \<in> set ?ts" by (rule find_in_set [THEN conjunct1])
      moreover have "schedule_kernel_thread_current_saved s = Some (Resumed t, s\<lparr>running_kernel_thread := t\<rparr>)"
        using sched unfolding none t option.case by (simp add: True)
      ultimately show ?thesis by (intro pick)
    next
      case False
      let ?m = "min_ticks s ?ts"
      let ?u = "(aged ?m ?ts (disableFIQ (msleep (?m * timeslice_length s) s)))\<lparr>scheduler_timer_on := True\<rparr>"
      have "good_ring ?u xs"
      proof (rule good_ring_same [OF g])
        fix t
        have "th_waiting ?u t \<le> th_waiting (disableFIQ (msleep (?m * timeslice_length s) s)) t"
          using aged_waiting_le [of ?m ?ts "disableFIQ (msleep (?m * timeslice_length s) s)" t] by simp
        then show "th_waiting ?u t < 0xFFFFFFFF \<or> th_waiting ?u t \<le> th_waiting s t" by (simp add: thread_simps)
      qed (simp_all add: aged_def thread_simps)
      moreover have "running_kernel_thread ?u = running_kernel_thread s" by (simp add: aged_def thread_simps)
      ultimately have "\<exists>ys. good_ring (?u\<lparr>running_kernel_thread := last_min s ?ts\<rparr>) ys"
        using good_ring_rotate [of ?u xs] last_min_in [OF False] by simp
      moreover have "schedule_kernel_thread_current_saved s = Some (Resumed (last_min s ?ts), ?u\<lparr>running_kernel_thread := last_min s ?ts\<rparr>)"
        using sched unfolding none option.case by (simp add: False)
      moreover have "running_kernel_thread (?u\<lparr>running_kernel_thread := last_min s ?ts\<rparr>) = last_min s ?ts" by simp
      ultimately show ?thesis using last_min_in [OF False] by blast
    qed
  qed
qed

text \<open>Every operation returns a value from such a state, keeps it, and does not panic.\<close>

definition safe_result :: "bool \<Rightarrow> (outcome \<times> threads) option \<Rightarrow> bool" where
  "safe_result u x \<longleftrightarrow> (\<exists>r s'. x = Some (r, s') \<and> sched_inv s' \<and> (\<forall>m. r \<noteq> Panicked m) \<and> (r = Undefined \<longrightarrow> u))"

lemma safe_Returned: "sched_inv s \<Longrightarrow> safe_result u (Some (Returned, s))"
  by (simp add: safe_result_def)

lemma safe_mono: "safe_result False x \<Longrightarrow> safe_result u x"
  by (auto simp: safe_result_def)

lemma schedule_inv:
  assumes "sched_inv s"
  shows "safe_result False (schedule_kernel_thread_current_saved s)"
proof (cases "running_kernel_thread s = NULL \<or> cur_task s \<noteq> nuc_gui_task s")
  case True
  then have "schedule_kernel_thread_current_saved s = Some (Returned, s)"
    by (auto simp: schedule_kernel_thread_current_saved_def)
  with assms show ?thesis by (simp add: safe_Returned)
next
  case False
  with assms obtain xs where "good_ring s xs" by (auto simp: sched_inv_def)
  from schedule_good [OF this] False obtain t s' ys
    where "schedule_kernel_thread_current_saved s = Some (Resumed t, s')" "good_ring s' ys" by blast
  then show ?thesis by (auto simp: sched_inv_def safe_result_def)
qed

lemma sched_inv_same:
  assumes "sched_inv s" and "th_next s' = th_next s" and "running_kernel_thread s' = running_kernel_thread s"
    and "th_main s' = th_main s" and "\<And>t. th_waiting s' t < 0xFFFFFFFF \<or> th_waiting s' t \<le> th_waiting s t"
  shows "sched_inv s'"
proof (cases "running_kernel_thread s = NULL")
  case True
  then show ?thesis using assms(3) by (simp add: sched_inv_def)
next
  case False
  with assms(1) obtain xs where "good_ring s xs" by (auto simp: sched_inv_def)
  from good_ring_same [OF this assms(2-5)] show ?thesis by (auto simp: sched_inv_def)
qed

lemma wait_ticks_bound:
  assumes "millis div k < (0xFFFFFFFE :: u32)"
  shows "millis div k + 1 < 0xFFFFFFFF" and "millis div k < 0xFFFFFFFF"
  using assms by (simp_all add: unat_less_u32 unat_add_u32)

lemma wait_inv:
  assumes "sched_inv s" and "millis div timeslice_length s < 0xFFFFFFFE"
  shows "safe_result (timeslice_length s = 0) (scheduler_kernel_thread_wait t millis base frame s)"
proof -
  note b = wait_ticks_bound [OF assms(2)]
  let ?r = "running_kernel_thread s" and ?k = "millis div timeslice_length s"
  have "sched_inv (mark_as_finished (save_syscall_regs base frame (set_waiting ?r (?k + 1) (set_status ?r SVC_THREAD_WAITING (disableFIQ s)))))"
    using assms(1) by (rule sched_inv_same) (simp_all add: thread_simps b)
  then have 1: "safe_result False (schedule_kernel_thread_current_saved
      (mark_as_finished (save_syscall_regs base frame (set_waiting ?r (?k + 1) (set_status ?r SVC_THREAD_WAITING (disableFIQ s))))))"
    by (rule schedule_inv)
  have 2: "safe_result False (Some (Returned, enableFIQ (set_waiting t ?k (set_status t SVC_THREAD_WAITING (disableFIQ s)))))"
    by (rule safe_Returned, rule sched_inv_same [OF assms(1)]) (simp_all add: thread_simps b)
  have 3: "safe_result False (Some (Returned, msleep millis s))" "safe_result True (Some (Undefined, s))" "safe_result False (Some (Returned, s))"
    using sched_inv_same [OF assms(1), of "msleep millis s"] assms(1) by (simp_all add: safe_result_def thread_simps)
  show ?thesis
    using 1 2 3 unfolding scheduler_kernel_thread_wait_def
    by (simp add: Let_def thread_simps safe_mono)
qed

lemma wait_thread_inv:
  assumes "sched_inv s"
  shows "safe_result False (scheduler_kernel_thread_wait_thread t wait_for base frame s)"
proof -
  let ?r = "running_kernel_thread s"
  have "sched_inv (mark_as_finished (save_syscall_regs base frame (set_status_data ?r wait_for (set_status ?r SVC_THREAD_WAITING_FOR (disableFIQ s)))))"
    using assms(1) by (rule sched_inv_same) (simp_all add: thread_simps)
  then have 1: "safe_result False (schedule_kernel_thread_current_saved
      (mark_as_finished (save_syscall_regs base frame (set_status_data ?r wait_for (set_status ?r SVC_THREAD_WAITING_FOR (disableFIQ s))))))"
    by (rule schedule_inv)
  have 2: "safe_result False (Some (Returned, enableFIQ (set_status_data t wait_for (set_status t SVC_THREAD_WAITING_FOR (disableFIQ s)))))"
    by (rule safe_Returned, rule sched_inv_same [OF assms(1)]) (simp_all add: thread_simps)
  show ?thesis
    using 1 2 safe_Returned [OF assms] unfolding scheduler_kernel_thread_wait_thread_def
    by (simp add: Let_def thread_simps)
qed

lemma timer_inv:
  assumes "sched_inv s"
  shows "safe_result False (schedule_kernel_thread regs svc_regs spsr svc_spsr s)"
proof -
  have "sched_inv (save_interrupted regs svc_regs spsr svc_spsr s)"
    using assms by (rule sched_inv_same) (simp_all add: save_interrupted_def)
  then have "safe_result False (schedule_kernel_thread_current_saved (save_interrupted regs svc_regs spsr svc_spsr s))"
    by (rule schedule_inv)
  moreover have "tick_walk (running_kernel_thread s) s = Some s" by (subst tick_walk.simps) simp
  ultimately show ?thesis using safe_Returned [OF assms] by (simp add: schedule_kernel_thread_def)
qed

lemma good_ring_shrink:
  assumes "good_ring s xs" and "ring s' ys" and "th_main s' = th_main s" and "th_waiting s' = th_waiting s"
    and "set (running_kernel_thread s' # ys) = set (running_kernel_thread s # xs) - {t}" and "\<not> th_main s t"
  shows "good_ring s' ys"
proof -
  from assms(1) obtain m where "m \<in> set (running_kernel_thread s # xs)" "th_main s m"
    unfolding good_ring_def list_ex_iff by blast
  with assms(6) have "m \<in> set (running_kernel_thread s' # ys)" "th_main s' m" unfolding assms(3,5) by auto
  then have "list_ex (th_main s') (running_kernel_thread s' # ys)" unfolding list_ex_iff by blast
  moreover have "list_all (\<lambda>t. th_waiting s' t < 0xFFFFFFFF) (running_kernel_thread s' # ys)"
    using assms(1) unfolding good_ring_def list_all_iff assms(4,5) by blast
  ultimately show ?thesis using assms(2) by (simp only: good_ring_def)
qed

lemma destroy_self_inv:
  assumes "sched_inv s"
  shows "safe_result False (scheduler_svc_thread_destroy_self s)"
proof (cases "running_kernel_thread s = NULL \<or> th_main s (running_kernel_thread s)
    \<or> th_next s (running_kernel_thread s) = running_kernel_thread s")
  case True
  then have "scheduler_svc_thread_destroy_self s = Some (Returned, s)" by (simp add: scheduler_svc_thread_destroy_self_def)
  with assms show ?thesis by (simp add: safe_Returned)
next
  case False
  let ?r = "running_kernel_thread s"
  from False assms obtain xs where g: "good_ring s xs" by (auto simp: sched_inv_def)
  then have r: "ring s xs" by (simp add: good_ring_def)
  with False obtain y ys where xs: "xs = y # ys" by (cases xs) (auto simp: ring_def)
  define s' where "s' = destroy_svc_thread ?r
    ((set_th_next (last (y # ys)) y (released ?r (y # ys) (disableFIQ s)))\<lparr>running_kernel_thread := y\<rparr>)"
  from False have nm: "\<not> th_main s ?r" by blast
  note spec = destroy_self_spec [OF r [unfolded xs] nm, folded s'_def]
  have "distinct (?r # y # ys)" using r unfolding xs by (simp only: ring_def)
  then have "set (running_kernel_thread s' # ys) = set (?r # xs) - {?r}" by (auto simp: s'_def thread_simps xs)
  then have "good_ring s' ys"
    using spec(2) nm by (intro good_ring_shrink [OF g]) (simp_all add: s'_def thread_simps)
  then have "sched_inv s'" by (auto simp: sched_inv_def)
  then show ?thesis unfolding spec(1) by (rule schedule_inv)
qed

lemma safe_map_Returned:
  assumes "safe_result u x" and "\<And>s. sched_inv s \<Longrightarrow> sched_inv (f s)"
  shows "safe_result u (map_option (\<lambda>(r, s). case r of Returned \<Rightarrow> (Returned, f s) | _ \<Rightarrow> (r, s)) x)"
proof -
  from assms(1) obtain r s' where "x = Some (r, s')" "sched_inv s'" "\<forall>m. r \<noteq> Panicked m" "r = Undefined \<longrightarrow> u"
    unfolding safe_result_def by blast
  with assms(2) show ?thesis by (cases r) (simp_all add: safe_result_def)
qed

lemma enableFIQ_inv: "sched_inv s \<Longrightarrow> sched_inv (enableFIQ s)" "sched_inv s \<Longrightarrow> sched_inv (disableFIQ s)"
    "sched_inv s \<Longrightarrow> sched_inv (mark_as_finished s)"
  by (erule sched_inv_same; simp add: thread_simps)+

lemma remove_inv:
  assumes "sched_inv s"
  shows "safe_result False (scheduler_remove_kernel_thread t s)"
proof -
  let ?r = "running_kernel_thread s"
  consider (nothing) "t = NULL \<or> ?r = NULL \<or> th_main s t" | (self) "t \<noteq> NULL" "?r \<noteq> NULL" "\<not> th_main s t" "t = ?r"
    | (other) "t \<noteq> NULL" "?r \<noteq> NULL" "\<not> th_main s t" "t \<noteq> ?r" by blast
  then show ?thesis
  proof cases
    case nothing
    then have "scheduler_remove_kernel_thread t s = Some (Returned, s)" by (simp add: scheduler_remove_kernel_thread_def)
    with assms show ?thesis by (simp add: safe_Returned)
  next
    case self
    have "safe_result False (scheduler_svc_thread_destroy_self (mark_as_finished (disableFIQ s)))"
      by (intro destroy_self_inv enableFIQ_inv assms)
    from safe_map_Returned [OF this enableFIQ_inv(1)] self show ?thesis
      by (simp add: scheduler_remove_kernel_thread_def Let_def thread_simps)
  next
    case other
    with assms obtain xs where g: "good_ring s xs" by (auto simp: sched_inv_def)
    then have r: "ring s xs" by (simp add: good_ring_def)
    show ?thesis
    proof (cases "t \<in> set xs")
      case True
      then obtain us vs where xs: "xs = us @ t # vs" by (meson split_list)
      define s' where "s' = enableFIQ (released t (?r # us @ vs)
        (destroy_svc_thread t (set_th_next (last (?r # us)) (th_next s t) (disableFIQ s))))"
      note spec = remove_spec [OF r [unfolded xs] other(3), folded s'_def]
      have "distinct (?r # us @ t # vs)" using r unfolding xs by (simp only: ring_def)
      then have "set (running_kernel_thread s' # us @ vs) = set (?r # xs) - {t}"
        by (auto simp: s'_def thread_simps xs)
      then have "good_ring s' (us @ vs)"
        using spec(2) other(3) by (intro good_ring_shrink [OF g]) (simp_all add: s'_def thread_simps)
      then have "sched_inv s'" by (auto simp: sched_inv_def)
      then show ?thesis unfolding spec(1) by (rule safe_Returned)
    next
      case False
      from r have p: "path (th_next s) ?r (?r # xs) ?r" by (simp only: ring_def)
      have "th_next s x \<in> set (?r # xs)" if "x \<in> set (?r # xs)" for x
      proof -
        have "map (th_next s) (?r # xs) = xs @ [?r]" using path_map_next [OF p] by simp
        then have "th_next s ` set (?r # xs) = set (xs @ [?r])" by (metis list.set_map)
        with that show ?thesis by (metis image_eqI set_append list.set(2) list.set(1) Un_insert_right Un_empty_right)
      qed
      then have none: "List.find (\<lambda>p. th_next s p = t) (?r # xs) = None"
        using other(4) False unfolding find_None_iff by (metis set_ConsD)
      have rd: "ring (disableFIQ s) xs" using r by (simp add: ring_def thread_simps)
      have "scheduler_remove_kernel_thread t s = Some (Returned, enableFIQ (disableFIQ s))"
        using other none scan_threads_ring [OF rd, of "\<lambda>x. th_next s x = t"]
        by (simp add: scheduler_remove_kernel_thread_def Let_def thread_simps del: find.simps)
      then show ?thesis by (simp add: safe_Returned enableFIQ_inv assms)
    qed
  qed
qed

lemma disable_inv:
  assumes "sched_inv s"
  shows "\<exists>s'. scheduler_disable_kernel_thread_scheduling s = Some s' \<and> sched_inv s'"
proof (cases "running_kernel_thread s = NULL")
  case True
  then show ?thesis using assms by (simp add: scheduler_disable_kernel_thread_scheduling_def)
next
  case False
  with assms obtain xs where "ring s xs" by (auto simp: sched_inv_def good_ring_def)
  from disable_spec [OF this] show ?thesis using assms by (auto simp: sched_inv_def)
qed

lemma create_fields:
  "th_next (create_svc_thread e t st n a s) = (th_next s)(t := NULL)"
  "th_main (create_svc_thread e t st n a s) = (th_main s)(t := False)"
  "th_waiting (create_svc_thread e t st n a s) = (th_waiting s)(t := 0)"
  "running_kernel_thread (create_svc_thread e t st n a s) = running_kernel_thread s"
  by (simp_all add: create_svc_thread_def)

lemma enable_inv:
  assumes "sched_inv s" and "t \<noteq> NULL"
  shows "sched_inv (scheduler_enable_kernel_thread_scheduling e t s)"
proof (cases "running_kernel_thread s = NULL")
  case True
  then have "good_ring (scheduler_enable_kernel_thread_scheduling e t s) []"
    using assms(2)
    by (simp add: scheduler_enable_kernel_thread_scheduling_def Let_def good_ring_def ring_def create_fields thread_simps
        set_th_next_def)
  then show ?thesis by (auto simp: sched_inv_def)
next
  case False
  then show ?thesis using assms by (simp add: scheduler_enable_kernel_thread_scheduling_def)
qed

text \<open>A new thread gets memory that no thread of the ring uses.\<close>

definition unused_thread :: "addr \<Rightarrow> threads \<Rightarrow> bool" where
  "unused_thread t s \<longleftrightarrow> t \<noteq> NULL \<and> (\<forall>xs. ring s xs \<longrightarrow> t \<notin> set (running_kernel_thread s # xs))"

lemma add_inv:
  assumes "sched_inv s" and "unused_thread t s"
  shows "sched_inv (scheduler_add_kernel_thread t (create_svc_thread e t st n a s))"
proof (cases "running_kernel_thread s = NULL")
  case True
  then show ?thesis by (simp add: scheduler_add_kernel_thread_def create_fields sched_inv_def)
next
  case False
  let ?c = "create_svc_thread e t st n a s" and ?r = "running_kernel_thread s"
  from False assms(1) obtain xs where g: "good_ring s xs" by (auto simp: sched_inv_def)
  then have t: "t \<noteq> NULL" "t \<notin> set (?r # xs)" using assms(2) by (auto simp: unused_thread_def good_ring_def)
  from g have p: "path (th_next s) ?r (?r # xs) ?r" "distinct (?r # xs)" by (simp_all only: good_ring_def ring_def)
  have "path (th_next ?c) ?r (?r # xs) ?r" unfolding create_fields by (subst path_upd [OF t(2)]) (rule p(1))
  from thread_ring.insert_after [OF this p(2) t]
  have "path (th_next (scheduler_add_kernel_thread t ?c)) ?r (?r # t # xs) ?r"
    using t False by (simp add: scheduler_add_kernel_thread_def Let_def thread_simps create_fields)
  moreover have f: "running_kernel_thread (scheduler_add_kernel_thread t ?c) = ?r"
      "th_main (scheduler_add_kernel_thread t ?c) = (th_main s)(t := False)"
      "th_waiting (scheduler_add_kernel_thread t ?c) = (th_waiting s)(t := 0)"
    using t False by (simp_all add: scheduler_add_kernel_thread_def Let_def thread_simps create_fields)
  moreover have "distinct (?r # t # xs)" using p(2) t(2) by auto
  ultimately have "ring (scheduler_add_kernel_thread t ?c) (t # xs)" by (simp only: ring_def)
  moreover have "list_ex ((th_main s)(t := False)) (?r # t # xs)"
    using g t(2) by (auto simp: good_ring_def list_ex_iff)
  moreover have "list_all (\<lambda>x. ((th_waiting s)(t := 0)) x < 0xFFFFFFFF) (?r # t # xs)"
    using g by (simp add: good_ring_def list_all_iff)
  ultimately have "good_ring (scheduler_add_kernel_thread t ?c) (t # xs)" by (simp only: good_ring_def f)
  then show ?thesis by (auto simp: sched_inv_def)
qed

text \<open>
  The operations the system calls and the timer interrupt run, in any order. \<open>Task\<close> is the TI OS
  changing its current task.
\<close>

inductive sched_step :: "threads \<Rightarrow> outcome \<Rightarrow> threads \<Rightarrow> bool" where
  Enable: "t \<noteq> NULL \<Longrightarrow> sched_step s Returned (scheduler_enable_kernel_thread_scheduling e t s)"
| Disable: "scheduler_disable_kernel_thread_scheduling s = Some s' \<Longrightarrow> sched_step s Returned s'"
| Create: "unused_thread t s \<Longrightarrow>
    sched_step s Returned (scheduler_add_kernel_thread t (create_svc_thread e t stack stacksize entry s))"
| Remove: "scheduler_remove_kernel_thread t s = Some (r, s') \<Longrightarrow> sched_step s r s'"
| Wait: "millis div timeslice_length s < 0xFFFFFFFE \<Longrightarrow>
    scheduler_kernel_thread_wait t millis base frame s = Some (r, s') \<Longrightarrow> sched_step s r s'"
| Wait_for: "scheduler_kernel_thread_wait_thread t wait_for base frame s = Some (r, s') \<Longrightarrow> sched_step s r s'"
| Timer: "schedule_kernel_thread regs svc_regs spsr svc_spsr s = Some (r, s') \<Longrightarrow> sched_step s r s'"
| Exit: "scheduler_svc_thread_destroy_self s = Some (r, s') \<Longrightarrow> sched_step s r s'"
| Timeslice: "sched_step s Returned (scheduler_set_timelice_length millis s)"
| Task: "sched_step s Returned (s\<lparr>cur_task := task\<rparr>)"

inductive sched_reachable :: "threads \<Rightarrow> bool" where
  Start: "running_kernel_thread s = NULL \<Longrightarrow> sched_reachable s"
| Step: "sched_reachable s \<Longrightarrow> sched_step s r s' \<Longrightarrow> sched_reachable s'"

lemma step_inv:
  assumes "sched_step s r s'" and "sched_inv s"
  shows "sched_inv s' \<and> (\<forall>m. r \<noteq> Panicked m) \<and> (r = Undefined \<longrightarrow> timeslice_length s = 0)"
  using assms
proof cases
  case (Enable t e)
  then show ?thesis using enable_inv assms(2) by simp
next
  case Disable
  then show ?thesis using disable_inv [OF assms(2)] by simp
next
  case (Create t e stack stacksize entry)
  then show ?thesis using add_inv [OF assms(2)] by simp
next
  case (Remove t)
  then show ?thesis using remove_inv [OF assms(2), of t] by (simp add: safe_result_def)
next
  case (Wait millis t base frame)
  then show ?thesis using wait_inv [OF assms(2), of millis t base frame] by (simp add: safe_result_def)
next
  case (Wait_for t wait_for base frame)
  then show ?thesis using wait_thread_inv [OF assms(2), of t wait_for base frame] by (simp add: safe_result_def)
next
  case (Timer regs svc_regs spsr svc_spsr)
  then show ?thesis using timer_inv [OF assms(2), of regs svc_regs spsr svc_spsr] by (simp add: safe_result_def)
next
  case Exit
  then show ?thesis using destroy_self_inv [OF assms(2)] by (simp add: safe_result_def)
next
  case (Timeslice millis)
  have "sched_inv (scheduler_set_timelice_length millis s)"
    using assms(2) by (rule sched_inv_same) (simp_all add: scheduler_set_timelice_length_def)
  with Timeslice show ?thesis by simp
next
  case (Task task)
  have "sched_inv (s\<lparr>cur_task := task\<rparr>)" using assms(2) by (rule sched_inv_same) simp_all
  with Task show ?thesis by simp
qed

lemma reachable_inv: "sched_reachable s \<Longrightarrow> sched_inv s"
proof (induction rule: sched_reachable.induct)
  case (Start s)
  then show ?case by (simp add: sched_inv_def)
next
  case (Step s r s')
  then show ?case using step_inv by blast
qed

text \<open>
  C8. In every state the operations of the scheduler can reach, scheduling is off or the threads form a ring
  with a main thread in it; every operation ends, a wait for a time when it is shorter than 0xFFFFFFFE time slices; none panics, and
  the behaviour is only undefined when the length of a time slice is 0.
\<close>

theorem scheduler_safe:
  assumes "sched_reachable s"
  shows "(running_kernel_thread s = NULL \<or> (\<exists>xs. ring s xs \<and> list_ex (th_main s) (running_kernel_thread s # xs)))
    \<and> scheduler_disable_kernel_thread_scheduling s \<noteq> None \<and> scheduler_remove_kernel_thread t s \<noteq> None
    \<and> scheduler_svc_thread_destroy_self s \<noteq> None \<and> schedule_kernel_thread regs svc_regs spsr svc_spsr s \<noteq> None
    \<and> schedule_kernel_thread_current_saved s \<noteq> None
    \<and> scheduler_kernel_thread_wait_thread u w base frame s \<noteq> None
    \<and> (millis div timeslice_length s < 0xFFFFFFFE \<longrightarrow> scheduler_kernel_thread_wait u millis base frame s \<noteq> None)
    \<and> (\<forall>r s'. sched_step s r s' \<longrightarrow> (\<forall>m. r \<noteq> Panicked m) \<and> (r = Undefined \<longrightarrow> timeslice_length s = 0))"
proof -
  note inv = reachable_inv [OF assms]
  have n: "x \<noteq> None" if "safe_result b x" for b x using that by (auto simp: safe_result_def)
  have w: "millis div timeslice_length s < 0xFFFFFFFE \<longrightarrow> scheduler_kernel_thread_wait u millis base frame s \<noteq> None"
    using n wait_inv [OF inv] by blast
  have st: "\<forall>r s'. sched_step s r s' \<longrightarrow> (\<forall>m. r \<noteq> Panicked m) \<and> (r = Undefined \<longrightarrow> timeslice_length s = 0)"
    using step_inv [OF _ inv] by blast
  show ?thesis
  proof (intro conjI w st n)
    show "running_kernel_thread s = NULL \<or> (\<exists>xs. ring s xs \<and> list_ex (th_main s) (running_kernel_thread s # xs))"
      using inv by (auto simp: sched_inv_def good_ring_def)
    show "scheduler_disable_kernel_thread_scheduling s \<noteq> None" using disable_inv [OF inv] by auto
  qed (rule remove_inv destroy_self_inv timer_inv schedule_inv wait_thread_inv inv)+
qed

section \<open>An example\<close>

text \<open>
  Three threads: the main thread at 0x100 runs, the one at 0x200 waits 5 ticks, the one at 0x300
  waits for the one at 0x200.
\<close>

definition threads_off :: threads where
  "threads_off = \<lparr>th_regs = (\<lambda>_ _. 0), th_main = (\<lambda>_. False), th_stack = (\<lambda>_. 0), th_stacksize = (\<lambda>_. 0),
     th_status = (\<lambda>_. 0), th_waiting = (\<lambda>_. 0), th_status_data = (\<lambda>_. 0), th_next = (\<lambda>_. 0),
     running_kernel_thread = 0, timeslice_length = 2, nuc_gui_task = 0, cur_task = 7, irq_on = True,
     scheduler_timer_on = False, scheduler_timer_load = 0, sys = \<lparr>syscalls_active = 0, fiq_on = True\<rparr>,
     slept = [], th_freed = []\<rparr>"

definition threads_example :: threads where
  "threads_example = threads_off\<lparr>th_main := (\<lambda>_. False)(0x100 := True),
     th_next := (\<lambda>_. 0)(0x100 := 0x200, 0x200 := 0x300, 0x300 := 0x100),
     th_status := (\<lambda>_. 0)(0x200 := 1, 0x300 := 2), th_waiting := (\<lambda>_. 0)(0x200 := 5),
     th_status_data := (\<lambda>_. 0)(0x300 := 0x200), running_kernel_thread := 0x100, nuc_gui_task := 7\<rparr>"

lemma ring_example: "ring threads_example [0x200, 0x300]"
  by (simp add: ring_def threads_example_def)

text \<open>The same threads when the main one waits for the second: all are blocked or asleep.\<close>

definition threads_asleep :: threads where
  "threads_asleep = threads_example\<lparr>th_status := (\<lambda>_. 2)(0x200 := 1)\<rparr>"

lemma schedule_correct_witness:
  "\<exists>s'. schedule_kernel_thread_current_saved threads_asleep = Some (Resumed 0x200, s') \<and> slept s' = [10]
     \<and> th_status s' 0x200 = SVC_THREAD_RUNNABLE"
proof -
  note defs = threads_asleep_def threads_example_def threads_off_def
  have r: "ring threads_asleep [0x200, 0x300]" by (simp add: ring_def defs)
  have run: "running_kernel_thread threads_asleep = 0x100" by (simp add: defs)
  have task: "cur_task threads_asleep = nuc_gui_task threads_asleep" by (simp add: defs)
  have w: "waiting_threads threads_asleep [0x100, 0x200, 0x300] = [0x200]" by (simp add: waiting_threads_def defs)
  then have m: "min_ticks threads_asleep [0x100, 0x200, 0x300] = 5" by (simp add: min_ticks_def defs)
  with w have l: "last_min threads_asleep [0x100, 0x200, 0x300] = 0x200" by (simp add: last_min_def defs)
  have f: "List.find (\<lambda>t. th_status threads_asleep t = SVC_THREAD_RUNNABLE) [0x100, 0x200, 0x300] = None" by (simp add: defs)
  have b: "\<forall>t \<in> set (waiting_threads threads_asleep (running_kernel_thread threads_asleep # [0x200, 0x300])).
      th_waiting threads_asleep t < 0xFFFFFFFF"
    unfolding run w by (simp add: defs)
  have "schedule_kernel_thread_current_saved threads_asleep = Some (Resumed 0x200,
      aged 5 [0x100, 0x200, 0x300] (disableFIQ (msleep 10 threads_asleep))\<lparr>scheduler_timer_on := True, running_kernel_thread := 0x200\<rparr>)"
    using schedule_correct [OF r task b] unfolding run f w m l by (simp add: defs)
  moreover have "slept (aged 5 [0x100, 0x200, 0x300] (disableFIQ (msleep 10 threads_asleep))) = [10]"
    "th_status (aged 5 [0x100, 0x200, 0x300] (disableFIQ (msleep 10 threads_asleep))) 0x200 = 0"
    by (simp_all add: aged_def disableFIQ_def msleep_def waiting_threads_def defs)
  ultimately show ?thesis by simp
qed

lemma timer_interrupt_keeps_running_witness:
  "schedule_kernel_thread (\<lambda>_. 0) (\<lambda>_. 0) 0x13 0 threads_example
     = Some (Resumed 0x100, save_interrupted (\<lambda>_. 0) (\<lambda>_. 0) 0x13 0 threads_example)"
  using timer_interrupt_keeps_running [OF ring_example, where spsr = "0x13" and regs = "\<lambda>_. 0" and svc_regs = "\<lambda>_. 0" and svc_spsr = 0]
  by (simp add: threads_example_def threads_off_def)

lemma add_kernel_thread_ring_witness:
  "ring (scheduler_add_kernel_thread 0x400 threads_example) [0x400, 0x200, 0x300]"
  using add_kernel_thread_ring [OF ring_example, of "0x400"] by (simp add: threads_example_def)

lemma remove_kernel_thread_correct_witness:
  "\<exists>s'. scheduler_remove_kernel_thread 0x200 threads_example = Some (Returned, s') \<and> ring s' [0x300]
     \<and> th_freed s' = [0x200] \<and> th_status s' 0x300 = SVC_THREAD_RUNNABLE"
  using remove_kernel_thread_correct [of threads_example "[]" "0x200" "[0x300]"] ring_example
  by (auto simp: threads_example_def threads_off_def)

lemma disable_scheduling_correct_witness:
  "\<exists>s'. scheduler_disable_kernel_thread_scheduling threads_example = Some s' \<and> th_freed s' = [0x100, 0x200, 0x300]"
  by (subst disable_scheduling_correct [OF ring_example]) (simp add: threads_example_def threads_off_def)

lemma scheduler_safe_witness:
  "\<exists>s xs. sched_reachable s \<and> ring s xs \<and> length xs = 1 \<and> scheduler_remove_kernel_thread 0x200 s \<noteq> None"
proof -
  let ?s = "scheduler_enable_kernel_thread_scheduling 0x9000 0x100 threads_off"
  let ?t = "scheduler_add_kernel_thread 0x200 (create_svc_thread 0x9000 0x200 0x5000 0x1000 0x8000 ?s)"
  have f: "th_next ?s 0x100 = 0x100" "running_kernel_thread ?s = 0x100"
    by (simp_all add: scheduler_enable_kernel_thread_scheduling_def Let_def create_svc_thread_def threads_off_def set_th_next_def)
  have "xs = []" if "ring ?s xs" for xs using that f by (cases xs) (auto simp: ring_def)
  then have "unused_thread 0x200 ?s" unfolding unused_thread_def f by fastforce
  moreover have "sched_reachable ?s"
    by (rule Step [OF Start Enable]) (simp_all add: threads_off_def)
  ultimately have r: "sched_reachable ?t" by (intro Step [OF _ Create])
  have "ring ?t [0x200]"
    using f by (simp add: ring_def scheduler_add_kernel_thread_def Let_def thread_simps create_fields)
  with r scheduler_safe [OF r, of "0x200"] show ?thesis by (intro exI [of _ ?t] exI [of _ "[0x200]"]) simp
qed

end
