(* ===== verification/System_Time.thy ===== *)
theory System_Time
  imports Devices "HOL-Library.Monad_Syntax" "HOL-Library.Signed_Division"
begin

text \<open>
  The system time, drivers/systime.c: the clock kept in the real time clock and in a timer, and the
  conversion between unix time and calendar dates. An \<open>int64_t\<close> is an integer; where the code can leave
  its range the result is wrapped. \<open>systime_unix_micro\<close>, which computes with doubles, is left out.
\<close>

section \<open>The clock\<close>

record systime = mmio +
  timer_milis_overflows :: u32
  timer_seconds_overflows :: u32

abbreviation wrap64 :: "int \<Rightarrow> int" where
  "wrap64 i \<equiv> signed_take_bit 63 i"

definition systime_rtc_overflow :: "systime \<Rightarrow> systime" where
  "systime_rtc_overflow s = s\<lparr>timer_seconds_overflows := timer_seconds_overflows s + 1\<rparr>"

definition systime_timer_overflow :: "systime \<Rightarrow> systime" where
  "systime_timer_overflow s = s\<lparr>timer_milis_overflows := timer_milis_overflows s + 1\<rparr>"

definition systime_unix :: "systime \<Rightarrow> int" where
  "systime_unix s = wrap64 (wrap64 (uint (timer_seconds_overflows s) * 0x100000000) + uint (rtc_get_value s))"

definition systime_unix_milli :: "systime \<Rightarrow> int \<times> systime" where
  "systime_unix_milli s =
     (let (v, s) = timer_value 1 0 s
      in (wrap64 (uint (timer_milis_overflows s) * 0x100000000) sdiv 32 + uint ((0xffffffff - v) div 32), s))"

definition systime_set_unix_milli :: "int \<Rightarrow> systime \<Rightarrow> systime" where
  "systime_set_unix_milli unix_time_milis s =
     (if unix_time_milis \<le> 0 then s
      else
        let seconds = unix_time_milis sdiv 1000;
            milis_remaining = unix_time_milis - seconds * 1000;
            s = timer_set_load 1 0 (word_of_int (0xffffffff - milis_remaining * 32)) s;
            unix_time = unix_time_milis sdiv 1000;
            s = s\<lparr>timer_seconds_overflows := word_of_int (unix_time div 0x100000000)\<rparr>
        in rtc_set_value (word_of_int (unix_time mod 0x100000000)) s)"

definition systime_set_unix :: "int \<Rightarrow> systime \<Rightarrow> systime" where
  "systime_set_unix unix_time s =
     (if unix_time \<le> 0 then s
      else
        let s = s\<lparr>timer_seconds_overflows := word_of_int (unix_time sdiv 0x100000000)\<rparr>;
            s = rtc_set_value (word_of_int (unix_time smod 0x100000000)) s;
            s = s\<lparr>timer_milis_overflows := word_of_int (wrap64 (unix_time * 1000) sdiv (0x100000000 div 32))\<rparr>;
            milis_remaining = word_of_int (wrap64 (unix_time * 1000) smod (0x100000000 div 32)) :: u32
        in timer_set_load 1 0 (0xffffffff - milis_remaining * 32) s)"

definition systime_init :: "systime \<Rightarrow> systime" where
  "systime_init s =
     (let s = timer_disable 1 0 s;
          s = timer_set_clockselect 1 0 0xa s;
          s = timer_set_prescaler 1 0 0 s;
          s = timer_set_mode 1 0 0 s;
          s = timer_set_oneshot 1 0 False s;
          s = timer_set_size 1 0 1 s;
          s = timer_set_load 1 0 0xffffffff s;
          s = timer_enable 1 0 s;
          s = rtc_claim s;
          s = rtc_set_alarm 0 s
      in systime_set_unix (systime_unix s) s)"

section \<open>Dates\<close>

definition days_in_month :: "u32 \<Rightarrow> u32 \<Rightarrow> u32" where
  "days_in_month year month =
     (if month = 1 then 31
      else if month = 2 then
        if year mod 4 = 0 then if year mod 100 = 0 then if year mod 400 = 0 then 29 else 28 else 29 else 28
      else if month = 3 then 31
      else if month = 4 then 30
      else if month = 5 then 31
      else if month = 6 then 30
      else if month = 7 then 31
      else if month = 8 then 31
      else if month = 9 then 30
      else if month = 10 then 31
      else if month = 11 then 30
      else if month = 12 then 31
      else 0)"

definition days_in_year :: "u32 \<Rightarrow> u32" where
  "days_in_year year =
     (if year mod 4 = 0 then if year mod 100 = 0 then if year mod 400 = 0 then 366 else 365 else 366 else 365)"

text \<open>The loops over the months and over the years of \<open>systime_timestamp_to_unix\<close>.\<close>

definition add_months :: "u32 \<Rightarrow> u32 \<Rightarrow> int \<Rightarrow> int" where
  "add_months year month unix =
     fold (\<lambda>_ unix. unix + uint (days_in_month year month * 24 * 60 * 60)) [0..<unat month] unix"

definition sub_years :: "u32 \<Rightarrow> int \<Rightarrow> int" where
  "sub_years year unix = fold (\<lambda>y unix. unix - uint (days_in_year (of_nat y) * 24 * 60 * 60)) [unat year..<1970] unix"

definition add_years :: "u32 \<Rightarrow> int \<Rightarrow> int" where
  "add_years year unix = fold (\<lambda>y unix. unix + uint (days_in_year (of_nat y) * 24 * 60 * 60)) (rev [1971..<unat year + 1]) unix"

definition systime_timestamp_to_unix :: "u32 \<Rightarrow> u32 \<Rightarrow> u32 \<Rightarrow> u32 \<Rightarrow> u32 \<Rightarrow> u32 \<Rightarrow> int" where
  "systime_timestamp_to_unix year month day hour minute second =
     (let unix = uint second;
          unix = unix + uint (minute * 60);
          unix = unix + uint (hour * 60 * 60);
          unix = unix + uint (day * 24 * 60 * 60);
          unix = add_months year month unix
      in if year = 1970 then unix
         else if year < 1970 then sub_years year unix
         else add_years year unix)"

text \<open>
  The loops of \<open>systime_unix_to_timestamp\<close>: as long as there are seconds left, those of the next year,
  month, day, hour or minute are taken off. \<open>None\<close> is a loop that does not end.
\<close>

partial_function (option) count_loop :: "(u32 \<Rightarrow> int) \<Rightarrow> int \<Rightarrow> u32 \<Rightarrow> (int \<times> u32) option" where
  "count_loop len unix n = (if unix > 0 then count_loop len (unix - len n) (n + 1) else Some (unix, n))"

definition store_unless_null :: "addr \<Rightarrow> u32 \<Rightarrow> (addr \<Rightarrow> u32) \<Rightarrow> addr \<Rightarrow> u32" where
  "store_unless_null p v m = (if p \<noteq> NULL then m(p := v) else m)"

definition systime_unix_to_timestamp ::
  "int \<Rightarrow> addr \<Rightarrow> addr \<Rightarrow> addr \<Rightarrow> addr \<Rightarrow> addr \<Rightarrow> addr \<Rightarrow> (addr \<Rightarrow> u32) \<Rightarrow> (addr \<Rightarrow> u32) option" where
  "systime_unix_to_timestamp unix year month day hour minute second mem =
     (if unix \<le> 0 then Some mem
      else do {
        (unix, y) \<leftarrow> count_loop (\<lambda>y. uint (days_in_year y * 24 * 60 * 60)) unix 1970;
        let y = y - 1;
        let unix = unix + uint (days_in_year y * 24 * 60 * 60);
        let mem = store_unless_null year y mem;
        (unix, m) \<leftarrow> count_loop (\<lambda>m. uint (days_in_month y m * 24 * 60 * 60)) unix 1;
        let m = m - 1;
        let unix = unix + uint (days_in_month y m * 24 * 60 * 60);
        let mem = store_unless_null month m mem;
        (unix, d) \<leftarrow> count_loop (\<lambda>_. 24 * 60 * 60) unix 1;
        let d = d - 1;
        let unix = unix + 24 * 60 * 60;
        let mem = store_unless_null day d mem;
        (unix, h) \<leftarrow> count_loop (\<lambda>_. 60 * 60) unix 0;
        let h = h - 1;
        let unix = unix + 60 * 60;
        let mem = store_unless_null hour h mem;
        (unix, mi) \<leftarrow> count_loop (\<lambda>_. 60) unix 0;
        let mi = mi - 1;
        let unix = unix + 60;
        let mem = store_unless_null minute mi mem;
        Some (store_unless_null second (word_of_int unix) mem)
      })"

section \<open>The loops end\<close>

text \<open>The seconds of the first \<open>n\<close> units.\<close>

definition secs :: "(u32 \<Rightarrow> int) \<Rightarrow> u32 \<Rightarrow> nat \<Rightarrow> int" where
  "secs len y n = (\<Sum>i<n. len (y + of_nat i))"

lemma secs_0 [simp]: "secs len y 0 = 0"
  by (simp add: secs_def)

lemma secs_Suc: "secs len y (Suc n) = secs len y n + len (y + of_nat n)"
  by (simp add: secs_def)

lemma secs_shift: "secs len y (Suc n) = len y + secs len (y + 1) n"
  by (induction n) (simp_all add: secs_Suc algebra_simps)

lemma count_loop_eq:
  assumes "\<forall>i \<le> n. secs len y i < unix" and "unix \<le> secs len y (Suc n)"
  shows "count_loop len unix y = Some (unix - secs len y (Suc n), y + of_nat n + 1)"
  using assms
proof (induction n arbitrary: unix y)
  case 0
  then have "0 < unix" "unix - len y \<le> 0" by (simp_all add: secs_Suc)
  then show ?case by (subst count_loop.simps) (subst count_loop.simps, simp add: secs_Suc)
next
  case (Suc n)
  have "0 < unix" using Suc.prems(1) [rule_format, of 0] by simp
  then have "count_loop len unix y = count_loop len (unix - len y) (y + 1)"
    by (subst count_loop.simps) simp
  also have "\<dots> = Some (unix - len y - secs len (y + 1) (Suc n), y + 1 + of_nat n + 1)"
  proof (rule Suc.IH)
    show "\<forall>i \<le> n. secs len (y + 1) i < unix - len y"
    proof (intro allI impI)
      fix i assume "i \<le> n"
      then show "secs len (y + 1) i < unix - len y"
        using Suc.prems(1) [rule_format, of "Suc i"] secs_shift [of len y i] by simp
    qed
    show "unix - len y \<le> secs len (y + 1) (Suc n)" using Suc.prems(2) secs_shift [of len y "Suc n"] by simp
  qed
  finally show ?case by (simp add: secs_shift [of len y "Suc n"] algebra_simps)
qed

lemma secs_mono: "(\<And>x. 0 \<le> len x) \<Longrightarrow> i \<le> n \<Longrightarrow> secs len y i \<le> secs len y n"
  unfolding secs_def by (rule sum_mono2) auto

lemma secs_find:
  "0 < unix \<Longrightarrow> unix \<le> secs len y k \<Longrightarrow> \<exists>n<k. secs len y n < unix \<and> unix \<le> secs len y (Suc n)"
proof (induction k)
  case 0
  then show ?case by simp
next
  case (Suc k)
  then show ?case by (cases "unix \<le> secs len y k") (auto intro: less_SucI)
qed

text \<open>
  When there are enough units, the loop ends; the counter is one too far, and putting the last unit
  back leaves a positive number of seconds that is at most the length of that unit.
\<close>

lemma count_loop_spec:
  assumes "\<And>x. 0 \<le> len x" and "0 < unix" and "unix \<le> secs len y k"
  obtains n where "n < k" and "count_loop len unix y = Some (unix - secs len y n - len (y + of_nat n), y + of_nat n + 1)"
    and "secs len y n < unix" and "unix \<le> secs len y n + len (y + of_nat n)"
proof -
  from secs_find [OF assms(2,3)] obtain n where n: "n < k" "secs len y n < unix" "unix \<le> secs len y (Suc n)" by blast
  have "\<forall>i \<le> n. secs len y i < unix" using n(2) secs_mono [OF assms(1)] by (meson order_le_less_trans)
  from count_loop_eq [OF this n(3)] n show thesis by (intro that) (auto simp: secs_Suc)
qed

lemma secs_const: "secs (\<lambda>_. c) y n = int n * c"
  by (simp add: secs_def)

section \<open>The calendar\<close>

text \<open>The Gregorian calendar as the reference: the days since the first of January 1970.\<close>

definition leap :: "nat \<Rightarrow> bool" where
  "leap y \<longleftrightarrow> 4 dvd y \<and> (\<not> 100 dvd y \<or> 400 dvd y)"

definition year_days :: "nat \<Rightarrow> nat" where
  "year_days y = (if leap y then 366 else 365)"

definition month_days :: "nat \<Rightarrow> nat \<Rightarrow> nat" where
  "month_days y m =
     (if m \<in> {1, 3, 5, 7, 8, 10, 12} then 31 else if m \<in> {4, 6, 9, 11} then 30
      else if m = 2 then if leap y then 29 else 28 else 0)"

definition civil_days :: "nat \<Rightarrow> nat \<Rightarrow> nat \<Rightarrow> nat" where
  "civil_days y m d = (\<Sum>x\<in>{1970..<y}. year_days x) + (\<Sum>i\<in>{1..<m}. month_days y i) + (d - 1)"

lemma mod_leap:
  fixes y :: u32
  shows "y mod 4 = 0 \<longleftrightarrow> 4 dvd unat y" "y mod 100 = 0 \<longleftrightarrow> 100 dvd unat y" "y mod 400 = 0 \<longleftrightarrow> 400 dvd unat y"
  by (simp_all add: unat_eq_zero [symmetric] unat_mod dvd_eq_mod_eq_0)

lemma leap_cases: "400 dvd y \<Longrightarrow> 100 dvd y" "100 dvd y \<Longrightarrow> 4 dvd (y :: nat)"
  by (meson dvd_trans dvd_numeral_simp | auto elim!: dvdE simp: dvd_def)+

lemma days_in_year_eq: "days_in_year y = of_nat (year_days (unat y))"
  using leap_cases [of "unat y"] by (auto simp: days_in_year_def year_days_def leap_def mod_leap)

lemma u32_eq_unat:
  fixes m :: u32
  shows "m = numeral k \<longleftrightarrow> unat m = unat (numeral k :: u32)" "m = 1 \<longleftrightarrow> unat m = 1"
  by (simp_all add: word_unat_eq_iff)

lemma days_in_month_eq: "days_in_month y m = of_nat (month_days (unat y) (unat m))"
  using leap_cases [of "unat y"]
  by (auto simp: days_in_month_def month_days_def leap_def mod_leap u32_eq_unat)

lemma secs_of_days:
  assumes "d \<le> 366"
  shows "uint (of_nat d * 24 * 60 * 60 :: u32) = 86400 * int d"
proof -
  have "(of_nat d * 24 * 60 * 60 :: u32) = of_nat (d * 86400)" by simp
  moreover have "uint (of_nat (d * 86400) :: u32) = int (d * 86400)"
    using assms unat_of_nat_u32 [of "d * 86400"] by (simp only: uint_nat)
  ultimately show ?thesis by (simp add: mult.commute)
qed

lemma year_len: "uint (days_in_year y * 24 * 60 * 60) = 86400 * int (year_days (unat y))"
  unfolding days_in_year_eq by (rule secs_of_days) (simp add: year_days_def)

lemma month_len: "uint (days_in_month y m * 24 * 60 * 60) = 86400 * int (month_days (unat y) (unat m))"
  unfolding days_in_month_eq by (rule secs_of_days) (simp add: month_days_def)

lemma month_days_sum: "(\<Sum>i\<in>{1..<13}. month_days y i) = year_days y"
proof -
  have "{1..<13} = {1, 2, 3, 4, 5, 6, 7, 8, 9, 10, 11, 12 :: nat}" by (rule set_eqI; simp only: atLeastLessThan_iff insert_iff empty_iff; presburger)
  then show ?thesis by (simp add: month_days_def year_days_def)
qed

lemma secs_months:
  assumes "n \<le> 12"
  shows "secs (\<lambda>m. 86400 * int (month_days y (unat m))) 1 n = 86400 * int (\<Sum>i\<in>{1..<Suc n}. month_days y i)"
  using assms
proof (induction n)
  case (Suc n)
  have "unat (1 + of_nat n :: u32) = Suc n" using Suc.prems by (subst unat_add_u32) (simp_all add: unat_of_nat_u32)
  then show ?case using Suc by (simp add: secs_Suc algebra_simps)
qed simp

lemma secs_years:
  assumes "n < 4000000000"
  shows "secs (\<lambda>y. 86400 * int (year_days (unat y))) 1970 n = 86400 * int (\<Sum>x\<in>{1970..<1970 + n}. year_days x)"
  using assms
proof (induction n)
  case (Suc n)
  have u: "unat (1970 + of_nat n :: u32) = 1970 + n" using Suc.prems by (subst unat_add_u32) (simp_all add: unat_of_nat_u32)
  have "(\<Sum>x\<in>{1970..<1970 + Suc n}. year_days x) = (\<Sum>x\<in>{1970..<1970 + n}. year_days x) + year_days (1970 + n)"
    unfolding add_Suc_right by (rule sum.atLeastLessThan_Suc) simp
  moreover have "secs (\<lambda>y. 86400 * int (year_days (unat y))) 1970 n = 86400 * int (\<Sum>x\<in>{1970..<1970 + n}. year_days x)"
    using Suc.prems by (intro Suc.IH) simp
  ultimately show ?case by (simp only: secs_Suc u of_nat_add) (simp add: distrib_left)
qed simp

lemma secs_years_ge: "int n * 31536000 \<le> secs (\<lambda>y. 86400 * int (year_days (unat y))) y0 n"
proof (induction n)
  case (Suc n)
  have "365 \<le> year_days x" for x by (simp add: year_days_def)
  from this [of "unat (y0 + of_nat n)"] Suc show ?case by (simp add: secs_Suc algebra_simps)
qed simp

section \<open>From unix time to a date\<close>

text \<open>The fields that the conversion computes: the seconds of a minute are 1 to 60.\<close>

definition valid_time :: "nat \<Rightarrow> nat \<Rightarrow> nat \<Rightarrow> nat \<Rightarrow> nat \<Rightarrow> nat \<Rightarrow> bool" where
  "valid_time y m d h mi sec \<longleftrightarrow>
     1970 \<le> y \<and> 1 \<le> m \<and> m \<le> 12 \<and> 1 \<le> d \<and> d \<le> month_days y m \<and> h < 24 \<and> mi < 60 \<and> 1 \<le> sec \<and> sec \<le> 60"

definition unix_of :: "nat \<Rightarrow> nat \<Rightarrow> nat \<Rightarrow> nat \<Rightarrow> nat \<Rightarrow> nat \<Rightarrow> int" where
  "unix_of y m d h mi sec = 86400 * int (civil_days y m d) + 3600 * int h + 60 * int mi + int sec"

lemma count_loop_const:
  assumes "0 < c" and "0 < unix" and "unix \<le> int k * c" and "k < 4000000000"
  obtains n where "n < k" and "count_loop (\<lambda>_. c) unix y = Some (unix - int n * c - c, y + of_nat n + 1)"
    and "0 < unix - int n * c" and "unix - int n * c \<le> c"
proof -
  obtain n where "n < k" "count_loop (\<lambda>_. c) unix y = Some (unix - secs (\<lambda>_. c) y n - c, y + of_nat n + 1)"
    "secs (\<lambda>_. c) y n < unix" "unix \<le> secs (\<lambda>_. c) y n + c"
    by (rule count_loop_spec [of "\<lambda>_. c" unix y k]) (use assms in \<open>simp_all add: secs_const\<close>)
  then show thesis unfolding secs_const by (intro that) (assumption | linarith)+
qed

lemma count_months:
  assumes "0 < unix" and "unix \<le> 86400 * int (year_days y)"
  obtains k where "k < 12"
    and "count_loop (\<lambda>m. 86400 * int (month_days y (unat m))) unix 1
      = Some (unix - 86400 * int (\<Sum>i\<in>{1..<Suc k}. month_days y i) - 86400 * int (month_days y (Suc k)), of_nat (Suc k) + 1)"
    and "0 < unix - 86400 * int (\<Sum>i\<in>{1..<Suc k}. month_days y i)"
    and "unix - 86400 * int (\<Sum>i\<in>{1..<Suc k}. month_days y i) \<le> 86400 * int (month_days y (Suc k))"
proof -
  let ?len = "\<lambda>m :: u32. 86400 * int (month_days y (unat m))"
  have e: "{1..<Suc 12} = {1..<13 :: nat}" by simp
  have b: "unix \<le> secs ?len 1 12" using assms(2) secs_months [of 12 y] by (simp only: e month_days_sum)
  obtain k where k: "k < 12"
    "count_loop ?len unix 1 = Some (unix - secs ?len 1 k - ?len (1 + of_nat k), 1 + of_nat k + 1)"
    "secs ?len 1 k < unix" "unix \<le> secs ?len 1 k + ?len (1 + of_nat k)"
    by (rule count_loop_spec [OF _ assms(1) b]) simp_all
  have u: "unat (1 + of_nat k :: u32) = Suc k" using k(1) by (subst unat_add_u32) (simp_all add: unat_of_nat_u32)
  have s: "secs ?len 1 k = 86400 * int (\<Sum>i\<in>{1..<Suc k}. month_days y i)" using k(1) by (intro secs_months) simp
  have o: "(1 + of_nat k :: u32) = of_nat (Suc k)" by simp
  show thesis using k(2-4) unfolding s u unfolding o by (intro that [OF k(1)]) (assumption | linarith)+
qed

lemma count_years:
  assumes "0 < unix" and "unix \<le> 10 ^ 16"
  obtains n where "n < 400000000"
    and "count_loop (\<lambda>y. 86400 * int (year_days (unat y))) unix 1970
      = Some (unix - 86400 * int (\<Sum>x\<in>{1970..<1970 + n}. year_days x) - 86400 * int (year_days (1970 + n)), of_nat (1970 + n) + 1)"
    and "0 < unix - 86400 * int (\<Sum>x\<in>{1970..<1970 + n}. year_days x)"
    and "unix - 86400 * int (\<Sum>x\<in>{1970..<1970 + n}. year_days x) \<le> 86400 * int (year_days (1970 + n))"
proof -
  let ?len = "\<lambda>y :: u32. 86400 * int (year_days (unat y))"
  have b: "unix \<le> secs ?len 1970 400000000" using assms(2) secs_years_ge [of 400000000 1970] by simp
  obtain n where n: "n < 400000000"
    "count_loop ?len unix 1970 = Some (unix - secs ?len 1970 n - ?len (1970 + of_nat n), 1970 + of_nat n + 1)"
    "secs ?len 1970 n < unix" "unix \<le> secs ?len 1970 n + ?len (1970 + of_nat n)"
    by (rule count_loop_spec [OF _ assms(1) b]) simp_all
  have u: "unat (1970 + of_nat n :: u32) = 1970 + n" using n(1) by (subst unat_add_u32) (simp_all add: unat_of_nat_u32)
  have s: "secs ?len 1970 n = 86400 * int (\<Sum>x\<in>{1970..<1970 + n}. year_days x)" using n(1) by (intro secs_years) simp
  have o: "(1970 + of_nat n :: u32) = of_nat (1970 + n)" by simp
  show thesis using n(2-4) unfolding s u unfolding o by (intro that [OF n(1)]) (assumption | linarith)+
qed

lemma unix_to_timestamp_fields:
  assumes "0 < t" and "t \<le> 10 ^ 16"
  obtains y m d h mi sec where "valid_time y m d h mi sec" and "y < 4000000000" and "unix_of y m d h mi sec = t"
    and "systime_unix_to_timestamp t py pm pd ph pmi ps mem =
      Some (store_unless_null ps (of_nat sec) (store_unless_null pmi (of_nat mi) (store_unless_null ph (of_nat h)
        (store_unless_null pd (of_nat d) (store_unless_null pm (of_nat m) (store_unless_null py (of_nat y) mem))))))"
proof -
  let ?ys = "\<lambda>n. 86400 * int (\<Sum>x\<in>{1970..<1970 + n}. year_days x)"
  obtain n where n: "n < 400000000"
    "count_loop (\<lambda>y. 86400 * int (year_days (unat y))) t 1970 = Some (t - ?ys n - 86400 * int (year_days (1970 + n)), of_nat (1970 + n) + 1)"
    "0 < t - ?ys n" "t - ?ys n \<le> 86400 * int (year_days (1970 + n))"
    by (rule count_years [OF assms])
  define y where "y = 1970 + n"
  have y: "unat (of_nat y :: u32) = y" using n(1) by (intro unat_of_nat_u32) (simp add: y_def)
  define u1 where "u1 = t - ?ys n"
  let ?ms = "\<lambda>k. 86400 * int (\<Sum>i\<in>{1..<Suc k}. month_days y i)"
  have u1: "0 < u1" "u1 \<le> 86400 * int (year_days y)" using n(3,4) by (simp_all only: u1_def y_def)
  obtain k where k: "k < 12"
    "count_loop (\<lambda>m. 86400 * int (month_days y (unat m))) u1 1 = Some (u1 - ?ms k - 86400 * int (month_days y (Suc k)), of_nat (Suc k) + 1)"
    "0 < u1 - ?ms k" "u1 - ?ms k \<le> 86400 * int (month_days y (Suc k))"
    by (rule count_months [OF u1])
  have m: "unat (of_nat (Suc k) :: u32) = Suc k" using k(1) by (intro unat_of_nat_u32) simp
  define u2 where "u2 = u1 - ?ms k"
  have md: "month_days y (Suc k) \<le> 31" by (simp add: month_days_def)
  obtain d where d: "d < month_days y (Suc k)" "count_loop (\<lambda>_. 86400) u2 1 = Some (u2 - int d * 86400 - 86400, 1 + of_nat d + 1)"
    "0 < u2 - int d * 86400" "u2 - int d * 86400 \<le> 86400"
    by (rule count_loop_const [of 86400 u2 "month_days y (Suc k)" 1]) (use k(3,4) md in \<open>simp_all add: u2_def\<close>)
  define u3 where "u3 = u2 - int d * 86400"
  obtain h where h: "h < 24" "count_loop (\<lambda>_. 3600) u3 0 = Some (u3 - int h * 3600 - 3600, 0 + of_nat h + 1)"
    "0 < u3 - int h * 3600" "u3 - int h * 3600 \<le> 3600"
    by (rule count_loop_const [of 3600 u3 24 0]) (use d(3,4) in \<open>simp_all add: u3_def\<close>)
  define u4 where "u4 = u3 - int h * 3600"
  obtain mi where mi: "mi < 60" "count_loop (\<lambda>_. 60) u4 0 = Some (u4 - int mi * 60 - 60, 0 + of_nat mi + 1)"
    "0 < u4 - int mi * 60" "u4 - int mi * 60 \<le> 60"
    by (rule count_loop_const [of 60 u4 60 0]) (use h(3,4) in \<open>simp_all add: u4_def\<close>)
  define u5 where "u5 = u4 - int mi * 60"
  have u5: "u5 = int (nat u5)" "0 < u5" "u5 \<le> 60" using mi(3,4) by (simp_all add: u5_def)
  have loops: "count_loop (\<lambda>y. 86400 * int (year_days (unat y))) t 1970 = Some (u1 - 86400 * int (year_days y), of_nat y + 1)"
    "count_loop (\<lambda>m. 86400 * int (month_days y (unat m))) u1 1 = Some (u2 - 86400 * int (month_days y (Suc k)), of_nat (Suc k) + 1)"
    "count_loop (\<lambda>_. 86400) u2 1 = Some (u3 - 86400, of_nat (Suc d) + 1)"
    "count_loop (\<lambda>_. 3600) u3 0 = Some (u4 - 3600, of_nat h + 1)" "count_loop (\<lambda>_. 60) u4 0 = Some (u5 - 60, of_nat mi + 1)"
    using n(2) k(2) d(2) h(2) mi(2) by (simp_all only: u1_def u2_def u3_def u4_def u5_def y_def of_nat_Suc add.left_neutral)
  show thesis
  proof (rule that [of y "Suc k" "Suc d" h mi "nat u5"])
    show "valid_time y (Suc k) (Suc d) h mi (nat u5)"
      unfolding valid_time_def using k(1) d(1) h(1) mi(1) u5 by (auto simp: y_def)
    show "y < 4000000000" using n(1) by (simp add: y_def)
    have "t = ?ys n + (?ms k + (int d * 86400 + (int h * 3600 + (int mi * 60 + u5))))"
      unfolding u5_def u4_def u3_def u2_def u1_def by linarith
    then show "unix_of y (Suc k) (Suc d) h mi (nat u5) = t"
      unfolding unix_of_def civil_days_def y_def [symmetric] using u5(1) by simp
    show "systime_unix_to_timestamp t py pm pd ph pmi ps mem =
      Some (store_unless_null ps (of_nat (nat u5)) (store_unless_null pmi (of_nat mi) (store_unless_null ph (of_nat h)
        (store_unless_null pd (of_nat (Suc d)) (store_unless_null pm (of_nat (Suc k)) (store_unless_null py (of_nat y) mem))))))"
      using assms(1) u5(2) unfolding systime_unix_to_timestamp_def year_len month_len
      by (simp add: loops y m Let_def del: of_nat_Suc)
  qed
qed

lemma valid_time_bounds:
  assumes "valid_time y m d h mi sec"
  shows "m < 4294967296" "d < 4294967296" "h < 4294967296" "mi < 4294967296" "sec < 4294967296" "d \<le> 31"
proof -
  have "month_days y m \<le> 31" by (simp add: month_days_def)
  with assms show "m < 4294967296" "d < 4294967296" "h < 4294967296" "mi < 4294967296" "sec < 4294967296" "d \<le> 31"
    by (simp_all add: valid_time_def)
qed

text \<open>
  C17. The conversion from unix time ends for every positive time up to the year 300 million and writes a date of the
  Gregorian calendar that stands for exactly that time, with the seconds of a minute counted from 1 to 60, and nothing
  else. So the last second of a day is \<open>23:59:60\<close>, not \<open>00:00:00\<close> of the next day.
\<close>

theorem unix_to_timestamp_correct:
  assumes "0 < t" and "t \<le> 10 ^ 16" and "distinct [py, pm, pd, ph, pmi, ps]" and "NULL \<notin> set [py, pm, pd, ph, pmi, ps]"
  shows "\<exists>mem'. systime_unix_to_timestamp t py pm pd ph pmi ps mem = Some mem'
    \<and> valid_time (unat (mem' py)) (unat (mem' pm)) (unat (mem' pd)) (unat (mem' ph)) (unat (mem' pmi)) (unat (mem' ps))
    \<and> unix_of (unat (mem' py)) (unat (mem' pm)) (unat (mem' pd)) (unat (mem' ph)) (unat (mem' pmi)) (unat (mem' ps)) = t
    \<and> (\<forall>a. a \<notin> set [py, pm, pd, ph, pmi, ps] \<longrightarrow> mem' a = mem a)"
proof -
  obtain y m d h mi sec where v: "valid_time y m d h mi sec" "y < 4000000000" "unix_of y m d h mi sec = t"
    and r: "systime_unix_to_timestamp t py pm pd ph pmi ps mem =
      Some (store_unless_null ps (of_nat sec) (store_unless_null pmi (of_nat mi) (store_unless_null ph (of_nat h)
        (store_unless_null pd (of_nat d) (store_unless_null pm (of_nat m) (store_unless_null py (of_nat y) mem))))))"
    by (rule unix_to_timestamp_fields [OF assms(1,2)])
  let ?m = "mem(py := of_nat y, pm := of_nat m, pd := of_nat d, ph := of_nat h, pmi := of_nat mi, ps := of_nat sec)"
  have "systime_unix_to_timestamp t py pm pd ph pmi ps mem = Some ?m"
    unfolding r using assms(4) by (simp add: store_unless_null_def)
  moreover have "?m py = of_nat y" "?m pm = of_nat m" "?m pd = of_nat d" "?m ph = of_nat h" "?m pmi = of_nat mi" "?m ps = of_nat sec"
    using assms(3) by auto
  then have "unat (?m py) = y" "unat (?m pm) = m" "unat (?m pd) = d" "unat (?m ph) = h" "unat (?m pmi) = mi" "unat (?m ps) = sec"
    using v(2) valid_time_bounds [OF v(1)] by (simp_all only: unat_of_nat_u32)
  moreover have "\<forall>a. a \<notin> set [py, pm, pd, ph, pmi, ps] \<longrightarrow> ?m a = mem a" by simp
  ultimately show ?thesis using v(1,3) by (intro exI [of _ ?m]) (simp only: simp_thms)
qed

lemma unix_to_timestamp_correct_witness:
  "\<exists>mem'. systime_unix_to_timestamp 86400 4 8 12 16 20 24 (\<lambda>_. 0) = Some mem'
    \<and> unix_of (unat (mem' 4)) (unat (mem' 8)) (unat (mem' 12)) (unat (mem' 16)) (unat (mem' 20)) (unat (mem' 24)) = 86400"
  using unix_to_timestamp_correct [of 86400 4 8 12 16 20 24 "\<lambda>_. 0"] by auto

section \<open>From a date to unix time\<close>

lemma fold_plus: "fold (\<lambda>x u. u + f x) xs u = u + sum_list (map f xs)" for u :: int
  by (induction xs arbitrary: u) simp_all

lemma add_months_eq: "add_months y m u = u + int (unat m) * (86400 * int (month_days (unat y) (unat m)))"
  unfolding add_months_def month_len fold_plus by (simp add: sum_list_triv)

lemma add_years_eq:
  assumes "1970 \<le> unat y"
  shows "add_years y u = u + 86400 * (int (\<Sum>x\<in>{1970..<unat y}. year_days x) + int (year_days (unat y)) - 365)"
proof -
  have "add_years y u = u + sum_list (map (\<lambda>x. 86400 * int (year_days (unat (of_nat x :: u32)))) (rev [1971..<unat y + 1]))"
    unfolding add_years_def year_len fold_plus ..
  also have "sum_list (map (\<lambda>x. 86400 * int (year_days (unat (of_nat x :: u32)))) (rev [1971..<unat y + 1]))
      = (\<Sum>x\<in>{1971..<unat y + 1}. 86400 * int (year_days (unat (of_nat x :: u32))))"
    unfolding rev_map [symmetric] sum_list_rev by (simp only: interv_sum_list_conv_sum_set_nat set_upt)
  also have "\<dots> = (\<Sum>x\<in>{1971..<unat y + 1}. 86400 * int (year_days x))"
    using unat_u32_bound [of y] by (intro sum.cong refl) (simp add: unat_of_nat_u32)
  also have "\<dots> = 86400 * int (\<Sum>x\<in>{1971..<unat y + 1}. year_days x)"
    by (simp only: sum_distrib_left [symmetric] of_nat_sum)
  also have "int (\<Sum>x\<in>{1971..<unat y + 1}. year_days x) = int (\<Sum>x\<in>{1970..<unat y}. year_days x) + int (year_days (unat y)) - 365"
  proof -
    have k: "Suc 1970 = 1971" "Suc (unat y) = unat y + 1" by simp_all
    have "(\<Sum>x\<in>{1970..<Suc (unat y)}. year_days x) = year_days 1970 + (\<Sum>x\<in>{Suc 1970..<Suc (unat y)}. year_days x)"
      using assms by (intro sum.atLeast_Suc_lessThan) simp
    moreover have "(\<Sum>x\<in>{1970..<Suc (unat y)}. year_days x) = (\<Sum>x\<in>{1970..<unat y}. year_days x) + year_days (unat y)"
      using assms by (rule sum.atLeastLessThan_Suc)
    moreover have "year_days 1970 = 365" by (simp add: year_days_def leap_def)
    ultimately show ?thesis unfolding k by linarith
  qed
  finally show ?thesis .
qed

lemma date_to_unix_eq:
  assumes "valid_time y m d h mi sec" and "y < 4000000000"
  shows "systime_timestamp_to_unix (of_nat y) (of_nat m) (of_nat d) (of_nat h) (of_nat mi) (of_nat sec)
    = unix_of y m d h mi sec + 86400 * (1 + int m * int (month_days y m) - int (\<Sum>i\<in>{1..<m}. month_days y i) + int (year_days y) - 365)"
proof -
  note b = valid_time_bounds [OF assms(1)]
  have u: "unat (of_nat y :: u32) = y" "unat (of_nat m :: u32) = m" using assms(2) b by (simp_all only: unat_of_nat_u32)
  have sm: "uint (of_nat n :: u32) = int n" if "n < 4294967296" for n
    using that unat_of_nat_u32 [of n] by (simp only: uint_nat)
  have v: "1970 \<le> y" "1 \<le> d" "h < 24" "mi < 60" using assms(1) by (simp_all add: valid_time_def)
  have "uint (of_nat mi * 60 :: u32) = int (mi * 60)" "uint (of_nat h * 60 * 60 :: u32) = int (h * 3600)"
    using v sm [of "mi * 60"] sm [of "h * 3600"] by (simp_all add: mult.commute)
  moreover have "uint (of_nat d * 24 * 60 * 60 :: u32) = 86400 * int d" using b(6) by (intro secs_of_days) simp
  moreover have "uint (of_nat sec :: u32) = int sec" using b by (intro sm)
  moreover have "\<not> of_nat y < (1970 :: u32)" using v(1) u by (simp add: unat_less_u32)
  moreover have "add_years (of_nat y) w = w" if "of_nat y = (1970 :: u32)" for w by (simp add: that add_years_def)
  ultimately have "systime_timestamp_to_unix (of_nat y) (of_nat m) (of_nat d) (of_nat h) (of_nat mi) (of_nat sec)
      = add_years (of_nat y) (add_months (of_nat y) (of_nat m) (int sec + int (mi * 60) + int (h * 3600) + 86400 * int d))"
    by (simp add: systime_timestamp_to_unix_def Let_def)
  also have "\<dots> = unix_of y m d h mi sec + 86400 * (1 + int m * int (month_days y m) - int (\<Sum>i\<in>{1..<m}. month_days y i) + int (year_days y) - 365)"
    unfolding add_months_eq add_years_eq [of "of_nat y", unfolded u, OF v(1)] u unix_of_def civil_days_def
    using v(2) by (simp add: of_nat_diff algebra_simps)
  finally show ?thesis .
qed

lemma month_excess:
  assumes "1 \<le> m" and "m \<le> 12"
  shows "(\<Sum>i\<in>{1..<m}. month_days y i) + 25 \<le> m * month_days y m" "m * month_days y m \<le> (\<Sum>i\<in>{1..<m}. month_days y i) + 38"
proof -
  have "m \<in> {1, 2, 3, 4, 5, 6, 7, 8, 9, 10, 11, 12}" using assms by (simp only: insert_iff empty_iff) presburger
  then show "(\<Sum>i\<in>{1..<m}. month_days y i) + 25 \<le> m * month_days y m" "m * month_days y m \<le> (\<Sum>i\<in>{1..<m}. month_days y i) + 38"
    by (auto simp: month_days_def eval_nat_numeral sum.atLeastLessThan_Suc)
qed

text \<open>
  C27. The conversion from a date to unix time is not the inverse: for the date of a unix time it gives a time between 26
  and 40 days later, because it counts the month and the day from 1, takes the length of the last month for all months
  and counts the last year instead of 1970.
\<close>

theorem timestamp_roundtrip_error:
  assumes "0 < t" and "t \<le> 10 ^ 16" and "distinct [py, pm, pd, ph, pmi, ps]" and "NULL \<notin> set [py, pm, pd, ph, pmi, ps]"
    and "systime_unix_to_timestamp t py pm pd ph pmi ps mem = Some mem'"
  shows "let t' = systime_timestamp_to_unix (mem' py) (mem' pm) (mem' pd) (mem' ph) (mem' pmi) (mem' ps) in
    t + 26 * 86400 \<le> t' \<and> t' \<le> t + 40 * 86400"
proof -
  obtain y m d h mi sec where v: "valid_time y m d h mi sec" "y < 4000000000" "unix_of y m d h mi sec = t"
    and r: "systime_unix_to_timestamp t py pm pd ph pmi ps mem =
      Some (store_unless_null ps (of_nat sec) (store_unless_null pmi (of_nat mi) (store_unless_null ph (of_nat h)
        (store_unless_null pd (of_nat d) (store_unless_null pm (of_nat m) (store_unless_null py (of_nat y) mem))))))"
    by (rule unix_to_timestamp_fields [OF assms(1,2)])
  have "mem' py = of_nat y" "mem' pm = of_nat m" "mem' pd = of_nat d" "mem' ph = of_nat h" "mem' pmi = of_nat mi" "mem' ps = of_nat sec"
    using assms(3-5) unfolding r by (auto simp: store_unless_null_def)
  then have e: "systime_timestamp_to_unix (mem' py) (mem' pm) (mem' pd) (mem' ph) (mem' pmi) (mem' ps)
    = t + 86400 * (1 + int m * int (month_days y m) - int (\<Sum>i\<in>{1..<m}. month_days y i) + int (year_days y) - 365)"
    using date_to_unix_eq [OF v(1,2)] v(3) by simp
  have m: "1 \<le> m" "m \<le> 12" using v(1) by (simp_all add: valid_time_def)
  have "int (\<Sum>i\<in>{1..<m}. month_days y i) + 25 \<le> int m * int (month_days y m)"
    "int m * int (month_days y m) \<le> int (\<Sum>i\<in>{1..<m}. month_days y i) + 38"
    using month_excess [OF m, of y] unfolding of_nat_mult [symmetric] by linarith+
  moreover have "365 \<le> year_days y" "year_days y \<le> 366" by (simp_all add: year_days_def)
  ultimately show ?thesis unfolding e Let_def by simp
qed

lemma timestamp_roundtrip_error_witness:
  "\<exists>mem'. systime_unix_to_timestamp 1000000000 4 8 12 16 20 24 (\<lambda>_. 0) = Some mem'
    \<and> systime_timestamp_to_unix (mem' 4) (mem' 8) (mem' 12) (mem' 16) (mem' 20) (mem' 24) \<noteq> 1000000000"
proof -
  obtain mem' where m: "systime_unix_to_timestamp 1000000000 4 8 12 16 20 24 (\<lambda>_. 0) = Some mem'"
    by (rule unix_to_timestamp_fields [of 1000000000 4 8 12 16 20 24 "\<lambda>_. 0"]) simp_all
  from timestamp_roundtrip_error [OF _ _ _ _ m] show ?thesis using m by (auto simp: Let_def)
qed

section \<open>Setting and reading the clock\<close>

text \<open>
  The devices count: \<open>k\<close> ticks after it was loaded the timer is \<open>k\<close> below its load register, and \<open>e\<close>
  seconds after it was set the real time clock is \<open>e\<close> above its set register. No overflow is counted in between.
\<close>

definition clock_runs :: "systime \<Rightarrow> systime \<Rightarrow> nat \<Rightarrow> nat \<Rightarrow> bool" where
  "clock_runs s s' k e \<longleftrightarrow>
     timer_milis_overflows s' = timer_milis_overflows s \<and> timer_seconds_overflows s' = timer_seconds_overflows s
     \<and> rd (timer_reg 1 0 1) s' = rd (timer_reg 1 0 0) s - of_nat k
     \<and> rd (reg remapped_rtc 0) s' = rd (reg remapped_rtc 2) s + of_nat e"

lemma timer_power_fields [simp]:
  "timer_milis_overflows (timer_power s) = timer_milis_overflows s" "timer_seconds_overflows (timer_power s) = timer_seconds_overflows s"
  "timer_milis_overflows (wr a v s) = timer_milis_overflows s" "timer_seconds_overflows (wr a v s) = timer_seconds_overflows s"
  by (simp_all add: timer_power_def power_enable_device_def Let_def wr_def)

lemma rd_counters [simp]:
  "rd a (s\<lparr>timer_milis_overflows := x\<rparr>) = rd a s" "rd a (s\<lparr>timer_seconds_overflows := x\<rparr>) = rd a s" for s :: systime
  by (simp_all add: rd_def)

lemma wrap64_id: "0 \<le> i \<Longrightarrow> i < 2 ^ 63 \<Longrightarrow> wrap64 i = i"
  by (rule signed_take_bit_int_eq_self) simp_all

lemma signed_nonneg: "0 \<le> i \<Longrightarrow> 0 < k \<Longrightarrow> i sdiv k = i div k" "0 \<le> i \<Longrightarrow> 0 < k \<Longrightarrow> i smod k = i mod k" for i k :: int
  by (cases "i = 0"; simp add: signed_divide_int_def signed_modulo_int_def minus_div_mult_eq_mod)+

lemma systime_unix_eq:
  assumes "uint (timer_seconds_overflows s) < 2 ^ 31"
  shows "systime_unix s = uint (timer_seconds_overflows s) * 2 ^ 32 + uint (rd (reg remapped_rtc 0) s)"
proof -
  have "uint (rd (reg remapped_rtc 0) s) < 2 ^ 32" using uint_lt2p [of "rd (reg remapped_rtc 0) s"] by simp
  moreover have "0 \<le> uint (timer_seconds_overflows s)" "0 \<le> uint (rd (reg remapped_rtc 0) s)" by simp_all
  ultimately show ?thesis using assms unfolding systime_unix_def rtc_get_value_def
    by (subst (1 2) wrap64_id) simp_all
qed

lemma systime_unix_milli_eq:
  assumes "uint (timer_milis_overflows s) < 2 ^ 31"
  shows "fst (systime_unix_milli s) = uint (timer_milis_overflows s) * 2 ^ 27 + uint (0xffffffff - rd (timer_reg 1 0 1) s) div 32"
proof -
  have "timer_value 1 0 s = (rd (timer_reg 1 0 1) s, timer_power s)"
    using timer_reg_other(1) [of 0 1 1] by (simp add: timer_value_def timer_reg_eq Let_def regs_timer_power timer_reg_def)
  moreover have "wrap64 (uint (timer_milis_overflows s) * 0x100000000) = uint (timer_milis_overflows s) * 0x100000000"
    using assms by (intro wrap64_id) simp_all
  ultimately show ?thesis by (simp add: systime_unix_milli_def Let_def uint_div signed_nonneg)
qed

text \<open>The timer counts on from what was loaded into it.\<close>

lemma timer_ticks:
  fixes v :: u32
  assumes "v = (0xffffffff - of_nat (32 * r)) - of_nat k" and "32 * r + k < 2 ^ 32"
  shows "uint (0xffffffff - v) div 32 = int r + int k div 32"
proof -
  have "0xffffffff - v = of_nat (32 * r + k)" using assms(1) by simp
  moreover have "uint (of_nat (32 * r + k) :: u32) = int (32 * r + k)"
    using assms(2) unat_of_nat_u32 [of "32 * r + k"] by (simp only: uint_nat) simp
  ultimately show ?thesis by simp
qed

lemma load_regs:
  "rd (timer_reg 1 0 0) (timer_set_load 1 0 v s) = v"
  "rd (reg remapped_rtc 2) (timer_set_load 1 0 v s) = rd (reg remapped_rtc 2) s"
  "timer_milis_overflows (timer_set_load 1 0 v s) = timer_milis_overflows s"
  "timer_seconds_overflows (timer_set_load 1 0 v s) = timer_seconds_overflows s"
  "rd (timer_reg 1 0 0) (rtc_set_value w s) = rd (timer_reg 1 0 0) s"
  "rd (reg remapped_rtc 2) (rtc_set_value w s) = w"
  "timer_milis_overflows (rtc_set_value w s) = timer_milis_overflows s"
  "timer_seconds_overflows (rtc_set_value w s) = timer_seconds_overflows s"
  by (simp_all add: timer_set_load_def rtc_set_value_def timer_reg_def reg_def remapped_timer_def remapped_first_timer_def
      remapped_rtc_def remapped_power_def Let_def rd_simps)

lemma uint_word_of_int_id: "0 \<le> i \<Longrightarrow> i < 2 ^ 32 \<Longrightarrow> uint (word_of_int i :: u32) = i"
  by (simp add: uint_word_of_int)

lemma seconds_read:
  assumes "0 \<le> t" and "t < 2 ^ 63" and "timer_seconds_overflows s = word_of_int (t div 2 ^ 32)"
    and "rd (reg remapped_rtc 0) s = word_of_int (t mod 2 ^ 32) + of_nat e" and "t mod 2 ^ 32 + int e < 2 ^ 32"
  shows "systime_unix s = t + int e"
proof -
  have b: "0 \<le> t div 2 ^ 32" "t div 2 ^ 32 < 2 ^ 31" "0 \<le> t mod 2 ^ 32" using assms(1,2) by (simp_all add: div_less_iff_less_mult)
  then have o: "uint (timer_seconds_overflows s) = t div 2 ^ 32" unfolding assms(3) by (intro uint_word_of_int_id) simp_all
  have "rd (reg remapped_rtc 0) s = word_of_int (t mod 2 ^ 32 + int e)" unfolding assms(4) by simp
  then have "uint (rd (reg remapped_rtc 0) s) = t mod 2 ^ 32 + int e" using assms(5) b by (simp only:) (intro uint_word_of_int_id; simp)
  then show ?thesis using systime_unix_eq [of s] b(2) by (simp only: o) simp
qed

text \<open>
  After the time is set in seconds, the clock reads that time plus the time that has passed, in seconds and in
  milliseconds, as long as no counter overflows.
\<close>

lemma set_unix_read_spec:
  assumes "0 < t" and "t * 1000 < 2 ^ 58" and "clock_runs (systime_set_unix t s) s' k e"
    and "32 * (t * 1000 mod 2 ^ 27) + int k < 2 ^ 32" and "t mod 2 ^ 32 + int e < 2 ^ 32"
  shows "systime_unix s' = t + int e \<and> fst (systime_unix_milli s') = t * 1000 + int k div 32"
proof -
  let ?s = "systime_set_unix t s"
  let ?r = "nat (t * 1000 mod 2 ^ 27)"
  have r: "int ?r = t * 1000 mod 2 ^ 27" by simp
  have w: "wrap64 (t * 1000) = t * 1000" using assms(1,2) by (intro wrap64_id) simp_all
  have f: "timer_milis_overflows ?s = word_of_int (t * 1000 div 2 ^ 27)" "timer_seconds_overflows ?s = word_of_int (t div 2 ^ 32)"
    "rd (reg remapped_rtc 2) ?s = word_of_int (t mod 2 ^ 32)"
    "rd (timer_reg 1 0 0) ?s = 0xffffffff - word_of_int (t * 1000 mod 2 ^ 27) * 32"
    using assms(1) by (simp_all add: systime_set_unix_def Let_def load_regs signed_nonneg w)
  have c: "timer_milis_overflows s' = word_of_int (t * 1000 div 2 ^ 27)" "timer_seconds_overflows s' = word_of_int (t div 2 ^ 32)"
    "rd (reg remapped_rtc 0) s' = word_of_int (t mod 2 ^ 32) + of_nat e"
    "rd (timer_reg 1 0 1) s' = 0xffffffff - word_of_int (t * 1000 mod 2 ^ 27) * 32 - of_nat k"
    using assms(3) f by (simp_all add: clock_runs_def)
  have "systime_unix s' = t + int e" using assms(1,2,5) c(2,3) by (intro seconds_read) simp_all
  moreover have "0 \<le> t * 1000 div 2 ^ 27" "t * 1000 div 2 ^ 27 < 2 ^ 31" using assms(1,2) by (simp_all add: div_less_iff_less_mult)
  then have o: "uint (timer_milis_overflows s') = t * 1000 div 2 ^ 27" unfolding c by (intro uint_word_of_int_id) simp_all
  have "word_of_int (int ?r) * 32 = (of_nat (32 * ?r) :: u32)" by (simp add: mult.commute del: int_nat_eq)
  then have "word_of_int (t * 1000 mod 2 ^ 27) * 32 = (of_nat (32 * ?r) :: u32)" by (simp only: r)
  then have v: "rd (timer_reg 1 0 1) s' = (0xffffffff - of_nat (32 * ?r)) - of_nat k" by (simp only: c(4))
  have "int (32 * ?r + k) < int (2 ^ 32)" using assms(4) r by (simp only: of_nat_add of_nat_mult) simp
  then have "32 * ?r + k < 2 ^ 32" by (simp only: of_nat_less_iff)
  with v have "uint (0xffffffff - rd (timer_reg 1 0 1) s') div 32 = int ?r + int k div 32" by (rule timer_ticks)
  then have "fst (systime_unix_milli s') = t * 1000 + int k div 32"
    using systime_unix_milli_eq [of s'] \<open>t * 1000 div 2 ^ 27 < 2 ^ 31\<close> div_mult_mod_eq [of "t * 1000" "2 ^ 27"] r
    by (simp only: o)
  ultimately show ?thesis by simp
qed

lemma set_unix_read_example:
  "let s = systime_set_unix 1000 \<lparr>regs = (\<lambda>_. 0), writes = [], timer_milis_overflows = 5, timer_seconds_overflows = 7\<rparr>;
       s' = s\<lparr>regs := (regs s)(timer_reg 1 0 1 := rd (timer_reg 1 0 0) s - 64000, reg remapped_rtc 0 := rd (reg remapped_rtc 2) s + 2)\<rparr>
   in systime_unix s' = 1002 \<and> fst (systime_unix_milli s') = 1002000"
proof -
  let ?s = "systime_set_unix 1000 \<lparr>regs = (\<lambda>_. 0), writes = [], timer_milis_overflows = 5, timer_seconds_overflows = 7\<rparr>"
  let ?s' = "?s\<lparr>regs := (regs ?s)(timer_reg 1 0 1 := rd (timer_reg 1 0 0) ?s - 64000, reg remapped_rtc 0 := rd (reg remapped_rtc 2) ?s + 2)\<rparr>"
  have "timer_reg 1 0 1 \<noteq> reg remapped_rtc 0"
    by (simp add: timer_reg_def reg_def remapped_timer_def remapped_first_timer_def remapped_rtc_def)
  then have "clock_runs ?s ?s' 64000 2" by (simp add: clock_runs_def rd_def)
  from set_unix_read_spec [OF _ _ this] show ?thesis by (simp add: Let_def)
qed

text \<open>
  After the time is set in milliseconds the seconds are right, but reading the time in milliseconds gives only
  the milliseconds within the second: the number of overflows of the timer is not set.
\<close>

theorem set_unix_milli_read:
  assumes "0 < t" and "t < 2 ^ 63" and "clock_runs (systime_set_unix_milli t s) s' k e"
    and "uint (timer_milis_overflows s) < 2 ^ 31" and "k < 2 ^ 31" and "t div 1000 mod 2 ^ 32 + int e < 2 ^ 32"
  shows "systime_unix s' = t div 1000 + int e
    \<and> fst (systime_unix_milli s') = uint (timer_milis_overflows s) * 2 ^ 27 + t mod 1000 + int k div 32"
proof -
  let ?s = "systime_set_unix_milli t s"
  let ?r = "nat (t mod 1000)"
  have r: "int ?r = t mod 1000" by simp
  have q: "t sdiv 1000 = t div 1000" using assms(1) by (simp add: signed_nonneg)
  have "?s = rtc_set_value (word_of_int (t div 1000 mod 2 ^ 32))
      ((timer_set_load 1 0 (word_of_int (0xffffffff - t mod 1000 * 32)) s)\<lparr>timer_seconds_overflows := word_of_int (t div 1000 div 2 ^ 32)\<rparr>)"
    unfolding systime_set_unix_milli_def Let_def q minus_div_mult_eq_mod using assms(1) by simp
  then have f: "timer_milis_overflows ?s = timer_milis_overflows s" "timer_seconds_overflows ?s = word_of_int (t div 1000 div 2 ^ 32)"
    "rd (reg remapped_rtc 2) ?s = word_of_int (t div 1000 mod 2 ^ 32)"
    "rd (timer_reg 1 0 0) ?s = word_of_int (0xffffffff - t mod 1000 * 32)"
    by (simp_all add: load_regs)
  have c: "timer_milis_overflows s' = timer_milis_overflows s" "timer_seconds_overflows s' = word_of_int (t div 1000 div 2 ^ 32)"
    "rd (reg remapped_rtc 0) s' = word_of_int (t div 1000 mod 2 ^ 32) + of_nat e"
    "rd (timer_reg 1 0 1) s' = word_of_int (0xffffffff - t mod 1000 * 32) - of_nat k"
    using assms(3) f by (simp_all add: clock_runs_def)
  have "t div 1000 \<le> t" using assms(1) by linarith
  then have "systime_unix s' = t div 1000 + int e" using assms(1,2,6) c(2,3) by (intro seconds_read) simp_all
  moreover have "(word_of_int (0xffffffff - int ?r * 32) :: u32) = 0xffffffff - of_nat (32 * ?r)"
    by (simp add: mult.commute del: int_nat_eq)
  then have "(word_of_int (0xffffffff - t mod 1000 * 32) :: u32) = 0xffffffff - of_nat (32 * ?r)" by (simp only: r)
  then have v: "rd (timer_reg 1 0 1) s' = (0xffffffff - of_nat (32 * ?r)) - of_nat k" by (simp only: c(4))
  have "?r < 1000" by simp
  with assms(5) have "32 * ?r + k < 2 ^ 32" by simp
  with v have "uint (0xffffffff - rd (timer_reg 1 0 1) s') div 32 = int ?r + int k div 32" by (rule timer_ticks)
  then have "fst (systime_unix_milli s') = uint (timer_milis_overflows s) * 2 ^ 27 + t mod 1000 + int k div 32"
    using systime_unix_milli_eq [of s'] assms(4) r by (simp only: c)
  ultimately show ?thesis by simp
qed

lemma set_unix_milli_read_witness:
  "let s = systime_set_unix_milli 1600000000123 \<lparr>regs = (\<lambda>_. 0), writes = [], timer_milis_overflows = 0, timer_seconds_overflows = 0\<rparr>;
       s' = s\<lparr>regs := (regs s)(timer_reg 1 0 1 := rd (timer_reg 1 0 0) s, reg remapped_rtc 0 := rd (reg remapped_rtc 2) s)\<rparr>
   in systime_unix s' = 1600000000 \<and> fst (systime_unix_milli s') = 123"
proof -
  let ?s0 = "\<lparr>regs = (\<lambda>_. 0), writes = [], timer_milis_overflows = 0, timer_seconds_overflows = 0\<rparr>"
  let ?s = "systime_set_unix_milli 1600000000123 ?s0"
  let ?s' = "?s\<lparr>regs := (regs ?s)(timer_reg 1 0 1 := rd (timer_reg 1 0 0) ?s, reg remapped_rtc 0 := rd (reg remapped_rtc 2) ?s)\<rparr>"
  have "timer_reg 1 0 1 \<noteq> reg remapped_rtc 0"
    by (simp add: timer_reg_def reg_def remapped_timer_def remapped_first_timer_def remapped_rtc_def)
  then have "clock_runs ?s ?s' 0 0" by (simp add: clock_runs_def rd_def)
  from set_unix_milli_read [OF _ _ this] show ?thesis by (simp add: Let_def)
qed

end
