(* ===== verification/Syscall_Handlers.thy ===== *)
theory Syscall_Handlers
  imports Kernel_Threads System_Time
begin

text \<open>
  The handlers of the system calls, kernel/syscalls/svc/time-syscalls.c, thread-syscalls.c and version.c, and
  their dispatch: a system call reads and writes the frame of the caller and works on the clock or on
  the threads.
\<close>

record kernel =
  frame :: "u32 list"
  clock :: systime
  kthreads :: threads

text \<open>
  What the handlers get from elsewhere: the address of the frame, the address of
  \<open>scheduler_svc_thread_destroy_self\<close>, the thread that \<open>request_svc_thread\<close> takes from its cache, the time in
  microseconds (computed with doubles), and the removal of the system.
\<close>

record env =
  env_base :: addr
  env_exit :: addr
  env_thread :: addr
  env_micro :: "systime \<Rightarrow> int \<times> systime"
  env_uninstall :: "kernel \<Rightarrow> outcome \<times> kernel"

abbreviation arg :: "env \<Rightarrow> u32 \<Rightarrow> kernel \<Rightarrow> u32" where
  "arg e r k \<equiv> syscall_get_reg (env_base e) (frame k) r"

definition return_reg :: "u32 \<Rightarrow> u32 \<Rightarrow> kernel \<Rightarrow> kernel" where
  "return_reg r v k = k\<lparr>frame := syscall_set_reg (frame k) r v\<rparr>"

section \<open>Time\<close>

definition syscall_unix_time :: "kernel \<Rightarrow> kernel" where
  "syscall_unix_time k =
     (let time = systime_unix (clock k);
          k = return_reg 0 (word_of_int time) k
      in return_reg 1 (word_of_int (drop_bit 32 time)) k)"

definition syscall_unix_time_milli :: "kernel \<Rightarrow> kernel" where
  "syscall_unix_time_milli k =
     (let (time, c) = systime_unix_milli (clock k);
          k = k\<lparr>clock := c\<rparr>;
          k = return_reg 0 (word_of_int time) k
      in return_reg 1 (word_of_int (drop_bit 32 time)) k)"

definition syscall_set_unix_time :: "env \<Rightarrow> kernel \<Rightarrow> kernel" where
  "syscall_set_unix_time e k =
     (let lo = arg e 0 k;
          hi = arg e 1 k;
          time = sint (push_bit 32 (ucast hi) OR ucast lo :: u64)
      in k\<lparr>clock := systime_set_unix time (clock k)\<rparr>)"

definition syscall_set_unix_time_milli :: "env \<Rightarrow> kernel \<Rightarrow> kernel" where
  "syscall_set_unix_time_milli e k =
     (let lo = arg e 0 k;
          hi = arg e 1 k;
          time = sint (push_bit 32 (ucast hi) OR ucast lo :: u64)
      in k\<lparr>clock := systime_set_unix_milli time (clock k)\<rparr>)"

definition syscall_unix_time_micro :: "env \<Rightarrow> kernel \<Rightarrow> kernel" where
  "syscall_unix_time_micro e k =
     (let (time, c) = env_micro e (clock k);
          k = k\<lparr>clock := c\<rparr>;
          k = return_reg 0 (word_of_int time) k
      in return_reg 1 (word_of_int (drop_bit 32 time)) k)"

definition syscall_version :: "kernel \<Rightarrow> kernel" where
  "syscall_version k = return_reg 0 5 k"

section \<open>Threads\<close>

type_synonym run = "(outcome \<times> kernel) option"

definition on_threads :: "(outcome \<times> threads) option \<Rightarrow> kernel \<Rightarrow> run" where
  "on_threads x k = map_option (\<lambda>(r, s). (r, k\<lparr>kthreads := s\<rparr>)) x"

definition syscall_enable_kernel_thread_scheduling :: "env \<Rightarrow> kernel \<Rightarrow> kernel" where
  "syscall_enable_kernel_thread_scheduling e k =
     k\<lparr>kthreads := scheduler_enable_kernel_thread_scheduling (env_exit e) (env_thread e) (kthreads k)\<rparr>"

definition syscall_disable_kernel_thread_scheduling :: "kernel \<Rightarrow> run" where
  "syscall_disable_kernel_thread_scheduling k =
     map_option (\<lambda>s. (Returned, k\<lparr>kthreads := s\<rparr>)) (scheduler_disable_kernel_thread_scheduling (kthreads k))"

definition syscall_kernel_thread_wait_millis :: "env \<Rightarrow> kernel \<Rightarrow> run" where
  "syscall_kernel_thread_wait_millis e k =
     (if arg e 0 k = 0 then Some (Returned, k)
      else on_threads (scheduler_kernel_thread_wait (scheduler_get_running_kernel_thread (kthreads k)) (arg e 0 k)
        (env_base e) (frame k) (kthreads k)) k)"

definition syscall_kernel_thread_wait_for :: "env \<Rightarrow> kernel \<Rightarrow> run" where
  "syscall_kernel_thread_wait_for e k =
     (if arg e 0 k = 0 then Some (Returned, return_reg 0 0 k)
      else on_threads (scheduler_kernel_thread_wait_thread (scheduler_get_running_kernel_thread (kthreads k)) (arg e 0 k)
        (env_base e) (frame k) (kthreads k)) k)"

definition syscall_kernel_thread_create :: "env \<Rightarrow> kernel \<Rightarrow> kernel" where
  "syscall_kernel_thread_create e k =
     (if arg e 0 k = 0 \<or> arg e 1 k = 0 \<or> arg e 2 k = 0 then return_reg 0 0 k
      else
        let t = env_thread e;
            s = create_svc_thread (env_exit e) t (arg e 0 k) (arg e 1 k) (arg e 2 k) (kthreads k);
            k = k\<lparr>kthreads := scheduler_add_kernel_thread t s\<rparr>
        in return_reg 0 t k)"

definition syscall_kernel_thread_delete :: "env \<Rightarrow> kernel \<Rightarrow> run" where
  "syscall_kernel_thread_delete e k =
     (if arg e 0 k = 0 then Some (Returned, return_reg 0 0 k)
      else on_threads (scheduler_remove_kernel_thread (arg e 0 k) (kthreads k)) k)"

section \<open>Dispatch\<close>

fun run_syscall :: "env \<Rightarrow> syscall \<Rightarrow> kernel \<Rightarrow> run" where
  "run_syscall e Uninstall_osext k = Some (env_uninstall e k)"
| "run_syscall e Version k = Some (Returned, syscall_version k)"
| "run_syscall e Unix_time k = Some (Returned, syscall_unix_time k)"
| "run_syscall e Unix_time_milli k = Some (Returned, syscall_unix_time_milli k)"
| "run_syscall e Unix_time_micro k = Some (Returned, syscall_unix_time_micro e k)"
| "run_syscall e Set_unix_time k = Some (Returned, syscall_set_unix_time e k)"
| "run_syscall e Set_unix_time_milli k = Some (Returned, syscall_set_unix_time_milli e k)"
| "run_syscall e Enable_kernel_thread_scheduling k = Some (Returned, syscall_enable_kernel_thread_scheduling e k)"
| "run_syscall e Disable_kernel_thread_scheduling k = syscall_disable_kernel_thread_scheduling k"
| "run_syscall e Kernel_thread_wait_millis k = syscall_kernel_thread_wait_millis e k"
| "run_syscall e Kernel_thread_wait_for k = syscall_kernel_thread_wait_for e k"
| "run_syscall e Kernel_thread_create k = Some (Returned, syscall_kernel_thread_create e k)"
| "run_syscall e Kernel_thread_delete k = syscall_kernel_thread_delete e k"
| "run_syscall e Dummy_syscall k = Some (Returned, k)"

definition svc_syscall :: "env \<Rightarrow> u32 \<Rightarrow> kernel \<Rightarrow> run" where
  "svc_syscall e n k =
     (case swi_handler n of
        Panic m \<Rightarrow> Some (Panicked m, k)
      | Ret (Handler h) \<Rightarrow> run_syscall e h k
      | Ret (Wild _) \<Rightarrow> Some (Undefined, k))"

lemma syscall_eq: "svc_syscall e n k = (if unat n < 13 then run_syscall e (swi_table ! unat n) k else Some (Panicked ''unknown syscall!'', k))"
proof -
  have "(of_nat (length swi_table) :: u32) \<le> n \<longleftrightarrow> \<not> unat n < 13"
    by (simp add: swi_table_def unat_le_u32 not_less)
  then show ?thesis by (auto simp: svc_syscall_def swi_handler_def table_entry_def swi_table_def)
qed

section \<open>System calls and the scheduler\<close>

lemma return_reg_fields [simp]: "kthreads (return_reg r v k) = kthreads k" "clock (return_reg r v k) = clock k"
  by (simp_all add: return_reg_def)

text \<open>Every handler but the removal of the system ends; it leaves the threads alone or takes a step of the scheduler.\<close>

lemma run_syscall_step:
  assumes "h \<noteq> Uninstall_osext" and "sched_inv (kthreads k)" and "unused_thread (env_thread e) (kthreads k)"
    and "arg e 0 k div timeslice_length (kthreads k) < 0xFFFFFFFE"
  shows "\<exists>r k'. run_syscall e h k = Some (r, k')
    \<and> (r = Returned \<and> kthreads k' = kthreads k \<or> sched_step (kthreads k) r (kthreads k'))"
proof -
  have stay: ?thesis if "run_syscall e h k = Some (Returned, k')" "kthreads k' = kthreads k" for k'
    using that by simp
  have go: ?thesis if "run_syscall e h k = on_threads x k" "safe_result u x" "\<And>r s. x = Some (r, s) \<Longrightarrow> sched_step (kthreads k) r s" for u x
    using that by (auto simp: on_threads_def safe_result_def)
  show ?thesis
  proof (cases h)
    case Enable_kernel_thread_scheduling
    have "env_thread e \<noteq> NULL" using assms(3) by (simp add: unused_thread_def)
    from Enable [OF this, of "kthreads k" "env_exit e"] Enable_kernel_thread_scheduling show ?thesis
      by (simp add: syscall_enable_kernel_thread_scheduling_def)
  next
    case Disable_kernel_thread_scheduling
    obtain s where s: "scheduler_disable_kernel_thread_scheduling (kthreads k) = Some s" using disable_inv [OF assms(2)] by blast
    from Disable [OF s] s Disable_kernel_thread_scheduling show ?thesis
      by (simp add: syscall_disable_kernel_thread_scheduling_def)
  next
    case Kernel_thread_wait_millis
    show ?thesis
    proof (cases "arg e 0 k = 0")
      case True
      then show ?thesis using Kernel_thread_wait_millis by (intro stay [of k]) (simp_all add: syscall_kernel_thread_wait_millis_def)
    next
      case False
      then show ?thesis using Kernel_thread_wait_millis
        by (intro go [OF _ wait_inv [OF assms(2,4)] Wait [OF assms(4)]]) (simp_all add: syscall_kernel_thread_wait_millis_def)
    qed
  next
    case Kernel_thread_wait_for
    show ?thesis
    proof (cases "arg e 0 k = 0")
      case True
      then show ?thesis using Kernel_thread_wait_for by (intro stay [of "return_reg 0 0 k"]) (simp_all add: syscall_kernel_thread_wait_for_def)
    next
      case False
      then show ?thesis using Kernel_thread_wait_for
        by (intro go [OF _ wait_thread_inv [OF assms(2)] Wait_for]) (simp_all add: syscall_kernel_thread_wait_for_def)
    qed
  next
    case Kernel_thread_create
    then show ?thesis using Create [OF assms(3)]
      by (simp add: syscall_kernel_thread_create_def Let_def)
  next
    case Kernel_thread_delete
    show ?thesis
    proof (cases "arg e 0 k = 0")
      case True
      then show ?thesis using Kernel_thread_delete by (intro stay [of "return_reg 0 0 k"]) (simp_all add: syscall_kernel_thread_delete_def)
    next
      case False
      then show ?thesis using Kernel_thread_delete
        by (intro go [OF _ remove_inv [OF assms(2)] Remove]) (simp_all add: syscall_kernel_thread_delete_def)
    qed
  qed (use assms(1) in \<open>auto simp: syscall_version_def syscall_unix_time_def syscall_unix_time_milli_def syscall_unix_time_micro_def
      syscall_set_unix_time_def syscall_set_unix_time_milli_def Let_def split: prod.split\<close>)
qed

text \<open>
  C7. Every system call but the removal of the system, with any arguments but a wait of 0xFFFFFFFE time slices or more, ends, leaves the
  threads in a state the scheduler can reach, and panics exactly when its number is not in the table; its behaviour is undefined only
  when the length of a time slice is 0. The slab allocator is taken to have given the call a thread structure that is not in use:
  the code does not check that it got one.
\<close>

theorem syscalls_safe:
  assumes "sched_reachable (kthreads k)" and "n \<noteq> 0" and "unused_thread (env_thread e) (kthreads k)"
    and "arg e 0 k div timeslice_length (kthreads k) < 0xFFFFFFFE"
  shows "\<exists>r k'. svc_syscall e n k = Some (r, k') \<and> sched_reachable (kthreads k') \<and> ((\<exists>m. r = Panicked m) \<longleftrightarrow> 13 \<le> unat n)
    \<and> (r = Undefined \<longrightarrow> timeslice_length (kthreads k) = 0)"
proof (cases "unat n < 13")
  case True
  have "unat n \<noteq> 0" using assms(2) by (simp add: unat_eq_zero)
  then have h: "swi_table ! unat n \<noteq> Uninstall_osext" using True
    by (auto simp: swi_table_def nth_Cons' less_Suc_eq numeral_eq_Suc)
  note inv = reachable_inv [OF assms(1)]
  from run_syscall_step [OF h inv assms(3,4)] obtain r k'
    where r: "run_syscall e (swi_table ! unat n) k = Some (r, k')"
      "r = Returned \<and> kthreads k' = kthreads k \<or> sched_step (kthreads k) r (kthreads k')" by blast
  have "r \<noteq> Panicked m" "r = Undefined \<longrightarrow> timeslice_length (kthreads k) = 0" for m using r(2) step_inv [OF _ inv] by auto
  moreover have "sched_reachable (kthreads k')" using r(2) assms(1) by (auto intro: Step)
  ultimately show ?thesis using True r(1) by (auto simp: syscall_eq)
next
  case False
  then show ?thesis using assms(1) by (auto simp: syscall_eq)
qed

lemma syscalls_safe_witness:
  "\<exists>k' r. svc_syscall \<lparr>env_base = 0x1000, env_exit = 0x9000, env_thread = 0x200, env_micro = Pair 0, env_uninstall = Pair Returned\<rparr> 11
     \<lparr>frame = replicate 16 8, clock = \<lparr>regs = (\<lambda>_. 0), writes = [], timer_milis_overflows = 0, timer_seconds_overflows = 0\<rparr>,
      kthreads = threads_off\<rparr> = Some (r, k') \<and> sched_reachable (kthreads k')"
proof -
  let ?e = "\<lparr>env_base = 0x1000, env_exit = 0x9000, env_thread = 0x200, env_micro = Pair 0, env_uninstall = Pair Returned\<rparr> :: env"
  let ?k = "\<lparr>frame = replicate 16 8, clock = \<lparr>regs = (\<lambda>_. 0), writes = [], timer_milis_overflows = 0, timer_seconds_overflows = 0\<rparr>,
      kthreads = threads_off\<rparr> :: kernel"
  have "sched_reachable (kthreads ?k)" by (rule Start) (simp add: threads_off_def)
  moreover have "\<not> ring threads_off xs" for xs by (cases xs) (auto simp: ring_def threads_off_def)
  then have "unused_thread (env_thread ?e) (kthreads ?k)" by (simp add: unused_thread_def)
  moreover have "arg ?e 0 ?k div timeslice_length (kthreads ?k) < 0xFFFFFFFE"
    by (simp add: syscall_get_reg_def threads_off_def)
  ultimately show ?thesis using syscalls_safe [of ?k 11 ?e] by auto
qed

section \<open>The time through system calls\<close>

text \<open>The two registers hold a 64 bit number.\<close>

definition reg_pair :: "u32 \<Rightarrow> u32 \<Rightarrow> int" where
  "reg_pair lo hi = sint (push_bit 32 (ucast hi) OR ucast lo :: u64)"

lemma reg_pair_split:
  assumes "0 \<le> t" and "t < 2 ^ 63"
  shows "reg_pair (word_of_int t) (word_of_int (drop_bit 32 t)) = t"
proof -
  have "(push_bit 32 (ucast (word_of_int (drop_bit 32 t) :: u32)) OR ucast (word_of_int t :: u32) :: u64) = word_of_int t"
    by (rule bit_word_eqI) (auto simp: bit_or_iff bit_push_bit_iff bit_ucast_iff bit_word_of_int_iff bit_drop_bit_eq)
  then show ?thesis using assms unfolding reg_pair_def by (simp add: sint_uint uint_word_of_int signed_take_bit_int_eq_self)
qed

lemma reg_after:
  assumes "length f = 16"
  shows "syscall_get_reg b (syscall_set_reg (syscall_set_reg f 0 v) 1 w) 0 = v"
    "syscall_get_reg b (syscall_set_reg (syscall_set_reg f 0 v) 1 w) 1 = w"
    "q \<noteq> 0 \<Longrightarrow> q \<noteq> 1 \<Longrightarrow> syscall_get_reg b (syscall_set_reg (syscall_set_reg f 0 v) 1 w) q = syscall_get_reg b f q"
  using assms by (simp_all add: syscall_get_set_reg)

text \<open>
  C21. A program that sets the time with one system call and later reads it with another gets the time it set plus the
  seconds that have passed; the other registers of the caller are kept.
\<close>

theorem time_syscalls_roundtrip:
  assumes "0 < t" and "t * 1000 < 2 ^ 58" and "reg_pair (arg e 0 k) (arg e 1 k) = t"
    and "svc_syscall e 5 k = Some (r1, k1)" and "clock_runs (clock k1) (clock k2) ticks passed"
    and "32 * (t * 1000 mod 2 ^ 27) + int ticks < 2 ^ 32" and "t mod 2 ^ 32 + int passed < 2 ^ 32" and "length (frame k2) = 16"
  shows "\<exists>k3. svc_syscall e 2 k2 = Some (Returned, k3) \<and> reg_pair (arg e 0 k3) (arg e 1 k3) = t + int passed
    \<and> (\<forall>q. q \<noteq> 0 \<and> q \<noteq> 1 \<longrightarrow> arg e q k3 = arg e q k2)"
proof -
  have "clock k1 = systime_set_unix t (clock k)"
    using assms(3,4) by (auto simp: syscall_eq swi_table_def syscall_set_unix_time_def reg_pair_def Let_def)
  with assms(5) have "clock_runs (systime_set_unix t (clock k)) (clock k2) ticks passed" by simp
  from set_unix_read_spec [OF assms(1,2) this assms(6,7)] have u: "systime_unix (clock k2) = t + int passed" by blast
  have "t + int passed < 2 ^ 63" using assms(1,2,7) by (simp add: mult_strict_right_mono)
  then have p: "reg_pair (word_of_int (t + int passed)) (word_of_int (drop_bit 32 (t + int passed))) = t + int passed"
    using assms(1) by (intro reg_pair_split) simp_all
  have "svc_syscall e 2 k2 = Some (Returned, syscall_unix_time k2)" by (simp add: syscall_eq swi_table_def)
  moreover have "arg e 0 (syscall_unix_time k2) = word_of_int (t + int passed)"
    "arg e 1 (syscall_unix_time k2) = word_of_int (drop_bit 32 (t + int passed))"
    "\<And>q. q \<noteq> 0 \<Longrightarrow> q \<noteq> 1 \<Longrightarrow> arg e q (syscall_unix_time k2) = arg e q k2"
    using reg_after [OF assms(8)] by (simp_all add: syscall_unix_time_def return_reg_def Let_def u)
  ultimately show ?thesis using p by auto
qed

lemma time_syscalls_roundtrip_witness:
  "\<exists>e k k1 k2 k3 r. reg_pair (arg e 0 k) (arg e 1 k) = 1600000000 \<and> svc_syscall e 5 k = Some (r, k1)
     \<and> clock_runs (clock k1) (clock k2) 32000 1 \<and> svc_syscall e 2 k2 = Some (Returned, k3) \<and> reg_pair (arg e 0 k3) (arg e 1 k3) = 1600000001"
proof -
  let ?e = "\<lparr>env_base = 0x1000, env_exit = 0x9000, env_thread = 0x200, env_micro = Pair 0, env_uninstall = Pair Returned\<rparr> :: env"
  let ?c = "\<lparr>regs = (\<lambda>_. 0), writes = [], timer_milis_overflows = 0, timer_seconds_overflows = 0\<rparr>"
  let ?k = "\<lparr>frame = (replicate 16 0)[15 := 1600000000], clock = ?c, kthreads = threads_off\<rparr> :: kernel"
  let ?s = "systime_set_unix 1600000000 ?c"
  let ?k2 = "?k\<lparr>clock := ?s\<lparr>regs := (regs ?s)(timer_reg 1 0 1 := rd (timer_reg 1 0 0) ?s - 32000,
      reg remapped_rtc 0 := rd (reg remapped_rtc 2) ?s + 1)\<rparr>\<rparr>"
  have p: "reg_pair (arg ?e 0 ?k) (arg ?e 1 ?k) = 1600000000"
    by (simp add: reg_pair_def syscall_get_reg_def)
  then have s: "svc_syscall ?e 5 ?k = Some (Returned, ?k\<lparr>clock := ?s\<rparr>)"
    by (simp add: syscall_eq swi_table_def syscall_set_unix_time_def reg_pair_def Let_def)
  have "timer_reg 1 0 1 \<noteq> reg remapped_rtc 0"
    by (simp add: timer_reg_def reg_def remapped_timer_def remapped_first_timer_def remapped_rtc_def)
  then have r: "clock_runs (clock (?k\<lparr>clock := ?s\<rparr>)) (clock ?k2) 32000 1" by (simp add: clock_runs_def rd_def)
  from time_syscalls_roundtrip [OF _ _ p s r] obtain k3
    where "svc_syscall ?e 2 ?k2 = Some (Returned, k3)" "reg_pair (arg ?e 0 k3) (arg ?e 1 k3) = 1600000001" by auto
  with p s r show ?thesis by blast
qed

end
