(* ===== verification/Touchpad.thy ===== *)
theory Touchpad
  imports Devices Deferred_Actions
begin

text \<open>
  The bus of the touchpad (drivers/i2c.c), the touchpad (drivers/touchpad.c) and the analogue inputs (drivers/adc.c).
  What the data register of the bus reads is not what was written last but what the touchpad answers to the
  writes so far: \<open>dev\<close> gives the word it reads for a state of the registers.
\<close>

section \<open>The bus\<close>

definition remapped_i2c :: addr where "remapped_i2c = 0xe9050000"

definition i2c_set_port :: "u32 \<Rightarrow> 'a mmio_scheme \<Rightarrow> 'a mmio_scheme" where
  "i2c_set_port port s =
     (if port > 0xff then s
      else
        let s = wr (reg remapped_i2c 14) 0 s
        in wr (reg remapped_i2c 4) (port AND 0xff) s)"

definition i2c_read :: "('a mmio_scheme \<Rightarrow> u32) \<Rightarrow> 'a mmio_scheme \<Rightarrow> u8 \<times> 'a mmio_scheme" where
  "i2c_read dev s = (let s = wr (reg remapped_i2c 4) 0x100 s in (ucast (dev s), s))"

definition i2c_write :: "u8 \<Rightarrow> 'a mmio_scheme \<Rightarrow> 'a mmio_scheme" where
  "i2c_write v s = wr (reg remapped_i2c 4) (ucast v AND 0xff) s"

text \<open>The buffers are lists of bytes; the loop of \<open>i2c_read_multiple\<close> with \<open>n\<close> bytes left.\<close>

fun i2c_read_multiple :: "('a mmio_scheme \<Rightarrow> u32) \<Rightarrow> nat \<Rightarrow> 'a mmio_scheme \<Rightarrow> u8 list \<times> 'a mmio_scheme" where
  "i2c_read_multiple dev 0 s = ([], s)"
| "i2c_read_multiple dev (Suc n) s =
     (let s = wr (reg remapped_i2c 4) 0x100 s;
          b = ucast (dev s);
          (bs, s) = i2c_read_multiple dev n s
      in (b # bs, s))"

definition i2c_write_multiple :: "u8 list \<Rightarrow> 'a mmio_scheme \<Rightarrow> 'a mmio_scheme" where
  "i2c_write_multiple buffer s = fold (\<lambda>b. wr (reg remapped_i2c 4) (ucast b)) buffer s"

section \<open>The touchpad\<close>

definition bswap16 :: "u16 \<Rightarrow> u16" where
  "bswap16 s = push_bit 8 (s AND 0xFF) OR drop_bit 8 (s AND 0xFF00)"

record touchpad_report =
  tr_contact :: bool
  tr_proximity :: u8
  tr_x :: u16
  tr_y :: u16
  tr_xrel :: u8
  tr_yrel :: u8
  tr_pressed :: bool

text \<open>A half word of the buffer, low byte first.\<close>

definition buff16 :: "u8 list \<Rightarrow> nat \<Rightarrow> u16" where
  "buff16 buff i = ucast (buff ! i) OR push_bit 8 (ucast (buff ! (i + 1)))"

definition touchpad_get_report :: "('a mmio_scheme \<Rightarrow> u32) \<Rightarrow> 'a mmio_scheme \<Rightarrow> touchpad_report \<times> 'a mmio_scheme" where
  "touchpad_get_report dev s =
     (let s = i2c_set_port 0 s;
          (buff, s) = i2c_read_multiple dev 11 s
      in (\<lparr>tr_contact = (if buff ! 0 = 1 then True else False), tr_proximity = buff ! 1,
           tr_x = bswap16 (buff16 buff 2), tr_y = bswap16 (buff16 buff 4), tr_xrel = buff ! 6, tr_yrel = buff ! 7,
           tr_pressed = (if buff ! 10 = 1 then True else False)\<rparr>, s))"

definition touchpad_status :: "('a mmio_scheme \<Rightarrow> u32) \<Rightarrow> 'a mmio_scheme \<Rightarrow> u8 \<times> 'a mmio_scheme" where
  "touchpad_status dev s = (let s = i2c_set_port 0xb s in i2c_read dev s)"

definition touchpad_max_x :: u16 where "touchpad_max_x = 0x0918"
definition touchpad_max_y :: u16 where "touchpad_max_y = 0x069B"

datatype touchpad_arrow = ARROW_UP | ARROW_RIGHT | ARROW_DOWN | ARROW_LEFT

text \<open>The comparisons are made on words of 32 bits.\<close>

definition touchpad_is_arrow :: "touchpad_arrow \<Rightarrow> touchpad_report \<Rightarrow> bool" where
  "touchpad_is_arrow arrow rep =
     (let fx = ucast touchpad_max_x div 8 :: u32;
          fy = ucast touchpad_max_y div 8 :: u32
      in if \<not> tr_pressed rep then False
         else
           case arrow of
             ARROW_UP \<Rightarrow> ucast (tr_y rep) \<ge> ucast touchpad_max_y - fy
           | ARROW_RIGHT \<Rightarrow> ucast (tr_x rep) \<ge> ucast touchpad_max_x - fx
           | ARROW_DOWN \<Rightarrow> ucast (tr_y rep) \<le> fy
           | ARROW_LEFT \<Rightarrow> ucast (tr_x rep) \<le> fx)"

section \<open>Analogue inputs\<close>

definition remapped_adc :: addr where "remapped_adc = 0xe9400000"

text \<open>
  The state is the status register of the processor and the registers of the devices. The quotient is a
  floating point number: \<open>quot\<close> gives it for the value read and the divisor, and \<open>zero\<close> is 0. \<open>msleep\<close> is an argument.
\<close>

type_synonym adc = "cpu \<times> mmio"

definition adc_read_channel :: "(u32 \<Rightarrow> u32 \<Rightarrow> 'd) \<Rightarrow> 'd \<Rightarrow> (u32 \<Rightarrow> adc \<Rightarrow> adc) \<Rightarrow> u32 \<Rightarrow> adc \<Rightarrow> 'd \<times> adc" where
  "adc_read_channel quot zero msleep channel s =
     (if channel > 5 then (zero, s)
      else
        let powered = power_device_powered 4 (snd s);
            s = (if \<not> powered then apsnd (power_enable_device 4) s else s);
            channel_command = remapped_adc + 0x100 + 0x20 * channel;
            channel_read = remapped_adc + 0x100 + 0x20 * channel + 0x10;
            s = apsnd (wr (reg remapped_adc 1) 0xffffffff) s;
            irq = isIRQ (fst s);
            s = (if irq then apfst disableIRQ s else s);
            prev_cmd = rd channel_command (snd s);
            s = apsnd (wr channel_command 1) s;
            s = msleep 50 s;
            read = rd channel_read (snd s);
            s = apsnd (wr channel_command prev_cmd) s;
            s = msleep 50 s;
            s = apsnd (wr (reg remapped_adc 1) 0xffffffff) s;
            s = (if irq then apfst enableIRQ s else s);
            s = (if \<not> powered then apsnd (power_disable_device 4) s else s)
        in if channel = 1 \<or> channel = 2 then (quot read 155, s) else (quot read 310, s))"

section \<open>The report\<close>

lemma bswap16_buff16:
  "bswap16 (buff16 buff i) = ucast (buff ! (i + 1)) OR push_bit 8 (ucast (buff ! i))"
proof -
  have m: "(0xFF :: u16) = mask 8" "(0xFF00 :: u16) = push_bit 8 (mask 8)" by (simp_all add: mask_eq_exp_minus_1 push_bit_eq_mult)
  show ?thesis unfolding bswap16_def buff16_def m
    by (rule bit_word_eqI) (auto simp: bit_simps dest: bit_imp_le_length)
qed

text \<open>
  The register contents of a touchpad that answers the reads after a port was set with the bytes from that port on: the writes since
  the port was set are reads.
\<close>

definition answers :: "('a mmio_scheme \<Rightarrow> u32) \<Rightarrow> u8 list \<Rightarrow> 'a mmio_scheme \<Rightarrow> bool" where
  "answers dev bytes s \<longleftrightarrow> list_all (\<lambda>k. ucast (dev ((wr (reg remapped_i2c 4) 0x100 ^^ Suc k) s)) = bytes ! k) [0..<length bytes]"

lemma i2c_read_multiple_answers:
  "answers dev bytes s \<Longrightarrow> i2c_read_multiple dev (length bytes) s = (bytes, (wr (reg remapped_i2c 4) 0x100 ^^ length bytes) s)"
proof (induction bytes arbitrary: s)
  case Nil
  then show ?case by simp
next
  case (Cons b bytes)
  let ?w = "wr (reg remapped_i2c 4) 0x100"
  have "ucast (dev ((?w ^^ Suc k) (?w s))) = bytes ! k" if "k < length bytes" for k
    using Cons.prems [unfolded answers_def list_all_iff, THEN bspec, of "Suc k"] that by (simp add: funpow_swap1 del: upt_Suc)
  then have "answers dev bytes (?w s)" by (simp add: answers_def list_all_iff)
  from Cons.IH [OF this] have "i2c_read_multiple dev (length bytes) (?w s) = (bytes, (?w ^^ length bytes) (?w s))" .
  moreover have "ucast (dev (?w s)) = b" using Cons.prems [unfolded answers_def list_all_iff, THEN bspec, of 0] by (simp del: upt_Suc)
  ultimately show ?case by (simp add: Let_def funpow_swap1)
qed

text \<open>
  With a touchpad that answers with eleven bytes the report is made of them: the coordinates have their high byte first. At
  most one of two opposite arrows is reported, none without a press.
\<close>

theorem touchpad_get_report_correct:
  assumes "answers dev [c, p, xh, xl, yh, yl, xr, yr, u, v, pr] (i2c_set_port 0 s)"
  shows "let rep = fst (touchpad_get_report dev s) in
    rep = \<lparr>tr_contact = (c = 1), tr_proximity = p, tr_x = ucast xl OR push_bit 8 (ucast xh), tr_y = ucast yl OR push_bit 8 (ucast yh),
           tr_xrel = xr, tr_yrel = yr, tr_pressed = (pr = 1)\<rparr>
    \<and> \<not> (touchpad_is_arrow ARROW_UP rep \<and> touchpad_is_arrow ARROW_DOWN rep)
    \<and> \<not> (touchpad_is_arrow ARROW_LEFT rep \<and> touchpad_is_arrow ARROW_RIGHT rep)
    \<and> (pr \<noteq> 1 \<longrightarrow> \<not> touchpad_is_arrow a rep)"
proof -
  have "\<not> (touchpad_is_arrow ARROW_UP rep \<and> touchpad_is_arrow ARROW_DOWN rep)"
    "\<not> (touchpad_is_arrow ARROW_LEFT rep \<and> touchpad_is_arrow ARROW_RIGHT rep)"
    "\<not> tr_pressed rep \<Longrightarrow> \<not> touchpad_is_arrow a rep" for rep
  proof -
    have "ucast touchpad_max_x = (2328 :: u32)" "ucast touchpad_max_y = (1691 :: u32)" by (simp_all add: touchpad_max_x_def touchpad_max_y_def)
    then show "\<not> (touchpad_is_arrow ARROW_UP rep \<and> touchpad_is_arrow ARROW_DOWN rep)"
      "\<not> (touchpad_is_arrow ARROW_LEFT rep \<and> touchpad_is_arrow ARROW_RIGHT rep)"
      "\<not> tr_pressed rep \<Longrightarrow> \<not> touchpad_is_arrow a rep"
      by (auto simp: touchpad_is_arrow_def Let_def unat_le_u32)
  qed
  moreover have "fst (touchpad_get_report dev s) = \<lparr>tr_contact = (c = 1), tr_proximity = p, tr_x = ucast xl OR push_bit 8 (ucast xh),
      tr_y = ucast yl OR push_bit 8 (ucast yh), tr_xrel = xr, tr_yrel = yr, tr_pressed = (pr = 1)\<rparr>"
    using i2c_read_multiple_answers [OF assms] by (simp add: touchpad_get_report_def Let_def bswap16_buff16 eval_nat_numeral)
  ultimately show ?thesis by (simp add: Let_def)
qed

section \<open>Restoring after a measurement\<close>

text \<open>
  C1. A measurement leaves the interrupt masks, the command of the channel and the power of the device as they were, when waiting
  does; it is the value the channel shows after the first wait.
\<close>

theorem adc_read_channel_restores:
  assumes "channel \<le> 5" and "\<And>n s. cpsr (fst (msleep n s)) = cpsr (fst s)" and "\<And>n s. regs (snd (msleep n s)) = regs (snd s)"
  shows "let (v, s') = adc_read_channel quot zero msleep channel s in
    cpsr (fst s') = cpsr (fst s) \<and> rd (remapped_adc + 0x100 + 0x20 * channel) (snd s') = rd (remapped_adc + 0x100 + 0x20 * channel) (snd s)
    \<and> rd (reg remapped_power 6) (snd s') = rd (reg remapped_power 6) (snd s)
    \<and> v = quot (rd (remapped_adc + 0x110 + 0x20 * channel) (snd s)) (if channel = 1 \<or> channel = 2 then 155 else 310)"
proof -
  have "unat channel \<le> 5" using assms(1) by (simp add: unat_le_u32)
  then have "unat channel \<in> {0, 1, 2, 3, 4, 5}" by auto
  then have c: "channel \<in> {0, 1, 2, 3, 4, 5}" by (auto simp: word_unat_eq_iff)
  define cmd where "cmd = remapped_adc + 0x100 + 0x20 * channel"
  define pw where "pw = reg remapped_power 6"
  define st where "st = reg remapped_adc 1"
  have a: "cmd \<noteq> pw" "cmd \<noteq> st" "cmd + 0x10 \<noteq> cmd" "cmd + 0x10 \<noteq> pw" "cmd + 0x10 \<noteq> st" "pw \<noteq> st"
    using c by (auto simp: cmd_def pw_def st_def remapped_adc_def remapped_power_def reg_def)
  have f: "remapped_adc + 0x110 + 0x20 * channel = cmd + 0x10" by (simp add: cmd_def)
  have n: "\<not> channel > 5" using assms(1) by simp
  have i: "cpsr (enableIRQ c) = cpsr d" if "cpsr c = cpsr (disableIRQ d)" "isIRQ d" for c d :: cpu
  proof -
    from that(2) have "\<not> bit (cpsr d) 7" by (simp add: is_bits)
    have "cpsr (enableIRQ c) = (cpsr d OR 0x80) AND NOT 0x80"
      by (simp add: enableIRQ_def that(1) disableIRQ_def)
    also have "\<dots> = cpsr d"
      by (rule bit_word_eqI) (use \<open>\<not> bit (cpsr d) 7\<close> in \<open>auto simp only: bit_and_iff bit_or_iff bit_not_iff possible_bit_word mask_bits\<close>)
    finally show ?thesis .
  qed
  have p: "(r AND NOT (push_bit 4 1)) OR push_bit 4 1 = r" if "drop_bit 4 r AND 1 = 1" for r :: u32
  proof -
    from that have "bit r 4" by (simp add: and_one_eq bit_iff_odd_drop_bit odd_iff_mod_2_eq_one)
    moreover have "bit (push_bit 4 1 :: u32) n \<longleftrightarrow> n = 4" for n
      by (auto simp: bit_push_bit_iff bit_1_iff simp del: push_bit_numeral push_bit_of_1)
    ultimately show ?thesis
      by (intro bit_word_eqI) (auto simp only: bit_or_iff bit_and_iff bit_not_iff possible_bit_word simp_thms)
  qed
  have r [simp]: "regs (wr a v s) = (regs s)(a := v)" for a v and s :: mmio by (simp add: wr_def)
  have w: "regs (power_enable_device 4 s) = (regs s)(pw := regs s pw AND NOT (push_bit 4 1))"
    "regs (power_disable_device 4 s) = (regs s)(pw := regs s pw OR push_bit 4 1)" for s :: mmio
    by (simp_all only: power_enable_device_def power_disable_device_def Let_def rd_def pw_def r) simp_all
  have pp: "power_device_powered 4 s \<longleftrightarrow> \<not> drop_bit 4 (regs s pw) AND 1 = 1" for s :: mmio
    by (simp add: power_device_powered_def rd_def pw_def)
  note d = adc_read_channel_def Let_def n cmd_def [symmetric] st_def [symmetric] f rd_def
  show ?thesis
    by (cases "power_device_powered 4 (snd s)"; cases "isIRQ (fst s)")
      (simp_all only: d pw_def [symmetric] if_True if_False not_True_eq_False not_False_eq_True,
       (use a assms(2,3) in \<open>simp add: w i p pp del: push_bit_numeral push_bit_of_1\<close>)+)
qed

section \<open>Examples\<close>

text \<open>A touchpad that counts the reads since the port was set.\<close>

definition touch_dev :: "u8 list \<Rightarrow> mmio \<Rightarrow> u32" where
  "touch_dev bytes s = ucast (bytes ! (length (takeWhile (\<lambda>w. w = (reg remapped_i2c 4, 0x100)) (rev (writes s))) - 1))"

lemma touchpad_get_report_correct_witness:
  "let rep = fst (touchpad_get_report (touch_dev [1, 50, 6, 0x90, 0, 0x10, 0, 0, 0, 0, 1]) \<lparr>regs = (\<lambda>_. 0), writes = []\<rparr>)
   in tr_x rep = 0x690 \<and> tr_y rep = 0x10 \<and> \<not> touchpad_is_arrow ARROW_UP rep"
proof -
  have "answers (touch_dev [1, 50, 6, 0x90, 0, 0x10, 0, 0, 0, 0, 1]) [1, 50, 6, 0x90, 0, 0x10, 0, 0, 0, 0, 1]
      (i2c_set_port 0 \<lparr>regs = (\<lambda>_. 0), writes = []\<rparr>)" by code_simp
  from touchpad_get_report_correct [OF this, of ARROW_UP]
  have "fst (touchpad_get_report (touch_dev [1, 50, 6, 0x90, 0, 0x10, 0, 0, 0, 0, 1]) \<lparr>regs = (\<lambda>_. 0), writes = []\<rparr>)
      = \<lparr>tr_contact = True, tr_proximity = 50, tr_x = 0x690, tr_y = 0x10, tr_xrel = 0, tr_yrel = 0, tr_pressed = True\<rparr>"
    by (simp add: Let_def)
  then show ?thesis by (simp add: Let_def touchpad_is_arrow_def touchpad_max_y_def)
qed

lemma adc_read_channel_restores_witness:
  "let s = (\<lparr>cpsr = 0x13\<rparr>, \<lparr>regs = (\<lambda>_. 0x10)(0xe9400130 := 620), writes = []\<rparr>) in
   fst (adc_read_channel (\<lambda>a b. unat (a div b)) 0 (\<lambda>_ s. s) 1 s) = 4
   \<and> cpsr (fst (snd (adc_read_channel (\<lambda>a b. unat (a div b)) 0 (\<lambda>_ s. s) 1 s))) = 0x13"
  using adc_read_channel_restores [of 1 "\<lambda>_ s. s" "\<lambda>a b. unat (a div b)" 0 "(\<lparr>cpsr = 0x13\<rparr>, \<lparr>regs = (\<lambda>_. 0x10)(0xe9400130 := 620), writes = []\<rparr>)"]
  by (simp add: Let_def rd_def remapped_adc_def split: prod.splits)

end
