(* ===== verification/Raster.thy ===== *)
theory Raster
  imports OS_Prelude
begin

text \<open>
  The interface of the functions that draw: something with 320 times 240 pixels of which one can be set. The
  drawing functions set pixels one by one in loops; the lemmas say which pixels a whole shape covers, and that
  nothing else changes.
\<close>

locale raster =
  fixes plot :: "u32 \<Rightarrow> u32 \<Rightarrow> 'k \<Rightarrow> 's \<Rightarrow> 's"
    and shade :: "'k \<Rightarrow> 'c"
    and at :: "'s \<Rightarrow> u32 \<Rightarrow> u32 \<Rightarrow> 'c"
    and rest :: "'s \<Rightarrow> 'r"
    and live :: "'s \<Rightarrow> bool"
  assumes at_plot: "live s \<Longrightarrow> X < 320 \<Longrightarrow> Y < 240 \<Longrightarrow> at (plot x y k s) X Y = (if X = x \<and> Y = y then shade k else at s X Y)"
    and rest_plot: "rest (plot x y k s) = rest s"
    and live_plot: "live (plot x y k s) = live s"
begin

text \<open>
  \<open>paints I c Q f\<close>: when \<open>I\<close> holds for the rest of the state, \<open>f\<close> gives exactly the pixels in \<open>Q\<close> their
  colours \<open>c\<close> and changes nothing else.
\<close>

definition paints :: "('r \<Rightarrow> bool) \<Rightarrow> (u32 \<Rightarrow> u32 \<Rightarrow> 'c) \<Rightarrow> (u32 \<Rightarrow> u32 \<Rightarrow> bool) \<Rightarrow> ('s \<Rightarrow> 's) \<Rightarrow> bool" where
  "paints I c Q f \<longleftrightarrow> (\<forall>s. live s \<longrightarrow> I (rest s) \<longrightarrow> live (f s) \<and> rest (f s) = rest s
     \<and> (\<forall>X Y. X < 320 \<longrightarrow> Y < 240 \<longrightarrow> at (f s) X Y = (if Q X Y then c X Y else at s X Y)))"

lemma paintsI:
  assumes "\<And>s. live s \<Longrightarrow> I (rest s) \<Longrightarrow> live (f s)" and "\<And>s. live s \<Longrightarrow> I (rest s) \<Longrightarrow> rest (f s) = rest s"
    and "\<And>s X Y. live s \<Longrightarrow> I (rest s) \<Longrightarrow> X < 320 \<Longrightarrow> Y < 240 \<Longrightarrow> at (f s) X Y = (if Q X Y then c X Y else at s X Y)"
  shows "paints I c Q f"
  using assms by (simp add: paints_def)

lemma paintsD:
  assumes "paints I c Q f" and "live s" and "I (rest s)"
  shows "live (f s)" and "rest (f s) = rest s"
    and "X < 320 \<Longrightarrow> Y < 240 \<Longrightarrow> at (f s) X Y = (if Q X Y then c X Y else at s X Y)"
  using assms by (simp_all add: paints_def)

lemma paints_plot_state:
  assumes "\<And>s. live s \<Longrightarrow> I (rest s) \<Longrightarrow> shade (k s) = c x y"
  shows "paints I c (\<lambda>X Y. X = x \<and> Y = y) (\<lambda>s. plot x y (k s) s)"
  by (rule paintsI) (simp_all add: at_plot rest_plot live_plot assms)

lemma paints_plot: "paints I (\<lambda>_ _. shade k) (\<lambda>X Y. X = x \<and> Y = y) (plot x y k)"
  by (rule paintsI) (simp_all add: at_plot rest_plot live_plot)

lemma paints_none: "paints I c (\<lambda>X Y. False) (\<lambda>s. s)"
  by (rule paintsI) simp_all

lemma paints_comp:
  assumes "paints I c Q f" and "paints I c R g"
  shows "paints I c (\<lambda>X Y. Q X Y \<or> R X Y) (\<lambda>s. g (f s))"
  by (rule paintsI) (simp_all add: paintsD [OF assms(1)] paintsD [OF assms(2)])

lemma paints_cong: "paints I c Q f \<Longrightarrow> (\<And>X Y. X < 320 \<Longrightarrow> Y < 240 \<Longrightarrow> Q X Y \<longleftrightarrow> R X Y) \<Longrightarrow> paints I c R f"
  by (simp add: paints_def)

text \<open>A pixel that is set under a condition on the rest of the state.\<close>

lemma paints_if:
  assumes "paints I c Q f" and "\<And>s. live s \<Longrightarrow> I (rest s) \<Longrightarrow> b s = B"
  shows "paints I c (\<lambda>X Y. B \<and> Q X Y) (\<lambda>s. if b s then f s else s)"
  by (rule paintsI) (simp_all add: paintsD [OF assms(1)] assms(2))

lemma paints_fold:
  "(\<And>i. i \<in> set is \<Longrightarrow> paints I c (Q i) (body i)) \<Longrightarrow> paints I c (\<lambda>X Y. \<exists>i\<in>set is. Q i X Y) (fold body is)"
proof (induction "is" rule: rev_induct)
  case Nil
  show ?case using paints_none by (simp add: id_def)
next
  case (snoc i js)
  have "paints I c (\<lambda>X Y. (\<exists>i\<in>set js. Q i X Y) \<or> Q i X Y) (\<lambda>s. body i (fold body js s))"
    by (rule paints_comp) (use snoc in simp_all)
  moreover have "fold body (js @ [i]) = (\<lambda>s. body i (fold body js s))" by (simp add: fun_eq_iff)
  ultimately show ?case by (auto elim: paints_cong)
qed

lemma paints_for:
  assumes "\<And>i. a \<le> i \<Longrightarrow> i < b \<Longrightarrow> paints I c (Q i) (body i)"
  shows "paints I c (\<lambda>X Y. \<exists>i. a \<le> i \<and> i < b \<and> Q i X Y) (for_u32 a b body)"
proof -
  have n: "a \<le> of_nat k \<and> of_nat k < b" if "k \<in> set [unat a..<unat b]" for k
    using that unat_u32_bound [of b] by (simp add: unat_le_u32 unat_less_u32 unat_of_nat_u32)
  have "paints I c (\<lambda>X Y. \<exists>k\<in>set [unat a..<unat b]. Q (of_nat k) X Y) (fold (\<lambda>k. body (of_nat k)) [unat a..<unat b])"
    by (rule paints_fold) (use assms n in blast)
  moreover have "(\<exists>k\<in>set [unat a..<unat b]. Q (of_nat k) X Y) \<longleftrightarrow> (\<exists>i. a \<le> i \<and> i < b \<and> Q i X Y)" for X Y
  proof
    assume "\<exists>i. a \<le> i \<and> i < b \<and> Q i X Y"
    then obtain i where "a \<le> i" "i < b" "Q i X Y" by blast
    then show "\<exists>k\<in>set [unat a..<unat b]. Q (of_nat k) X Y"
      by (intro bexI [of _ "unat i"]) (simp_all add: unat_le_u32 unat_less_u32)
  qed (use n in blast)
  moreover have "for_u32 a b body = fold (\<lambda>k. body (of_nat k)) [unat a..<unat b]" by (simp add: fun_eq_iff for_u32_fold)
  ultimately show ?thesis by simp
qed

text \<open>A filled rectangle, and the four edges of one.\<close>

lemma paints_rect:
  "paints I (\<lambda>_ _. shade k) (\<lambda>X Y. a \<le> X \<and> X < b \<and> c \<le> Y \<and> Y < d) (for_u32 a b (\<lambda>x. for_u32 c d (\<lambda>y. plot x y k)))"
proof -
  have p: "paints I (\<lambda>_ _. shade k) (\<lambda>X Y. \<exists>y. c \<le> y \<and> y < d \<and> X = x \<and> Y = y) (for_u32 c d (\<lambda>y. plot x y k))" for x
    by (rule paints_for) (rule paints_plot)
  have "paints I (\<lambda>_ _. shade k) (\<lambda>X Y. \<exists>x. a \<le> x \<and> x < b \<and> (\<exists>y. c \<le> y \<and> y < d \<and> X = x \<and> Y = y))
      (for_u32 a b (\<lambda>x. for_u32 c d (\<lambda>y. plot x y k)))"
    by (rule paints_for) (rule p)
  then show ?thesis by (rule paints_cong) auto
qed

lemma paints_frame:
  "paints I (\<lambda>_ _. shade k) (\<lambda>X Y. (a \<le> X \<and> X < b \<and> (Y = c \<or> Y = t)) \<or> (c' \<le> Y \<and> Y < d \<and> (X = e \<or> X = f)))
     (\<lambda>s. for_u32 c' d (\<lambda>y s. plot f y k (plot e y k s)) (for_u32 a b (\<lambda>x s. plot x t k (plot x c k s)) s))"
proof -
  have r: "paints I (\<lambda>_ _. shade k) (\<lambda>X Y. \<exists>x. a \<le> x \<and> x < b \<and> (X = x \<and> Y = c \<or> X = x \<and> Y = t))
      (for_u32 a b (\<lambda>x s. plot x t k (plot x c k s)))"
    by (intro paints_for paints_comp paints_plot)
  have l: "paints I (\<lambda>_ _. shade k) (\<lambda>X Y. \<exists>y. c' \<le> y \<and> y < d \<and> (X = e \<and> Y = y \<or> X = f \<and> Y = y))
      (for_u32 c' d (\<lambda>y s. plot f y k (plot e y k s)))"
    by (intro paints_for paints_comp paints_plot)
  show ?thesis by (rule paints_cong [OF paints_comp [OF r l]]) auto
qed

text \<open>A picture of 10 times 10 pixels whose upper left corner is at \<open>xx\<close>, \<open>yy\<close>; coordinates wrap around.\<close>

lemma paints_picture:
  assumes "\<And>x y s. live s \<Longrightarrow> I (rest s) \<Longrightarrow> isPixel x y s = P x y"
  shows "paints I (\<lambda>_ _. shade k) (\<lambda>X Y. X - xx < 10 \<and> Y - yy < 10 \<and> P (X - xx) (Y - yy))
    (for_u32 0 10 (\<lambda>x. for_u32 0 10 (\<lambda>y s. if isPixel x y s then plot (xx + x) (yy + y) k s else s)))"
proof -
  have "paints I (\<lambda>_ _. shade k) (\<lambda>X Y. \<exists>x. 0 \<le> x \<and> x < 10 \<and> (\<exists>y. 0 \<le> y \<and> y < 10 \<and> P x y \<and> X = xx + x \<and> Y = yy + y))
      (for_u32 0 10 (\<lambda>x. for_u32 0 10 (\<lambda>y s. if isPixel x y s then plot (xx + x) (yy + y) k s else s)))"
    by (intro paints_for paints_if paints_plot) (rule assms)
  then show ?thesis
  proof (rule paints_cong)
    fix X Y
    show "(\<exists>x. 0 \<le> x \<and> x < 10 \<and> (\<exists>y. 0 \<le> y \<and> y < 10 \<and> P x y \<and> X = xx + x \<and> Y = yy + y))
        \<longleftrightarrow> X - xx < 10 \<and> Y - yy < 10 \<and> P (X - xx) (Y - yy)" (is "?l \<longleftrightarrow> ?r")
    proof
      assume ?r
      then show ?l by (intro exI [of _ "X - xx"] conjI exI [of _ "Y - yy"]) simp_all
    qed auto
  qed
qed

text \<open>
  \<open>alters I g Q f\<close>: \<open>f\<close> changes the colour of each pixel in \<open>Q\<close> by \<open>g\<close>, from the colour it has, and nothing else. Every pixel may
  be changed once only.
\<close>

definition alters :: "('r \<Rightarrow> bool) \<Rightarrow> (u32 \<Rightarrow> u32 \<Rightarrow> 'c \<Rightarrow> 'c) \<Rightarrow> (u32 \<Rightarrow> u32 \<Rightarrow> bool) \<Rightarrow> ('s \<Rightarrow> 's) \<Rightarrow> bool" where
  "alters I g Q f \<longleftrightarrow> (\<forall>s. live s \<longrightarrow> I (rest s) \<longrightarrow> live (f s) \<and> rest (f s) = rest s
     \<and> (\<forall>X Y. X < 320 \<longrightarrow> Y < 240 \<longrightarrow> at (f s) X Y = (if Q X Y then g X Y (at s X Y) else at s X Y)))"

lemma altersD:
  assumes "alters I g Q f" and "live s" and "I (rest s)"
  shows "live (f s)" and "rest (f s) = rest s"
    and "X < 320 \<Longrightarrow> Y < 240 \<Longrightarrow> at (f s) X Y = (if Q X Y then g X Y (at s X Y) else at s X Y)"
  using assms by (simp_all add: alters_def)

text \<open>A pixel that is set, on the condition \<open>B\<close> on its colour.\<close>

lemma alters_plot_if:
  assumes "\<And>s. live s \<Longrightarrow> I (rest s) \<Longrightarrow> b s = B (at s x y)" and "\<And>s. live s \<Longrightarrow> I (rest s) \<Longrightarrow> shade (k s) = c x y"
    and "\<And>X Y v. g X Y v = (if B v then c X Y else v)"
  shows "alters I g (\<lambda>X Y. X = x \<and> Y = y) (\<lambda>s. if b s then plot x y (k s) s else s)"
  unfolding alters_def using assms by (simp add: at_plot rest_plot live_plot)

lemma alters_comp:
  assumes "alters I g Q f" and "alters I g R h" and "\<And>X Y. \<not> (Q X Y \<and> R X Y)"
  shows "alters I g (\<lambda>X Y. Q X Y \<or> R X Y) (\<lambda>s. h (f s))"
  using assms(3) by (simp add: alters_def altersD [OF assms(1)] altersD [OF assms(2)])

lemma alters_cong: "alters I g Q f \<Longrightarrow> (\<And>X Y. X < 320 \<Longrightarrow> Y < 240 \<Longrightarrow> Q X Y \<longleftrightarrow> R X Y) \<Longrightarrow> alters I g R f"
  by (simp add: alters_def)

lemma alters_fold:
  assumes "distinct is" and "\<And>i. i \<in> set is \<Longrightarrow> alters I g (Q i) (body i)" and "\<And>i j X Y. i \<in> set is \<Longrightarrow> j \<in> set is \<Longrightarrow> i \<noteq> j \<Longrightarrow> \<not> (Q i X Y \<and> Q j X Y)"
  shows "alters I g (\<lambda>X Y. \<exists>i\<in>set is. Q i X Y) (fold body is)"
  using assms
proof (induction "is" rule: rev_induct)
  case Nil
  show ?case by (simp add: alters_def)
next
  case (snoc i js)
  have "alters I g (\<lambda>X Y. (\<exists>i\<in>set js. Q i X Y) \<or> Q i X Y) (\<lambda>s. body i (fold body js s))"
  proof (rule alters_comp [where f = "fold body js" and h = "body i"])
    show "alters I g (\<lambda>X Y. \<exists>i\<in>set js. Q i X Y) (fold body js)"
    proof (rule snoc.IH)
      show "distinct js" using snoc.prems(1) by simp
      show "alters I g (Q j) (body j)" if "j \<in> set js" for j using snoc.prems(2) that by simp
      show "\<not> (Q j X Y \<and> Q k X Y)" if "j \<in> set js" "k \<in> set js" "j \<noteq> k" for j k X Y
        by (rule snoc.prems(3)) (use that in simp_all)
    qed
    show "alters I g (Q i) (body i)" using snoc.prems(2) by simp
    show "\<not> ((\<exists>i\<in>set js. Q i X Y) \<and> Q i X Y)" for X Y
    proof
      assume "(\<exists>j\<in>set js. Q j X Y) \<and> Q i X Y"
      then obtain j where "j \<in> set js" "Q j X Y" "Q i X Y" by blast
      moreover from this snoc.prems(1) have "j \<noteq> i" by auto
      ultimately show False using snoc.prems(3) [of j i X Y] by simp
    qed
  qed
  moreover have "fold body (js @ [i]) = (\<lambda>s. body i (fold body js s))" by (simp add: fun_eq_iff)
  ultimately show ?case by (auto elim: alters_cong)
qed

lemma alters_for:
  assumes "\<And>i. a \<le> i \<Longrightarrow> i < b \<Longrightarrow> alters I g (Q i) (body i)" and "\<And>i j X Y. i \<noteq> j \<Longrightarrow> \<not> (Q i X Y \<and> Q j X Y)"
  shows "alters I g (\<lambda>X Y. \<exists>i. a \<le> i \<and> i < b \<and> Q i X Y) (for_u32 a b body)"
proof -
  let ?ks = "[unat a..<unat b]"
  have n: "a \<le> of_nat k \<and> of_nat k < b \<and> unat (of_nat k :: u32) = k" if "k \<in> set ?ks" for k
    using that unat_u32_bound [of b] by (simp add: unat_le_u32 unat_less_u32 unat_of_nat_u32)
  have "alters I g (\<lambda>X Y. \<exists>k\<in>set ?ks. Q (of_nat k) X Y) (fold (\<lambda>k. body (of_nat k)) ?ks)"
  proof (rule alters_fold)
    show "alters I g (Q (of_nat k)) (body (of_nat k))" if "k \<in> set ?ks" for k using assms(1) n [OF that] by blast
    show "\<not> (Q (of_nat k) X Y \<and> Q (of_nat l) X Y)" if "k \<in> set ?ks" "l \<in> set ?ks" "k \<noteq> l" for k l X Y
    proof -
      have "(of_nat k :: u32) \<noteq> of_nat l" using n [OF that(1)] n [OF that(2)] that(3) by metis
      then show ?thesis by (rule assms(2))
    qed
  qed simp
  moreover have "(\<exists>k\<in>set ?ks. Q (of_nat k) X Y) \<longleftrightarrow> (\<exists>i. a \<le> i \<and> i < b \<and> Q i X Y)" for X Y
  proof
    assume "\<exists>i. a \<le> i \<and> i < b \<and> Q i X Y"
    then obtain i where "a \<le> i" "i < b" "Q i X Y" by blast
    then show "\<exists>k\<in>set ?ks. Q (of_nat k) X Y"
      by (intro bexI [of _ "unat i"]) (simp_all add: unat_le_u32 unat_less_u32)
  qed (use n in blast)
  moreover have "for_u32 a b body = fold (\<lambda>k. body (of_nat k)) ?ks" by (simp add: fun_eq_iff for_u32_fold)
  ultimately show ?thesis by simp
qed

end

end
