(* ===== verification/Display.thy ===== *)
theory Display
  imports Memory_Words Devices Page_Tables Raster
begin

text \<open>
  Drawing: the character set (charset/charset.c) and the display (drivers/lcd.c). A frame buffer is 320 times 240
  half words of the memory. \<open>_HW_W\<close>, which the build sets for the displays that are wired column by column, is the
  argument \<open>hw_w\<close> of the functions that draw. An \<open>int\<close> coordinate is the word that holds it.
\<close>

section \<open>The character set\<close>

text \<open>
  \<open>charset_load f f2 charset\<close>: \<open>f\<close> and \<open>f2\<close> are the contents of the two files, when they can be opened.
  The array has 1600 bytes.
\<close>

definition charset_load :: "u8 list option \<Rightarrow> u8 list option \<Rightarrow> u8 list \<Rightarrow> u8 list" where
  "charset_load f f2 charset_ascii =
     (case (case f of None \<Rightarrow> f2 | Some file \<Rightarrow> Some file) of
        None \<Rightarrow> charset_ascii
      | Some file \<Rightarrow>
          let charset_ascii = replicate 1600 0
          in take 1600 file @ drop (length file) charset_ascii)"

definition isAsciiPixel :: "u8 list \<Rightarrow> u32 \<Rightarrow> u32 \<Rightarrow> u32 \<Rightarrow> bool" where
  "isAsciiPixel charset_ascii x y index =
     (let bitoffset = index * 10 * 10 + 10 * y + x;
          byteoffset = bitoffset div 8;
          bitoffset = bitoffset mod 8
      in if byteoffset < 1600 then
           if drop_bit (unat bitoffset) (charset_ascii ! unat byteoffset) AND 1 = 1 then True else False
         else False)"

definition isDigitPixel :: "u8 list \<Rightarrow> u32 \<Rightarrow> u32 \<Rightarrow> u32 \<Rightarrow> bool" where
  "isDigitPixel charset_ascii x y digit = isAsciiPixel charset_ascii x y (digit + 48)"

definition isCharPixel :: "u8 list \<Rightarrow> u32 \<Rightarrow> u32 \<Rightarrow> u8 \<Rightarrow> bool" where
  "isCharPixel charset_ascii x y character = isAsciiPixel charset_ascii x y (ucast character + 97)"

section \<open>Frame buffers\<close>

definition rgbto565 :: "u32 \<Rightarrow> u32 \<Rightarrow> u32 \<Rightarrow> u16" where
  "rgbto565 r g b =
     (if \<not> (r > 255 \<or> g > 255 \<or> b > 255)
      then ucast (push_bit 8 (r AND 0xF8) OR push_bit 3 (g AND 0xFC) OR drop_bit 3 b)
      else 0)"

definition framebuffer_setpixel565 :: "bool \<Rightarrow> addr \<Rightarrow> u32 \<Rightarrow> u32 \<Rightarrow> u16 \<Rightarrow> bytes \<Rightarrow> bytes" where
  "framebuffer_setpixel565 hw_w buff x y rgb565 m =
     (if x < 320 \<and> y < 240 then
        if hw_w then put16 (buff + 2 * (x * 240 + y)) rgb565 m
        else put16 (buff + 2 * (y * 320 + x)) rgb565 m
      else m)"

definition framebuffer_setpixel :: "bool \<Rightarrow> addr \<Rightarrow> u32 \<Rightarrow> u32 \<Rightarrow> u32 \<Rightarrow> u32 \<Rightarrow> u32 \<Rightarrow> bytes \<Rightarrow> bytes" where
  "framebuffer_setpixel hw_w buff x y r g b m =
     (let colour565 = rgbto565 r g b
      in if x < 320 \<and> y < 240 then
           if hw_w then put16 (buff + 2 * (x * 240 + y)) colour565 m
           else put16 (buff + 2 * (y * 320 + x)) colour565 m
         else m)"

text \<open>\<open>struct img565\<close>; its pixels are read from the memory while they are drawn.\<close>

record img565 =
  img_width :: u16
  img_height :: u16
  img_data :: addr

definition framebuffer_draw_img565 :: "bool \<Rightarrow> addr \<Rightarrow> img565 \<Rightarrow> u32 \<Rightarrow> u32 \<Rightarrow> bytes \<Rightarrow> bytes" where
  "framebuffer_draw_img565 hw_w buff img xs ys m =
     for_u32 0 (ucast (img_width img)) (\<lambda>x.
       for_u32 0 (ucast (img_height img)) (\<lambda>y m.
         framebuffer_setpixel565 hw_w buff (xs + x) (ys + y)
           (get16 m (img_data img + 2 * (x + y * ucast (img_width img)))) m)) m"

definition framebuffer_fillrect ::
  "bool \<Rightarrow> addr \<Rightarrow> u32 \<Rightarrow> u32 \<Rightarrow> u32 \<Rightarrow> u32 \<Rightarrow> u32 \<Rightarrow> u32 \<Rightarrow> u32 \<Rightarrow> bytes \<Rightarrow> bytes" where
  "framebuffer_fillrect hw_w buff xs ys w h r g b m =
     for_u32 xs (xs + w) (\<lambda>x. for_u32 ys (ys + h) (\<lambda>y. framebuffer_setpixel hw_w buff x y r g b)) m"

definition framebuffer_drawrect ::
  "bool \<Rightarrow> addr \<Rightarrow> u32 \<Rightarrow> u32 \<Rightarrow> u32 \<Rightarrow> u32 \<Rightarrow> u32 \<Rightarrow> u32 \<Rightarrow> u32 \<Rightarrow> bytes \<Rightarrow> bytes" where
  "framebuffer_drawrect hw_w buff xs ys w h r g b m =
     (let m = for_u32 xs (xs + w) (\<lambda>x m.
                framebuffer_setpixel hw_w buff x (ys + h - 1) r g b (framebuffer_setpixel hw_w buff x ys r g b m)) m
      in for_u32 ys (ys + h) (\<lambda>y m.
           framebuffer_setpixel hw_w buff (xs + w - 1) y r g b (framebuffer_setpixel hw_w buff xs y r g b m)) m)"

text \<open>The loops over the 10 times 10 pixels of a character.\<close>

definition glyph_loop :: "(u32 \<Rightarrow> u32 \<Rightarrow> 's \<Rightarrow> bool) \<Rightarrow> (u32 \<Rightarrow> u32 \<Rightarrow> 's \<Rightarrow> 's) \<Rightarrow> u32 \<Rightarrow> u32 \<Rightarrow> 's \<Rightarrow> 's" where
  "glyph_loop isPixel setpixel xx yy s =
     for_u32 0 10 (\<lambda>x. for_u32 0 10 (\<lambda>y s. if isPixel x y s then setpixel (xx + x) (yy + y) s else s)) s"

definition framebuffer_write10pchar ::
  "u8 list \<Rightarrow> bool \<Rightarrow> addr \<Rightarrow> u32 \<Rightarrow> u32 \<Rightarrow> u32 \<Rightarrow> u32 \<Rightarrow> u32 \<Rightarrow> u32 \<Rightarrow> bytes \<Rightarrow> bytes" where
  "framebuffer_write10pchar cs hw_w buff xx yy r g b charn m =
     glyph_loop (\<lambda>x y m. isCharPixel cs x y (ucast charn)) (\<lambda>x y. framebuffer_setpixel hw_w buff x y r g b) xx yy m"

definition framebuffer_write10pdigit ::
  "u8 list \<Rightarrow> bool \<Rightarrow> addr \<Rightarrow> u32 \<Rightarrow> u32 \<Rightarrow> u32 \<Rightarrow> u32 \<Rightarrow> u32 \<Rightarrow> u32 \<Rightarrow> bytes \<Rightarrow> bytes" where
  "framebuffer_write10pdigit cs hw_w buff xx yy r g b charn m =
     glyph_loop (\<lambda>x y m. isDigitPixel cs x y charn) (\<lambda>x y. framebuffer_setpixel hw_w buff x y r g b) xx yy m"

text \<open>The number of a character of \<open>framebuffer_write10pstring\<close> and whether it is a digit.\<close>

definition char_number :: "u8 \<Rightarrow> bool \<times> u32" where
  "char_number c =
     (let digit = False;
          charn = 0;
          charn = (if c \<ge> 65 \<and> c \<le> 90 then ucast c - 65 else charn);
          charn = (if c \<ge> 97 \<and> c \<le> 122 then ucast c - 97 else charn)
      in if c \<ge> 48 \<and> c \<le> 57 then (True, ucast c - 48) else (digit, charn))"

text \<open>The walk over a string; it goes on over the memory when there is no final NUL, which is the result \<open>None\<close>.\<close>

partial_function (option) framebuffer_write10pstring ::
  "u8 list \<Rightarrow> bool \<Rightarrow> addr \<Rightarrow> addr \<Rightarrow> u32 \<Rightarrow> u32 \<Rightarrow> u32 \<Rightarrow> u32 \<Rightarrow> u32 \<Rightarrow> bytes \<Rightarrow> bytes option" where
  "framebuffer_write10pstring cs hw_w cchar buff xx yy r g b m =
     (if m cchar \<noteq> 0 then
        let (digit, charn) = char_number (m cchar);
            m = glyph_loop (\<lambda>x y m. if digit then isDigitPixel cs x y charn else isCharPixel cs x y (ucast charn))
                  (\<lambda>x y. framebuffer_setpixel hw_w buff x y r g b) xx yy m
        in framebuffer_write10pstring cs hw_w (cchar + 1) buff (xx + 10) yy r g b m
      else Some m)"

partial_function (option) framebuffer_write10pstring_ascii ::
  "u8 list \<Rightarrow> bool \<Rightarrow> addr \<Rightarrow> addr \<Rightarrow> u32 \<Rightarrow> u32 \<Rightarrow> u32 \<Rightarrow> u32 \<Rightarrow> u32 \<Rightarrow> bytes \<Rightarrow> bytes option" where
  "framebuffer_write10pstring_ascii cs hw_w cchar buff xx yy r g b m =
     (if m cchar \<noteq> 0 then
        let m = glyph_loop (\<lambda>x y m. isAsciiPixel cs x y (ucast (m cchar)))
                   (\<lambda>x y. framebuffer_setpixel hw_w buff x y r g b) xx yy m
        in framebuffer_write10pstring_ascii cs hw_w (cchar + 1) buff (xx + 10) yy r g b m
      else Some m)"

section \<open>The display\<close>

text \<open>
  The registers of the controller and the backlight, the memory, and the static variables. The base address of
  the controller changes once, when it is mapped (\<open>remappLCD\<close>).
\<close>

record lcd = mmio +
  lcd_mem :: bytes
  remapped_lcd_controller :: addr
  LCD_UPBASE :: addr
  old_backlight_value :: u32
  kernel_lcd_mutex :: addr
  framebuffer1 :: addr
  framebuffer2 :: addr
  old_framebuffer :: addr
  own_framebuffer :: bool

definition remapped_backlight :: addr where "remapped_backlight = 0x900f0020"

text \<open>The arguments are the addresses that \<open>request4Bytes\<close> and the two \<open>requestLCDFramebuffer\<close> return.\<close>

definition initLCDDriver :: "addr \<Rightarrow> addr \<Rightarrow> addr \<Rightarrow> lcd \<Rightarrow> lcd" where
  "initLCDDriver mutex fb1 fb2 s =
     s\<lparr>kernel_lcd_mutex := mutex, lcd_mem := put32 mutex 0 (lcd_mem s), framebuffer1 := fb1, framebuffer2 := fb2\<rparr>"

definition remappLCD :: "addr \<Rightarrow> lcd \<Rightarrow> lcd" where
  "remappLCD address s = s\<lparr>remapped_lcd_controller := address, LCD_UPBASE := address + 0x10\<rparr>"

text \<open>\<open>msleep\<close> (libk/wait.c) is an argument.\<close>

definition lcd_power_down :: "(u32 \<Rightarrow> lcd \<Rightarrow> lcd) \<Rightarrow> lcd \<Rightarrow> lcd" where
  "lcd_power_down msleep s =
     (let s = s\<lparr>old_backlight_value := rd remapped_backlight s\<rparr>;
          s = wr remapped_backlight 0x100 s;
          s = and_wr (reg (remapped_lcd_controller s) 6) (NOT (push_bit 11 1)) s;
          s = msleep 20 s
      in and_wr (reg (remapped_lcd_controller s) 6) (NOT 1) s)"

definition lcd_power_up :: "(u32 \<Rightarrow> lcd \<Rightarrow> lcd) \<Rightarrow> lcd \<Rightarrow> lcd" where
  "lcd_power_up msleep s =
     (let s = or_wr (reg (remapped_lcd_controller s) 6) 1 s;
          s = msleep 20 s;
          s = or_wr (reg (remapped_lcd_controller s) 6) (push_bit 11 1) s
      in wr remapped_backlight (old_backlight_value s) s)"

definition get_old_framebuffer_address :: "'a lcd_scheme \<Rightarrow> addr" where
  "get_old_framebuffer_address s = old_framebuffer s"

definition get_back_framebuffer_address :: "'a lcd_scheme \<Rightarrow> addr" where
  "get_back_framebuffer_address s = framebuffer2 s"

definition get_front_framebuffer_address :: "'a lcd_scheme \<Rightarrow> addr" where
  "get_front_framebuffer_address s = framebuffer1 s"

definition claimLCD :: "(addr \<Rightarrow> addr) \<Rightarrow> vm \<Rightarrow> lcd \<Rightarrow> lcd" where
  "claimLCD mmu v s =
     (if own_framebuffer s then s
      else
        let s = s\<lparr>own_framebuffer := True\<rparr>;
            s = s\<lparr>old_framebuffer := rd (LCD_UPBASE s) s\<rparr>;
            s = s\<lparr>lcd_mem := snd (k_memset (framebuffer1 s) 0 (320 * 240 * 2) (lcd_mem s))\<rparr>;
            s = s\<lparr>lcd_mem := snd (k_memset (framebuffer2 s) 0 (320 * 240 * 2) (lcd_mem s))\<rparr>
        in wr (LCD_UPBASE s) (getKernelPhysicalAddress mmu (framebuffer1 s) v) s)"

definition freeLCD :: "lcd \<Rightarrow> lcd" where
  "freeLCD s =
     (if \<not> own_framebuffer s then s
      else
        let s = wr (LCD_UPBASE s) (old_framebuffer s) s
        in s\<lparr>own_framebuffer := False\<rparr>)"

definition blitLCDBuffer :: "lcd \<Rightarrow> lcd" where
  "blitLCDBuffer s =
     (if \<not> own_framebuffer s then s
      else s\<lparr>lcd_mem := snd (k_memcpy (framebuffer1 s) (framebuffer2 s) (320 * 240 * 2) (lcd_mem s))\<rparr>)"

definition lcd_setpixel :: "bool \<Rightarrow> u32 \<Rightarrow> u32 \<Rightarrow> u32 \<Rightarrow> u32 \<Rightarrow> u32 \<Rightarrow> lcd \<Rightarrow> lcd" where
  "lcd_setpixel hw_w x y r g b s =
     (if \<not> own_framebuffer s then s
      else
        let colour565 = rgbto565 r g b
        in if x < 320 \<and> y < 240 then
             if hw_w then s\<lparr>lcd_mem := put16 (framebuffer2 s + 2 * (x * 240 + y)) colour565 (lcd_mem s)\<rparr>
             else s\<lparr>lcd_mem := put16 (framebuffer2 s + 2 * (y * 320 + x)) colour565 (lcd_mem s)\<rparr>
           else s)"

definition lcd_fillrect :: "bool \<Rightarrow> u32 \<Rightarrow> u32 \<Rightarrow> u32 \<Rightarrow> u32 \<Rightarrow> u32 \<Rightarrow> u32 \<Rightarrow> u32 \<Rightarrow> lcd \<Rightarrow> lcd" where
  "lcd_fillrect hw_w xs ys w h r g b s =
     for_u32 xs (xs + w) (\<lambda>x. for_u32 ys (ys + h) (\<lambda>y. lcd_setpixel hw_w x y r g b)) s"

definition lcd_write10pchar :: "u8 list \<Rightarrow> bool \<Rightarrow> u32 \<Rightarrow> u32 \<Rightarrow> u32 \<Rightarrow> u32 \<Rightarrow> u32 \<Rightarrow> u32 \<Rightarrow> lcd \<Rightarrow> lcd" where
  "lcd_write10pchar cs hw_w xx yy r g b charn s =
     glyph_loop (\<lambda>x y s. isCharPixel cs x y (ucast charn)) (\<lambda>x y. lcd_setpixel hw_w x y r g b) xx yy s"

partial_function (option) lcd_write10pstring ::
  "u8 list \<Rightarrow> bool \<Rightarrow> addr \<Rightarrow> u32 \<Rightarrow> u32 \<Rightarrow> u32 \<Rightarrow> u32 \<Rightarrow> u32 \<Rightarrow> lcd \<Rightarrow> lcd option" where
  "lcd_write10pstring cs hw_w cchar xx yy r g b s =
     (if lcd_mem s cchar \<noteq> 0 then
        let (digit, charn) = char_number (lcd_mem s cchar);
            s = glyph_loop (\<lambda>x y s. if digit then isDigitPixel cs x y charn else isCharPixel cs x y (ucast charn))
                  (\<lambda>x y. lcd_setpixel hw_w x y r g b) xx yy s
        in lcd_write10pstring cs hw_w (cchar + 1) (xx + 10) yy r g b s
      else Some s)"

section \<open>Images\<close>

text \<open>
  \<open>gui/img565.c\<close>: the structures in the memory, the page allocator and what was given back to \<open>kfree\<close>. The
  arguments \<open>img\<close> and \<open>data\<close> are the addresses that the two calls of \<open>kmalloc\<close> return. The size in bytes is an
  \<open>int\<close>, whose overflow C leaves undefined; here it is exact.
\<close>

record images =
  img_at :: "addr \<Rightarrow> img565"
  img_phys :: phys_mm
  img_freed :: "addr list"

definition img_bytes :: "u16 \<Rightarrow> u16 \<Rightarrow> nat" where
  "img_bytes width height = unat width * unat height * 2"

definition create_img565 :: "(u32 \<Rightarrow> u32) \<Rightarrow> addr \<Rightarrow> addr \<Rightarrow> u16 \<Rightarrow> u16 \<Rightarrow> 'a images_scheme \<Rightarrow> addr \<times> 'a images_scheme" where
  "create_img565 rem0 img data width height s =
     (if img = NULL then (NULL, s)
      else
        let (data, p) =
              (if img_bytes width height > 1024
               then let (page, p) = useConsecutivePages rem0 (of_nat (img_bytes width height div 4096) + 1) 0 (img_phys s)
                    in (page - old_RAM + remapped_RAM, p)
               else (data, img_phys s));
            s = s\<lparr>img_at := (img_at s)(img := \<lparr>img_width = width, img_height = height, img_data = data\<rparr>), img_phys := p\<rparr>
        in if data = NULL then (NULL, s) else (img, s))"

definition destroy_img565 :: "addr \<Rightarrow> 'a images_scheme \<Rightarrow> 'a images_scheme" where
  "destroy_img565 img s =
     (if img \<noteq> NULL then
        let i = img_at s img;
            s = (if img_bytes (img_width i) (img_height i) > 1024
                 then s\<lparr>img_phys := freeConsecutivePages (img_data i - remapped_RAM + old_RAM)
                           (of_nat (img_bytes (img_width i) (img_height i) div 4096) + 1) (img_phys s)\<rparr>
                 else s\<lparr>img_freed := img_freed s @ [img_data i]\<rparr>)
        in s\<lparr>img_freed := img_freed s @ [img]\<rparr>
      else s)"

section \<open>Pixels\<close>

text \<open>The half word of a pixel, its contents, and the memory that does not belong to the frame buffer.\<close>

definition pixel :: "bool \<Rightarrow> u32 \<Rightarrow> u32 \<Rightarrow> u32" where
  "pixel hw_w x y = 2 * (if hw_w then x * 240 + y else y * 320 + x)"

definition screen :: "bool \<Rightarrow> addr \<Rightarrow> bytes \<Rightarrow> u32 \<Rightarrow> u32 \<Rightarrow> u16" where
  "screen hw_w buff m x y = get16 m (buff + pixel hw_w x y)"

definition outside :: "addr \<Rightarrow> addr \<Rightarrow> bool" where
  "outside buff a \<longleftrightarrow> a - buff \<ge> 320 * 240 * 2"

definition memory_outside :: "addr \<Rightarrow> bytes \<Rightarrow> bytes" where
  "memory_outside buff m = (\<lambda>a. if outside buff a then m a else 0)"

lemma memory_outside_iff: "memory_outside buff m' = memory_outside buff m \<longleftrightarrow> (\<forall>a. outside buff a \<longrightarrow> m' a = m a)"
  by (auto simp: memory_outside_def fun_eq_iff)

lemma unat_pixel:
  assumes "x < 320" and "y < 240"
  shows "unat (pixel hw_w x y) = 2 * (if hw_w then unat x * 240 + unat y else unat y * 320 + unat x)"
proof -
  have b: "unat x < 320" "unat y < 240" using assms by (simp_all add: unat_less_u32)
  have c: "unat (x * 240) = unat x * 240" "unat (y * 320) = unat y * 320"
    using b by (simp_all add: unat_mult_u32)
  have d: "unat (x * 240 + y) = unat x * 240 + unat y" "unat (y * 320 + x) = unat y * 320 + unat x"
    using b c by (simp_all add: unat_add_u32)
  have "unat (2 * (x * 240 + y)) = 2 * (unat x * 240 + unat y)" "unat (2 * (y * 320 + x)) = 2 * (unat y * 320 + unat x)"
    using b by (subst unat_mult_u32; simp only: d; simp)+
  then show ?thesis by (simp add: pixel_def)
qed

lemma pixel_bound:
  assumes "x < 320" and "y < 240"
  shows "unat (pixel hw_w x y) + 1 < 153600"
proof -
  have b: "unat x \<le> 319" "unat y \<le> 239" using assms by (simp_all add: unat_less_u32)
  then show ?thesis by (cases hw_w) (simp_all add: unat_pixel [OF assms])
qed

lemma pixel_inj:
  assumes "x < 320" and "y < 240" and "X < 320" and "Y < 240"
  shows "pixel hw_w x y = pixel hw_w X Y \<longleftrightarrow> x = X \<and> y = Y"
proof
  assume "pixel hw_w x y = pixel hw_w X Y"
  then have e: "unat (pixel hw_w x y) = unat (pixel hw_w X Y)" by simp
  have b: "unat x < 320" "unat y < 240" "unat X < 320" "unat Y < 240" using assms by (simp_all add: unat_less_u32)
  have "unat x = unat X \<and> unat y = unat Y"
  proof (cases hw_w)
    case True
    then have "unat x * 240 + unat y = unat X * 240 + unat Y" using e by (simp add: unat_pixel assms)
    then have "(unat x * 240 + unat y) div 240 = (unat X * 240 + unat Y) div 240"
      "(unat x * 240 + unat y) mod 240 = (unat X * 240 + unat Y) mod 240" by simp_all
    then show ?thesis using b by simp
  next
    case False
    then have "unat y * 320 + unat x = unat Y * 320 + unat X" using e by (simp add: unat_pixel assms)
    then have "(unat y * 320 + unat x) div 320 = (unat Y * 320 + unat X) div 320"
      "(unat y * 320 + unat x) mod 320 = (unat Y * 320 + unat X) mod 320" by simp_all
    then show ?thesis using b by simp
  qed
  then show "x = X \<and> y = Y" by (simp add: word_unat_eq_iff)
qed simp

text \<open>Pixels are even numbers of bytes apart, so writing one leaves the others alone.\<close>

lemma get16_put16_apart:
  assumes "unat d = 2 * i" and "unat e = 2 * j" and "d \<noteq> e" and "i < 2 ^ 30" and "j < 2 ^ 30"
  shows "get16 (put16 (b + d) v m) (b + e) = get16 m (b + e)"
proof -
  have s: "unat (d + 1) = 2 * i + 1" "unat (e + 1) = 2 * j + 1"
    using assms(1,2,4,5) by (simp_all add: unat_add_u32)
  have n: "unat d \<noteq> unat (e + 1)" "unat (d + 1) \<noteq> unat e" unfolding s assms(1,2) by presburger+
  then have "d \<noteq> e + 1" "d + 1 \<noteq> e" by auto
  with assms(3) have "b + e \<noteq> b + d" "b + e \<noteq> b + d + 1" "b + e + 1 \<noteq> b + d" "b + e + 1 \<noteq> b + d + 1"
    by (auto simp: add.assoc)
  then show ?thesis by (simp add: get16_def put16_other)
qed

lemma screen_put16:
  assumes "x < 320" and "y < 240" and "X < 320" and "Y < 240"
  shows "screen hw_w buff (put16 (buff + pixel hw_w x y) v m) X Y = (if X = x \<and> Y = y then v else screen hw_w buff m X Y)"
proof (cases "X = x \<and> Y = y")
  case True
  then show ?thesis by (simp add: screen_def)
next
  case False
  then have "pixel hw_w x y \<noteq> pixel hw_w X Y" using pixel_inj [OF assms] by auto
  moreover note unat_pixel [OF assms(1,2)] unat_pixel [OF assms(3,4)]
  moreover have "(if hw_w then unat x * 240 + unat y else unat y * 320 + unat x) < 2 ^ 30" if "x < 320" "y < 240" for x y :: u32
    using pixel_bound [OF that, of hw_w] unfolding unat_pixel [OF that] by simp
  ultimately have "get16 (put16 (buff + pixel hw_w x y) v m) (buff + pixel hw_w X Y) = get16 m (buff + pixel hw_w X Y)"
    using assms by (intro get16_put16_apart) simp_all
  then show ?thesis using False by (auto simp: screen_def)
qed

lemma memory_outside_put16:
  assumes "x < 320" and "y < 240"
  shows "memory_outside buff (put16 (buff + pixel hw_w x y) v m) = memory_outside buff m"
proof (unfold memory_outside_iff, intro allI impI)
  fix a assume "outside buff a"
  then have o: "153600 \<le> unat (a - buff)" by (simp add: outside_def unat_le_u32)
  have b: "unat (pixel hw_w x y) + 1 < 153600" by (rule pixel_bound [OF assms])
  then have "unat (pixel hw_w x y + 1) = unat (pixel hw_w x y) + 1" by (subst unat_add_u32) simp_all
  with o b have "a - buff \<noteq> pixel hw_w x y" "a - buff \<noteq> pixel hw_w x y + 1" by auto
  then have "a \<noteq> buff + pixel hw_w x y" "a \<noteq> buff + pixel hw_w x y + 1" by (auto simp: algebra_simps)
  then show "put16 (buff + pixel hw_w x y) v m a = m a" by (simp add: put16_other)
qed

lemma setpixel565_eq:
  "framebuffer_setpixel565 hw_w buff x y c m = (if x < 320 \<and> y < 240 then put16 (buff + pixel hw_w x y) c m else m)"
  by (simp add: framebuffer_setpixel565_def pixel_def)

lemma setpixel_eq: "framebuffer_setpixel hw_w buff x y r g b m = framebuffer_setpixel565 hw_w buff x y (rgbto565 r g b) m"
  by (simp add: framebuffer_setpixel565_def framebuffer_setpixel_def Let_def)

lemma lcd_setpixel_eq:
  "lcd_setpixel hw_w x y r g b s =
     (if own_framebuffer s then s\<lparr>lcd_mem := framebuffer_setpixel565 hw_w (framebuffer2 s) x y (rgbto565 r g b) (lcd_mem s)\<rparr> else s)"
  by (simp add: lcd_setpixel_def framebuffer_setpixel565_def Let_def)

section \<open>The frame buffers as rasters\<close>

text \<open>A colour of three components, as one argument.\<close>

abbreviation rgb565 :: "u32 \<times> u32 \<times> u32 \<Rightarrow> u16" where
  "rgb565 k \<equiv> (case k of (r, g, b) \<Rightarrow> rgbto565 r g b)"

interpretation fb: raster "\<lambda>x y (r, g, b). framebuffer_setpixel hw_w buff x y r g b" rgb565 "screen hw_w buff" "memory_outside buff" "\<lambda>_. True"
  for hw_w buff
  by unfold_locales (auto simp: setpixel_eq setpixel565_eq screen_put16 memory_outside_put16)

interpretation lcd: raster "\<lambda>x y (r, g, b). lcd_setpixel hw_w x y r g b" rgb565 "\<lambda>s. screen hw_w (framebuffer2 s) (lcd_mem s)"
    "\<lambda>s. (memory_outside (framebuffer2 s) (lcd_mem s), s\<lparr>lcd_mem := \<lambda>_. 0\<rparr>)" own_framebuffer
  for hw_w
  by unfold_locales (auto simp: lcd_setpixel_eq setpixel565_eq screen_put16 memory_outside_put16 split: if_splits)

interpretation img: raster "framebuffer_setpixel565 hw_w buff" "\<lambda>c. c" "screen hw_w buff" "memory_outside buff" "\<lambda>_. True"
  for hw_w buff
  by unfold_locales (auto simp: setpixel565_eq screen_put16 memory_outside_put16)

section \<open>Shapes\<close>

text \<open>The memory as a whole: the pixels of the frame buffer and the bytes outside it.\<close>

definition drawn ::
  "bool \<Rightarrow> addr \<Rightarrow> bytes \<Rightarrow> (u32 \<Rightarrow> u32 \<Rightarrow> bool) \<Rightarrow> (u32 \<Rightarrow> u32 \<Rightarrow> u16) \<Rightarrow> bytes \<Rightarrow> bool" where
  "drawn hw_w buff m Q c m' \<longleftrightarrow>
     (\<forall>X Y. X < 320 \<longrightarrow> Y < 240 \<longrightarrow> screen hw_w buff m' X Y = (if Q X Y then c X Y else screen hw_w buff m X Y))
     \<and> (\<forall>a. outside buff a \<longrightarrow> m' a = m a)"

lemma fb_drawn: "fb.paints hw_w buff I c Q f \<Longrightarrow> I (memory_outside buff m) \<Longrightarrow> drawn hw_w buff m Q c (f m)"
  using fb.paintsD [of hw_w buff I c Q f m] by (auto simp: drawn_def memory_outside_iff)

lemma img_drawn: "img.paints hw_w buff I c Q f \<Longrightarrow> I (memory_outside buff m) \<Longrightarrow> drawn hw_w buff m Q c (f m)"
  using img.paintsD [of hw_w buff I c Q f m] by (auto simp: drawn_def memory_outside_iff)

text \<open>
  C13. A filled rectangle is exactly the pixels between its corners, in the colour asked for; a pixel off the
  screen and a byte outside the frame buffer are never written, whatever the arguments are.
\<close>

theorem framebuffer_fillrect_correct:
  "drawn hw_w buff m (\<lambda>X Y. xs \<le> X \<and> X < xs + w \<and> ys \<le> Y \<and> Y < ys + h) (\<lambda>_ _. rgbto565 r g b)
     (framebuffer_fillrect hw_w buff xs ys w h r g b m)"
  using fb_drawn [OF fb.paints_rect [where k = "(r, g, b)" and I = "\<lambda>_. True"]]
  by (simp add: framebuffer_fillrect_def)

lemma framebuffer_drawrect_correct:
  "drawn hw_w buff m
     (\<lambda>X Y. (xs \<le> X \<and> X < xs + w \<and> (Y = ys \<or> Y = ys + h - 1)) \<or> (ys \<le> Y \<and> Y < ys + h \<and> (X = xs \<or> X = xs + w - 1)))
     (\<lambda>_ _. rgbto565 r g b) (framebuffer_drawrect hw_w buff xs ys w h r g b m)"
  using fb_drawn [OF fb.paints_frame [where k = "(r, g, b)" and I = "\<lambda>_. True"]]
  by (simp add: framebuffer_drawrect_def Let_def)

text \<open>
  C1. An image whose data lies outside the frame buffer is copied pixel by pixel to its place, clipped at the edges.
\<close>

theorem framebuffer_draw_img565_correct:
  assumes "\<And>x y. x < ucast (img_width i) \<Longrightarrow> y < ucast (img_height i) \<Longrightarrow>
      outside buff (img_data i + 2 * (x + y * ucast (img_width i))) \<and> outside buff (img_data i + 2 * (x + y * ucast (img_width i)) + 1)"
  shows "drawn hw_w buff m (\<lambda>X Y. X - xs < ucast (img_width i) \<and> Y - ys < ucast (img_height i))
     (\<lambda>X Y. get16 m (img_data i + 2 * ((X - xs) + (Y - ys) * ucast (img_width i))))
     (framebuffer_draw_img565 hw_w buff i xs ys m)"
proof -
  define c where "c = (\<lambda>X Y. get16 m (img_data i + 2 * ((X - xs) + (Y - ys) * ucast (img_width i))))"
  let ?I = "\<lambda>r. r = memory_outside buff m"
  have p: "img.paints hw_w buff ?I c (\<lambda>X Y. X = xs + x \<and> Y = ys + y) (\<lambda>m. framebuffer_setpixel565 hw_w buff (xs + x) (ys + y)
      (get16 m (img_data i + 2 * (x + y * ucast (img_width i)))) m)"
    if "x < ucast (img_width i)" "y < ucast (img_height i)" for x y
  proof (rule img.paints_plot_state)
    fix s assume "memory_outside buff s = memory_outside buff m"
    with assms [OF that] show "get16 s (img_data i + 2 * (x + y * ucast (img_width i))) = c (xs + x) (ys + y)"
      by (simp add: memory_outside_iff c_def get16_def)
  qed
  have q: "img.paints hw_w buff ?I c (\<lambda>X Y. \<exists>x. 0 \<le> x \<and> x < ucast (img_width i) \<and>
      (\<exists>y. 0 \<le> y \<and> y < ucast (img_height i) \<and> (X = xs + x \<and> Y = ys + y)))
      (framebuffer_draw_img565 hw_w buff i xs ys)"
    unfolding framebuffer_draw_img565_def by (rule img.paints_for, rule img.paints_for, rule p)
  have "(\<exists>x. 0 \<le> x \<and> x < ucast (img_width i) \<and> (\<exists>y. 0 \<le> y \<and> y < ucast (img_height i) \<and> (X = xs + x \<and> Y = ys + y)))
      \<longleftrightarrow> X - xs < ucast (img_width i) \<and> Y - ys < ucast (img_height i)" (is "?l \<longleftrightarrow> ?r") for X Y
  proof
    assume ?r
    then show ?l by (intro exI [of _ "X - xs"] conjI exI [of _ "Y - ys"]) simp_all
  qed auto
  with q show ?thesis using img_drawn [of hw_w buff ?I c _ _ m] by (simp add: c_def)
qed

text \<open>
  The pixels of a text: the pictures of its characters, ten pixels apart, where \<open>glyph\<close> tells the pixels of
  the picture of a character.
\<close>

fun text_pixel :: "(u8 \<Rightarrow> u32 \<Rightarrow> u32 \<Rightarrow> bool) \<Rightarrow> u32 \<Rightarrow> u32 \<Rightarrow> u8 list \<Rightarrow> u32 \<Rightarrow> u32 \<Rightarrow> bool" where
  "text_pixel glyph xx yy [] X Y \<longleftrightarrow> False"
| "text_pixel glyph xx yy (c # cs) X Y \<longleftrightarrow>
     (X - xx < 10 \<and> Y - yy < 10 \<and> glyph c (X - xx) (Y - yy)) \<or> text_pixel glyph (xx + 10) yy cs X Y"

lemma text_pixel_fun:
  "text_pixel glyph xx yy [] = (\<lambda>X Y. False)"
  "text_pixel glyph xx yy (c # cs) =
     (\<lambda>X Y. (X - xx < 10 \<and> Y - yy < 10 \<and> glyph c (X - xx) (Y - yy)) \<or> text_pixel glyph (xx + 10) yy cs X Y)"
  by (simp_all add: fun_eq_iff)

text \<open>A string lies outside the frame buffer, with its final NUL.\<close>

fun string_outside :: "addr \<Rightarrow> addr \<Rightarrow> u8 list \<Rightarrow> bool" where
  "string_outside buff p [] \<longleftrightarrow> outside buff p"
| "string_outside buff p (c # cs) \<longleftrightarrow> outside buff p \<and> string_outside buff (p + 1) cs"

lemma string_at_outside:
  "string_outside buff p cs \<Longrightarrow> (\<And>a. outside buff a \<Longrightarrow> m' a = m a) \<Longrightarrow> string_at m' p cs = string_at m p cs"
  by (induction cs arbitrary: p) simp_all

lemma drawn_trans:
  "drawn hw_w buff m Q c m' \<Longrightarrow> drawn hw_w buff m' R c m'' \<Longrightarrow> drawn hw_w buff m (\<lambda>X Y. Q X Y \<or> R X Y) c m''"
  by (auto simp: drawn_def)

lemma drawn_none: "drawn hw_w buff m (\<lambda>X Y. False) c m"
  by (simp add: drawn_def)

text \<open>One character.\<close>

lemma glyph_drawn:
  assumes "\<And>x y m'. memory_outside buff m' = memory_outside buff m \<Longrightarrow> isPixel x y m' = P x y"
  shows "drawn hw_w buff m (\<lambda>X Y. X - xx < 10 \<and> Y - yy < 10 \<and> P (X - xx) (Y - yy)) (\<lambda>_ _. rgbto565 r g b)
     (glyph_loop isPixel (\<lambda>x y. framebuffer_setpixel hw_w buff x y r g b) xx yy m)"
proof -
  have "fb.paints hw_w buff (\<lambda>r. r = memory_outside buff m) (\<lambda>_ _. rgb565 (r, g, b))
      (\<lambda>X Y. X - xx < 10 \<and> Y - yy < 10 \<and> P (X - xx) (Y - yy))
      (for_u32 0 10 (\<lambda>x. for_u32 0 10 (\<lambda>y s. if isPixel x y s then (case (r, g, b) of (r, g, b) \<Rightarrow> framebuffer_setpixel hw_w buff (xx + x) (yy + y) r g b) s else s)))"
    by (rule fb.paints_picture) (rule assms)
  from fb_drawn [OF this refl] show ?thesis by (simp add: glyph_loop_def cong: if_cong)
qed

text \<open>
  C36. Writing a string ends and draws exactly the pixels that the character set has for its characters, clipped at
  the edges of the screen.
\<close>

theorem framebuffer_write10pstring_ascii_correct:
  assumes "string_at m p cs" and "string_outside buff p cs"
  shows "\<exists>m'. framebuffer_write10pstring_ascii charset hw_w p buff xx yy r g b m = Some m'
    \<and> drawn hw_w buff m (text_pixel (\<lambda>c x y. isAsciiPixel charset x y (ucast c)) xx yy cs) (\<lambda>_ _. rgbto565 r g b) m'"
  using assms
proof (induction cs arbitrary: p xx m)
  case Nil
  then show ?case using drawn_none by (subst framebuffer_write10pstring_ascii.simps) (simp add: text_pixel_fun)
next
  case (Cons c cs)
  let ?g = "glyph_loop (\<lambda>x y m. isAsciiPixel charset x y (ucast (m p))) (\<lambda>x y. framebuffer_setpixel hw_w buff x y r g b) xx yy m"
  have d: "drawn hw_w buff m (\<lambda>X Y. X - xx < 10 \<and> Y - yy < 10 \<and> isAsciiPixel charset (X - xx) (Y - yy) (ucast c)) (\<lambda>_ _. rgbto565 r g b) ?g"
    using Cons.prems by (intro glyph_drawn) (simp add: memory_outside_iff)
  then have "string_at ?g (p + 1) cs"
    using Cons.prems string_at_outside [of buff "p + 1" cs ?g m] by (simp add: drawn_def)
  from Cons.IH [OF this, of "xx + 10"] Cons.prems obtain m'
    where m': "framebuffer_write10pstring_ascii charset hw_w (p + 1) buff (xx + 10) yy r g b ?g = Some m'"
      "drawn hw_w buff ?g (text_pixel (\<lambda>c x y. isAsciiPixel charset x y (ucast c)) (xx + 10) yy cs) (\<lambda>_ _. rgbto565 r g b) m'"
    by auto
  from drawn_trans [OF d m'(2)] m'(1) Cons.prems show ?case
    by (subst framebuffer_write10pstring_ascii.simps) (simp add: Let_def text_pixel_fun)
qed

text \<open>The other string function: digits, and letters of either case as small letters. Any other character is drawn as an \<open>a\<close>.\<close>

definition letter_glyph :: "u8 list \<Rightarrow> u8 \<Rightarrow> u32 \<Rightarrow> u32 \<Rightarrow> bool" where
  "letter_glyph charset c x y =
     (case char_number c of (digit, charn) \<Rightarrow> if digit then isDigitPixel charset x y charn else isCharPixel charset x y (ucast charn))"

lemma framebuffer_write10pstring_correct:
  assumes "string_at m p cs" and "string_outside buff p cs"
  shows "\<exists>m'. framebuffer_write10pstring charset hw_w p buff xx yy r g b m = Some m'
    \<and> drawn hw_w buff m (text_pixel (letter_glyph charset) xx yy cs) (\<lambda>_ _. rgbto565 r g b) m'"
  using assms
proof (induction cs arbitrary: p xx m)
  case Nil
  then show ?case using drawn_none by (subst framebuffer_write10pstring.simps) (simp add: text_pixel_fun)
next
  case (Cons c cs)
  obtain digit charn where n: "char_number c = (digit, charn)" by (cases "char_number c")
  let ?P = "\<lambda>x y. if digit then isDigitPixel charset x y charn else isCharPixel charset x y (ucast charn)"
  let ?g = "glyph_loop (\<lambda>x y m. ?P x y) (\<lambda>x y. framebuffer_setpixel hw_w buff x y r g b) xx yy m"
  have d: "drawn hw_w buff m (\<lambda>X Y. X - xx < 10 \<and> Y - yy < 10 \<and> ?P (X - xx) (Y - yy)) (\<lambda>_ _. rgbto565 r g b) ?g"
    by (rule glyph_drawn) (rule refl)
  then have "string_at ?g (p + 1) cs"
    using Cons.prems string_at_outside [of buff "p + 1" cs ?g m] by (simp add: drawn_def)
  from Cons.IH [OF this, of "xx + 10"] Cons.prems obtain m'
    where m': "framebuffer_write10pstring charset hw_w (p + 1) buff (xx + 10) yy r g b ?g = Some m'"
      "drawn hw_w buff ?g (text_pixel (letter_glyph charset) (xx + 10) yy cs) (\<lambda>_ _. rgbto565 r g b) m'"
    by auto
  from drawn_trans [OF d m'(2)] m'(1) n Cons.prems show ?case
    by (subst framebuffer_write10pstring.simps) (simp add: Let_def text_pixel_fun letter_glyph_def)
qed

lemma letter_glyph_other:
  assumes "\<not> (65 \<le> c \<and> c \<le> 90)" and "\<not> (97 \<le> c \<and> c \<le> 122)" and "\<not> (48 \<le> c \<and> c \<le> 57)"
  shows "letter_glyph charset c = letter_glyph charset 97"
  using assms by (auto simp: letter_glyph_def char_number_def Let_def fun_eq_iff)

section \<open>The character set\<close>

text \<open>
  The array always has its 1600 bytes, 12 bytes and a half for each of 128 characters.
  A pixel of a character is one bit of them; all other characters are empty, so no access leaves the array.
\<close>

lemma length_charset_load: "length charset = 1600 \<Longrightarrow> length (charset_load f f2 charset) = 1600"
  by (auto simp: charset_load_def split: option.splits)

lemma charset_load_bytes:
  assumes "i < 1600"
  shows "charset_load (Some file) f2 charset ! i = (if i < length file then file ! i else 0)"
  using assms by (simp add: charset_load_def nth_append min_def)

lemma isAsciiPixel_bit:
  assumes "unat index * 100 + unat y * 10 + unat x < 4294967296"
  defines "n \<equiv> unat index * 100 + unat y * 10 + unat x"
  shows "isAsciiPixel charset x y index \<longleftrightarrow> n < 12800 \<and> bit (charset ! (n div 8)) (n mod 8)"
proof -
  have a: "unat (index * 10) = unat index * 10" using assms(1) by (subst unat_mult_u32) simp_all
  then have b: "unat (index * 10 * 10) = unat index * 100" using assms(1) by (subst unat_mult_u32) simp_all
  have c: "unat (10 * y) = 10 * unat y" using assms(1) by (subst unat_mult_u32) simp_all
  then have d: "unat (index * 10 * 10 + 10 * y) = unat index * 100 + unat y * 10" using assms(1) b by (subst unat_add_u32) simp_all
  then have e: "unat (index * 10 * 10 + 10 * y + x) = n" using assms(1) by (subst unat_add_u32) (simp_all add: n_def)
  have f: "unat ((index * 10 * 10 + 10 * y + x) div 8) = n div 8" "unat ((index * 10 * 10 + 10 * y + x) mod 8) = n mod 8"
    unfolding unat_div unat_mod e by simp_all
  have g: "(index * 10 * 10 + 10 * y + x) div 8 < 1600 \<longleftrightarrow> n < 12800"
    unfolding unat_less_u32 f by auto
  show ?thesis
    unfolding isAsciiPixel_def Let_def g f by (simp add: and_one_eq bit_iff_odd_drop_bit odd_iff_mod_2_eq_one)
qed

section \<open>Colours\<close>

lemma field_cases:
  fixes R G B :: bool and n :: nat
  assumes "n < 16" and "R \<Longrightarrow> n - 8 < 8" and "G \<Longrightarrow> n - 3 < 8" and "B \<Longrightarrow> n + 3 < 8"
  shows "(8 \<le> n \<and> R \<and> 3 \<le> n - 8 \<and> n - 8 < 8) \<or> (3 \<le> n \<and> G \<and> 2 \<le> n - 3 \<and> n - 3 < 8) \<or> B
    \<longleftrightarrow> (if n < 5 then B else if n < 11 then G else R)"
proof -
  consider "n < 5" | "5 \<le> n" "n < 11" | "11 \<le> n" by linarith
  then show ?thesis
  proof cases
    case 1 then have "\<not> 8 \<le> n" "\<not> 2 \<le> n - 3" by linarith+
    with 1 show ?thesis by simp
  next
    case 2 then have "\<not> 3 \<le> n - 8" "3 \<le> n" "2 \<le> n - 3" "n - 3 < 8" "\<not> n < 5" "\<not> B" using assms(4) by linarith+
    with 2 show ?thesis by simp
  next
    case 3 then have "8 \<le> n" "3 \<le> n - 8" "n - 8 < 8" "\<not> n - 3 < 8" "\<not> n < 5" "\<not> n < 11" "\<not> B" using assms(1,4) by linarith+
    then show ?thesis by simp
  qed
qed
text \<open>The upper 5, 6 and 5 bits of the three components.\<close>

lemma rgbto565_value:
  assumes "r \<le> 255" and "g \<le> 255" and "b \<le> 255"
  shows "drop_bit 11 (rgbto565 r g b) = ucast (drop_bit 3 r)" and "take_bit 6 (drop_bit 5 (rgbto565 r g b)) = ucast (drop_bit 2 g)"
    and "take_bit 5 (rgbto565 r g b) = ucast (drop_bit 3 b)"
proof -
  have l: "w = take_bit 8 w" if "w \<le> 255" for w :: u32
  proof -
    have "unat w < 2 ^ 8" using that by (simp add: unat_le_u32)
    then show ?thesis by (metis take_bit_nat_eq_self unsigned_take_bit_eq word_unat_eq_iff)
  qed
  have z: "\<not> bit w n" if "w \<le> 255" "8 \<le> n" for w :: u32 and n
    using l [OF that(1)] that(2) by (metis bit_take_bit_iff not_le)
  have m: "bit (0xF8 :: u32) n \<longleftrightarrow> 3 \<le> n \<and> n < 8" "bit (0xFC :: u32) n \<longleftrightarrow> 2 \<le> n \<and> n < 8" for n
  proof -
    have "0xF8 = push_bit 3 (mask 5 :: u32)" "0xFC = push_bit 2 (mask 6 :: u32)" by (simp_all add: mask_eq_exp_minus_1 push_bit_eq_mult)
    then show "bit (0xF8 :: u32) n \<longleftrightarrow> 3 \<le> n \<and> n < 8" "bit (0xFC :: u32) n \<longleftrightarrow> 2 \<le> n \<and> n < 8"
      by (auto simp only: bit_push_bit_iff bit_mask_iff possible_bit_word len_num0 len_bit0 len_num1)
  qed
  let ?w = "push_bit 8 (r AND 0xF8) OR push_bit 3 (g AND 0xFC) OR drop_bit 3 b"
  have e: "rgbto565 r g b = ucast ?w" using assms by (simp only: rgbto565_def not_less [symmetric] if_True simp_thms)
  have u: "bit ?w n \<longleftrightarrow> (8 \<le> n \<and> bit r (n - 8) \<and> 3 \<le> n - 8 \<and> n - 8 < 8) \<or> (3 \<le> n \<and> bit g (n - 3) \<and> 2 \<le> n - 3 \<and> n - 3 < 8)
      \<or> bit b (n + 3)" if "n < 16" for n
  proof -
    have "n < 32" using that by simp
    then show ?thesis
      by (simp only: bit_or_iff bit_and_iff bit_push_bit_iff bit_drop_bit_eq comp_def m possible_bit_word word_size len_num0 len_bit0 len_num1
          add.commute [of 3 n]) auto
  qed
  have v: "bit (ucast w :: u16) n \<longleftrightarrow> n < 16 \<and> bit w n" for w :: u32 and n
    by (auto simp: bit_ucast_iff dest: bit_imp_le_length)
  have w: "bit (rgbto565 r g b) n \<longleftrightarrow> n < 16 \<and> (if n < 5 then bit b (n + 3) else if n < 11 then bit g (n - 3) else bit r (n - 8))" for n
  proof (cases "n < 16")
    case True
    have "bit ?w n \<longleftrightarrow> (if n < 5 then bit b (n + 3) else if n < 11 then bit g (n - 3) else bit r (n - 8))"
      unfolding u [OF True] by (rule field_cases [OF True]; rule ccontr) (use z assms in auto)
    with True show ?thesis by (simp only: e v simp_thms)
  next
    case False
    then show ?thesis by (simp only: e v simp_thms)
  qed
  have d: "bit r n \<Longrightarrow> n < 8" "bit g n \<Longrightarrow> n < 8" "bit b n \<Longrightarrow> n < 8" for n
    using z [OF assms(1), of n] z [OF assms(2), of n] z [OF assms(3), of n] by linarith+
  show "drop_bit 11 (rgbto565 r g b) = ucast (drop_bit 3 r)"
    by (rule bit_word_eqI) (auto simp: bit_drop_bit_eq w bit_ucast_iff add.commute dest: d)
  show "take_bit 6 (drop_bit 5 (rgbto565 r g b)) = ucast (drop_bit 2 g)"
    by (rule bit_word_eqI) (auto simp: bit_drop_bit_eq bit_take_bit_iff w bit_ucast_iff add.commute dest: d)
  show "take_bit 5 (rgbto565 r g b) = ucast (drop_bit 3 b)"
    by (rule bit_word_eqI) (auto simp: bit_drop_bit_eq bit_take_bit_iff w bit_ucast_iff add.commute dest: d)
qed

section \<open>The two buffers of the display\<close>

lemma lcd_setpixel_dead: "\<not> own_framebuffer s \<Longrightarrow> lcd_setpixel hw_w x y r g b s = s"
  by (simp add: lcd_setpixel_def)

lemma lcd_fillrect_screen:
  assumes "own_framebuffer s"
  shows "\<exists>m'. lcd_fillrect hw_w xs ys w h r g b s = s\<lparr>lcd_mem := m'\<rparr>
    \<and> drawn hw_w (framebuffer2 s) (lcd_mem s) (\<lambda>X Y. xs \<le> X \<and> X < xs + w \<and> ys \<le> Y \<and> Y < ys + h) (\<lambda>_ _. rgbto565 r g b) m'"
proof -
  let ?f = "lcd_fillrect hw_w xs ys w h r g b s"
  have p: "lcd.paints hw_w (\<lambda>_. True) (\<lambda>_ _. rgbto565 r g b) (\<lambda>X Y. xs \<le> X \<and> X < xs + w \<and> ys \<le> Y \<and> Y < ys + h)
      (lcd_fillrect hw_w xs ys w h r g b)"
    using lcd.paints_rect [of hw_w "\<lambda>_. True" "(r, g, b)" xs "xs + w" ys "ys + h"] by (simp add: lcd_fillrect_def [abs_def])
  note d = lcd.paintsD [OF p assms TrueI]
  from d(2) have f: "?f\<lparr>lcd_mem := \<lambda>_. 0\<rparr> = s\<lparr>lcd_mem := \<lambda>_. 0\<rparr>" by simp
  then have "framebuffer2 (?f\<lparr>lcd_mem := \<lambda>_. 0\<rparr>) = framebuffer2 (s\<lparr>lcd_mem := \<lambda>_. 0\<rparr>)" by (rule arg_cong)
  then have b: "framebuffer2 ?f = framebuffer2 s" by simp
  from f have "(?f\<lparr>lcd_mem := \<lambda>_. 0\<rparr>)\<lparr>lcd_mem := lcd_mem ?f\<rparr> = (s\<lparr>lcd_mem := \<lambda>_. 0\<rparr>)\<lparr>lcd_mem := lcd_mem ?f\<rparr>" by (rule arg_cong)
  then have "?f = s\<lparr>lcd_mem := lcd_mem ?f\<rparr>" by simp
  moreover have "drawn hw_w (framebuffer2 s) (lcd_mem s) (\<lambda>X Y. xs \<le> X \<and> X < xs + w \<and> ys \<le> Y \<and> Y < ys + h) (\<lambda>_ _. rgbto565 r g b) (lcd_mem ?f)"
    using d(2,3) by (simp add: drawn_def b memory_outside_iff)
  ultimately show ?thesis by blast
qed

text \<open>Bytes and pixels of a frame buffer.\<close>

lemma screen_cong:
  assumes "\<And>k. k < 153600 \<Longrightarrow> m' (b' + of_nat k) = m (b + of_nat k)" and "x < 320" and "y < 240"
  shows "screen hw_w b' m' x y = screen hw_w b m x y"
proof -
  let ?k = "unat (pixel hw_w x y)"
  have k: "?k + 1 < 153600" by (rule pixel_bound [OF assms(2,3)])
  have "b' + of_nat (?k + 1) = b' + pixel hw_w x y + 1" "b + of_nat (?k + 1) = b + pixel hw_w x y + 1" by simp_all
  with k assms(1) [of ?k] assms(1) [of "?k + 1"] show ?thesis by (simp add: screen_def get16_def ac_simps)
qed

text \<open>The buffers do not overlap.\<close>

definition apart :: "addr \<Rightarrow> addr \<Rightarrow> bool" where
  "apart b b' \<longleftrightarrow> 320 * 240 * 2 \<le> b - b' \<and> 320 * 240 * 2 \<le> b' - b"

lemma apart_outside:
  assumes "apart b b'" and "k < 153600"
  shows "outside b (b' + of_nat k)"
proof -
  have "153600 \<le> unat (b' - b)" "153600 \<le> unat (b - b')" using assms(1) by (simp_all add: apart_def unat_le_u32)
  moreover from this have "unat (b' - b) + unat (b - b') = 2 ^ 32"
    using unat_sub_if' [of b' b] unat_sub_if' [of b b'] unat_u32_bound [of b] unat_u32_bound [of b'] by (auto split: if_splits)
  moreover have "unat (of_nat k :: u32) = k" using assms(2) by (simp add: unat_of_nat_u32)
  ultimately have "unat (b' - b + of_nat k) = unat (b' - b) + k" using assms(2) by (subst unat_add_u32) simp_all
  then have "153600 \<le> unat (b' - b + of_nat k)" using \<open>153600 \<le> unat (b' - b)\<close> by simp
  then have "153600 \<le> b' - b + of_nat k" by (simp add: unat_le_u32)
  then show ?thesis by (simp add: outside_def algebra_simps)
qed

lemma outside_neq: "outside b a \<Longrightarrow> j < 153600 \<Longrightarrow> a \<noteq> b + of_nat j"
  by (auto simp: outside_def unat_le_u32 unat_of_nat_u32)

lemma screen_drawn_apart:
  assumes "drawn hw_w b m Q c m'" and "apart b b'" and "x < 320" and "y < 240"
  shows "screen hw_w b' m' x y = screen hw_w b' m x y"
  by (rule screen_cong) (use assms apart_outside in \<open>auto simp: drawn_def\<close>)

lemma blit_screen:
  assumes "own_framebuffer s" and "apart (framebuffer1 s) (framebuffer2 s)" and "x < 320" and "y < 240"
  shows "screen hw_w (framebuffer1 s) (lcd_mem (blitLCDBuffer s)) x y = screen hw_w (framebuffer2 s) (lcd_mem s) x y"
proof (rule screen_cong)
  fix k :: nat assume k: "k < 153600"
  have "framebuffer2 s + of_nat i \<noteq> framebuffer1 s + of_nat j" if "i < 153600" "j < i" for i j
    using that by (intro outside_neq apart_outside [OF assms(2)]) simp_all
  with k have "memcpy_loop 153600 (framebuffer1 s) (framebuffer2 s) (lcd_mem s) (framebuffer1 s + of_nat k)
      = lcd_mem s (framebuffer2 s + of_nat k)"
    by (intro memcpy_loop_at) auto
  then show "lcd_mem (blitLCDBuffer s) (framebuffer1 s + of_nat k) = lcd_mem s (framebuffer2 s + of_nat k)"
    using assms(1) by (simp add: blitLCDBuffer_def k_memcpy_def)
qed (use assms in simp_all)

text \<open>
  Drawing is double buffered: a rectangle drawn with \<open>lcd_fillrect\<close> does not show until \<open>blitLCDBuffer\<close>, after
  which the visible buffer is what the hidden one was, with the rectangle. Without the ownership of the display both do nothing.
\<close>

theorem lcd_double_buffering:
  assumes "apart (framebuffer1 s) (framebuffer2 s)" and "x < 320" and "y < 240"
  shows "if own_framebuffer s then
      let s' = lcd_fillrect hw_w xs ys w h r g b s in
      screen hw_w (framebuffer1 s) (lcd_mem s') x y = screen hw_w (framebuffer1 s) (lcd_mem s) x y
      \<and> screen hw_w (framebuffer1 s) (lcd_mem (blitLCDBuffer s')) x y
          = (if xs \<le> x \<and> x < xs + w \<and> ys \<le> y \<and> y < ys + h then rgbto565 r g b else screen hw_w (framebuffer2 s) (lcd_mem s) x y)
    else blitLCDBuffer (lcd_fillrect hw_w xs ys w h r g b s) = s"
proof (cases "own_framebuffer s")
  case True
  from lcd_fillrect_screen [OF this] obtain m' where m': "lcd_fillrect hw_w xs ys w h r g b s = s\<lparr>lcd_mem := m'\<rparr>"
    "drawn hw_w (framebuffer2 s) (lcd_mem s) (\<lambda>X Y. xs \<le> X \<and> X < xs + w \<and> ys \<le> Y \<and> Y < ys + h) (\<lambda>_ _. rgbto565 r g b) m'"
    by blast
  have "apart (framebuffer2 s) (framebuffer1 s)" using assms(1) by (simp add: apart_def)
  from screen_drawn_apart [OF m'(2) this assms(2,3)] blit_screen [of "s\<lparr>lcd_mem := m'\<rparr>" x y hw_w] assms m' True
  show ?thesis by (simp add: Let_def drawn_def)
next
  case False
  then have "lcd_fillrect hw_w xs ys w h r g b s = s" by (simp add: lcd_fillrect_def lcd_setpixel_dead for_u32_id)
  with False show ?thesis by (simp add: blitLCDBuffer_def)
qed

text \<open>Taking the display makes both buffers black; giving it back restores the frame buffer of the TI OS.\<close>

lemma claimLCD_black:
  assumes "\<not> own_framebuffer s" and "x < 320" and "y < 240"
  shows "screen hw_w (framebuffer1 s) (lcd_mem (claimLCD mmu v s)) x y = 0"
    and "screen hw_w (framebuffer2 s) (lcd_mem (claimLCD mmu v s)) x y = 0"
proof -
  have m: "lcd_mem (claimLCD mmu v s) (framebuffer1 s + of_nat k) = 0 \<and> lcd_mem (claimLCD mmu v s) (framebuffer2 s + of_nat k) = 0"
    if "k < 153600" for k
    using assms(1) that by (auto simp: claimLCD_def Let_def wr_def k_memset_def memset_loop_eq)
  have "screen hw_w b (lcd_mem (claimLCD mmu v s)) x y = screen hw_w b (\<lambda>_. 0) x y" if "b = framebuffer1 s \<or> b = framebuffer2 s" for b
    by (rule screen_cong) (use that m assms in auto)
  then show "screen hw_w (framebuffer1 s) (lcd_mem (claimLCD mmu v s)) x y = 0"
    "screen hw_w (framebuffer2 s) (lcd_mem (claimLCD mmu v s)) x y = 0"
    by (simp_all add: screen_def get16_def)
qed

lemma claim_freeLCD:
  assumes "\<not> own_framebuffer s"
  shows "rd (LCD_UPBASE s) (freeLCD (claimLCD mmu v s)) = rd (LCD_UPBASE s) s" and "\<not> own_framebuffer (freeLCD (claimLCD mmu v s))"
    and "rd (LCD_UPBASE s) (claimLCD mmu v s) = getKernelPhysicalAddress mmu (framebuffer1 s) v"
  using assms by (simp_all add: claimLCD_def freeLCD_def Let_def rd_def wr_def)

section \<open>The memory of an image\<close>

text \<open>
  C1. The pages of an image are those \<open>create_img565\<close> took: \<open>destroy_img565\<close> gives back all of them, so every page is as
  before.
\<close>

theorem img565_roundtrip:
  assumes "pm_inv (img_phys s)" and "img \<noteq> NULL" and "img_bytes width height > 1024"
    and "fst (useConsecutivePages rem0 (of_nat (img_bytes width height div 4096) + 1) 0 (img_phys s)) \<noteq> NULL" and "page_aligned q"
  shows "isPageUsed q (img_phys (destroy_img565 img (snd (create_img565 rem0 img data width height s)))) = isPageUsed q (img_phys s)"
proof -
  obtain page p where u: "useConsecutivePages rem0 (of_nat (img_bytes width height div 4096) + 1) 0 (img_phys s) = (page, p)"
    by (cases "useConsecutivePages rem0 (of_nat (img_bytes width height div 4096) + 1) 0 (img_phys s)")
  from free_used_run [OF assms(1) u _ assms(5)] u assms(2,3,4) show ?thesis
    by (auto simp: create_img565_def destroy_img565_def Let_def add_eq_0_iff)
qed

text \<open>
  When there are no pages the address is not NULL but the distance of the two views of the RAM, and the test for NULL passes:
  the image points to memory that is not its own.
\<close>

lemma create_img565_no_pages:
  assumes "img \<noteq> NULL" and "img_bytes width height > 1024"
    and "useConsecutivePages rem0 (of_nat (img_bytes width height div 4096) + 1) 0 (img_phys s) = (NULL, p)"
  shows "fst (create_img565 rem0 img data width height s) = img"
    and "img_data (img_at (snd (create_img565 rem0 img data width height s)) img) = 0xdc000000"
  using assms by (simp_all add: create_img565_def Let_def)

section \<open>Examples\<close>

lemma framebuffer_draw_img565_correct_witness:
  "screen False 0x100000 (framebuffer_draw_img565 False 0x100000 \<lparr>img_width = 1, img_height = 1, img_data = 0x10\<rparr> 5 6
     (\<lambda>a. if a = 0x10 then 0x34 else 0)) 5 6 = 0x34"
proof -
  have "drawn False 0x100000 (\<lambda>a. if a = 0x10 then 0x34 else 0)
      (\<lambda>X Y. X - 5 < ucast (1 :: u16) \<and> Y - 6 < ucast (1 :: u16)) (\<lambda>X Y. get16 (\<lambda>a. if a = 0x10 then 0x34 else 0) (0x10 + 2 * ((X - 5) + (Y - 6) * ucast (1 :: u16))))
      (framebuffer_draw_img565 False 0x100000 \<lparr>img_width = 1, img_height = 1, img_data = 0x10\<rparr> 5 6 (\<lambda>a. if a = 0x10 then 0x34 else 0))"
    using framebuffer_draw_img565_correct [of "\<lparr>img_width = 1, img_height = 1, img_data = 0x10\<rparr>" "0x100000" False _ 5 6]
    by (simp add: outside_def word_less_1)
  then show ?thesis by (simp add: drawn_def get16_def)
qed

lemma framebuffer_write10pstring_ascii_correct_witness:
  "\<exists>m'. framebuffer_write10pstring_ascii (replicate 1600 0xFF) False 0x10 0x100000 318 0 255 0 0 (\<lambda>a. if a = 0x10 then 65 else 0) = Some m'
    \<and> screen False 0x100000 m' 319 5 = 0xF800"
proof -
  have "string_at (\<lambda>a. if a = 0x10 then 65 else 0) 0x10 [65]" "string_outside 0x100000 0x10 [65]" by (simp_all add: outside_def)
  from framebuffer_write10pstring_ascii_correct [OF this, of "replicate 1600 0xFF" False 318 0 255 0 0] obtain m'
    where m': "framebuffer_write10pstring_ascii (replicate 1600 0xFF) False 0x10 0x100000 318 0 255 0 0 (\<lambda>a. if a = 0x10 then 65 else 0) = Some m'"
      "screen False 0x100000 m' 319 5 = rgbto565 255 0 0"
    by (auto simp: drawn_def isAsciiPixel_bit)
  moreover have "rgbto565 255 0 0 = 0xF800" by code_simp
  ultimately show ?thesis by auto
qed

definition lcd_example :: lcd where
  "lcd_example = freeLCD (initLCDDriver 0xe9000000 0x11000000 0x12000000
     \<lparr>regs = (\<lambda>_. 0), writes = [], lcd_mem = (\<lambda>_. 0), remapped_lcd_controller = 0xC0000000, LCD_UPBASE = 0xC0000010, old_backlight_value = 0x174,
      kernel_lcd_mutex = NULL, framebuffer1 = NULL, framebuffer2 = NULL, old_framebuffer = NULL, own_framebuffer = True\<rparr>)"

lemma lcd_double_buffering_witness:
  "let s = lcd_example\<lparr>own_framebuffer := True\<rparr>
   in screen True (framebuffer1 s) (lcd_mem (blitLCDBuffer (lcd_fillrect True 10 20 30 40 0 0 255 s))) 11 59 = 0x1F"
proof -
  have f: "framebuffer1 lcd_example = 0x11000000" "framebuffer2 lcd_example = 0x12000000"
    by (simp_all add: lcd_example_def initLCDDriver_def freeLCD_def wr_def Let_def)
  have "rgbto565 0 0 255 = 0x1F" by code_simp
  then show ?thesis
    using lcd_double_buffering [of "lcd_example\<lparr>own_framebuffer := True\<rparr>" 11 59 True 10 20 30 40 0 0 255]
    by (simp add: f apart_def Let_def)
qed

lemma img565_roundtrip_witness:
  "let s = \<lparr>img_at = (\<lambda>_. \<lparr>img_width = 0, img_height = 0, img_data = 0\<rparr>), img_phys = mm_example, img_freed = []\<rparr>
   in isPageUsed 0x10001000 (img_phys (destroy_img565 0xe0000000 (snd (create_img565 (\<lambda>_. 0) 0xe0000000 NULL 32 20 s)))) = isPageUsed 0x10001000 mm_example"
proof -
  have "fst (useConsecutivePages (\<lambda>_. 0) 1 0 mm_example) = 0x10001000" by code_simp
  then show ?thesis
    using img565_roundtrip [of "\<lparr>img_at = (\<lambda>_. \<lparr>img_width = 0, img_height = 0, img_data = 0\<rparr>), img_phys = mm_example, img_freed = []\<rparr>"
        "0xe0000000" 32 20 "\<lambda>_. 0" "0x10001000" NULL] mm_example_inv
    by (simp add: Let_def img_bytes_def page_aligned_def)
qed

end
