(* ===== verification/Keypad.thy ===== *)
theory Keypad
  imports Devices
begin

text \<open>
  The keypad (drivers/keypad.c). The state of the keys is in sixteen half words of the device, one bit for each
  key. Waiting for keys reads registers that change by themselves: \<open>env\<close> gives the next state of the registers.
\<close>

section \<open>Key codes\<close>

text \<open>\<open>enum keycode\<close>: the keys are numbered from 0 in the order of the declaration.\<close>

type_synonym keycode = nat

abbreviation (input) KEY_RET :: keycode where "KEY_RET \<equiv> 0"
abbreviation (input) KEY_ENTER :: keycode where "KEY_ENTER \<equiv> 1"
abbreviation (input) KEY_MATH_MINUS :: keycode where "KEY_MATH_MINUS \<equiv> 2"
abbreviation (input) KEY_SPACE :: keycode where "KEY_SPACE \<equiv> 3"
abbreviation (input) KEY_Z :: keycode where "KEY_Z \<equiv> 4"
abbreviation (input) KEY_Y :: keycode where "KEY_Y \<equiv> 5"
abbreviation (input) KEY_ZERO :: keycode where "KEY_ZERO \<equiv> 6"
abbreviation (input) KEY_QUESTION :: keycode where "KEY_QUESTION \<equiv> 7"
abbreviation (input) KEY_ON :: keycode where "KEY_ON \<equiv> 8"
abbreviation (input) KEY_X :: keycode where "KEY_X \<equiv> 9"
abbreviation (input) KEY_W :: keycode where "KEY_W \<equiv> 10"
abbreviation (input) KEY_V :: keycode where "KEY_V \<equiv> 11"
abbreviation (input) KEY_THREE :: keycode where "KEY_THREE \<equiv> 12"
abbreviation (input) KEY_U :: keycode where "KEY_U \<equiv> 13"
abbreviation (input) KEY_T :: keycode where "KEY_T \<equiv> 14"
abbreviation (input) KEY_S :: keycode where "KEY_S \<equiv> 15"
abbreviation (input) KEY_ONE :: keycode where "KEY_ONE \<equiv> 16"
abbreviation (input) KEY_PI :: keycode where "KEY_PI \<equiv> 17"
abbreviation (input) KEY_TRIG :: keycode where "KEY_TRIG \<equiv> 18"
abbreviation (input) KEY_TEN_POW :: keycode where "KEY_TEN_POW \<equiv> 19"
abbreviation (input) KEY_R :: keycode where "KEY_R \<equiv> 20"
abbreviation (input) KEY_Q :: keycode where "KEY_Q \<equiv> 21"
abbreviation (input) KEY_P :: keycode where "KEY_P \<equiv> 22"
abbreviation (input) KEY_SIX :: keycode where "KEY_SIX \<equiv> 23"
abbreviation (input) KEY_O :: keycode where "KEY_O \<equiv> 24"
abbreviation (input) KEY_N :: keycode where "KEY_N \<equiv> 25"
abbreviation (input) KEY_M :: keycode where "KEY_M \<equiv> 26"
abbreviation (input) KEY_4 :: keycode where "KEY_4 \<equiv> 27"
abbreviation (input) KEY_EE :: keycode where "KEY_EE \<equiv> 28"
abbreviation (input) KEY_SQUARED :: keycode where "KEY_SQUARED \<equiv> 29"
abbreviation (input) KEY_L :: keycode where "KEY_L \<equiv> 30"
abbreviation (input) KEY_K :: keycode where "KEY_K \<equiv> 31"
abbreviation (input) KEY_J :: keycode where "KEY_J \<equiv> 32"
abbreviation (input) KEY_NINE :: keycode where "KEY_NINE \<equiv> 33"
abbreviation (input) KEY_I :: keycode where "KEY_I \<equiv> 34"
abbreviation (input) KEY_H :: keycode where "KEY_H \<equiv> 35"
abbreviation (input) KEY_G :: keycode where "KEY_G \<equiv> 36"
abbreviation (input) KEY_SEVEN :: keycode where "KEY_SEVEN \<equiv> 37"
abbreviation (input) KEY_SLASH :: keycode where "KEY_SLASH \<equiv> 38"
abbreviation (input) KEY_E_POW :: keycode where "KEY_E_POW \<equiv> 39"
abbreviation (input) KEY_F :: keycode where "KEY_F \<equiv> 40"
abbreviation (input) KEY_E :: keycode where "KEY_E \<equiv> 41"
abbreviation (input) KEY_D :: keycode where "KEY_D \<equiv> 42"
abbreviation (input) KEY_C :: keycode where "KEY_C \<equiv> 43"
abbreviation (input) KEY_B :: keycode where "KEY_B \<equiv> 44"
abbreviation (input) KEY_A :: keycode where "KEY_A \<equiv> 45"
abbreviation (input) KEY_EQUALS :: keycode where "KEY_EQUALS \<equiv> 46"
abbreviation (input) KEY_STAR :: keycode where "KEY_STAR \<equiv> 47"
abbreviation (input) KEY_CIRCUMFLEX :: keycode where "KEY_CIRCUMFLEX \<equiv> 48"
abbreviation (input) KEY_VAR :: keycode where "KEY_VAR \<equiv> 49"
abbreviation (input) KEY_MINUS :: keycode where "KEY_MINUS \<equiv> 50"
abbreviation (input) KEY_CLOSING_BRACKET :: keycode where "KEY_CLOSING_BRACKET \<equiv> 51"
abbreviation (input) KEY_DOT :: keycode where "KEY_DOT \<equiv> 52"
abbreviation (input) KEY_OPENING_BRACKET :: keycode where "KEY_OPENING_BRACKET \<equiv> 53"
abbreviation (input) KEY_FIVE :: keycode where "KEY_FIVE \<equiv> 54"
abbreviation (input) KEY_CAT :: keycode where "KEY_CAT \<equiv> 55"
abbreviation (input) KEY_FRAC :: keycode where "KEY_FRAC \<equiv> 56"
abbreviation (input) KEY_DEL :: keycode where "KEY_DEL \<equiv> 57"
abbreviation (input) KEY_SCRATCH :: keycode where "KEY_SCRATCH \<equiv> 58"
abbreviation (input) KEY_FLAG :: keycode where "KEY_FLAG \<equiv> 59"
abbreviation (input) KEY_PLUS :: keycode where "KEY_PLUS \<equiv> 60"
abbreviation (input) KEY_DOC :: keycode where "KEY_DOC \<equiv> 61"
abbreviation (input) KEY_TWO :: keycode where "KEY_TWO \<equiv> 62"
abbreviation (input) KEY_MENU :: keycode where "KEY_MENU \<equiv> 63"
abbreviation (input) KEY_EIGHT :: keycode where "KEY_EIGHT \<equiv> 64"
abbreviation (input) KEY_ESCAPE :: keycode where "KEY_ESCAPE \<equiv> 65"
abbreviation (input) KEY_TAB :: keycode where "KEY_TAB \<equiv> 66"
abbreviation (input) KEY_SHIFT :: keycode where "KEY_SHIFT \<equiv> 67"
abbreviation (input) KEY_CTRL :: keycode where "KEY_CTRL \<equiv> 68"
abbreviation (input) KEY_COMMA :: keycode where "KEY_COMMA \<equiv> 69"

definition keycode_ascii :: "u8 list" where
  "keycode_ascii =
    [0, 10, 0, 32, 122, 121, 48, 63, 0, 120, 119, 118, 51, 117, 116, 115, 49, 0, 0, 0, 114, 113, 112, 54,
     111, 110, 109, 52, 0, 0, 108, 107, 106, 57, 105, 104, 103, 55, 47, 0, 102, 101, 100, 99, 98, 97, 61, 42,
     94, 0, 45, 41, 46, 40, 53, 0, 0, 127, 0, 0, 43, 0, 50, 0, 56, 27, 0, 0, 0, 44]"

definition keymap_cas :: "u8 list" where
  "keymap_cas =
    [0, 1, 3, 4, 5, 6, 7, 8, 9, 16, 17, 18, 19, 20, 21, 22, 23, 24, 25, 26, 32, 33, 34, 35, 36, 37, 38, 39,
     40, 41, 48, 49, 50, 51, 52, 53, 54, 55, 56, 57, 64, 65, 66, 68, 69, 70, 71, 72, 73, 81, 82, 83, 84, 85,
     86, 87, 88, 89, 90, 96, 98, 99, 100, 101, 102, 103, 105, 120, 121, 122]"

section \<open>Operations\<close>

definition keypad_data :: addr where "keypad_data = 0x900E0010"

text \<open>A half word of the device: one of the two halves of a register.\<close>

definition rd16 :: "addr \<Rightarrow> 'a mmio_scheme \<Rightarrow> u16" where
  "rd16 a s = (if a AND 2 = 0 then ucast (rd a s) else ucast (drop_bit 16 (rd (a - 2) s)))"

definition isKeyPressed :: "keycode \<Rightarrow> 'a mmio_scheme \<Rightarrow> bool" where
  "isKeyPressed key s =
     (let bit = ucast (keymap_cas ! key) :: u32;
          uint32 = bit div 16;
          bit = bit mod 16
      in if uint32 \<le> 0x1f then
           if (ucast (rd16 (keypad_data + 2 * uint32) s) :: u32) AND push_bit (unat bit) 1 \<noteq> 0 then True else False
         else False)"

definition getAlphanumericKeyPressed :: "'a mmio_scheme \<Rightarrow> u8" where
  "getAlphanumericKeyPressed s =
     (case List.find (\<lambda>key.
         key \<noteq> KEY_RET \<and> key \<noteq> KEY_ENTER \<and> key \<noteq> KEY_MATH_MINUS \<and> key \<noteq> KEY_ON \<and> key \<noteq> KEY_PI
           \<and> key \<noteq> KEY_TRIG \<and> key \<noteq> KEY_TEN_POW \<and> key \<noteq> KEY_EE \<and> key \<noteq> KEY_SQUARED
           \<and> key \<noteq> KEY_E_POW \<and> key \<noteq> KEY_VAR \<and> key \<noteq> KEY_CAT \<and> key \<noteq> KEY_FRAC \<and> key \<noteq> KEY_DEL \<and> key \<noteq> KEY_SCRATCH
           \<and> key \<noteq> KEY_FLAG \<and> key \<noteq> KEY_DOC \<and> key \<noteq> KEY_MENU \<and> key \<noteq> KEY_ESCAPE \<and> key \<noteq> KEY_TAB \<and> key \<noteq> KEY_SHIFT \<and> key \<noteq> KEY_CTRL
         \<and> isKeyPressed key s) [0..<length keycode_ascii] of
        Some i \<Rightarrow> keycode_ascii ! i
      | None \<Rightarrow> 0)"

text \<open>The loop reads words.\<close>

definition any_key_pressed :: "'a mmio_scheme \<Rightarrow> bool" where
  "any_key_pressed s =
     (case List.find (\<lambda>i. rd (keypad_data + 4 * of_nat i) s \<noteq> 0) [0..<8] of
        Some _ \<Rightarrow> True
      | None \<Rightarrow> False)"

text \<open>\<open>while (! stop) { }\<close> over registers that change by themselves.\<close>

partial_function (option) wait_until :: "('s \<Rightarrow> 's) \<Rightarrow> ('s \<Rightarrow> bool) \<Rightarrow> 's \<Rightarrow> 's option" where
  "wait_until env stop s = (if \<not> stop s then wait_until env stop (env s) else Some s)"

definition keypad_press_release_barrier :: "('a mmio_scheme \<Rightarrow> 'a mmio_scheme) \<Rightarrow> 'a mmio_scheme \<Rightarrow> 'a mmio_scheme option" where
  "keypad_press_release_barrier env s =
     Option.bind (wait_until env any_key_pressed s) (\<lambda>s.
     wait_until env (\<lambda>s. \<not> any_key_pressed s) s)"

definition keypad_no_key_pressed_barrier :: "('a mmio_scheme \<Rightarrow> 'a mmio_scheme) \<Rightarrow> 'a mmio_scheme \<Rightarrow> 'a mmio_scheme option" where
  "keypad_no_key_pressed_barrier env s = wait_until env (\<lambda>s. \<not> any_key_pressed s) s"

section \<open>Reading the keys\<close>

text \<open>The registers show exactly the keys \<open>K\<close> as pressed.\<close>

definition keys_down :: "'a mmio_scheme \<Rightarrow> keycode set \<Rightarrow> bool" where
  "keys_down s K \<longleftrightarrow> K \<subseteq> {..<70} \<and>
     (\<forall>n<256. bit (rd16 (keypad_data + 2 * of_nat (n div 16)) s) (n mod 16) \<longleftrightarrow> n \<in> (\<lambda>k. unat (keymap_cas ! k)) ` K)"

definition alphanumeric :: "keycode \<Rightarrow> bool" where
  "alphanumeric k \<longleftrightarrow> k \<notin> {KEY_RET, KEY_ENTER, KEY_MATH_MINUS, KEY_ON, KEY_PI, KEY_TRIG, KEY_TEN_POW, KEY_EE, KEY_SQUARED, KEY_E_POW,
     KEY_VAR, KEY_CAT, KEY_FRAC, KEY_DEL, KEY_SCRATCH, KEY_FLAG, KEY_DOC, KEY_MENU, KEY_ESCAPE, KEY_TAB, KEY_SHIFT, KEY_CTRL}"

lemma tables: "length keymap_cas = 70" "length keycode_ascii = 70" "distinct keymap_cas" "list_all (\<lambda>b. b < 128) keymap_cas"
  "list_all (\<lambda>k. alphanumeric k \<longrightarrow> keycode_ascii ! k \<noteq> 0) [0..<70]"
  by code_simp+

lemma keymap_bound: "k < 70 \<Longrightarrow> unat (keymap_cas ! k) < 128"
  using tables(1,4) by (simp add: list_all_length word_less_nat_alt)

lemma keymap_inj: "inj_on (\<lambda>k. unat (keymap_cas ! k)) {..<70}"
  using tables(1,3) by (auto simp: inj_on_def nth_eq_iff_index_eq simp flip: word_unat_eq_iff)

lemma isKeyPressed_bit:
  assumes "k < 70"
  defines "n \<equiv> unat (keymap_cas ! k)"
  shows "isKeyPressed k s \<longleftrightarrow> bit (rd16 (keypad_data + 2 * of_nat (n div 16)) s) (n mod 16)"
proof -
  let ?b = "ucast (keymap_cas ! k) :: u32"
  have n: "n < 128" unfolding n_def by (rule keymap_bound [OF assms(1)])
  have u: "unat ?b = n" using n by (simp add: n_def unsigned_ucast_eq take_bit_nat_eq_self)
  then have d: "unat (?b div 16) = n div 16" "unat (?b mod 16) = n mod 16" unfolding unat_div unat_mod by simp_all
  then have h: "?b div 16 = of_nat (n div 16)" by (simp flip: d(1))
  have "unat (?b div 16) \<le> 31" using n d by simp
  then have le: "?b div 16 \<le> 0x1f" by (simp add: unat_le_u32)
  have z: "(w AND push_bit j 1 \<noteq> 0) = bit w j" for w :: u32 and j
    by (rule bit_iff_and_push_bit_not_eq_0 [symmetric])
  have "n mod 16 < 32" by (rule less_trans [of _ 16]) simp_all
  then have "bit (ucast (rd16 a s) :: u32) (n mod 16) = bit (rd16 a s) (n mod 16)" for a
    by (simp add: bit_ucast_iff)
  then show ?thesis using le unfolding isKeyPressed_def Let_def z d h by simp
qed

lemma keypad_words:
  assumes "i < 8"
  shows "rd16 (keypad_data + 2 * of_nat (2 * i)) s = ucast (rd (keypad_data + 4 * of_nat i) s)"
    and "rd16 (keypad_data + 2 * of_nat (2 * i + 1)) s = ucast (drop_bit 16 (rd (keypad_data + 4 * of_nat i) s))"
proof -
  have "i \<in> {0, 1, 2, 3, 4, 5, 6, 7}" using assms by auto
  then show "rd16 (keypad_data + 2 * of_nat (2 * i)) s = ucast (rd (keypad_data + 4 * of_nat i) s)"
    "rd16 (keypad_data + 2 * of_nat (2 * i + 1)) s = ucast (drop_bit 16 (rd (keypad_data + 4 * of_nat i) s))"
    by (auto simp: rd16_def keypad_data_def)
qed

lemma word_halves: "(w :: u32) \<noteq> 0 \<longleftrightarrow> (\<exists>j<16. bit (ucast w :: u16) j) \<or> (\<exists>j<16. bit (ucast (drop_bit 16 w) :: u16) j)" (is "?l \<longleftrightarrow> ?r")
proof
  assume ?l
  then obtain n where n: "bit w n" by (metis bit_0_eq bit_eqI bot_apply bot_bool_def)
  then have "n < 32" using bit_imp_le_length [of w n] by simp
  then consider "n < 16" | "16 \<le> n" "n - 16 < 16" by linarith
  then show ?r
  proof cases
    case 1
    then have "bit (ucast w :: u16) n" using n by (simp add: bit_ucast_iff)
    with 1 show ?thesis by blast
  next
    case 2
    then have "bit (ucast (drop_bit 16 w) :: u16) (n - 16)" using n by (simp add: bit_ucast_iff bit_drop_bit_eq)
    with 2 show ?thesis by blast
  qed
next
  assume ?r
  then show ?l by auto
qed

lemma find_hit: "(case List.find P xs of Some _ \<Rightarrow> True | None \<Rightarrow> False) \<longleftrightarrow> (\<exists>x\<in>set xs. P x)"
proof (cases "List.find P xs")
  case None
  show ?thesis unfolding None using None [unfolded find_None_iff] by simp
next
  case (Some x)
  show ?thesis unfolding Some using find_in_set [OF Some] by auto
qed

lemma any_key_pressed_bit:
  "any_key_pressed s \<longleftrightarrow> (\<exists>n<256. bit (rd16 (keypad_data + 2 * of_nat (n div 16)) s) (n mod 16))" (is "_ \<longleftrightarrow> ?r")
proof -
  have "any_key_pressed s \<longleftrightarrow> (\<exists>i<8. rd (keypad_data + 4 * of_nat i) s \<noteq> 0)"
    using find_hit [of "\<lambda>i. rd (keypad_data + 4 * of_nat i) s \<noteq> 0" "[0..<8]"]
    by (simp add: any_key_pressed_def Bex_def del: upt_rec_numeral)
  also have "\<dots> \<longleftrightarrow> (\<exists>i<8. (\<exists>j<16. bit (rd16 (keypad_data + 2 * of_nat (2 * i)) s) j) \<or> (\<exists>j<16. bit (rd16 (keypad_data + 2 * of_nat (2 * i + 1)) s) j))"
    using keypad_words word_halves by metis
  also have "\<dots> \<longleftrightarrow> (\<exists>h<16. \<exists>j<16. bit (rd16 (keypad_data + 2 * of_nat h) s) j)" (is "?x \<longleftrightarrow> ?y")
  proof
    assume ?x
    then obtain i where "i < 8" "(\<exists>j<16. bit (rd16 (keypad_data + 2 * of_nat (2 * i)) s) j) \<or> (\<exists>j<16. bit (rd16 (keypad_data + 2 * of_nat (2 * i + 1)) s) j)" by blast
    moreover from this(1) have "2 * i < 16" "2 * i + 1 < 16" by simp_all
    ultimately show ?y by blast
  next
    assume ?y
    then obtain h j where h: "h < 16" "j < 16" "bit (rd16 (keypad_data + 2 * of_nat h) s) j" by blast
    have "h = 2 * (h div 2) \<or> h = 2 * (h div 2) + 1" "h div 2 < 8" using h(1) by auto
    with h show ?x by metis
  qed
  also have "\<dots> \<longleftrightarrow> ?r"
  proof
    assume ?y
    then obtain h j where h: "h < 16" "j < 16" "bit (rd16 (keypad_data + 2 * of_nat h) s) j" by blast
    then have "(16 * h + j) div 16 = h" "(16 * h + j) mod 16 = j" "16 * h + j < 256" by auto
    with h(3) show ?r by metis
  next
    assume ?r
    then obtain n where "n < 256" "bit (rd16 (keypad_data + 2 * of_nat (n div 16)) s) (n mod 16)" by blast
    moreover from this(1) have "n div 16 < 16" "n mod 16 < 16" by simp_all
    ultimately show ?y by blast
  qed
  finally show ?thesis .
qed

text \<open>
  C38. When the registers show a set of keys, \<open>isKeyPressed\<close> answers whether a key is in it, \<open>any_key_pressed\<close> whether it is
  empty; \<open>getAlphanumericKeyPressed\<close> gives the character of the pressed key with the lowest code among the alphanumeric keys, those
  with a character except ENTER, DEL and ESCAPE, and 0 when none of them is pressed.
\<close>

theorem keypad_correct:
  assumes "keys_down s K"
  shows "list_all (\<lambda>k. isKeyPressed k s \<longleftrightarrow> k \<in> K) [0..<70] \<and> (any_key_pressed s \<longleftrightarrow> K \<noteq> {})
    \<and> getAlphanumericKeyPressed s =
        (case List.find (\<lambda>k. alphanumeric k \<and> k \<in> K) [0..<70] of Some k \<Rightarrow> keycode_ascii ! k | None \<Rightarrow> 0)
    \<and> (getAlphanumericKeyPressed s = 0 \<longleftrightarrow> list_all (\<lambda>k. alphanumeric k \<longrightarrow> k \<notin> K) [0..<70])"
proof (intro conjI)
  have p: "isKeyPressed k s \<longleftrightarrow> k \<in> K" if "k < 70" for k
  proof -
    have "isKeyPressed k s \<longleftrightarrow> unat (keymap_cas ! k) \<in> (\<lambda>k. unat (keymap_cas ! k)) ` K"
      using assms keymap_bound [OF that] by (simp add: isKeyPressed_bit [OF that] keys_down_def)
    also have "\<dots> \<longleftrightarrow> k \<in> K" using keymap_inj that assms unfolding keys_down_def by (intro inj_on_image_mem_iff) auto
    finally show ?thesis .
  qed
  then show "list_all (\<lambda>k. isKeyPressed k s \<longleftrightarrow> k \<in> K) [0..<70]" by (simp add: list_all_iff)
  have "any_key_pressed s \<longleftrightarrow> (\<exists>n<256. n \<in> (\<lambda>k. unat (keymap_cas ! k)) ` K)"
    using assms unfolding any_key_pressed_bit keys_down_def by blast
  also have "\<dots> \<longleftrightarrow> K \<noteq> {}"
  proof
    assume "K \<noteq> {}"
    then obtain k where "k \<in> K" by blast
    moreover from this have "unat (keymap_cas ! k) < 256" using assms keymap_bound [of k] by (auto simp: keys_down_def)
    ultimately show "\<exists>n<256. n \<in> (\<lambda>k. unat (keymap_cas ! k)) ` K" by blast
  qed blast
  finally show "any_key_pressed s \<longleftrightarrow> K \<noteq> {}" .
  have "List.find (\<lambda>k. alphanumeric k \<and> isKeyPressed k s) [0..<70] = List.find (\<lambda>k. alphanumeric k \<and> k \<in> K) [0..<70]"
    by (rule find_cong) (use p in auto)
  then show e: "getAlphanumericKeyPressed s =
      (case List.find (\<lambda>k. alphanumeric k \<and> k \<in> K) [0..<70] of Some k \<Rightarrow> keycode_ascii ! k | None \<Rightarrow> 0)"
    by (simp add: getAlphanumericKeyPressed_def alphanumeric_def tables(2) del: upt_conv_Cons upt_rec_numeral)
  show "getAlphanumericKeyPressed s = 0 \<longleftrightarrow> list_all (\<lambda>k. alphanumeric k \<longrightarrow> k \<notin> K) [0..<70]"
  proof (cases "List.find (\<lambda>k. alphanumeric k \<and> k \<in> K) [0..<70]")
    case None
    show ?thesis unfolding e None using None [unfolded find_None_iff] by (auto simp: list_all_iff)
  next
    case (Some k)
    then have "k \<in> set [0..<70]" "alphanumeric k" "k \<in> K" using find_in_set by fastforce+
    moreover from this(1,2) have "keycode_ascii ! k \<noteq> 0" using tables(5) by (simp add: list_all_iff)
    ultimately show ?thesis unfolding e Some by (auto simp: list_all_iff)
  qed
qed

lemma keypad_correct_witness:
  "let s = \<lparr>regs = (\<lambda>_. 0)(0x900E0018 := 0x40), writes = []\<rparr> in isKeyPressed KEY_A s \<and> getAlphanumericKeyPressed s = 97"
proof -
  let ?s = "\<lparr>regs = (\<lambda>_. 0)(0x900E0018 := 0x40), writes = []\<rparr>"
  have "list_all (\<lambda>n. bit (rd16 (keypad_data + 2 * of_nat (n div 16)) ?s) (n mod 16) \<longleftrightarrow> n = 70) [0..<256]" by code_simp
  moreover have "unat (keymap_cas ! KEY_A) = 70" by code_simp
  ultimately have "keys_down ?s {KEY_A}" by (simp add: keys_down_def list_all_iff)
  from keypad_correct [OF this] have "list_all (\<lambda>k. isKeyPressed k ?s \<longleftrightarrow> k \<in> {KEY_A}) [0..<70]"
    "getAlphanumericKeyPressed ?s = (case List.find (\<lambda>k. alphanumeric k \<and> k \<in> {KEY_A}) [0..<70] of Some k \<Rightarrow> keycode_ascii ! k | None \<Rightarrow> 0)"
    by blast+
  moreover have "(case List.find (\<lambda>k. alphanumeric k \<and> k \<in> {KEY_A}) [0..<70] of Some k \<Rightarrow> keycode_ascii ! k | None \<Rightarrow> 0) = 97" by code_simp
  ultimately show ?thesis by (simp add: list_all_iff del: upt_conv_Cons upt_rec_numeral)
qed

text \<open>Waiting ends exactly when the condition comes true at some time.\<close>

lemma wait_until_Some: "stop ((env ^^ n) s) \<Longrightarrow> \<exists>k\<le>n. wait_until env stop s = Some ((env ^^ k) s)"
proof (induction n arbitrary: s)
  case 0
  then show ?case by (subst wait_until.simps) auto
next
  case (Suc n)
  show ?case
  proof (cases "stop s")
    case True
    then show ?thesis by (subst wait_until.simps) (auto intro: exI [of _ 0])
  next
    case False
    from Suc.prems have "stop ((env ^^ n) (env s))" by (simp add: funpow_swap1)
    from Suc.IH [OF this] obtain k where "k \<le> n" "wait_until env stop (env s) = Some ((env ^^ k) (env s))" by blast
    with False show ?thesis by (subst wait_until.simps) (auto simp: funpow_swap1 intro!: exI [of _ "Suc k"])
  qed
qed

lemma wait_until_stop: "wait_until env stop s = Some t \<Longrightarrow> stop t \<and> (\<exists>n. t = (env ^^ n) s)"
proof (induction rule: wait_until.raw_induct [rotated, consumes 1, case_names step])
  case (step wait env stop s t)
  show ?case
  proof (cases "stop s")
    case True
    with step(2) have "t = s" by simp
    with True show ?thesis by (auto intro: exI [of _ 0])
  next
    case False
    with step(2) have "wait env stop (env s) = Some t" by simp
    from step(1) [OF this] obtain n where "stop t" "t = (env ^^ n) (env s)" by blast
    then show ?thesis by (auto simp: funpow_swap1 intro!: exI [of _ "Suc n"])
  qed
qed

text \<open>
  \<open>keypad_press_release_barrier\<close> returns exactly when at some time a key is pressed and at some later time none is.
\<close>

theorem keypad_press_release_barrier_returns:
  "(\<exists>t. keypad_press_release_barrier env s = Some t)
    \<longleftrightarrow> (\<exists>n m. any_key_pressed ((env ^^ n) s) \<and> \<not> any_key_pressed ((env ^^ (n + m)) s))" (is "?l \<longleftrightarrow> ?r")
proof
  assume ?l
  then obtain t u where t: "wait_until env any_key_pressed s = Some u" "wait_until env (\<lambda>s. \<not> any_key_pressed s) u = Some t"
    by (auto simp: keypad_press_release_barrier_def bind_eq_Some_conv)
  from wait_until_stop [OF t(1)] obtain n where "any_key_pressed u" "u = (env ^^ n) s" by blast
  moreover from wait_until_stop [OF t(2)] obtain m where "\<not> any_key_pressed t" "t = (env ^^ m) u" by blast
  ultimately have "any_key_pressed ((env ^^ n) s) \<and> \<not> any_key_pressed ((env ^^ (n + m)) s)" by (simp add: add.commute [of n] funpow_add)
  then show ?r by blast
next
  assume ?r
  then obtain n m where nm: "any_key_pressed ((env ^^ n) s)" "\<not> any_key_pressed ((env ^^ (n + m)) s)" by blast
  from wait_until_Some [of any_key_pressed n env s, OF nm(1)] obtain k where k: "k \<le> n" "wait_until env any_key_pressed s = Some ((env ^^ k) s)" by blast
  have "n + m = (n + m - k) + k" using k(1) by simp
  then have "(env ^^ (n + m)) s = (env ^^ (n + m - k)) ((env ^^ k) s)" by (metis comp_apply funpow_add)
  with nm(2) obtain j where "wait_until env (\<lambda>s. \<not> any_key_pressed s) ((env ^^ k) s) = Some ((env ^^ j) ((env ^^ k) s))"
    using wait_until_Some [of "\<lambda>s. \<not> any_key_pressed s" "n + m - k" env "(env ^^ k) s"] by auto
  with k(2) show ?l by (simp add: keypad_press_release_barrier_def)
qed

end
