(* ===== verification/Hooks.thy ===== *)
theory Hooks
  imports Display Keypad Deferred_Actions
begin

text \<open>
  The hooks into the TI OS (os-hooks.c, hook.h) and the table of its versions (osversion.c): the functions that
  modules register, the two places of the TI OS that are patched to call them, and the two functions that are called from there.
  The memory and the registers of the devices are those of the display. The assembly that saves and restores the registers
  around a hook is not modelled.
\<close>

section \<open>State\<close>

record hooks = cpu +
  disp :: lcd
  ut_os_version_index :: u32
  filehook_functions :: "addr list"
  drawhook_functions :: "addr list"
  filefunctions_num :: u32
  drawfunctions_num :: u32
  os_draw_inst :: "u32 list"
  filehook_end_instrs :: "u32 list"
  drawhook_end_instrs :: "u32 list"
  drawhook_enabled :: bool
  lastrun :: u32

abbreviation hmem :: "hooks \<Rightarrow> bytes" where "hmem s \<equiv> lcd_mem (disp s)"

definition set_hmem :: "bytes \<Rightarrow> hooks \<Rightarrow> hooks" where
  "set_hmem m s = s\<lparr>disp := (disp s)\<lparr>lcd_mem := m\<rparr>\<rparr>"

section \<open>The version of the TI OS\<close>

text \<open>The cases of the \<open>switch\<close>: the word at 0x10000020 and the index.\<close>

definition os_versions :: "(u32 \<times> u32) list" where
  "os_versions =
    [(0x102F0FA0, 0), (0x102F16D0, 1), (0x102F0A10, 2), (0x102F11A0, 3), (0x102DBF20, 4),
     (0x102DC6B0, 5), (0x10375BB0, 6), (0x103765F0, 7), (0x10375620, 8), (0x10376090, 9),
     (0x1037CDE0, 10), (0x1037D320, 11), (0x1037C760, 12), (0x1037CCC0, 13), (0x1037D160, 16),
     (0x1037D6C0, 17), (0x10386E70, 18), (0x103873B0, 19), (0x1038C290, 20), (0x1038C7D0, 21),
     (0x1039C7A0, 22), (0x1039CD20, 23), (0x103A3100, 24), (0x103A3690, 25), (0x103A9F50, 26),
     (0x103AA4E0, 27), (0x103B1860, 28), (0x103B1E60, 29), (0x103B27D0, 30), (0x103B2EF0, 31)]"

definition read_osversion :: "hooks \<Rightarrow> hooks result" where
  "read_osversion s =
     (if ut_os_version_index s = - 1 then
        case map_of os_versions (get32 (hmem s) 0x10000020) of
          Some i \<Rightarrow> Ret (s\<lparr>ut_os_version_index := i\<rparr>)
        | None \<Rightarrow> Panic ''unknown os version!''
      else Ret s)"

definition get_osversion :: "hooks \<Rightarrow> (u32 \<times> hooks) result" where
  "get_osversion s =
     map_result (\<lambda>s. (ut_os_version_index s, s)) (if ut_os_version_index s = - 1 then read_osversion s else Ret s)"

text \<open>The length of the array is its own.\<close>

definition os_value :: "u32 list \<Rightarrow> hooks \<Rightarrow> (u32 \<times> hooks) result" where
  "os_value values s =
     map_result (\<lambda>(v, s). (if v \<ge> of_nat (length values) then 0 else values ! unat v, s)) (get_osversion s)"

section \<open>Tables\<close>

definition filehook_addrs :: "u32 list" where
  "filehook_addrs =
    [0, 0, 0, 0, 0, 0, 0, 0, 0, 0, 0, 0, 0, 0, 0, 0, 0, 0, 0, 0, 0, 0, 0, 0, 0, 0, 0, 0, 0x10011178,
     0x10011134, 0, 0]"

definition os_draw_addrs :: "u32 list" where
  "os_draw_addrs =
    [0, 0, 0, 0, 0, 0, 0, 0, 0, 0, 0, 0, 0, 0, 0, 0, 0, 0, 0, 0, 0, 0, 0, 0, 0, 0, 0, 0, 0, 0x100237c8, 0, 0]"

definition os_framebuffer2_addrs :: "u32 list" where
  "os_framebuffer2_addrs =
    [0, 0, 0, 0, 0, 0, 0, 0, 0, 0, 0, 0, 0, 0, 0, 0, 0, 0, 0, 0, 0, 0, 0, 0, 0, 0, 0, 0, 0, 0x13fb5000, 0, 0]"

definition os_framebuffer1_addrs :: "u32 list" where
  "os_framebuffer1_addrs =
    [0, 0, 0, 0, 0, 0, 0, 0, 0, 0, 0, 0, 0, 0, 0, 0, 0, 0, 0, 0, 0, 0, 0, 0, 0, 0, 0, 0, 0, 0x13fda800, 0, 0]"

definition get_os_draw_address :: "hooks \<Rightarrow> (addr \<times> hooks) result" where
  "get_os_draw_address s = os_value os_draw_addrs s"

section \<open>Registered functions\<close>

text \<open>
  The loop over the table: the first entry with the function is taken out, the gap is closed and the last entry cleared.
  \<open>None\<close> means that there is no such entry.
\<close>

definition remove_function :: "addr \<Rightarrow> addr list \<Rightarrow> u32 \<Rightarrow> addr list option" where
  "remove_function function fns num =
     (case List.find (\<lambda>i. fns ! i = function) [0..<unat num] of
        None \<Rightarrow> None
      | Some i \<Rightarrow> Some ((shift_down i (unat (num - 1)) fns)[unat (num - 1) := NULL]))"

definition register_draw_function :: "addr \<Rightarrow> hooks \<Rightarrow> bool \<times> hooks" where
  "register_draw_function function s =
     (if function = NULL then (False, s)
      else if drawfunctions_num s < 99 then
        let state = irq_save_state s;
            s = irq_disable s;
            s = s\<lparr>drawhook_functions := (drawhook_functions s)[unat (drawfunctions_num s) := function]\<rparr>;
            s = s\<lparr>drawfunctions_num := drawfunctions_num s + 1\<rparr>
        in (True, irq_restore_state state s)
      else (False, s))"

definition unregister_draw_function :: "addr \<Rightarrow> hooks \<Rightarrow> bool \<times> hooks" where
  "unregister_draw_function function s =
     (if function = NULL then (False, s)
      else
        let state = irq_save_state s;
            s = irq_disable s
        in case remove_function function (drawhook_functions s) (drawfunctions_num s) of
             None \<Rightarrow> (False, irq_restore_state state s)
           | Some fns \<Rightarrow>
               let s = s\<lparr>drawhook_functions := fns, drawfunctions_num := drawfunctions_num s - 1\<rparr>
               in (True, irq_restore_state state s))"

definition register_file_function :: "addr \<Rightarrow> hooks \<Rightarrow> bool \<times> hooks" where
  "register_file_function function s =
     (if function = NULL then (False, s)
      else if filefunctions_num s < 99 then
        let state = irq_save_state s;
            s = irq_disable s;
            s = s\<lparr>filehook_functions := (filehook_functions s)[unat (filefunctions_num s) := function]\<rparr>;
            s = s\<lparr>filefunctions_num := filefunctions_num s + 1\<rparr>
        in (True, irq_restore_state state s)
      else (False, s))"

definition unregister_file_function :: "addr \<Rightarrow> hooks \<Rightarrow> bool \<times> hooks" where
  "unregister_file_function function s =
     (if function = NULL then (False, s)
      else
        let state = irq_save_state s;
            s = irq_disable s
        in case remove_function function (filehook_functions s) (filefunctions_num s) of
             None \<Rightarrow> (False, irq_restore_state state s)
           | Some fns \<Rightarrow>
               let s = s\<lparr>filehook_functions := fns, filefunctions_num := filefunctions_num s - 1\<rparr>
               in (True, irq_restore_state state s))"

section \<open>The functions called from the TI OS\<close>

text \<open>
  The loop that calls the registered functions. \<open>call\<close> is the effect of a call; the function may register or unregister others, so
  the table and the number are read again in every round.
\<close>

function call_functions :: "(addr \<Rightarrow> hooks \<Rightarrow> hooks) \<Rightarrow> (hooks \<Rightarrow> addr list) \<Rightarrow> (hooks \<Rightarrow> u32) \<Rightarrow> u32 \<Rightarrow> hooks \<Rightarrow> hooks" where
  "call_functions call fns num i s =
     (if i < num s then call_functions call fns num (i + 1) (call (fns s ! unat i) s) else s)"
  by pat_completeness auto
termination
proof (relation "measure (\<lambda>(call, fns, num, i, s). 2 ^ 32 - unat i)")
  fix i and s :: hooks and num :: "hooks \<Rightarrow> u32" and call fns
  assume "i < num s"
  then have "unat i + 1 < 2 ^ 32" using unat_u32_bound [of "num s"] by (simp add: unat_less_u32)
  then show "((call, fns, num, i + 1, call (fns s ! unat i) s), call, fns, num, i, s)
      \<in> measure (\<lambda>(call, fns, num, i, s). 2 ^ 32 - unat i)" by (simp add: unat_add_u32)
qed simp

declare call_functions.simps [simp del]

text \<open>\<open>show_manager\<close> is the effect of waiting for the keys to be released and of the module manager.\<close>

definition file_hookfunc :: "(addr \<Rightarrow> hooks \<Rightarrow> hooks) \<Rightarrow> (hooks \<Rightarrow> hooks) \<Rightarrow> hooks \<Rightarrow> hooks" where
  "file_hookfunc call show_manager s =
     (if rtc_get_value (disp s) - lastrun s = 0 then s
      else
        let s = (if isKeyPressed KEY_CTRL (disp s) \<and> isKeyPressed KEY_COMMA (disp s) then show_manager s else s);
            s = call_functions call filehook_functions filefunctions_num 0 s
        in s\<lparr>lastrun := rtc_get_value (disp s)\<rparr>)"

text \<open>The frame buffer of the TI OS, by the register \<open>saved\<close> of the caller; the code has it twice.\<close>

definition os_framebuffer :: "u32 \<Rightarrow> hooks \<Rightarrow> (addr \<times> hooks) result" where
  "os_framebuffer saved s =
     bind_result (os_value os_framebuffer1_addrs s) (\<lambda>(fb1, s).
       if saved = fb1 then os_value os_framebuffer1_addrs s else os_value os_framebuffer2_addrs s)"

definition draw_hookfunc ::
  "(addr \<Rightarrow> addr) \<Rightarrow> vm \<Rightarrow> (addr \<Rightarrow> addr \<Rightarrow> hooks \<Rightarrow> hooks) \<Rightarrow> u32 \<Rightarrow> hooks \<Rightarrow> hooks result" where
  "draw_hookfunc mmu v call saved s =
     (if \<not> drawhook_enabled s then
        map_result (\<lambda>(old, s). s\<lparr>disp := wr (LCD_UPBASE (disp s)) old (disp s)\<rparr>) (os_framebuffer saved s)
      else
        let s = s\<lparr>disp := wr (LCD_UPBASE (disp s)) (getKernelPhysicalAddress mmu (get_front_framebuffer_address (disp s)) v) (disp s)\<rparr>
        in map_result (\<lambda>(old, s).
             let old = (if old = NULL then get_old_framebuffer_address (disp s) else old);
                 framebuffer = get_front_framebuffer_address (disp s);
                 s = call_functions (\<lambda>f. call f old) drawhook_functions drawfunctions_num 0 s
             in set_hmem (snd (k_memcpy framebuffer old (320 * 240 * 2) (hmem s))) s) (os_framebuffer saved s))"

section \<open>Patching the TI OS\<close>

text \<open>
  \<open>HOOK_INSTALL\<close> and \<open>HOOK_UNINSTALL\<close>: the first two instructions at \<open>address\<close> go to the end of the hook, and a jump to
  \<open>hookname\<close> takes their place. \<open>e\<close> is the array of instructions at the end of the hook.
\<close>

definition HOOK_INSTALL :: "addr \<Rightarrow> addr \<Rightarrow> u32 list \<Rightarrow> bytes \<Rightarrow> u32 list \<times> bytes" where
  "HOOK_INSTALL address hookname e m =
     (let e = e[3 := address + 8];
          e = e[0 := get32 m address];
          m = put32 address 0xE51FF004 m;
          e = e[1 := get32 m (address + 4)];
          m = put32 (address + 4) hookname m;
          e = e[2 := 0xE51FF004]
      in (e, m))"

definition HOOK_UNINSTALL :: "addr \<Rightarrow> u32 list \<Rightarrow> bytes \<Rightarrow> bytes" where
  "HOOK_UNINSTALL address e m = put32 (address + 4) (e ! 1) (put32 address (e ! 0) m)"

text \<open>\<open>filehook\<close> and \<open>drawhook\<close> are the addresses of the two hooks.\<close>

definition install_hooks :: "addr \<Rightarrow> addr \<Rightarrow> hooks \<Rightarrow> hooks result" where
  "install_hooks filehook drawhook s =
     bind_result (os_value filehook_addrs s) (\<lambda>(adr, s).
       let s = (if adr \<noteq> 0 then
                  let (e, m) = HOOK_INSTALL adr filehook (filehook_end_instrs s) (hmem s)
                  in set_hmem m (s\<lparr>filehook_end_instrs := e\<rparr>)
                else s)
       in map_result (\<lambda>(draw, s).
            if draw \<noteq> 0 then
              let m = hmem s;
                  s = s\<lparr>os_draw_inst := [get32 m draw, get32 m (draw + 4), get32 m (draw + 8), get32 m (draw + 12)]\<rparr>;
                  m = put32 draw 0xe1a00000 m;
                  m = put32 (draw + 4) 0xe1a00000 m;
                  m = put32 (draw + 8) 0xe1a00000 m;
                  m = put32 (draw + 12) 0xe1a00000 m;
                  (e, m) = HOOK_INSTALL draw drawhook (drawhook_end_instrs s) m
              in set_hmem m (s\<lparr>drawhook_end_instrs := e, drawhook_enabled := True\<rparr>)
            else s) (get_os_draw_address s))"

definition uninstall_hooks :: "hooks \<Rightarrow> hooks result" where
  "uninstall_hooks s =
     bind_result (os_value filehook_addrs s) (\<lambda>(adr, s).
       let s = (if adr \<noteq> 0 then set_hmem (HOOK_UNINSTALL adr (filehook_end_instrs s) (hmem s)) s else s)
       in map_result (\<lambda>(draw, s).
            if draw \<noteq> 0 then
              let m = HOOK_UNINSTALL draw (drawhook_end_instrs s) (hmem s);
                  m = put32 draw (os_draw_inst s ! 0) m;
                  m = put32 (draw + 4) (os_draw_inst s ! 1) m;
                  m = put32 (draw + 8) (os_draw_inst s ! 2) m;
                  m = put32 (draw + 12) (os_draw_inst s ! 3) m
              in set_hmem m (s\<lparr>drawhook_enabled := False\<rparr>)
            else s) (get_os_draw_address s))"

section \<open>Tables of functions\<close>

text \<open>
  Both tables promise the same: they are lists of at most 99 functions to which one is appended and from which the first
  occurrence of one is removed, and the interrupt masks are left as they were.
\<close>

datatype table_call = Register addr | Unregister addr

fun list_call :: "table_call \<Rightarrow> addr list \<Rightarrow> addr list" where
  "list_call (Register f) xs = (if f \<noteq> NULL \<and> length xs < 99 then xs @ [f] else xs)"
| "list_call (Unregister f) xs = remove1 f xs"

locale function_table =
  fixes register :: "addr \<Rightarrow> 's \<Rightarrow> bool \<times> 's"
    and unregister :: "addr \<Rightarrow> 's \<Rightarrow> bool \<times> 's"
    and entries :: "'s \<Rightarrow> addr list"
    and mask :: "'s \<Rightarrow> u32"
    and ok :: "'s \<Rightarrow> bool"
  assumes register_law: "ok s \<Longrightarrow> ok (snd (register f s)) \<and> mask (snd (register f s)) = mask s
      \<and> fst (register f s) = (f \<noteq> NULL \<and> length (entries s) < 99) \<and> entries (snd (register f s)) = list_call (Register f) (entries s)"
    and unregister_law: "ok s \<Longrightarrow> ok (snd (unregister f s)) \<and> mask (snd (unregister f s)) = mask s
      \<and> fst (unregister f s) = (f \<in> set (entries s)) \<and> entries (snd (unregister f s)) = list_call (Unregister f) (entries s)"
begin

definition run :: "table_call list \<Rightarrow> 's \<Rightarrow> 's" where
  "run = fold (\<lambda>c s. case c of Register f \<Rightarrow> snd (register f s) | Unregister f \<Rightarrow> snd (unregister f s))"

lemma run_refines:
  "ok s \<Longrightarrow> ok (run cs s) \<and> mask (run cs s) = mask s \<and> entries (run cs s) = fold list_call cs (entries s)"
proof (induction cs arbitrary: s)
  case Nil
  then show ?case by (simp add: run_def)
next
  case (Cons c cs)
  show ?case
  proof (cases c)
    case (Register f)
    with register_law [OF Cons.prems, of f] Cons.IH [of "snd (register f s)"] show ?thesis by (simp add: run_def)
  next
    case (Unregister f)
    with unregister_law [OF Cons.prems, of f] Cons.IH [of "snd (unregister f s)"] show ?thesis by (simp add: run_def)
  qed
qed

lemma register_unregister:
  assumes "ok s" and "f \<noteq> NULL" and "length (entries s) < 99" and "f \<notin> set (entries s)"
  shows "entries (snd (unregister f (snd (register f s)))) = entries s"
  using register_law [OF assms(1), of f] unregister_law [of "snd (register f s)" f] assms by (simp add: remove1_append)

end

section \<open>The two tables\<close>

lemma remove_first_eq: "remove_first (\<lambda>x. x = f) xs = remove1 f xs"
  by (induction xs) auto

lemma remove_function_cases:
  assumes "length fns = 100" and "unat num \<le> 99"
  shows "case remove_function f fns num of
      None \<Rightarrow> f \<notin> set (take (unat num) fns)
    | Some fns' \<Rightarrow> f \<in> set (take (unat num) fns) \<and> unat (num - 1) = unat num - 1 \<and> length fns' = 100
        \<and> take (unat num - 1) fns' = remove1 f (take (unat num) fns)"
proof (cases "List.find (\<lambda>i. fns ! i = f) [0..<unat num]")
  case None
  have "f \<notin> set (take (unat num) fns)"
    using None [unfolded find_None_iff_index] assms by (auto simp: in_set_conv_nth)
  then show ?thesis unfolding remove_function_def None by simp
next
  case (Some i)
  from Some [unfolded find_Some_iff_index] have i: "i < unat num" "fns ! i = f" "\<forall>j<i. fns ! j \<noteq> f" by auto
  then have n: "unat (num - 1) = unat num - 1" by (subst unat_sub_u32) (simp_all add: unat_le_u32)
  let ?n = "unat num - 1"
  have "take ?n ((shift_down i ?n fns)[?n := NULL]) = take i fns @ drop (Suc i) (take (unat num) fns)"
    using i assms take_shift_down [of i ?n fns] by simp
  also have "\<dots> = remove1 f (take (unat num) fns)"
  proof -
    have "remove_first (\<lambda>x. x = f) (take (unat num) fns) = take i (take (unat num) fns) @ drop (Suc i) (take (unat num) fns)"
      using i assms by (intro remove_first_split) auto
    then show ?thesis using i by (simp add: remove_first_eq min_def)
  qed
  finally have "take ?n ((shift_down i ?n fns)[?n := NULL]) = remove1 f (take (unat num) fns)" .
  moreover have "f \<in> set (take (unat num) fns)" using i assms by (auto simp: in_set_conv_nth)
  ultimately show ?thesis unfolding remove_function_def Some by (simp add: n assms)
qed

definition registered :: "addr list \<Rightarrow> u32 \<Rightarrow> addr list" where
  "registered fns num = take (unat num) fns"

definition table_ok :: "addr list \<Rightarrow> u32 \<Rightarrow> bool" where
  "table_ok fns num \<longleftrightarrow> length fns = 100 \<and> unat num \<le> 99 \<and> NULL \<notin> set (registered fns num)"

lemma hooks_mask_fields [simp]:
  "filehook_functions (irq_disable s) = filehook_functions s" "drawhook_functions (irq_disable s) = drawhook_functions s"
  "filefunctions_num (irq_disable s) = filefunctions_num s" "drawfunctions_num (irq_disable s) = drawfunctions_num s"
  "filehook_functions (irq_restore_state st s) = filehook_functions s" "drawhook_functions (irq_restore_state st s) = drawhook_functions s"
  "filefunctions_num (irq_restore_state st s) = filefunctions_num s" "drawfunctions_num (irq_restore_state st s) = drawfunctions_num s"
  for s :: hooks
  by (simp_all add: irq_disable_def disableIRQ_def disableFIQ_def irq_restore_state_def enableIRQ_def enableFIQ_def Let_def)

text \<open>What the two operations do to a table, whichever of the two it is.\<close>

lemma table_append:
  assumes "table_ok fns num" and "num < 99" and "f \<noteq> NULL"
  shows "table_ok (fns[unat num := f]) (num + 1) \<and> registered (fns[unat num := f]) (num + 1) = registered fns num @ [f]"
proof -
  have n: "unat num < 99" using assms(2) by (simp add: unat_less_u32)
  then have s: "unat (num + 1) = Suc (unat num)" by (subst unat_add_u32) simp_all
  have "take (Suc (unat num)) (fns[unat num := f]) = take (unat num) fns @ [f]"
    using n assms(1) by (simp add: take_Suc_conv_app_nth table_ok_def)
  then show ?thesis using assms(1,3) n by (simp add: table_ok_def registered_def s)
qed

lemma table_remove:
  assumes "table_ok fns num"
  shows "case remove_function f fns num of
      None \<Rightarrow> f \<notin> set (registered fns num)
    | Some fns' \<Rightarrow> f \<in> set (registered fns num) \<and> table_ok fns' (num - 1) \<and> registered fns' (num - 1) = remove1 f (registered fns num)"
  using remove_function_cases [of fns num f] assms
  by (auto simp: table_ok_def registered_def split: option.splits dest: notin_set_remove1)

lemma length_registered: "table_ok fns num \<Longrightarrow> length (registered fns num) < 99 \<longleftrightarrow> num < 99"
  by (simp add: table_ok_def registered_def unat_less_u32)

lemma remove1_absent: "x \<notin> set xs \<Longrightarrow> remove1 x xs = xs"
  by (rule remove1_idem)

interpretation draw_table: function_table register_draw_function unregister_draw_function
    "\<lambda>s. registered (drawhook_functions s) (drawfunctions_num s)" cpsr "\<lambda>s. table_ok (drawhook_functions s) (drawfunctions_num s)"
proof (unfold_locales, goal_cases)
  case (1 s f)
  with table_append [of "drawhook_functions s" "drawfunctions_num s" f] length_registered [OF 1]
  show ?case by (auto simp: register_draw_function_def Let_def irq_bracket)
next
  case (2 s f)
  have "f = NULL \<Longrightarrow> f \<notin> set (registered (drawhook_functions s) (drawfunctions_num s))" using 2 by (simp add: table_ok_def)
  with table_remove [OF 2, of f] 2 show ?case
    by (auto simp: unregister_draw_function_def Let_def irq_bracket remove1_absent split: option.splits)
qed

interpretation file_table: function_table register_file_function unregister_file_function
    "\<lambda>s. registered (filehook_functions s) (filefunctions_num s)" cpsr "\<lambda>s. table_ok (filehook_functions s) (filefunctions_num s)"
proof (unfold_locales, goal_cases)
  case (1 s f)
  with table_append [of "filehook_functions s" "filefunctions_num s" f] length_registered [OF 1]
  show ?case by (auto simp: register_file_function_def Let_def irq_bracket)
next
  case (2 s f)
  have "f = NULL \<Longrightarrow> f \<notin> set (registered (filehook_functions s) (filefunctions_num s))" using 2 by (simp add: table_ok_def)
  with table_remove [OF 2, of f] 2 show ?case
    by (auto simp: unregister_file_function_def Let_def irq_bracket remove1_absent split: option.splits)
qed

text \<open>
  C20. Any sequence of calls that register and unregister draw functions refines the same sequence on a list: append to it below
  99 functions, remove the first occurrence; the table stays well formed and the interrupt masks are as before.
\<close>

theorem draw_functions_refine:
  assumes "table_ok (drawhook_functions s) (drawfunctions_num s)"
    and "s' = fold (\<lambda>c s. case c of Register f \<Rightarrow> snd (register_draw_function f s) | Unregister f \<Rightarrow> snd (unregister_draw_function f s)) cs s"
  shows "table_ok (drawhook_functions s') (drawfunctions_num s') \<and> cpsr s' = cpsr s
    \<and> registered (drawhook_functions s') (drawfunctions_num s') = fold list_call cs (registered (drawhook_functions s) (drawfunctions_num s))"
  using draw_table.run_refines [OF assms(1), of cs] unfolding assms(2) draw_table.run_def by simp

text \<open>
  When the functions called do not change the table, each registered one is called once, in the order of registration.
\<close>

lemma call_functions_all:
  assumes "\<And>f s. fns (call f s) = fns s" and "\<And>f s. num (call f s) = num s" and "unat (num s) \<le> length (fns s)"
  shows "call_functions call fns num 0 s = fold call (registered (fns s) (num s)) s"
proof -
  have "call_functions call fns num i t = fold call (drop (unat i) (take (unat (num t)) (fns t))) t"
    if "n = unat (num t) - unat i" "unat (num t) \<le> length (fns t)" for n i t
    using that
  proof (induction n arbitrary: i t)
    case 0
    then show ?case by (simp add: call_functions.simps unat_less_u32)
  next
    case (Suc n)
    then have i: "unat i < unat (num t)" by simp
    then have s: "unat (i + 1) = Suc (unat i)" using unat_u32_bound [of "num t"] by (subst unat_add_u32) simp_all
    let ?t = "call (fns t ! unat i) t"
    have "drop (unat i) (take (unat (num t)) (fns t)) = fns t ! unat i # drop (Suc (unat i)) (take (unat (num t)) (fns t))"
      using i Suc.prems(2) by (simp add: Cons_nth_drop_Suc [symmetric])
    moreover have "call_functions call fns num (i + 1) ?t = fold call (drop (unat (i + 1)) (take (unat (num ?t)) (fns ?t))) ?t"
      using Suc.prems by (intro Suc.IH) (simp_all add: s assms(1,2))
    ultimately show ?case using i by (subst call_functions.simps) (simp add: s assms(1,2) unat_less_u32)
  qed
  from this [OF refl assms(3), of 0] show ?thesis by (simp add: registered_def)
qed

section \<open>The version of the TI OS\<close>

definition version_known :: "hooks \<Rightarrow> bool" where
  "version_known s \<longleftrightarrow> ut_os_version_index s \<noteq> - 1 \<or> map_of os_versions (get32 (hmem s) 0x10000020) \<noteq> None"

definition the_version :: "hooks \<Rightarrow> u32" where
  "the_version s = (if ut_os_version_index s \<noteq> - 1 then ut_os_version_index s else the (map_of os_versions (get32 (hmem s) 0x10000020)))"

definition version_value :: "u32 list \<Rightarrow> u32 \<Rightarrow> u32" where
  "version_value values v = (if v \<ge> of_nat (length values) then 0 else values ! unat v)"

text \<open>The indices are those of the tables, so none is the value that stands for an unknown version.\<close>

lemma os_versions_bound: "list_all (\<lambda>(w, i). i < 32) os_versions"
  by code_simp

lemma the_version_known: "version_known s \<Longrightarrow> the_version s \<noteq> - 1"
proof -
  assume k: "version_known s"
  show ?thesis
  proof (cases "ut_os_version_index s = - 1")
    case True
    with k obtain i where i: "map_of os_versions (get32 (hmem s) 0x10000020) = Some i" by (auto simp: version_known_def)
    then have "i < 32" using os_versions_bound by (auto simp: list_all_iff dest: map_of_SomeD)
    moreover have "the_version s = i" using True i by (simp add: the_version_def)
    ultimately show ?thesis by auto
  next
    case False
    then show ?thesis by (simp add: the_version_def)
  qed
qed

lemma os_value_known: "version_known s \<Longrightarrow> os_value values s = Ret (version_value values (the_version s), s\<lparr>ut_os_version_index := the_version s\<rparr>)"
  by (auto simp: os_value_def get_osversion_def read_osversion_def version_known_def the_version_def version_value_def split: option.splits)

lemma os_value_unknown: "\<not> version_known s \<Longrightarrow> os_value values s = Panic ''unknown os version!''"
  by (simp add: os_value_def get_osversion_def read_osversion_def version_known_def)

lemma version_value_in: "version_value values v \<in> insert 0 (set values)" if "length values < 4294967296"
  using that by (auto simp: version_value_def not_le unat_less_u32 unat_of_nat_u32)

lemma hook_addresses:
  "version_value filehook_addrs v \<in> {0, 0x10011178, 0x10011134}" "version_value os_draw_addrs v \<in> {0, 0x100237c8}"
proof -
  have "set filehook_addrs \<subseteq> {0, 0x10011178, 0x10011134}" "set os_draw_addrs \<subseteq> {0, 0x100237c8}"
    "length filehook_addrs < 4294967296" "length os_draw_addrs < 4294967296"
    by (simp_all add: filehook_addrs_def os_draw_addrs_def)
  then show "version_value filehook_addrs v \<in> {0, 0x10011178, 0x10011134}" "version_value os_draw_addrs v \<in> {0, 0x100237c8}"
    using version_value_in by blast+
qed

section \<open>Memory that is changed and restored\<close>

definition word_at :: "addr \<Rightarrow> addr set" where
  "word_at p = {p, p + 1, p + 2, p + 3}"

text \<open>\<open>changed m m' S\<close>: the two memories differ in \<open>S\<close> at most.\<close>

definition changed :: "bytes \<Rightarrow> bytes \<Rightarrow> addr set \<Rightarrow> bool" where
  "changed m m' S \<longleftrightarrow> (\<forall>a. a \<notin> S \<longrightarrow> m' a = m a)"

lemma changed_refl: "changed m m {}"
  by (simp add: changed_def)

lemma changed_put: "changed m m' S \<Longrightarrow> changed m (put32 p v m') (S \<union> word_at p)"
  by (simp add: changed_def word_at_def put32_def)

lemma changed_restore: "changed m m' S \<Longrightarrow> changed m (put32 p (get32 m p) m') (S - word_at p)"
proof -
  assume c: "changed m m' S"
  have "put32 p (get32 m p) m' a = m a" if "a \<notin> S \<or> a \<in> word_at p" for a
  proof (cases "a \<in> word_at p")
    case True
    then have "put32 p (get32 m p) m' a = put32 p (get32 m p) m a" by (auto simp: word_at_def put32_def)
    then show ?thesis by (simp add: put32_get32)
  next
    case False
    with that c show ?thesis by (simp add: changed_def word_at_def put32_def)
  qed
  then show ?thesis by (auto simp: changed_def)
qed

lemma changed_get: "changed m m' S \<Longrightarrow> word_at p \<inter> S = {} \<Longrightarrow> get32 m' p = get32 m p"
  by (auto simp: changed_def word_at_def get32_def)

lemma changed_none: "changed m m' {} \<Longrightarrow> m' = m"
  by (auto simp: changed_def)

lemma word_at_disjoint: "word_at p \<inter> word_at q = {} \<longleftrightarrow> p - q \<notin> {0, 1, 2, 3, - 1, - 2, - 3}"
  unfolding word_at_def by (auto simp: algebra_simps)

section \<open>Installing and removing the hooks\<close>

lemma HOOK_INSTALL_eq:
  assumes "length e = 4"
  shows "HOOK_INSTALL address hookname e m =
    ([get32 m address, get32 m (address + 4), 0xE51FF004, address + 8], put32 (address + 4) hookname (put32 address 0xE51FF004 m))"
proof -
  from assms obtain a b c d where e: "e = [a, b, c, d]" by (auto simp: length_Suc_conv eval_nat_numeral)
  have "get32 (put32 address 0xE51FF004 m) (address + 4) = get32 m (address + 4)"
    by (rule changed_get [OF changed_put [OF changed_refl]]) (simp add: word_at_def)
  then show ?thesis by (simp add: HOOK_INSTALL_def e Let_def eval_nat_numeral)
qed

text \<open>What installing the hook in the file functions and removing it do to the memory.\<close>

definition file_installed :: "addr \<Rightarrow> addr \<Rightarrow> bytes \<Rightarrow> bytes" where
  "file_installed adr hook m = (if adr \<noteq> 0 then put32 (adr + 4) hook (put32 adr 0xE51FF004 m) else m)"

definition file_words :: "addr \<Rightarrow> addr set" where
  "file_words adr = (if adr \<noteq> 0 then word_at adr \<union> word_at (adr + 4) else {})"

lemma file_installed_changed: "changed m (file_installed adr hook m) (file_words adr)"
  using changed_put [OF changed_put [OF changed_refl]] by (auto simp: file_installed_def file_words_def changed_refl)

definition draw_installed :: "addr \<Rightarrow> addr \<Rightarrow> bytes \<Rightarrow> bytes" where
  "draw_installed draw hook m =
     (if draw \<noteq> 0 then
        put32 (draw + 4) hook (put32 draw 0xE51FF004
          (put32 (draw + 12) 0xe1a00000 (put32 (draw + 8) 0xe1a00000 (put32 (draw + 4) 0xe1a00000 (put32 draw 0xe1a00000 m)))))
      else m)"

definition draw_words :: "addr \<Rightarrow> addr set" where
  "draw_words draw = (if draw \<noteq> 0 then word_at draw \<union> word_at (draw + 4) \<union> word_at (draw + 8) \<union> word_at (draw + 12) else {})"

lemma draw_installed_changed: "changed m m' S \<Longrightarrow> changed m (draw_installed draw hook m') (S \<union> draw_words draw)"
  by (simp add: changed_def draw_installed_def draw_words_def word_at_def put32_def)

lemma words_apart:
  assumes "adr \<in> {0, 0x10011178, 0x10011134}" and "draw \<in> {0, 0x100237c8}"
  shows "draw_words draw \<inter> file_words adr = {}"
  using assms by (auto simp: draw_words_def file_words_def word_at_def)

text \<open>The state after the hooks were installed.\<close>

lemma install_hooks_eq:
  assumes "version_known s" and "length (filehook_end_instrs s) = 4" and "length (drawhook_end_instrs s) = 4"
  defines "adr \<equiv> version_value filehook_addrs (the_version s)" and "draw \<equiv> version_value os_draw_addrs (the_version s)"
  obtains s1 where "install_hooks fh dh s = Ret s1" and "ut_os_version_index s1 = the_version s"
    and "hmem s1 = draw_installed draw dh (file_installed adr fh (hmem s))"
    and "filehook_end_instrs s1 = (if adr \<noteq> 0 then [get32 (hmem s) adr, get32 (hmem s) (adr + 4), 0xE51FF004, adr + 8] else filehook_end_instrs s)"
    and "drawhook_end_instrs s1 = (if draw \<noteq> 0 then [0xe1a00000, 0xe1a00000, 0xE51FF004, draw + 8] else drawhook_end_instrs s)"
    and "os_draw_inst s1 = (if draw \<noteq> 0 then map (get32 (hmem s)) [draw, draw + 4, draw + 8, draw + 12] else os_draw_inst s)"
    and "drawhook_enabled s1 = (if draw \<noteq> 0 then True else drawhook_enabled s)"
proof -
  let ?s = "s\<lparr>ut_os_version_index := the_version s\<rparr>"
  define s0 where "s0 = (if adr \<noteq> 0 then set_hmem (file_installed adr fh (hmem s)) (?s\<lparr>filehook_end_instrs :=
      [get32 (hmem s) adr, get32 (hmem s) (adr + 4), 0xE51FF004, adr + 8]\<rparr>) else ?s)"
  have h0: "hmem s0 = file_installed adr fh (hmem s)" "ut_os_version_index s0 = the_version s"
    "drawhook_end_instrs s0 = drawhook_end_instrs s" "os_draw_inst s0 = os_draw_inst s" "drawhook_enabled s0 = drawhook_enabled s"
    "filehook_end_instrs s0 = (if adr \<noteq> 0 then [get32 (hmem s) adr, get32 (hmem s) (adr + 4), 0xE51FF004, adr + 8] else filehook_end_instrs s)"
    by (simp_all add: s0_def set_hmem_def file_installed_def)
  have k: "version_known s0" "the_version s0 = the_version s"
    using the_version_known [OF assms(1)] h0(2) by (simp_all add: version_known_def the_version_def [of s0])
  have v: "s0\<lparr>ut_os_version_index := the_version s\<rparr> = s0" using h0(2) by (metis hooks.surjective hooks.update_convs(2) hooks.ext_inject)
  have nop: "get32 (put32 (draw + 12) 0xe1a00000 (put32 (draw + 8) 0xe1a00000 (put32 (draw + 4) 0xe1a00000 (put32 draw 0xe1a00000 m)))) draw = 0xe1a00000"
    "get32 (put32 (draw + 12) 0xe1a00000 (put32 (draw + 8) 0xe1a00000 (put32 (draw + 4) 0xe1a00000 (put32 draw 0xe1a00000 m)))) (draw + 4) = 0xe1a00000" for m
    by (simp_all add: get32_def put32_def)
  have f: "get32 (hmem s0) p = get32 (hmem s) p" if "draw \<noteq> 0" "p \<in> {draw, draw + 4, draw + 8, draw + 12}" for p
  proof (rule changed_get)
    show "changed (hmem s) (hmem s0) (file_words adr)" unfolding h0(1) by (rule file_installed_changed)
    have "word_at p \<subseteq> draw_words draw" using that by (auto simp: draw_words_def)
    then show "word_at p \<inter> file_words adr = {}"
      using words_apart [OF hook_addresses [of "the_version s"]] by (auto simp: adr_def draw_def)
  qed
  have "install_hooks fh dh s = map_result (\<lambda>(draw, s).
            if draw \<noteq> 0 then
              let m = hmem s;
                  s = s\<lparr>os_draw_inst := [get32 m draw, get32 m (draw + 4), get32 m (draw + 8), get32 m (draw + 12)]\<rparr>;
                  m = put32 draw 0xe1a00000 m;
                  m = put32 (draw + 4) 0xe1a00000 m;
                  m = put32 (draw + 8) 0xe1a00000 m;
                  m = put32 (draw + 12) 0xe1a00000 m;
                  (e, m) = HOOK_INSTALL draw dh (drawhook_end_instrs s) m
              in set_hmem m (s\<lparr>drawhook_end_instrs := e, drawhook_enabled := True\<rparr>)
            else s) (os_value os_draw_addrs s0)"
    using assms(1,2) by (simp add: install_hooks_def os_value_known get_os_draw_address_def HOOK_INSTALL_eq s0_def adr_def file_installed_def Let_def)
  also have "os_value os_draw_addrs s0 = Ret (draw, s0)"
    using os_value_known [OF k(1), of os_draw_addrs] by (simp add: k(2) v draw_def)
  finally have i: "install_hooks fh dh s = Ret (if draw \<noteq> 0 then
        set_hmem (draw_installed draw dh (hmem s0)) (s0\<lparr>os_draw_inst := map (get32 (hmem s0)) [draw, draw + 4, draw + 8, draw + 12],
          drawhook_end_instrs := [0xe1a00000, 0xe1a00000, 0xE51FF004, draw + 8], drawhook_enabled := True\<rparr>) else s0)"
    using assms(3) h0(3) by (simp add: HOOK_INSTALL_eq nop draw_installed_def Let_def)
  show thesis
    by (rule that [OF i]) (use f h0 in \<open>auto simp: set_hmem_def draw_installed_def\<close>)
qed

text \<open>
  C9. Installing the hooks puts a jump to the hook in place of two instructions of the TI OS at each of the two places. The end of
  the file hook is the two instructions, followed by a jump behind them; the end of the draw hook is two instructions without effect
  and such a jump, the four instructions from its place on are kept aside. Removing the hooks restores every byte of the memory.
\<close>

theorem hooks_roundtrip:
  assumes "version_known s" and "length (filehook_end_instrs s) = 4" and "length (drawhook_end_instrs s) = 4"
  shows "\<exists>s1 s2. install_hooks fh dh s = Ret s1 \<and> uninstall_hooks s1 = Ret s2 \<and> hmem s2 = hmem s
    \<and> (let adr = version_value filehook_addrs (the_version s) in adr \<noteq> 0 \<longrightarrow>
         get32 (hmem s1) adr = 0xE51FF004 \<and> get32 (hmem s1) (adr + 4) = fh
         \<and> filehook_end_instrs s1 = [get32 (hmem s) adr, get32 (hmem s) (adr + 4), 0xE51FF004, adr + 8])
    \<and> (let draw = version_value os_draw_addrs (the_version s) in draw \<noteq> 0 \<longrightarrow>
         get32 (hmem s1) draw = 0xE51FF004 \<and> get32 (hmem s1) (draw + 4) = dh \<and> drawhook_enabled s1 \<and> \<not> drawhook_enabled s2
         \<and> drawhook_end_instrs s1 = [0xe1a00000, 0xe1a00000, 0xE51FF004, draw + 8]
         \<and> os_draw_inst s1 = map (get32 (hmem s)) [draw, draw + 4, draw + 8, draw + 12])"
proof -
  define adr draw where "adr = version_value filehook_addrs (the_version s)" and "draw = version_value os_draw_addrs (the_version s)"
  obtain s1 where s1: "install_hooks fh dh s = Ret s1" "ut_os_version_index s1 = the_version s"
    "hmem s1 = draw_installed draw dh (file_installed adr fh (hmem s))"
    "filehook_end_instrs s1 = (if adr \<noteq> 0 then [get32 (hmem s) adr, get32 (hmem s) (adr + 4), 0xE51FF004, adr + 8] else filehook_end_instrs s)"
    "drawhook_end_instrs s1 = (if draw \<noteq> 0 then [0xe1a00000, 0xe1a00000, 0xE51FF004, draw + 8] else drawhook_end_instrs s)"
    "os_draw_inst s1 = (if draw \<noteq> 0 then map (get32 (hmem s)) [draw, draw + 4, draw + 8, draw + 12] else os_draw_inst s)"
    "drawhook_enabled s1 = (if draw \<noteq> 0 then True else drawhook_enabled s)"
    by (rule install_hooks_eq [OF assms, folded adr_def draw_def]) blast
  have k: "version_known t" "the_version t = the_version s" if "ut_os_version_index t = the_version s" for t
    using the_version_known [OF assms(1)] that by (simp_all add: version_known_def the_version_def [of t])
  have v: "os_value vs t = Ret (version_value vs (the_version s), t)" if "ut_os_version_index t = the_version s" for vs t
  proof -
    have "t\<lparr>ut_os_version_index := the_version s\<rparr> = t" using that by (metis hooks.surjective hooks.update_convs(2) hooks.ext_inject)
    then show ?thesis using os_value_known [OF k(1) [OF that], of vs] by (simp add: k(2) [OF that])
  qed
  define m2 where "m2 = (if adr \<noteq> 0 then put32 (adr + 4) (get32 (hmem s) (adr + 4)) (put32 adr (get32 (hmem s) adr) (hmem s1)) else hmem s1)"
  define m3 where "m3 = (if draw \<noteq> 0 then put32 (draw + 12) (get32 (hmem s) (draw + 12)) (put32 (draw + 8) (get32 (hmem s) (draw + 8))
      (put32 (draw + 4) (get32 (hmem s) (draw + 4)) (put32 draw (get32 (hmem s) draw)
        (put32 (draw + 4) 0xe1a00000 (put32 draw 0xe1a00000 m2))))) else m2)"
  define s2 where "s2 = (if draw \<noteq> 0 then set_hmem m3 (s1\<lparr>drawhook_enabled := False\<rparr>) else if adr \<noteq> 0 then set_hmem m2 s1 else s1)"
  have u: "uninstall_hooks s1 = Ret s2"
    by (simp add: uninstall_hooks_def get_os_draw_address_def v s1(2) set_hmem_def s2_def m2_def m3_def HOOK_UNINSTALL_def s1(4-6)
        flip: adr_def draw_def)
  have h2: "hmem s2 = m3" by (simp add: s2_def set_hmem_def m3_def m2_def)
  have "changed (hmem s) (hmem s1) (file_words adr \<union> draw_words draw)"
    unfolding s1(3) by (rule draw_installed_changed) (rule file_installed_changed)
  then have "changed (hmem s) m2 (draw_words draw)"
    using changed_restore [OF changed_restore, of "hmem s" "hmem s1" "file_words adr \<union> draw_words draw" "adr + 4" adr]
    by (auto simp: m2_def file_words_def changed_def)
  then have "changed (hmem s) m3 {}"
  proof (cases "draw = 0")
    case False
    note changed_restore [OF changed_restore [OF changed_restore [OF changed_restore [OF changed_put [OF changed_put
      [OF \<open>changed (hmem s) m2 (draw_words draw)\<close>, of draw "0xe1a00000"], of "draw + 4" "0xe1a00000"], of draw], of "draw + 4"], of "draw + 8"], of "draw + 12"]
    with False show ?thesis by (auto simp: m3_def draw_words_def changed_def)
  qed (simp add: m3_def draw_words_def)
  then have "hmem s2 = hmem s" unfolding h2 by (rule changed_none)
  moreover have "get32 (hmem s1) adr = 0xE51FF004" "get32 (hmem s1) (adr + 4) = fh" if "adr \<noteq> 0"
  proof -
    have c: "changed (file_installed adr fh (hmem s)) (hmem s1) ({} \<union> draw_words draw)"
      unfolding s1(3) by (rule draw_installed_changed) (rule changed_refl)
    have d: "draw_words draw \<inter> file_words adr = {}" unfolding adr_def draw_def by (rule words_apart [OF hook_addresses])
    have "get32 (hmem s1) adr = get32 (file_installed adr fh (hmem s)) adr" "get32 (hmem s1) (adr + 4) = get32 (file_installed adr fh (hmem s)) (adr + 4)"
      by (rule changed_get [OF c]; use d that in \<open>auto simp: file_words_def\<close>)+
    moreover have "get32 (put32 (adr + 4) fh (put32 adr 0xE51FF004 m)) adr = 0xE51FF004" for m by (simp add: get32_def put32_def)
    ultimately show "get32 (hmem s1) adr = 0xE51FF004" "get32 (hmem s1) (adr + 4) = fh" using that by (simp_all add: file_installed_def)
  qed
  moreover have "get32 (hmem s1) draw = 0xE51FF004" "get32 (hmem s1) (draw + 4) = dh" if "draw \<noteq> 0"
  proof -
    have "get32 (put32 (draw + 4) dh (put32 draw 0xE51FF004 m)) draw = 0xE51FF004" for m by (simp add: get32_def put32_def)
    then show "get32 (hmem s1) draw = 0xE51FF004" "get32 (hmem s1) (draw + 4) = dh" using that by (simp_all add: s1(3) draw_installed_def)
  qed
  moreover have "draw \<noteq> 0 \<Longrightarrow> \<not> drawhook_enabled s2" by (simp add: s2_def set_hmem_def)
  ultimately show ?thesis using s1(1,4-7) u by (auto simp: Let_def simp flip: adr_def draw_def)
qed

section \<open>Running the functions\<close>

text \<open>
  The file hook calls each registered function once, in the order of registration, when the functions do not change the table,
  and not a second time within the same second of the real time clock.
\<close>

theorem file_hookfunc_once:
  assumes "\<And>f s. filehook_functions (call f s) = filehook_functions s" and "\<And>f s. filefunctions_num (call f s) = filefunctions_num s"
    and "table_ok (filehook_functions s) (filefunctions_num s)" and "rtc_get_value (disp s) \<noteq> lastrun s"
    and "\<not> (isKeyPressed KEY_CTRL (disp s) \<and> isKeyPressed KEY_COMMA (disp s))"
  shows "let s1 = fold call (registered (filehook_functions s) (filefunctions_num s)) s;
             s2 = file_hookfunc call manager s
         in s2 = s1\<lparr>lastrun := rtc_get_value (disp s1)\<rparr> \<and> file_hookfunc call manager s2 = s2"
proof -
  have "unat (filefunctions_num s) \<le> length (filehook_functions s)" using assms(3) by (simp add: table_ok_def)
  from call_functions_all [of filehook_functions call filefunctions_num, OF assms(1,2) this]
  have "file_hookfunc call manager s = (let s1 = fold call (registered (filehook_functions s) (filefunctions_num s)) s in
      s1\<lparr>lastrun := rtc_get_value (disp s1)\<rparr>)"
    using assms(4,5) by (auto simp: file_hookfunc_def Let_def)
  then show ?thesis by (simp add: Let_def file_hookfunc_def)
qed

text \<open>The loop goes on with the next index: a function that unregisters itself makes it skip the function after it.\<close>

lemma unregister_skips:
  assumes "table_ok (drawhook_functions s) (drawfunctions_num s)" and "registered (drawhook_functions s) (drawfunctions_num s) = [f, g]"
    and "f \<noteq> g"
  shows "call_functions (\<lambda>h s. snd (unregister_draw_function h s)) drawhook_functions drawfunctions_num 0 s = snd (unregister_draw_function f s)"
proof -
  let ?s = "snd (unregister_draw_function f s)"
  have l: "table_ok fns num \<Longrightarrow> length (registered fns num) = unat num" for fns num
    by (simp add: table_ok_def registered_def)
  have n: "unat (drawfunctions_num s) = 2" using l [OF assms(1)] assms(2) by simp
  then have "drawhook_functions s ! 0 = f"
    using assms(2) nth_take [of 0 "unat (drawfunctions_num s)" "drawhook_functions s"] by (simp add: registered_def)
  note n = n this
  have "registered (drawhook_functions ?s) (drawfunctions_num ?s) = [g]" "table_ok (drawhook_functions ?s) (drawfunctions_num ?s)"
    using draw_table.unregister_law [OF assms(1), of f] assms(2,3) by simp_all
  then have m: "unat (drawfunctions_num ?s) = 1"
    using l [of "drawhook_functions ?s" "drawfunctions_num ?s"] by simp
  have "call_functions (\<lambda>h s. snd (unregister_draw_function h s)) drawhook_functions drawfunctions_num 0 s
      = call_functions (\<lambda>h s. snd (unregister_draw_function h s)) drawhook_functions drawfunctions_num (0 + 1) ?s"
    using n by (subst call_functions.simps) (simp add: unat_less_u32)
  also have "\<dots> = ?s" using m by (subst call_functions.simps) (simp add: unat_less_u32)
  finally show ?thesis .
qed

text \<open>
  After the draw hook the visible buffer is the frame buffer of the TI OS as the draw functions left it.
\<close>

lemma draw_hookfunc_shows:
  assumes "version_known s" and "drawhook_enabled s" and "x < 320" and "y < 240"
  defines "fb1 \<equiv> version_value os_framebuffer1_addrs (the_version s)" and "fb2 \<equiv> version_value os_framebuffer2_addrs (the_version s)"
  assumes "old = (let fb = if saved = fb1 then fb1 else fb2 in if fb = NULL then old_framebuffer (disp s) else fb)"
    and "apart (framebuffer1 (disp s)) old"
  shows "\<exists>s0 s'. draw_hookfunc mmu v call saved s = Ret s' \<and> hmem s0 = hmem s
    \<and> (let s1 = call_functions (\<lambda>f. call f old) drawhook_functions drawfunctions_num 0 s0
       in screen hw_w (framebuffer1 (disp s)) (hmem s') x y = screen hw_w old (hmem s1) x y)"
proof -
  define s0 where "s0 = s\<lparr>disp := wr (LCD_UPBASE (disp s)) (getKernelPhysicalAddress mmu (framebuffer1 (disp s)) v) (disp s),
    ut_os_version_index := the_version s\<rparr>"
  let ?s = "s\<lparr>disp := wr (LCD_UPBASE (disp s)) (getKernelPhysicalAddress mmu (framebuffer1 (disp s)) v) (disp s)\<rparr>"
  have k: "version_known ?s" "the_version ?s = the_version s" "version_known s0" "the_version s0 = the_version s"
    using assms(1) the_version_known [OF assms(1)] by (simp_all add: s0_def version_known_def the_version_def wr_def)
  have "?s\<lparr>ut_os_version_index := the_version s\<rparr> = s0" "s0\<lparr>ut_os_version_index := the_version s\<rparr> = s0" by (simp_all add: s0_def)
  then have o: "os_framebuffer saved ?s = Ret (if saved = fb1 then fb1 else fb2, s0)"
    using os_value_known [OF k(1)] os_value_known [OF k(3)] by (simp add: os_framebuffer_def k fb1_def fb2_def)
  let ?s1 = "call_functions (\<lambda>f. call f old) drawhook_functions drawfunctions_num 0 s0"
  have d: "framebuffer1 (disp s0) = framebuffer1 (disp s)" "old_framebuffer (disp s0) = old_framebuffer (disp s)" "hmem s0 = hmem s"
    by (simp_all add: s0_def wr_def)
  have "draw_hookfunc mmu v call saved s = Ret (set_hmem (snd (k_memcpy (framebuffer1 (disp s)) old 153600 (hmem ?s1))) ?s1)"
    using assms(2) o by (simp add: draw_hookfunc_def get_front_framebuffer_address_def get_old_framebuffer_address_def Let_def d assms(7))
  moreover have "screen hw_w (framebuffer1 (disp s)) (snd (k_memcpy (framebuffer1 (disp s)) old 153600 m)) x y = screen hw_w old m x y" for m
  proof (rule screen_cong [OF _ assms(3,4)])
    fix k :: nat assume k: "k < 153600"
    have "old + of_nat i \<noteq> framebuffer1 (disp s) + of_nat j" if "i < 153600" "j < i" for i j
      using that by (intro outside_neq apart_outside [OF assms(8)]) simp_all
    with k have "memcpy_loop 153600 (framebuffer1 (disp s)) old m (framebuffer1 (disp s) + of_nat k) = m (old + of_nat k)"
      by (intro memcpy_loop_at) auto
    then show "snd (k_memcpy (framebuffer1 (disp s)) old 153600 m) (framebuffer1 (disp s) + of_nat k) = m (old + of_nat k)"
      by (simp add: k_memcpy_def)
  qed
  ultimately show ?thesis using d(3) by (auto simp: set_hmem_def Let_def)
qed

section \<open>Examples\<close>

text \<open>The hooks before they are installed on version 4.5.0 CAS of the TI OS.\<close>

definition hooks_example :: hooks where
  "hooks_example = \<lparr>cpsr = 0x13, disp = lcd_example\<lparr>lcd_mem := put32 0x10000020 0x103B1E60 (\<lambda>_. 7)\<rparr>, ut_os_version_index = - 1,
     filehook_functions = replicate 100 0, drawhook_functions = replicate 100 0, filefunctions_num = 0, drawfunctions_num = 0,
     os_draw_inst = [0, 0, 0, 0], filehook_end_instrs = [0, 0, 0, 0], drawhook_end_instrs = [0, 0, 0, 0], drawhook_enabled = False, lastrun = 0\<rparr>"

lemma hooks_example_version: "version_known hooks_example" "the_version hooks_example = 29"
proof -
  have "map_of os_versions 0x103B1E60 = Some 29" by code_simp
  then show "version_known hooks_example" "the_version hooks_example = 29"
    by (simp_all add: version_known_def the_version_def hooks_example_def)
qed

lemma hooks_roundtrip_witness:
  "\<exists>s1 s2. install_hooks 0x8000 0x9000 hooks_example = Ret s1 \<and> get32 (hmem s1) 0x10011134 = 0xE51FF004 \<and> get32 (hmem s1) 0x10011138 = 0x8000
    \<and> uninstall_hooks s1 = Ret s2 \<and> hmem s2 = hmem hooks_example"
proof -
  have "length (filehook_end_instrs hooks_example) = 4" "length (drawhook_end_instrs hooks_example) = 4" by (simp_all add: hooks_example_def)
  moreover have "version_value filehook_addrs 29 = 0x10011134" by code_simp
  ultimately show ?thesis using hooks_roundtrip [OF hooks_example_version(1), of "0x8000" "0x9000"] by (auto simp: hooks_example_version(2))
qed

lemma hook_table_example: "table_ok (replicate 100 0) 0"
  by (simp add: table_ok_def registered_def)

lemma draw_functions_refine_witness:
  "\<exists>s'. registered (drawhook_functions s') (drawfunctions_num s') = [0x200] \<and> cpsr s' = 0x13
    \<and> s' = fold (\<lambda>c s. case c of Register f \<Rightarrow> snd (register_draw_function f s) | Unregister f \<Rightarrow> snd (unregister_draw_function f s))
        [Register 0x100, Register 0x200, Unregister 0x100] hooks_example"
  using draw_functions_refine [of hooks_example _ "[Register 0x100, Register 0x200, Unregister 0x100]", OF _ refl] hook_table_example
  by (auto simp: hooks_example_def registered_def)

lemma file_hookfunc_once_witness:
  "let s = hooks_example\<lparr>disp := (disp hooks_example)\<lparr>regs := (\<lambda>_. 0)(0xe9090000 := 5)\<rparr>\<rparr>
   in lastrun (file_hookfunc (\<lambda>_ s. s) (\<lambda>s. s) s) = 5"
proof -
  let ?s = "hooks_example\<lparr>disp := (disp hooks_example)\<lparr>regs := (\<lambda>_. 0)(0xe9090000 := 5)\<rparr>\<rparr>"
  have r: "rtc_get_value (disp ?s) = 5" by (simp add: rtc_get_value_def rd_def reg_def remapped_rtc_def)
  have "rd (0x900E0018 + 4) (disp ?s) = 0" "rd 0x900E001C (disp ?s) = 0" by (simp_all add: rd_def)
  then have "\<not> isKeyPressed KEY_CTRL (disp ?s)"
    by (simp add: isKeyPressed_def rd16_def keypad_data_def keymap_cas_def rd_def Let_def)
  with file_hookfunc_once [of "\<lambda>_ s. s" ?s "\<lambda>s. s"] r hook_table_example show ?thesis
    by (simp add: Let_def hooks_example_def registered_def)
qed

end
