(* ===== verification/Modules.thy ===== *)
theory Modules
  imports Elf_Loader
begin

text \<open>
  The list of modules and the functions they may call (modules/modules.c). The state is that of the ELF loader, the
  structures of the modules in the memory, and what was given back to \<open>give_back\<close>, in order. The calls of the TI OS, the effect of
  the code of a module and the addresses of the strings of the kernel are the fields of a record of their own.
\<close>

section \<open>State\<close>

record module_sys =
  esys :: elf_sys
  modules :: addr
  mod_name :: "addr \<Rightarrow> addr"
  mod_end :: "addr \<Rightarrow> addr"
  mod_start :: "addr \<Rightarrow> addr"
  mod_pages :: "addr \<Rightarrow> u32"
  mod_next :: "addr \<Rightarrow> addr"
  mod_freed :: "addr list"

text \<open>
  \<open>nuc_stat\<close> gives the size of a file, \<open>nuc_fopen\<close> its bytes, both by the path. \<open>call_entry\<close> is the call of the entry
  point of a module: its result is the address of its end function; \<open>call_end\<close> is the call of that.
\<close>

record module_env =
  rem0 :: "u32 \<Rightarrow> u32"
  nuc_stat :: "u8 list \<Rightarrow> u32 option"
  nuc_fopen :: "u8 list \<Rightarrow> (nat \<Rightarrow> u8) option"
  call_entry :: "addr \<Rightarrow> module_sys \<Rightarrow> addr \<times> module_sys"
  call_end :: "addr \<Rightarrow> module_sys \<Rightarrow> module_sys"
  modules_path :: addr
  elf_extension :: addr
  got_name :: addr

abbreviation mmem :: "module_sys \<Rightarrow> bytes" where "mmem s \<equiv> mem (esys s)"

definition set_mmem :: "bytes \<Rightarrow> module_sys \<Rightarrow> module_sys" where
  "set_mmem m s = s\<lparr>esys := (esys s)\<lparr>mem := m\<rparr>\<rparr>"

definition set_mod_next :: "addr \<Rightarrow> addr \<Rightarrow> module_sys \<Rightarrow> module_sys" where
  "set_mod_next p v s = s\<lparr>mod_next := (mod_next s)(p := v)\<rparr>"

definition give_back :: "addr \<Rightarrow> module_sys \<Rightarrow> module_sys" where
  "give_back p s = s\<lparr>mod_freed := mod_freed s @ [p]\<rparr>"

section \<open>Exported functions\<close>

text \<open>
  The two arrays that \<open>module_system_init\<close> fills: \<open>fun_addr\<close> is the address of a function of the kernel, \<open>lit\<close> the address of a
  string.
\<close>

definition exported_functions :: "string list" where
  "exported_functions =
    [''kmalloc'', ''kfree'', ''uart_printf'', ''useConsecutivePages'', ''freeConsecutivePages'',
     ''register_draw_function'', ''unregister_draw_function'', ''register_file_function'',
     ''unregister_file_function'', ''framebuffer_setpixel565'', ''framebuffer_draw_img565'',
     ''framebuffer_setpixel'', ''framebuffer_fillrect'', ''framebuffer_drawrect'',
     ''framebuffer_write10pchar'', ''framebuffer_write10pdigit'', ''framebuffer_write10pstring_ascii'',
     ''panic'', ''systime_unix'', ''systime_unix_milli'', ''systime_timestamp_to_unix'',
     ''systime_unix_to_timestamp'', ''debug_shell_println'', ''debug_shell_println_rgb'', ''isKeyPressed'',
     ''keypad_press_release_barrier'', ''touchpad_get_report'', ''touchpad_is_arrow'',
     ''get_back_framebuffer_address'', ''blitLCDBuffer'', ''k_memset'', ''k_memcpy'', ''k_strlen'',
     ''k_strcmp'', ''sprintf_safe'', ''msleep'', ''systime_set_unix'', ''rgbto565'',
     ''signedtounsigned32'', ''rtc_get_value'', ''nuc_fopen'', ''nuc_fclose'', ''nuc_fread'',
     ''nuc_fwrite'', ''adc_read_channel'']"

definition exported_names :: "string list" where
  "exported_names =
    [''kmalloc'', ''kfree'', ''uart_printf'', ''useConsecutivePages'', ''freeConsecutivePages'',
     ''register_draw_function'', ''unregister_draw_function'', ''register_file_function'',
     ''unregister_file_function'', ''framebuffer_setpixel565'', ''framebuffer_draw_img565'',
     ''framebuffer_setpixel'', ''framebuffer_fillrect'', ''framebuffer_drawrect'',
     ''framebuffer_write10pchar'', ''framebuffer_write10pdigit'', ''framebuffer_write10pstring_ascii'',
     ''panic'', ''systime_unix'', ''systime_unix_milli'', ''systime_timestamp_to_unix'',
     ''systime_unix_to_timestamp'', ''debug_shell_println'', ''debug_shell_println_rgb'', ''isKeyPressed'',
     ''keypad_press_release_barrier'', ''touchpad_get_report'', ''touchpad_is_arrow'',
     ''get_back_framebuffer_address'', ''blitLCDBuffer'', ''k_memset'', ''k_memcpy'', ''k_strlen'',
     ''k_strcmp'', ''sprintf_safe'', ''msleep'', ''systime_set_unix'', ''rgbto565'',
     ''signedtounsigned32'', ''rtc_get_value'', ''nuc_fopen'', ''nuc_fclose'', ''nuc_fread'',
     ''nuc_fwrite'', ''adc_read_channel'']"

definition module_system_init :: "(string \<Rightarrow> addr) \<Rightarrow> (string \<Rightarrow> addr) \<Rightarrow> addr list \<times> addr list" where
  "module_system_init fun_addr lit = (map fun_addr exported_functions, map lit exported_names)"

definition module_search_function :: "addr list \<times> addr list \<Rightarrow> addr \<Rightarrow> bytes \<Rightarrow> addr" where
  "module_search_function tables name m =
     (case List.find (\<lambda>i. k_streq name (snd tables ! i) 100 m) [0..<45] of
        Some i \<Rightarrow> fst tables ! i
      | None \<Rightarrow> NULL)"

section \<open>Removing a module\<close>

partial_function (option) uninstall_walk :: "module_env \<Rightarrow> addr \<Rightarrow> addr \<Rightarrow> addr \<Rightarrow> module_sys \<Rightarrow> module_sys option" where
  "uninstall_walk env name modprev m s =
     (if m \<noteq> NULL then
        if k_streq name (mod_name s m) 100 (mmem s) then
          let s = call_end env (mod_end s m) s;
              s = s\<lparr>esys := (esys s)\<lparr>phys := freeConsecutivePages (mod_start s m) (mod_pages s m) (phys (esys s))\<rparr>\<rparr>;
              s = (if modprev = NULL then s\<lparr>modules := mod_next s m\<rparr> else set_mod_next modprev (mod_next s m) s);
              s = give_back (mod_name s m) s
          in Some (give_back m s)
        else uninstall_walk env name m (mod_next s m) s
      else Some s)"

definition module_uninstall :: "module_env \<Rightarrow> addr \<Rightarrow> module_sys \<Rightarrow> module_sys option" where
  "module_uninstall env name s = uninstall_walk env name NULL (modules s) s"

section \<open>Installing a module\<close>

text \<open>The search for a module of the same name.\<close>

partial_function (option) installed_walk :: "addr \<Rightarrow> addr \<Rightarrow> module_sys \<Rightarrow> bool option" where
  "installed_walk name m s =
     (if m \<noteq> NULL then if k_streq name (mod_name s m) 100 (mmem s) then Some True else installed_walk name (mod_next s m) s
      else Some False)"

text \<open>The path of the file: its length with 4 bytes for the end, and the memory with the path.\<close>

definition module_path :: "module_env \<Rightarrow> addr \<Rightarrow> addr \<Rightarrow> bytes \<Rightarrow> u32 \<times> bytes" where
  "module_path env name p m =
     (let mp = modules_path env;
          pathlen = k_strlen mp 100 m + k_strlen name 100 m + 4 + k_strlen (elf_extension env) 100 m;
          m = snd (k_memset p 0 pathlen m);
          m = snd (k_memcpy p mp (k_strlen mp 100 m) m);
          m = snd (k_memcpy (p + k_strlen mp 100 m) name (k_strlen name 100 m) m);
          m = snd (k_memcpy (p + k_strlen mp 100 m + k_strlen name 100 m) (elf_extension env) (k_strlen (elf_extension env) 100 m) m)
      in (pathlen, m))"

text \<open>The last part: the module is filled in, its entry point is called, and it is put at the head of the list.\<close>

definition module_run :: "module_env \<Rightarrow> addr \<Rightarrow> addr \<Rightarrow> addr \<Rightarrow> addr \<Rightarrow> addr \<Rightarrow> module_sys \<Rightarrow> module_sys" where
  "module_run env elf entry newmod name_copy name s =
     (let s = set_mmem (snd (k_memset name_copy 0 (k_strlen name 100 (mmem s) + 1) (mmem s))) s;
          s = set_mmem (snd (k_memcpy name_copy name (k_strlen name 100 (mmem s)) (mmem s))) s;
          s = s\<lparr>mod_name := (mod_name s)(newmod := name_copy),
                mod_start := (mod_start s)(newmod := ed_image (desc (esys s) elf)),
                mod_pages := (mod_pages s)(newmod := ed_image_pages (desc (esys s) elf)),
                mod_next := (mod_next s)(newmod := NULL)\<rparr>;
          s = s\<lparr>mod_end := (mod_end s)(newmod := NULL)\<rparr>;
          (module_end, s) = call_entry env entry s;
          s = s\<lparr>mod_end := (mod_end s)(newmod := module_end)\<rparr>
      in if mod_end s newmod = NULL then
           let s = give_back newmod s;
               s = give_back name_copy s
           in s\<lparr>esys := elf_destroy elf (esys s)\<rparr>
         else
           let s = (if modules s = NULL then s\<lparr>modules := newmod\<rparr>
                    else let s = set_mod_next newmod (modules s) s in s\<lparr>modules := newmod\<rparr>)
           in s\<lparr>esys := elf_destroy_without_image elf (esys s)\<rparr>)"

text \<open>
  The four addresses are what the calls of \<open>kmalloc\<close> return, in their order: for the path, the descriptor of the
  ELF file, the module and the copy of its name.
\<close>

type_synonym kmallocs = "addr \<times> addr \<times> addr \<times> addr"

definition module_install :: "module_env \<Rightarrow> kmallocs \<Rightarrow> addr \<Rightarrow> module_sys \<Rightarrow> module_sys option" where
  "module_install env alloc name s =
     map_option (\<lambda>installed.
       if installed then s
       else
         let (p, elf, newmod, name_copy) = alloc;
             (pathlen, m) = module_path env name p (mmem s);
             s = set_mmem m s;
             file_path = cstring (mmem s) p (unat pathlen)
         in case nuc_stat env file_path of
              None \<Rightarrow> give_back p s
            | Some st_size \<Rightarrow>
         (case nuc_fopen env file_path of
              None \<Rightarrow> give_back p s
            | Some f \<Rightarrow>
         let s = give_back p s
         in if \<not> elf_check_header (elf_read_header f) then s
            else
         let (elf, e) = elf_load_file (rem0 env) elf f st_size (esys s);
             s = s\<lparr>esys := e\<rparr>
         in if elf = NULL then s
            else
         let s = s\<lparr>esys := elf_alloc_image (rem0 env) elf (esys s)\<rparr>
         in if ed_image (desc (esys s) elf) = NULL then s\<lparr>esys := elf_destroy elf (esys s)\<rparr>
            else
         let s = s\<lparr>esys := elf_fix_got (got_name env) elf (esys s)\<rparr>;
             s = s\<lparr>esys := elf_assemble_image elf (esys s)\<rparr>;
             entry = elf_entry elf (esys s)
         in if entry = NULL then s\<lparr>esys := elf_destroy elf (esys s)\<rparr>
            else if newmod = NULL then s\<lparr>esys := elf_destroy elf (esys s)\<rparr>
            else if name_copy = NULL then s\<lparr>esys := elf_destroy elf (esys s)\<rparr>
            else module_run env elf entry newmod name_copy name s))
       (installed_walk name (modules s) s)"

text \<open>
  The loop over the entries of the directory: for each the address of its name and of the memory \<open>kmalloc\<close> returns for it. \<open>buffer\<close>
  is the array on the stack.
\<close>

definition load_entry :: "module_env \<Rightarrow> addr \<Rightarrow> kmallocs \<Rightarrow> addr \<Rightarrow> module_sys \<Rightarrow> module_sys option" where
  "load_entry env buffer alloc d_name s =
     (if k_strlen d_name 100 (mmem s) > 8 then
        let pathlen = k_strlen d_name 100 (mmem s)
        in if k_strcmp (d_name + (pathlen - 8)) (elf_extension env) 100 (mmem s) = 0 then
             let s = set_mmem (snd (k_memset buffer 0 103 (mmem s))) s;
                 s = set_mmem (snd (k_memcpy buffer d_name pathlen (mmem s))) s;
                 s = set_mmem ((mmem s)(buffer + (pathlen - 8) := 0)) s
             in module_install env alloc buffer s
           else Some s
      else Some s)"

fun load_entries :: "module_env \<Rightarrow> addr \<Rightarrow> (addr \<times> kmallocs) list \<Rightarrow> module_sys \<Rightarrow> module_sys option" where
  "load_entries env buffer [] s = Some s"
| "load_entries env buffer ((d_name, alloc) # entries) s =
     Option.bind (load_entry env buffer alloc d_name s) (load_entries env buffer entries)"

definition module_load_all :: "module_env \<Rightarrow> addr \<Rightarrow> (addr \<times> kmallocs) list option \<Rightarrow> module_sys \<Rightarrow> module_sys option" where
  "module_load_all env buffer dir s = (case dir of None \<Rightarrow> Some s | Some entries \<Rightarrow> load_entries env buffer entries s)"


section \<open>Exported functions\<close>

definition bytes_of :: "string \<Rightarrow> u8 list" where
  "bytes_of n = map (\<lambda>c. of_nat (of_char c)) n"

lemma bytes_of_inj: "bytes_of n = bytes_of k \<Longrightarrow> n = k"
proof -
  have "c = d" if "(of_nat (of_char c) :: u8) = of_nat (of_char d)" for c d
  proof -
    have "(of_char c :: nat) < 256" "(of_char d :: nat) < 256" by simp_all
    moreover from that have "unat (of_nat (of_char c) :: u8) = unat (of_nat (of_char d) :: u8)" by simp
    ultimately have "(of_char c :: nat) = of_char d" by (simp add: unat_of_nat)
    then show ?thesis by simp
  qed
  then have "inj (\<lambda>c. of_nat (of_char c) :: u8)" by (rule injI)
  then show "bytes_of n = bytes_of k \<Longrightarrow> n = k" by (simp add: bytes_of_def inj_map_eq_map)
qed

lemma exports: "exported_functions = exported_names" "distinct exported_names" "length exported_names = 45"
  by (simp add: exported_functions_def exported_names_def, code_simp, simp add: exported_names_def)

text \<open>
  When the strings of the table are in the memory, the search finds every exported function under its own name, and nothing for
  any other name.
\<close>

theorem module_search_function_correct:
  assumes "list_all (\<lambda>n. cstring m (lit n) 100 = bytes_of n) exported_names"
  shows "list_all (\<lambda>n. cstring m name 100 = bytes_of n \<longrightarrow> module_search_function (module_system_init fun_addr lit) name m = fun_addr n)
      exported_functions
    \<and> (list_all (\<lambda>n. cstring m name 100 \<noteq> bytes_of n) exported_functions \<longrightarrow> module_search_function (module_system_init fun_addr lit) name m = NULL)"
proof -
  let ?t = "module_system_init fun_addr lit"
  have t: "snd ?t ! i = lit (exported_names ! i)" "fst ?t ! i = fun_addr (exported_names ! i)" if "i < 45" for i
    using that exports by (simp_all add: module_system_init_def)
  have q: "k_streq name (snd ?t ! i) 100 m \<longleftrightarrow> cstring m name 100 = bytes_of (exported_names ! i)" if "i < 45" for i
    using assms that exports(3) by (simp add: k_streq_iff t list_all_length)
  have f: "module_search_function ?t name m = fun_addr n" if n: "n \<in> set exported_names" "cstring m name 100 = bytes_of n" for n
  proof -
    from n(1) obtain k where k: "k < 45" "exported_names ! k = n" using exports(3) by (auto simp: in_set_conv_nth)
    have "List.find (\<lambda>i. k_streq name (snd ?t ! i) 100 m) [0..<45] = Some k"
    proof (rule find_unique)
      fix i assume "i \<in> set [0..<45]" "k_streq name (snd ?t ! i) 100 m"
      then have "i < 45" "bytes_of (exported_names ! i) = bytes_of n" using q [of i] n(2) by auto
      then show "i = k" using k exports(2,3) bytes_of_inj by (metis nth_eq_iff_index_eq)
    qed (use k n(2) q [of k] in auto)
    then show ?thesis unfolding module_search_function_def using t(2) [OF k(1)] k(2) by simp
  qed
  have g: "module_search_function ?t name m = NULL" if "\<And>n. n \<in> set exported_names \<Longrightarrow> cstring m name 100 \<noteq> bytes_of n"
  proof -
    have "\<forall>i<45. \<not> k_streq name (snd ?t ! i) 100 m" using that q exports(3) by (auto simp: in_set_conv_nth)
    then have "List.find (\<lambda>i. k_streq name (snd ?t ! i) 100 m) [0..<45] = None" unfolding find_None_iff_index .
    then show ?thesis unfolding module_search_function_def by simp
  qed
  show ?thesis using f g by (auto simp: list_all_iff exports(1))
qed

section \<open>The list of modules\<close>

interpretation mods: next_field mod_next set_mod_next
  by unfold_locales (simp add: set_mod_next_def)

definition module_list :: "module_sys \<Rightarrow> addr list \<Rightarrow> bool" where
  "module_list s xs \<longleftrightarrow> path (mod_next s) (modules s) xs NULL"

definition named :: "addr \<Rightarrow> module_sys \<Rightarrow> addr \<Rightarrow> bool" where
  "named name s m \<longleftrightarrow> cstring (mmem s) (mod_name s m) 100 = cstring (mmem s) name 100"

text \<open>Calling the code of a module leaves the structures of the modules alone.\<close>

definition same_modules :: "module_sys \<Rightarrow> module_sys \<Rightarrow> bool" where
  "same_modules s t \<longleftrightarrow> modules t = modules s \<and> mod_name t = mod_name s \<and> mod_end t = mod_end s \<and> mod_start t = mod_start s
     \<and> mod_pages t = mod_pages s \<and> mod_next t = mod_next s"

lemma uninstall_walk_skip:
  assumes "path (mod_next s) m (ys @ x # zs) NULL" and "\<forall>y\<in>set ys. \<not> named name s y"
  shows "uninstall_walk env name prev m s = uninstall_walk env name (last (prev # ys)) x s"
  using assms
proof (induction ys arbitrary: m prev)
  case Nil
  then show ?case by simp
next
  case (Cons y ys)
  from Cons.prems have "m = y" "y \<noteq> NULL" "\<not> k_streq name (mod_name s y) 100 (mmem s)" by (auto simp: k_streq_iff named_def)
  moreover have "uninstall_walk env name y (mod_next s y) s = uninstall_walk env name (last (y # ys)) x s"
    using Cons.prems by (intro Cons.IH) auto
  ultimately show ?case by (subst uninstall_walk.simps) simp
qed

lemma uninstall_walk_absent:
  "path (mod_next s) m xs NULL \<Longrightarrow> (\<forall>x\<in>set xs. \<not> named name s x) \<Longrightarrow> uninstall_walk env name prev m s = Some s"
proof (induction xs arbitrary: m prev)
  case Nil
  then show ?case by (simp add: uninstall_walk.simps)
next
  case (Cons x xs)
  then have "m = x" "x \<noteq> NULL" "\<not> k_streq name (mod_name s x) 100 (mmem s)" by (auto simp: k_streq_iff named_def)
  moreover have "uninstall_walk env name x (mod_next s x) s = Some s" using Cons.prems by (intro Cons.IH) auto
  ultimately show ?case by (subst uninstall_walk.simps) simp
qed

text \<open>
  C22. \<open>module_uninstall\<close> ends on every list of modules and takes the first module of that name out of it: its end function is
  called, its pages go back to the allocator and its name and structure are freed, once each. Without such a module nothing changes.
\<close>

theorem module_uninstall_refines:
  assumes "module_list s xs" and "\<And>a t. same_modules t (call_end env a t)"
  shows "\<exists>s'. module_uninstall env name s = Some s' \<and> module_list s' (remove_first (named name s) xs)
    \<and> (case List.find (named name s) xs of
         None \<Rightarrow> s' = s
       | Some x \<Rightarrow> let s1 = call_end env (mod_end s x) s in
           mod_freed s' = mod_freed s1 @ [mod_name s x, x]
           \<and> phys (esys s') = freeConsecutivePages (mod_start s x) (mod_pages s x) (phys (esys s1)))"
proof (cases "List.find (named name s) xs")
  case None
  then have n: "\<And>x. x \<in> set xs \<Longrightarrow> \<not> named name s x" by (simp add: find_None_iff)
  then have "module_uninstall env name s = Some s"
    using uninstall_walk_absent assms(1) by (simp add: module_uninstall_def module_list_def)
  then show ?thesis unfolding None using assms(1) n by (simp add: remove_first_none)
next
  case (Some x)
  then obtain i where i: "i < length xs" "x = xs ! i" "named name s (xs ! i)" "\<forall>j<i. \<not> named name s (xs ! j)" by (auto simp: find_Some_iff)
  define ys zs where "ys = take i xs" and "zs = drop (Suc i) xs"
  have xs: "xs = ys @ x # zs" using i by (simp add: ys_def zs_def id_take_nth_drop)
  have p: "path (mod_next s) (modules s) (ys @ x # zs) NULL" using assms(1) xs by (simp add: module_list_def)
  then have d: "distinct (ys @ x # zs)" by (rule path_NULL_distinct)
  have x: "x \<noteq> NULL" "k_streq name (mod_name s x) 100 (mmem s)"
    using p i by (auto simp: path_append k_streq_iff named_def)
  have r: "remove_first (named name s) xs = ys @ zs" using remove_first_split [OF i(1,3,4)] by (simp add: ys_def zs_def)
  define s1 where "s1 = call_end env (mod_end s x) s"
  note k = assms(2) [of s "mod_end s x", folded s1_def, unfolded same_modules_def]
  have "\<forall>y\<in>set ys. \<not> named name s y" using i by (auto simp: ys_def in_set_conv_nth)
  then have "module_uninstall env name s = uninstall_walk env name (last (NULL # ys)) x s"
    unfolding module_uninstall_def by (rule uninstall_walk_skip [OF p])
  also have "\<dots> = Some (let s = s1\<lparr>esys := (esys s1)\<lparr>phys := freeConsecutivePages (mod_start s x) (mod_pages s x) (phys (esys s1))\<rparr>\<rparr>;
      s = (if last (NULL # ys) = NULL then s\<lparr>modules := mod_next s x\<rparr> else set_mod_next (last (NULL # ys)) (mod_next s x) s)
      in s\<lparr>mod_freed := mod_freed s1 @ [mod_name s x, x]\<rparr>)"
    using x k by (subst uninstall_walk.simps) (simp add: s1_def [symmetric] give_back_def set_mod_next_def Let_def)
  finally have u: "module_uninstall env name s = \<dots>" .
  let ?s' = "the (module_uninstall env name s)"
  have nx: "path (mod_next s) (mod_next s x) zs NULL" using p by (simp add: path_append)
  have "module_list ?s' (ys @ zs)"
  proof (cases ys rule: rev_cases)
    case Nil
    then show ?thesis using nx k by (simp add: u module_list_def Let_def)
  next
    case (snoc us q)
    then have "q \<noteq> NULL" using p path_not_NULL by fastforce
    have "path (mod_next (set_mod_next q (mod_next s x) s)) (modules s) (us @ q # zs) NULL"
      by (rule mods.unlink_inner) (use p d snoc in simp_all)
    then show ?thesis using snoc \<open>q \<noteq> NULL\<close> k by (simp add: u module_list_def Let_def set_mod_next_def)
  qed
  moreover have "mod_freed ?s' = mod_freed s1 @ [mod_name s x, x]"
    "phys (esys ?s') = freeConsecutivePages (mod_start s x) (mod_pages s x) (phys (esys s1))"
    using k by (simp_all add: u Let_def set_mod_next_def)
  ultimately show ?thesis unfolding Some r using u s1_def by (simp add: Let_def)
qed

section \<open>The path of a module\<close>

text \<open>The memory from \<open>p\<close> for \<open>n\<close> bytes lies outside the string at \<open>q\<close>.\<close>

definition outside_of :: "addr \<Rightarrow> u8 list \<Rightarrow> addr \<Rightarrow> nat \<Rightarrow> bool" where
  "outside_of q cs p n \<longleftrightarrow> (\<forall>i\<le>length cs. \<forall>j<n. q + of_nat i \<noteq> p + of_nat j)"

text \<open>\<open>m'\<close> differs from \<open>m\<close> in that memory only, and holds \<open>xs\<close> there, with zeros after it.\<close>

definition filled :: "bytes \<Rightarrow> bytes \<Rightarrow> addr \<Rightarrow> nat \<Rightarrow> u8 list \<Rightarrow> bool" where
  "filled m m' p n xs \<longleftrightarrow> (\<forall>i<n. m' (p + of_nat i) = (if i < length xs then xs ! i else 0))
     \<and> (\<forall>a. (\<forall>j<n. a \<noteq> p + of_nat j) \<longrightarrow> m' a = m a)"

lemma string_at_filled:
  assumes "string_at m q cs" "outside_of q cs p n" "filled m m' p n xs"
  shows "string_at m' q cs"
proof -
  have "m' (q + of_nat i) = m (q + of_nat i)" if "i \<le> length cs" for i using assms(2,3) that by (simp add: outside_of_def filled_def)
  with assms(1) show ?thesis by (simp add: string_at_iff)
qed

lemma string_at_len: "string_at m q cs \<Longrightarrow> length cs \<le> 100 \<Longrightarrow> k_strlen q 100 m = of_nat (length cs)"
proof -
  have "k_strlen q 100 m = of_nat (unat (k_strlen q 100 m))" by simp
  then show "string_at m q cs \<Longrightarrow> length cs \<le> 100 \<Longrightarrow> k_strlen q 100 m = of_nat (length cs)" by (simp only: string_at_strlen)
qed

lemma copy_part:
  assumes s: "string_at m q cs" and d: "outside_of q cs p n" and l: "length cs \<le> 100"
    and f: "filled m m1 p n xs" and n: "length xs + length cs \<le> n" "n < 4294967296"
  shows "filled m (snd (k_memcpy (p + of_nat (length xs)) q (k_strlen q 100 m1) m1)) p n (xs @ cs)"
proof -
  let ?m' = "memcpy_loop (length cs) (p + of_nat (length xs)) q m1"
  have s1: "string_at m1 q cs" by (rule string_at_filled [OF s d f])
  have d1: "q + of_nat i \<noteq> p + of_nat j" if "i < length cs" "j < n" for i j using d that by (simp add: outside_of_def)
  have c1: "?m' (p + of_nat (length xs + i)) = cs ! i" if "i < length cs" for i
    using copy_string(1) [OF s1 _ n that, where p = p] d1 by blast
  have c2: "?m' a = m1 a" if "\<And>i. i < length cs \<Longrightarrow> a \<noteq> p + of_nat (length xs + i)" for a
    using copy_string(2) [OF s1 _ n, where p = p and a = a] d1 that by blast
  have "?m' (p + of_nat i) = (if i < length (xs @ cs) then (xs @ cs) ! i else 0)" if i: "i < n" for i
  proof (cases "length xs \<le> i \<and> i < length xs + length cs")
    case True
    then have k: "i = length xs + (i - length xs)" "i - length xs < length cs" by auto
    have "?m' (p + of_nat i) = cs ! (i - length xs)" using c1 [OF k(2)] k(1) by metis
    with True show ?thesis by (simp add: nth_append)
  next
    case False
    have "?m' (p + of_nat i) = m1 (p + of_nat i)"
    proof (rule c2)
      fix k assume "k < length cs"
      then show "p + of_nat i \<noteq> p + of_nat (length xs + k)"
        using False i n by (auto simp: word_of_nat_eq_iff take_bit_nat_eq_self simp del: of_nat_add)
    qed
    with i False f show ?thesis by (auto simp: filled_def nth_append)
  qed
  moreover have "?m' a = m a" if "\<forall>j<n. a \<noteq> p + of_nat j" for a
    using c2 [of a] that n(1) f by (simp add: filled_def del: of_nat_add)
  ultimately show ?thesis using s1 l by (simp add: filled_def k_memcpy_def string_at_strlen)
qed

text \<open>The path that \<open>module_install\<close> builds is the directory, the name and the extension, ended by NUL.\<close>

theorem module_path_correct:
  assumes s: "string_at m (modules_path env) a" "string_at m name b" "string_at m (elf_extension env) c"
    and l: "length a \<le> 100" "length b \<le> 100" "length c \<le> 100"
    and n: "n = length a + length b + length c + 4"
    and d: "outside_of (modules_path env) a p n" "outside_of name b p n" "outside_of (elf_extension env) c p n"
  shows "fst (module_path env name p m) = of_nat n" and "string_at (snd (module_path env name p m)) p (a @ b @ c)"
proof -
  let ?mp = "modules_path env" and ?e = "elf_extension env"
  have n': "n < 4294967296" using l n by simp
  define m0 where "m0 = snd (k_memset p 0 (of_nat n) m)"
  have z0: "filled m m0 p n []"
    unfolding m0_def k_memset_def filled_def using n' by (auto simp: memset_loop_eq unat_of_nat take_bit_nat_eq_self)
  define m1 where "m1 = snd (k_memcpy p ?mp (k_strlen ?mp 100 m0) m0)"
  have z1: "filled m m1 p n a" using copy_part [OF s(1) d(1) l(1) z0 _ n'] n by (simp add: m1_def)
  define m2 where "m2 = snd (k_memcpy (p + of_nat (length a)) name (k_strlen name 100 m1) m1)"
  have z2: "filled m m2 p n (a @ b)" using copy_part [OF s(2) d(2) l(2) z1 _ n'] n by (simp add: m2_def)
  define m3 where "m3 = snd (k_memcpy (p + of_nat (length a) + of_nat (length b)) ?e (k_strlen ?e 100 m2) m2)"
  have z3: "filled m m3 p n (a @ b @ c)" using copy_part [OF s(3) d(3) l(3) z2 _ n'] n by (simp add: m3_def add.assoc)
  have t: "string_at m1 ?mp a" "string_at m2 ?mp a" "string_at m2 name b"
    using s d z0 z1 z2 by (blast intro: string_at_filled)+
  have "module_path env name p m = (of_nat n, m3)"
  proof -
    have "k_strlen ?mp 100 m + k_strlen name 100 m + 4 + k_strlen ?e 100 m = of_nat n" using s l n by (simp add: string_at_len)
    moreover have "k_strlen ?mp 100 m1 = of_nat (length a)" "k_strlen ?mp 100 m2 = of_nat (length a)" "k_strlen name 100 m2 = of_nat (length b)"
      using t l by (simp_all add: string_at_len)
    ultimately show ?thesis unfolding module_path_def Let_def by (simp only: m0_def [symmetric] m1_def [symmetric] m2_def [symmetric] m3_def [symmetric])
  qed
  moreover have "string_at m3 p (a @ b @ c)"
  proof -
    have "x \<noteq> 0" if "x \<in> set (a @ b @ c)" for x using that s by (auto simp: string_at_iff in_set_conv_nth)
    then have "(a @ b @ c) ! i \<noteq> 0" if "i < length (a @ b @ c)" for i using that nth_mem by blast
    with z3 n show ?thesis unfolding string_at_iff filled_def by (simp del: of_nat_add)
  qed
  ultimately show "fst (module_path env name p m) = of_nat n" "string_at (snd (module_path env name p m)) p (a @ b @ c)" by simp_all
qed

section \<open>Installing\<close>

lemma installed_walk_eq:
  "path (mod_next s) m xs NULL \<Longrightarrow> installed_walk name m s = Some (\<exists>x\<in>set xs. named name s x)"
proof (induction xs arbitrary: m)
  case Nil
  then show ?case by (simp add: installed_walk.simps)
next
  case (Cons x xs)
  then show ?case by (subst installed_walk.simps) (auto simp: k_streq_iff named_def)
qed

lemma elf_steps_freed [simp]:
  "desc_freed (elf_alloc_image rem e s) = desc_freed s" "desc_freed (elf_fix_got g e s) = desc_freed s" "desc_freed (elf_assemble_image e s) = desc_freed s"
  by (simp_all add: elf_alloc_image_def elf_fix_got_def elf_assemble_image_def Let_def split: option.split prod.split)

lemma elf_destroy_freed: "e \<noteq> NULL \<Longrightarrow> desc_freed (elf_destroy e s) = desc_freed s @ [e]"
  "e \<noteq> NULL \<Longrightarrow> desc_freed (elf_destroy_without_image e s) = desc_freed s @ [e]"
  by (simp_all add: elf_destroy_def elf_destroy_without_image_def Let_def)

lemma elf_load_file_freed:
  assumes "elf_load_file rem e f sz s = (e', s')"
  shows "e' = NULL \<and> (e = NULL \<and> s' = s \<or> e \<noteq> NULL \<and> desc_freed s' = desc_freed s @ [e]) \<or> e' = e \<and> e \<noteq> NULL \<and> desc_freed s' = desc_freed s"
  using assms by (auto simp: elf_load_file_def Let_def split: if_splits prod.splits)

lemma module_run_outcome:
  assumes l: "module_list s xs" and c: "\<And>a t. same_modules t (snd (call_entry env a t))"
    "\<And>a t. desc_freed (esys (snd (call_entry env a t))) = desc_freed (esys t)"
    and new: "newmod \<notin> set xs" "newmod \<noteq> NULL" and elf: "elf \<noteq> NULL"
    and s': "s' = module_run env elf entry newmod name_copy name s"
  shows "module_list s' xs \<or> module_list s' (newmod # xs) \<and> mod_name s' newmod = name_copy \<and> mod_end s' newmod \<noteq> NULL"
    and "desc_freed (esys s') = desc_freed (esys s) @ [elf]"
proof -
  let ?m1 = "snd (k_memset name_copy 0 (k_strlen name 100 (mmem s) + 1) (mmem s))"
  let ?m2 = "snd (k_memcpy name_copy name (k_strlen name 100 ?m1) ?m1)"
  define s2 where "s2 = s\<lparr>esys := (esys s)\<lparr>mem := ?m2\<rparr>,
             mod_name := (mod_name s)(newmod := name_copy), mod_start := (mod_start s)(newmod := ed_image (desc (esys s) elf)),
             mod_pages := (mod_pages s)(newmod := ed_image_pages (desc (esys s) elf)),
             mod_next := (mod_next s)(newmod := NULL), mod_end := (mod_end s)(newmod := NULL)\<rparr>"
  obtain me s3 where ce: "call_entry env entry s2 = (me, s3)" by (cases "call_entry env entry s2")
  have k: "modules s3 = modules s" "mod_next s3 = (mod_next s)(newmod := NULL)" "mod_name s3 newmod = name_copy"
    "desc_freed (esys s3) = desc_freed (esys s)"
    using c(1) [of s2 entry] c(2) [of entry s2] unfolding ce same_modules_def by (simp_all add: s2_def)
  have run: "s' = (if me = NULL
      then s3\<lparr>mod_end := (mod_end s3)(newmod := NULL), mod_freed := mod_freed s3 @ [newmod, name_copy], esys := elf_destroy elf (esys s3)\<rparr>
      else s3\<lparr>mod_end := (mod_end s3)(newmod := me), mod_next := (if modules s3 = NULL then mod_next s3 else (mod_next s3)(newmod := modules s3)),
             modules := newmod, esys := elf_destroy_without_image elf (esys s3)\<rparr>)"
    using ce unfolding s' module_run_def by (simp add: set_mmem_def s2_def give_back_def set_mod_next_def)
  have p: "path (mod_next s3) (modules s3) xs NULL" using l new(1) by (simp add: k module_list_def)
  show "module_list s' xs \<or> module_list s' (newmod # xs) \<and> mod_name s' newmod = name_copy \<and> mod_end s' newmod \<noteq> NULL"
  proof (cases "me = NULL")
    case True
    with p show ?thesis by (simp add: run module_list_def)
  next
    case False
    have "path ((mod_next s3)(newmod := modules s3)) newmod (newmod # xs) NULL" using p new by simp
    moreover have "path (mod_next s3) newmod (newmod # xs) NULL" if "modules s3 = NULL"
      using p new that by (simp add: k)
    ultimately show ?thesis using False k(3) by (simp add: run module_list_def)
  qed
  show "desc_freed (esys s') = desc_freed (esys s) @ [elf]" using k(4) elf by (simp add: run elf_destroy_freed)
qed

text \<open>The file was found and has the header of a program for this machine.\<close>

definition file_usable :: "module_env \<Rightarrow> u8 list \<Rightarrow> bool" where
  "file_usable env p \<longleftrightarrow> nuc_stat env p \<noteq> None \<and> (\<exists>f. nuc_fopen env p = Some f \<and> elf_check_header (elf_read_header f))"

text \<open>
  \<open>module_install\<close> ends on every list of modules. A module of the same name makes it return at once; else it either leaves the list as it
  was or puts the new module, which has an end function, at its head. The descriptor of the ELF file, once allocated, is freed exactly
  once on every path.
\<close>

theorem module_install_outcome:
  assumes "module_list s xs" and "\<And>a t. same_modules t (snd (call_entry env a t))"
    and "\<And>a t. desc_freed (esys (snd (call_entry env a t))) = desc_freed (esys t)" and "newmod \<notin> set xs"
  shows "\<exists>s'. module_install env (p, elf, newmod, name_copy) name s = Some s'
    \<and> ((\<exists>x\<in>set xs. named name s x) \<longrightarrow> s' = s)
    \<and> (module_list s' xs \<or> newmod \<noteq> NULL \<and> module_list s' (newmod # xs) \<and> mod_name s' newmod = name_copy \<and> mod_end s' newmod \<noteq> NULL)
    \<and> desc_freed (esys s') = desc_freed (esys s) @
        (let (pathlen, m) = module_path env name p (mmem s) in
         if \<not> (\<exists>x\<in>set xs. named name s x) \<and> file_usable env (cstring m p (unat pathlen)) \<and> elf \<noteq> NULL then [elf] else [])"
proof (cases "\<exists>x\<in>set xs. named name s x")
  case True
  then have "module_install env (p, elf, newmod, name_copy) name s = Some s"
    using installed_walk_eq assms(1) by (simp add: module_install_def module_list_def)
  with True assms(1) show ?thesis by (auto split: prod.splits)
next
  case False
  obtain pathlen m where mp: "module_path env name p (mmem s) = (pathlen, m)" by (cases "module_path env name p (mmem s)")
  let ?fp = "cstring m p (unat pathlen)"
  define s0 where "s0 = give_back p (set_mmem m s)"
  have s0: "module_list s0 xs" "desc_freed (esys s0) = desc_freed (esys s)"
    using assms(1) by (simp_all add: s0_def give_back_def set_mmem_def module_list_def)
  have w: "installed_walk name (modules s) s = Some False" using installed_walk_eq [of s "modules s" xs name] assms(1) False by (simp add: module_list_def)
  show ?thesis
  proof (cases "file_usable env ?fp")
    case unusable: False
    have "module_install env (p, elf, newmod, name_copy) name s = Some s0"
      using unusable w by (auto simp: module_install_def mp file_usable_def s0_def set_mmem_def Let_def split: option.splits)
    with s0 False unusable mp show ?thesis by auto
  next
    case usable: True
    then obtain sz f where sz: "nuc_stat env ?fp = Some sz" "nuc_fopen env ?fp = Some f" "elf_check_header (elf_read_header f)"
      by (auto simp: file_usable_def)
    obtain elf' E where ld: "elf_load_file (rem0 env) elf f sz (esys s0) = (elf', E)" by (cases "elf_load_file (rem0 env) elf f sz (esys s0)")
    note lf = elf_load_file_freed [OF ld]
    show ?thesis
    proof (cases "elf' = NULL")
      case True
      then have "module_install env (p, elf, newmod, name_copy) name s = Some (s0\<lparr>esys := E\<rparr>)"
        using w sz ld by (simp add: module_install_def mp s0_def set_mmem_def Let_def)
      with s0 lf True False usable mp show ?thesis by (auto simp: module_list_def)
    next
      case loaded: False
      then have elf: "elf' = elf" "elf \<noteq> NULL" "desc_freed E = desc_freed (esys s)" using lf s0(2) by auto
      define X where "X = (if ed_image (desc (elf_alloc_image (rem0 env) elf E) elf) = NULL then elf_alloc_image (rem0 env) elf E
        else elf_assemble_image elf (elf_fix_got (got_name env) elf (elf_alloc_image (rem0 env) elf E)))"
      have X: "desc_freed X = desc_freed (esys s)" using elf by (simp add: X_def)
      have fin: ?thesis if "module_install env (p, elf, newmod, name_copy) name s = Some s'"
        "module_list s' xs \<or> newmod \<noteq> NULL \<and> module_list s' (newmod # xs) \<and> mod_name s' newmod = name_copy \<and> mod_end s' newmod \<noteq> NULL"
        "desc_freed (esys s') = desc_freed (esys s) @ [elf]" for s'
        using that False usable elf mp by auto
      show ?thesis
      proof (cases "ed_image (desc (elf_alloc_image (rem0 env) elf E) elf) = NULL \<or> elf_entry elf X = NULL \<or> newmod = NULL \<or> name_copy = NULL")
        case True
        then have "module_install env (p, elf, newmod, name_copy) name s = Some (s0\<lparr>esys := elf_destroy elf X\<rparr>)"
          using w sz ld elf by (auto simp: module_install_def mp s0_def set_mmem_def Let_def X_def)
        from fin [OF this] show ?thesis using s0 X elf by (simp add: module_list_def elf_destroy_freed)
      next
        case built: False
        let ?s' = "module_run env elf (elf_entry elf X) newmod name_copy name (s0\<lparr>esys := X\<rparr>)"
        have n: "X = elf_assemble_image elf (elf_fix_got (got_name env) elf (elf_alloc_image (rem0 env) elf E))"
          "elf_entry elf X \<noteq> NULL" "newmod \<noteq> NULL" "name_copy \<noteq> NULL" "ed_image (desc (elf_alloc_image (rem0 env) elf E) elf) \<noteq> NULL"
          using built by (simp add: X_def, simp, simp, simp, simp)
        have mi: "module_install env (p, elf, newmod, name_copy) name s = Some ?s'"
          using w sz ld elf(1,2) n(2-5) unfolding n(1) by (simp add: module_install_def mp s0_def set_mmem_def Let_def)
        have x: "module_list (s0\<lparr>esys := X\<rparr>) xs" "desc_freed (esys (s0\<lparr>esys := X\<rparr>)) = desc_freed (esys s)"
          using s0(1) X by (simp_all add: module_list_def)
        from module_run_outcome [OF x(1) assms(2,3,4) n(3) elf(2) refl] x(2) n(3) show ?thesis by (intro fin [OF mi]) simp_all
      qed
    qed
  qed
qed


section \<open>Loading all modules\<close>

definition newmod_of :: "kmallocs \<Rightarrow> addr" where
  "newmod_of alloc = fst (snd (snd alloc))"

definition newmods :: "(addr \<times> kmallocs) list \<Rightarrow> addr list" where
  "newmods entries = map (\<lambda>(d_name, alloc). newmod_of alloc) entries"

lemma newmods_simps [simp]: "newmods [] = []" "newmods ((d, alloc) # entries) = newmod_of alloc # newmods entries"
  by (simp_all add: newmods_def)

lemma module_list_mem [simp]: "module_list (set_mmem m s) xs = module_list s xs"
  by (simp add: module_list_def set_mmem_def)

lemma load_entry_list:
  assumes "module_list s xs" and "\<And>a t. same_modules t (snd (call_entry env a t))"
    and "\<And>a t. desc_freed (esys (snd (call_entry env a t))) = desc_freed (esys t)" and "newmod_of alloc \<notin> set xs"
  shows "\<exists>s' ys. load_entry env buffer alloc d_name s = Some s' \<and> module_list s' (ys @ xs) \<and> ys \<in> {[], [newmod_of alloc]}"
proof -
  obtain p elf newmod name_copy where a: "alloc = (p, elf, newmod, name_copy)" by (cases alloc)
  have "\<exists>s' ys. module_install env alloc name t = Some s' \<and> module_list s' (ys @ xs) \<and> ys \<in> {[], [newmod_of alloc]}"
    if "module_list t xs" for t name
  proof -
    note t = that
    obtain s' where "module_install env alloc name t = Some s'" "module_list s' xs \<or> module_list s' (newmod_of alloc # xs)"
      using module_install_outcome [OF t assms(2,3), of newmod p elf name_copy name] assms(4) unfolding a newmod_of_def by auto
    moreover from this(2) obtain ys where "module_list s' (ys @ xs)" "ys \<in> {[], [newmod_of alloc]}"
      by (metis append_Cons append_Nil insertCI)
    ultimately show ?thesis by blast
  qed
  moreover have "\<exists>s' ys. Some s = Some s' \<and> module_list s' (ys @ xs) \<and> ys \<in> {[], [newmod_of alloc]}" using assms(1) by (auto intro: exI [of _ "[]"])
  ultimately show ?thesis using assms(1) unfolding load_entry_def Let_def by simp
qed

text \<open>
  C29. \<open>module_load_all\<close> ends on every directory and every list of modules, whatever the files hold: the list grows at its head by at most
  one module for each entry, and the modules that were there stay in their order.
\<close>

theorem module_load_all_ends:
  assumes "module_list s xs" and "\<And>a t. same_modules t (snd (call_entry env a t))"
    and "\<And>a t. desc_freed (esys (snd (call_entry env a t))) = desc_freed (esys t)"
    and "distinct (newmods entries @ xs)"
  shows "\<exists>s' ys. module_load_all env buffer (Some entries) s = Some s' \<and> module_list s' (ys @ xs)
    \<and> set ys \<subseteq> set (newmods entries) \<and> length ys \<le> length entries"
proof -
  have "\<exists>s' ys. load_entries env buffer entries s = Some s' \<and> module_list s' (ys @ xs)
    \<and> set ys \<subseteq> set (newmods entries) \<and> length ys \<le> length entries"
    using assms(1,4)
  proof (induction entries arbitrary: s xs)
    case Nil
    then show ?case by (auto intro: exI [of _ "[]"])
  next
    case (Cons e entries)
    obtain d_name alloc where e: "e = (d_name, alloc)" by (cases e)
    with Cons.prems have n: "newmod_of alloc \<notin> set xs" "newmod_of alloc \<notin> set (newmods entries)" by (auto simp: e)
    obtain t us where t: "load_entry env buffer alloc d_name s = Some t" "module_list t (us @ xs)" "us \<in> {[], [newmod_of alloc]}"
      using load_entry_list [OF Cons.prems(1) assms(2,3) n(1)] by blast
    have "distinct (newmods entries @ us @ xs)" using Cons.prems(2) n t(3) by (auto simp: e)
    from Cons.IH [OF t(2) this] obtain s' ys where s': "load_entries env buffer entries t = Some s'" "module_list s' (ys @ us @ xs)"
      "set ys \<subseteq> set (newmods entries)" "length ys \<le> length entries" by blast
    have "load_entries env buffer (e # entries) s = Some s'" using t(1) s'(1) by (simp add: e)
    moreover have "module_list s' ((ys @ us) @ xs)" using s'(2) by simp
    moreover have "set (ys @ us) \<subseteq> set (newmods (e # entries))" "length (ys @ us) \<le> length (e # entries)"
      using s'(3,4) t(3) by (auto simp: e)
    ultimately show ?case by blast
  qed
  then show ?thesis by (simp add: module_load_all_def)
qed

section \<open>Concrete runs\<close>

text \<open>No files, and modules that only return.\<close>

definition quiet_env :: "module_env" where
  "quiet_env = \<lparr>rem0 = (\<lambda>_. 0), nuc_stat = (\<lambda>_. None), nuc_fopen = (\<lambda>_. None), call_entry = (\<lambda>a s. (a, s)), call_end = (\<lambda>_ s. s),
     modules_path = 0x100, elf_extension = 0x200, got_name = 0x300\<rparr>"

text \<open>Two modules, at 0x1000 and 0x2000, of the names \<open>a\<close> and \<open>b\<close>, and the name \<open>b\<close> at 0x3000.\<close>

definition two_modules :: "module_sys" where
  "two_modules = \<lparr>esys = elf_example\<lparr>mem := (\<lambda>_. 0)(0x1100 := 97, 0x2100 := 98, 0x3000 := 98)\<rparr>,
     modules = 0x1000, mod_name = (\<lambda>m. m + 0x100), mod_end = (\<lambda>m. m + 0x200), mod_start = (\<lambda>_. 0), mod_pages = (\<lambda>_. 0),
     mod_next = (\<lambda>_. 0)(0x1000 := 0x2000), mod_freed = []\<rparr>"

lemma two_modules_facts:
  "module_list two_modules [0x1000, 0x2000]" "\<not> named 0x3000 two_modules 0x1000" "named 0x3000 two_modules 0x2000"
  "same_modules t (call_end quiet_env a t)" "same_modules t (snd (call_entry quiet_env a t))"
  "desc_freed (esys (snd (call_entry quiet_env a t))) = desc_freed (esys t)"
proof -
  have c: "cstring (mmem two_modules) 0x1100 100 = [97]" "cstring (mmem two_modules) 0x2100 100 = [98]" "cstring (mmem two_modules) 0x3000 100 = [98]"
    by (rule string_at_cstring; simp add: two_modules_def)+
  then show "\<not> named 0x3000 two_modules 0x1000" "named 0x3000 two_modules 0x2000" by (simp_all add: named_def, simp_all add: two_modules_def)
  show "module_list two_modules [0x1000, 0x2000]" by (simp add: module_list_def two_modules_def)
qed (simp_all add: quiet_env_def same_modules_def)

theorem module_uninstall_refines_witness:
  "\<exists>s'. module_uninstall quiet_env 0x3000 two_modules = Some s' \<and> module_list s' [0x1000] \<and> mod_freed s' = [0x2100, 0x2000]"
  using module_uninstall_refines [of two_modules "[0x1000, 0x2000]" quiet_env "0x3000", OF two_modules_facts(1,4)] two_modules_facts(2,3)
  by (simp add: Let_def) (auto simp: two_modules_def quiet_env_def)

theorem module_load_all_ends_witness:
  "\<exists>s' ys. module_load_all quiet_env 0x8000 (Some [(0x3000, 0x4000, 0x5000, 0x6000, 0x7000)]) two_modules = Some s'
     \<and> module_list s' (ys @ [0x1000, 0x2000]) \<and> set ys \<subseteq> {0x6000}"
  using module_load_all_ends [of two_modules "[0x1000, 0x2000]" quiet_env "[(0x3000, 0x4000, 0x5000, 0x6000, 0x7000)]" "0x8000",
      OF two_modules_facts(1,5,6)]
  by (auto simp: newmod_of_def)


end
