(* ===== verification/Waiting.thy ===== *)
theory Waiting
  imports Watchdog
begin

text \<open>
  Sleeping, libk/wait.c, on the watchdog, and the mutexes of libk/mutex.c. The processor stops until an interrupt:
  \<open>hw n\<close> is what the \<open>n\<close>th wait does to the watchdog and its state in the kernel.
\<close>

section \<open>Sleeping\<close>

partial_function (option) wait_disabled :: "(nat \<Rightarrow> watchdog \<Rightarrow> watchdog) \<Rightarrow> nat \<Rightarrow> watchdog \<Rightarrow> (nat \<times> watchdog) option" where
  "wait_disabled hw n s =
     (let (enabled, s) = watchdog_enabled s
      in if enabled then wait_disabled hw (Suc n) (hw n s) else Some (n, s))"

text \<open>The loop over the full periods, with its count.\<close>

fun full_periods :: "(nat \<Rightarrow> watchdog \<Rightarrow> watchdog) \<Rightarrow> nat \<Rightarrow> nat \<Rightarrow> watchdog \<Rightarrow> (nat \<times> watchdog) option" where
  "full_periods hw 0 n s = Some (n, s)"
| "full_periods hw (Suc overflows) n s =
     (let s = watchdog_set_load 0xffffffff s;
          s = watchdog_enable s
      in Option.bind (wait_disabled hw n s) (\<lambda>(n, s). full_periods hw overflows n s))"

text \<open>The body that both functions have, for the number of ticks \<open>overflows\<close>.\<close>

definition sleep_ticks :: "(nat \<Rightarrow> watchdog \<Rightarrow> watchdog) \<Rightarrow> u32 \<Rightarrow> watchdog \<Rightarrow> watchdog option" where
  "sleep_ticks hw overflows s =
     (let (enabled, s) = watchdog_enabled s;
          s = watchdog_disable s;
          s = watchdog_set_reset False s;
          (load, s) = watchdog_load s;
          function = watchdog_function s;
          s = watchdog_set_function 1 s;
          first = overflows mod 0xffffffff;
          overflows = overflows div 0xffffffff;
          s = watchdog_set_load first s;
          s = watchdog_enable s
      in Option.bind (wait_disabled hw 0 s) (\<lambda>(n, s).
         map_option (\<lambda>(n, s).
           let s = (if \<not> enabled then watchdog_disable s else s);
               s = watchdog_set_function function s;
               s = watchdog_set_load load s
           in if enabled \<and> vic_is_fiq 3 s then watchdog_enable s else s)
           (full_periods hw (unat overflows) n s)))"

text \<open>
  \<open>(uint32_t) (38038.473*(double)milis)\<close>: the constant is the double \<open>163373997524779 / 2 ^ 32\<close>; the product is rounded to 53
  bits, ties to even; the conversion cuts off the fraction. C leaves a product of \<open>2 ^ 32\<close> and more undefined: \<open>undef\<close> is what
  the conversion gives then.
\<close>

fun excess_bits :: "nat \<Rightarrow> nat" where
  "excess_bits p = (if p < 2 ^ 53 then 0 else Suc (excess_bits (p div 2)))"

declare excess_bits.simps [simp del]

definition round53 :: "nat \<Rightarrow> nat" where
  "round53 p =
     (let e = excess_bits p;
          q = p div 2 ^ e;
          r = 2 * (p mod 2 ^ e)
      in (if r < 2 ^ e \<or> r = 2 ^ e \<and> even q then q else q + 1) * 2 ^ e)"

definition milis_ticks :: "(nat \<Rightarrow> u32) \<Rightarrow> u32 \<Rightarrow> u32" where
  "milis_ticks undef milis =
     (let p = round53 (163373997524779 * unat milis) div 2 ^ 32
      in if p < 2 ^ 32 then of_nat p else undef p)"

definition msleep :: "(nat \<Rightarrow> u32) \<Rightarrow> (nat \<Rightarrow> watchdog \<Rightarrow> watchdog) \<Rightarrow> u32 \<Rightarrow> watchdog \<Rightarrow> watchdog option" where
  "msleep undef hw milis s = (if milis = 0 then Some s else sleep_ticks hw (milis_ticks undef milis) s)"

definition microsleep :: "(nat \<Rightarrow> watchdog \<Rightarrow> watchdog) \<Rightarrow> u32 \<Rightarrow> watchdog \<Rightarrow> watchdog option" where
  "microsleep hw micro s = (if micro = 0 then Some s else sleep_ticks hw (33 * micro) s)"

section \<open>Mutexes\<close>

definition unlockMutex :: "addr \<Rightarrow> (addr \<Rightarrow> u32) \<Rightarrow> addr \<Rightarrow> u32" where
  "unlockMutex mutex m = m(mutex := 0)"

definition tryMutex :: "addr \<Rightarrow> (addr \<Rightarrow> u32) \<Rightarrow> bool \<times> (addr \<Rightarrow> u32)" where
  "tryMutex mutex m =
     (let value = m mutex;
          m = m(mutex := 1)
      in if value = 0 then (True, m) else (False, m))"


section \<open>What sleeping reads and changes\<close>

definition running :: "watchdog \<Rightarrow> bool" where
  "running s = fst (watchdog_enabled s)"

definition loads :: "watchdog \<Rightarrow> u32 list" where
  "loads s = map snd (filter (\<lambda>(a, v). a = wreg 0) (writes s))"

abbreviation load_word :: "watchdog \<Rightarrow> u32" where
  "load_word s \<equiv> rd (wreg 0) s"

lemmas wd_addrs = reg_def remapped_watchdog_def remapped_power_def remapped_vic_def

lemma running_eq: "running s \<longleftrightarrow> bit (rd (wreg 2) s) 0"
  by (simp add: running_def watchdog_enabled_def Let_def rd_wr wd_addrs power_enable_device_def and_one_eq bit_0 odd_iff_mod_2_eq_one)

lemma fiq_eq: "vic_is_fiq 3 s \<longleftrightarrow> bit (rd (reg remapped_vic 3) s) 3"
  by (simp add: vic_is_fiq_def and_one_eq bit_iff_odd_drop_bit odd_iff_mod_2_eq_one)

lemma loads_wr: "loads (wr a v s) = loads s @ (if a = wreg 0 then [v] else [])"
  by (simp add: loads_def wr_def)

lemma wd_function_wr [simp]: "wd_function (wr a v s) = wd_function s"
  by (simp add: wr_def)

lemma rd_update [simp]: "rd a (wd_function_update f s) = rd a s" "rd a (watchdog_reset_update g s) = rd a s"
  "loads (wd_function_update f s) = loads s" "loads (watchdog_reset_update g s) = loads s"
  "watchdog_reset (wr a v s) = watchdog_reset s" for s :: watchdog
  by (simp_all add: rd_def loads_def wr_def)

named_theorems wd_facts

lemma wd_power [wd_facts]:
  "running (power_enable_device 13 s) = running s" "vic_is_fiq 3 (power_enable_device 13 s) = vic_is_fiq 3 s"
  "load_word (power_enable_device 13 s) = load_word s" "loads (power_enable_device 13 s) = loads s"
  "wd_function (power_enable_device 13 s) = wd_function s"
  by (simp_all add: running_eq fiq_eq power_enable_device_def Let_def rd_wr loads_wr wd_addrs)

lemma wd_disable [wd_facts]:
  "\<not> running (watchdog_disable s)" "\<not> vic_is_fiq 3 (watchdog_disable s)" "load_word (watchdog_disable s) = load_word s"
  "loads (watchdog_disable s) = loads s" "wd_function (watchdog_disable s) = wd_function s"
  by (simp_all add: running_eq fiq_eq watchdog_disable_def power_enable_device_def vic_disable_def vic_set_irq_def Let_def rd_wr loads_wr wd_addrs bit_simps)

lemma wd_enable [wd_facts]:
  "running (watchdog_enable s)" "vic_is_fiq 3 (watchdog_enable s)" "load_word (watchdog_enable s) = load_word s"
  "loads (watchdog_enable s) = loads s" "wd_function (watchdog_enable s) = wd_function s"
  by (simp_all add: running_eq fiq_eq watchdog_enable_def power_enable_device_def vic_enable_def vic_set_fiq_def Let_def rd_wr loads_wr wd_addrs bit_simps)

lemma wd_set_load [wd_facts]:
  "running (watchdog_set_load v s) = running s" "vic_is_fiq 3 (watchdog_set_load v s) = vic_is_fiq 3 s"
  "load_word (watchdog_set_load v s) = v" "loads (watchdog_set_load v s) = loads s @ [v]"
  "wd_function (watchdog_set_load v s) = wd_function s"
  by (simp_all add: running_eq fiq_eq watchdog_set_load_def power_enable_device_def Let_def rd_wr loads_wr wd_addrs)

lemma wd_set_function [wd_facts]:
  "running (watchdog_set_function v s) = running s" "vic_is_fiq 3 (watchdog_set_function v s) = vic_is_fiq 3 s"
  "load_word (watchdog_set_function v s) = load_word s" "loads (watchdog_set_function v s) = loads s"
  "wd_function (watchdog_set_function v s) = v"
  by (simp_all add: running_eq fiq_eq watchdog_set_function_def)

lemma wd_set_reset [wd_facts]:
  "running (watchdog_set_reset False s) = running s"
  "load_word (watchdog_set_reset False s) = load_word s" "loads (watchdog_set_reset False s) = loads s"
  "wd_function (watchdog_set_reset False s) = wd_function s"
  using watchdog_set_reset_stops(2) [of s]
  by (simp_all add: running_def watchdog_set_reset_def power_enable_device_def Let_def rd_wr loads_wr wd_addrs)

lemma wd_irq_clear [wd_facts]:
  "load_word (watchdog_irq_clear s) = load_word s" "loads (watchdog_irq_clear s) = loads s" "wd_function (watchdog_irq_clear s) = wd_function s"
proof -
  have ne: "wreg 0 \<noteq> wreg 3" "wreg 0 \<noteq> wreg 0x300" "wreg 3 \<noteq> wreg 0" "wreg 0x300 \<noteq> wreg 0" by (simp_all add: wd_addrs)
  show "load_word (watchdog_irq_clear s) = load_word s" "loads (watchdog_irq_clear s) = loads s" "wd_function (watchdog_irq_clear s) = wd_function s"
    by (simp_all add: watchdog_irq_clear_def Let_def rd_wr loads_wr wd_power wd_disable ne)
qed

lemma enabled_pair: "watchdog_enabled s = (running s, power_enable_device 13 s)"
  by (simp add: running_def watchdog_enabled_def Let_def)

lemma load_pair: "watchdog_load s = (load_word (power_enable_device 13 s), power_enable_device 13 s)"
  by (simp add: watchdog_load_def Let_def)


section \<open>Sleeping ends\<close>

text \<open>
  What the fast interrupt handler does to the watchdog when a wait expires in a privileged mode; \<open>expires n\<close> tells whether the
  \<open>n\<close>th stop of the processor ends with that interrupt.
\<close>

definition expiry :: "(nat \<Rightarrow> bool) \<Rightarrow> nat \<Rightarrow> watchdog \<Rightarrow> watchdog" where
  "expiry expires n s = (if expires n then watchdog_disable (watchdog_irq_clear s) else s)"

text \<open>The state apart from the bits that say whether the watchdog runs and interrupts.\<close>

definition same_wait :: "watchdog \<Rightarrow> watchdog \<Rightarrow> bool" where
  "same_wait s t \<longleftrightarrow> load_word t = load_word s \<and> loads t = loads s \<and> wd_function t = wd_function s"

lemma wait_disabled_ends:
  assumes "running s" and "expires k" and "n \<le> k" and "\<forall>j. n \<le> j \<and> j < k \<longrightarrow> \<not> expires j"
  shows "\<exists>t. wait_disabled (expiry expires) n s = Some (Suc k, t) \<and> same_wait s t \<and> \<not> running t \<and> \<not> vic_is_fiq 3 t"
  using assms
proof (induction "k - n" arbitrary: n s)
  case 0
  let ?t = "power_enable_device 13 (watchdog_disable (watchdog_irq_clear (power_enable_device 13 s)))"
  have "wait_disabled (expiry expires) (Suc k) (watchdog_disable (watchdog_irq_clear (power_enable_device 13 s))) = Some (Suc k, ?t)"
    by (subst wait_disabled.simps) (simp add: enabled_pair wd_facts)
  with 0 have "wait_disabled (expiry expires) n s = Some (Suc k, ?t)"
    by (subst wait_disabled.simps) (simp add: enabled_pair expiry_def)
  then show ?case by (auto simp: same_wait_def wd_facts)
next
  case (Suc d)
  let ?s = "power_enable_device 13 s"
  have n: "Suc n \<le> k" "\<not> expires n" using Suc.hyps(2) Suc.prems by auto
  obtain t where "wait_disabled (expiry expires) (Suc n) ?s = Some (Suc k, t)" "same_wait ?s t" "\<not> running t" "\<not> vic_is_fiq 3 t"
  proof -
    have "d = k - Suc n" using Suc.hyps(2) by simp
    from Suc.hyps(1) [OF this, of ?s] Suc.prems n that show ?thesis by (auto simp: wd_facts)
  qed
  moreover from this(1) have "wait_disabled (expiry expires) n s = Some (Suc k, t)"
    using Suc.prems(1) n(2) by (subst wait_disabled.simps) (simp add: enabled_pair expiry_def)
  ultimately show ?case by (auto simp: same_wait_def wd_facts)
qed

lemma wait_disabled_interrupted:
  "wait_disabled hw n s = Some r \<Longrightarrow> running s \<longrightarrow> (\<exists>k\<ge>n. \<exists>t. hw k t \<noteq> t)"
proof (induction rule: wait_disabled.raw_induct [rotated, consumes 1, case_names step])
  case (step w hw n s r)
  show ?case
  proof
    assume "running s"
    with step(2) have "w hw (Suc n) (hw n (power_enable_device 13 s)) = Some r" by (simp add: enabled_pair)
    from step(1) [OF this] \<open>running s\<close> show "\<exists>k\<ge>n. \<exists>t. hw k t \<noteq> t"
      by (cases "hw n (power_enable_device 13 s) = power_enable_device 13 s") (auto simp: wd_facts dest: Suc_leD)
  qed
qed

lemma wait_disabled_hangs:
  assumes "running s" and "\<forall>j\<ge>n. \<not> expires j"
  shows "wait_disabled (expiry expires) n s = None"
proof -
  have "wait_disabled (expiry expires) n s \<noteq> Some r" for r
    using wait_disabled_interrupted [of "expiry expires" n s r] assms by (auto simp: expiry_def)
  then show ?thesis by (metis not_None_eq)
qed

lemma next_expiry:
  fixes n :: nat
  assumes "\<forall>n. \<exists>k\<ge>n. expires k"
  obtains k where "expires k" "n \<le> k" "\<forall>j. n \<le> j \<and> j < k \<longrightarrow> \<not> expires j"
proof -
  from assms obtain k where "expires k \<and> n \<le> k" by blast
  then have "expires (LEAST k. expires k \<and> n \<le> k) \<and> n \<le> (LEAST k. expires k \<and> n \<le> k)" by (rule LeastI [where P = "\<lambda>k. expires k \<and> n \<le> k"])
  moreover have "\<not> expires j" if "n \<le> j" "j < (LEAST k. expires k \<and> n \<le> k)" for j using not_less_Least [OF that(2)] that(1) by blast
  ultimately show thesis using that by blast
qed

lemma full_periods_ends:
  assumes "\<forall>n. \<exists>k\<ge>n. expires k" and "\<not> running s" and "\<not> vic_is_fiq 3 s"
  shows "\<exists>n' t. full_periods (expiry expires) i n s = Some (n', t) \<and> \<not> running t \<and> \<not> vic_is_fiq 3 t
    \<and> loads t = loads s @ replicate i 0xffffffff \<and> wd_function t = wd_function s"
  using assms(2,3)
proof (induction i arbitrary: n s)
  case 0
  then show ?case by simp
next
  case (Suc i)
  let ?s = "watchdog_enable (watchdog_set_load 0xffffffff s)"
  obtain k where k: "expires k" "n \<le> k" "\<forall>j. n \<le> j \<and> j < k \<longrightarrow> \<not> expires j" using next_expiry [OF assms(1)] .
  obtain t where t: "wait_disabled (expiry expires) n ?s = Some (Suc k, t)" "same_wait ?s t" "\<not> running t" "\<not> vic_is_fiq 3 t"
    using wait_disabled_ends [OF _ k, of ?s] by (auto simp: wd_facts)
  from Suc.IH [OF t(3,4), of "Suc k"] t(1,2) show ?case by (auto simp: Let_def same_wait_def wd_facts)
qed


text \<open>
  C30. \<open>msleep\<close> returns when the interrupt of the watchdog keeps arriving, having counted exactly its ticks: the words it
  loads before the restored one sum up to them. The period and the function of the watchdog are as before. The watchdog is left stopped
  even when it was running: the interrupt handler makes it an ordinary interrupt, so the check at the end fails.
\<close>

theorem msleep_returns:
  assumes "\<forall>n. \<exists>k\<ge>n. expires k" and "milis \<noteq> 0"
  shows "\<exists>t first n. msleep undef (expiry expires) milis s = Some t
    \<and> loads t = loads s @ [first] @ replicate n 0xffffffff @ [load_word s]
    \<and> unat first + n * 0xffffffff = unat (milis_ticks undef milis)
    \<and> load_word t = load_word s \<and> wd_function t = wd_function s \<and> \<not> running t"
proof -
  let ?o = "milis_ticks undef milis"
  let ?a = "watchdog_set_reset False (watchdog_disable (power_enable_device 13 s))"
  let ?b = "watchdog_enable (watchdog_set_load (?o mod 0xffffffff) (watchdog_set_function 1 (power_enable_device 13 ?a)))"
  obtain k where k: "expires k" "0 \<le> k" "\<forall>j. 0 \<le> j \<and> j < k \<longrightarrow> \<not> expires j" using next_expiry [OF assms(1)] .
  obtain c where c: "wait_disabled (expiry expires) 0 ?b = Some (Suc k, c)" "same_wait ?b c" "\<not> running c" "\<not> vic_is_fiq 3 c"
    using wait_disabled_ends [OF _ k, of ?b] by (auto simp: wd_facts)
  obtain n' d where d: "full_periods (expiry expires) (unat (?o div 0xffffffff)) (Suc k) c = Some (n', d)" "\<not> running d" "\<not> vic_is_fiq 3 d"
    "loads d = loads c @ replicate (unat (?o div 0xffffffff)) 0xffffffff"
    using full_periods_ends [OF assms(1) c(3,4)] by blast
  let ?e = "if \<not> running s then watchdog_disable d else d"
  let ?t = "watchdog_set_load (load_word s) (watchdog_set_function (wd_function s) ?e)"
  have l: "load_word (power_enable_device 13 ?a) = load_word s" "watchdog_function (power_enable_device 13 ?a) = wd_function s"
    by (simp_all add: wd_facts watchdog_function_def)
  have "\<not> vic_is_fiq 3 ?t" "\<not> running ?t" using d(2,3) by (simp_all add: wd_facts)
  then have "msleep undef (expiry expires) milis s = Some ?t"
    using assms(2) c(1) d(1) unfolding msleep_def sleep_ticks_def enabled_pair load_pair Let_def prod.case l by simp
  moreover have "loads ?t = loads s @ [?o mod 0xffffffff] @ replicate (unat (?o div 0xffffffff)) 0xffffffff @ [load_word s]"
    using c(2) d(4) by (simp add: wd_facts same_wait_def)
  moreover have "unat (?o mod 0xffffffff) + unat (?o div 0xffffffff) * 0xffffffff = unat ?o"
    by (simp add: unat_mod unat_div)
  moreover have "load_word ?t = load_word s" "wd_function ?t = wd_function s" by (simp_all add: wd_facts)
  ultimately show ?thesis using \<open>\<not> running ?t\<close> by blast
qed


text \<open>When the interrupt does not arrive, \<open>msleep\<close> does not return.\<close>

theorem msleep_hangs:
  assumes "\<forall>n. \<not> expires n" and "milis \<noteq> 0"
  shows "msleep undef (expiry expires) milis s = None"
proof -
  have "wait_disabled (expiry expires) 0 (watchdog_enable t) = None" for t
    using assms(1) by (intro wait_disabled_hangs) (simp_all add: wd_facts)
  then show ?thesis using assms(2) by (simp add: msleep_def sleep_ticks_def enabled_pair load_pair Let_def)
qed

text \<open>A watchdog that runs with the period 7 and interrupts as FIQ; every stop ends with its interrupt.\<close>

definition running_watchdog :: watchdog where
  "running_watchdog = \<lparr>regs = (\<lambda>_. 0)(wreg 0 := 7, wreg 2 := 1, reg remapped_vic 3 := 8), writes = [],
     watchdog_oneshot = False, watchdog_reset = False, usr_expired = False, wd_function = 0, fiq_on = True\<rparr>"

lemma msleep_returns_witness:
  "running running_watchdog \<and> (\<exists>t first n. msleep (\<lambda>_. 0) (expiry (\<lambda>_. True)) 1000 running_watchdog = Some t
    \<and> loads t = [first] @ replicate n 0xffffffff @ [7] \<and> wd_function t = 0 \<and> \<not> running t)"
proof -
  have "running running_watchdog" "load_word running_watchdog = 7" "loads running_watchdog = []" "wd_function running_watchdog = 0"
    by (simp_all add: running_watchdog_def running_eq rd_def loads_def wd_addrs)
  with msleep_returns [of "\<lambda>_. True" 1000 "\<lambda>_. 0" running_watchdog] show ?thesis by auto
qed

section \<open>The ticks of a millisecond\<close>

lemma excess_bits_spec: "p < 2 ^ 53 * 2 ^ excess_bits p \<and> (0 < excess_bits p \<longrightarrow> 2 ^ 52 * 2 ^ excess_bits p \<le> p)"
proof (induction p rule: excess_bits.induct)
  case (1 p)
  show ?case
  proof (cases "p < 2 ^ 53")
    case True
    then show ?thesis by (simp add: excess_bits.simps [of p])
  next
    case False
    with 1 have "p div 2 < 2 ^ 53 * 2 ^ excess_bits (p div 2) \<and> (0 < excess_bits (p div 2) \<longrightarrow> 2 ^ 52 * 2 ^ excess_bits (p div 2) \<le> p div 2)" by blast
    moreover have "excess_bits p = Suc (excess_bits (p div 2))" using False by (simp add: excess_bits.simps [of p])
    moreover have "2 ^ 52 * 2 ^ excess_bits (p div 2) \<le> p div 2" if "excess_bits (p div 2) = 0" using that False by simp
    ultimately show ?thesis by auto
  qed
qed

text \<open>The rounded product is off by less than its last place, which is \<open>2 ^ e\<close>.\<close>

lemma round53_near: "round53 p \<le> p + 2 ^ excess_bits p" "p \<le> round53 p + 2 ^ excess_bits p"
proof -
  let ?e = "excess_bits p"
  have "p = p div 2 ^ ?e * 2 ^ ?e + p mod 2 ^ ?e" by (simp only: div_mult_mod_eq)
  moreover have "p mod 2 ^ ?e < 2 ^ ?e" by simp
  moreover have "round53 p = p div 2 ^ ?e * 2 ^ ?e \<or> round53 p = p div 2 ^ ?e * 2 ^ ?e + 2 ^ ?e"
    by (simp add: round53_def Let_def add_mult_distrib)
  ultimately show "round53 p \<le> p + 2 ^ ?e" "p \<le> round53 p + 2 ^ ?e" by linarith+
qed

lemma milis_ticks_bounds:
  assumes "unat milis \<le> 112911"
  shows "1000 * unat (milis_ticks undef milis) \<le> 38038473 * unat milis + 1000"
    and "38038473 * unat milis \<le> 1000 * unat (milis_ticks undef milis) + 1000"
proof -
  let ?p = "163373997524779 * unat milis"
  have "?p \<le> 163373997524779 * 112911" using assms by simp
  then have "?p < 2 ^ 64" by simp
  then have "2 ^ 52 * 2 ^ excess_bits ?p < (2 :: nat) ^ 64 \<or> excess_bits ?p = 0" using excess_bits_spec [of ?p] by linarith
  then have "(2 :: nat) ^ excess_bits ?p < 2 ^ 12" by auto
  then have e: "round53 ?p < ?p + 4096" "?p < round53 ?p + 4096" using round53_near [of ?p] by simp_all
  have d: "round53 ?p = round53 ?p div 2 ^ 32 * 2 ^ 32 + round53 ?p mod 2 ^ 32" "round53 ?p mod 2 ^ 32 < 2 ^ 32" by simp_all
  have s: "round53 ?p div 2 ^ 32 < 2 ^ 32" using e(1) \<open>?p \<le> _\<close> by (simp add: div_less_iff_less_mult)
  then have t: "unat (milis_ticks undef milis) = round53 ?p div 2 ^ 32" by (simp add: milis_ticks_def Let_def unat_of_nat_u32)
  show "1000 * unat (milis_ticks undef milis) \<le> 38038473 * unat milis + 1000"
    "38038473 * unat milis \<le> 1000 * unat (milis_ticks undef milis) + 1000"
    unfolding t using e d assms by simp_all
qed


text \<open>The sleep of a second is 38038473 ticks.\<close>

lemma milis_ticks_second: "milis_ticks undef 1000 = 38038473"
  by (simp add: milis_ticks_def round53_def excess_bits.simps Let_def)

text \<open>The microseconds are counted with 33 ticks each, a different rate, up to 130 seconds.\<close>

lemma microsleep_ticks: "unat (33 * micro) = 33 * unat micro \<longleftrightarrow> unat micro \<le> 130150524" for micro :: u32
proof -
  have "unat (33 * micro) = 33 * unat micro" if "unat micro \<le> 130150524" using that by (subst unat_mult_u32) simp_all
  then show ?thesis using unat_u32_bound [of "33 * micro"] by linarith
qed

section \<open>Mutual exclusion\<close>

datatype mutex_call = Try addr | Unlock addr

fun mutex_run :: "mutex_call list \<Rightarrow> (addr \<Rightarrow> u32) \<Rightarrow> bool list \<times> (addr \<Rightarrow> u32)" where
  "mutex_run [] m = ([], m)"
| "mutex_run (Try a # cs) m = (let (r, m) = tryMutex a m; (rs, m) = mutex_run cs m in (r # rs, m))"
| "mutex_run (Unlock a # cs) m = (let m = unlockMutex a m; (rs, m) = mutex_run cs m in (False # rs, m))"

lemma mutex_held:
  "m a \<noteq> 0 \<Longrightarrow> Unlock a \<notin> set cs \<Longrightarrow> fst (mutex_run (cs @ [Try a]) m) \<noteq> [] \<and> \<not> last (fst (mutex_run (cs @ [Try a]) m))"
proof (induction cs arbitrary: m)
  case Nil
  then show ?case by (simp add: tryMutex_def)
next
  case (Cons c cs)
  show ?case
  proof (cases c)
    case (Try b)
    define m' where "m' = m(b := 1)"
    have "m' a \<noteq> 0" unfolding m'_def using Cons.prems by simp
    from Cons.IH [of m', OF this] Cons.prems(2) show ?thesis by (auto simp: Try m'_def [symmetric] tryMutex_def Let_def split: prod.splits)
  next
    case (Unlock b)
    define m' where "m' = m(b := 0)"
    have "m' a \<noteq> 0" unfolding m'_def using Cons.prems Unlock by auto
    from Cons.IH [of m', OF this] Cons.prems(2) show ?thesis by (auto simp: Unlock m'_def [symmetric] unlockMutex_def Let_def split: prod.splits)
  qed
qed

text \<open>In any interleaving of calls, between two acquisitions of a mutex it is unlocked.\<close>

theorem mutex_exclusive:
  assumes "fst (mutex_run (Try a # cs @ [Try a]) m) = True # rs @ [True]"
  shows "Unlock a \<in> set cs"
proof (rule ccontr)
  assume "Unlock a \<notin> set cs"
  from mutex_held [of "m(a := 1)" a, OF _ this] have "\<not> last (fst (mutex_run (cs @ [Try a]) (m(a := 1))))" by simp
  moreover have "fst (mutex_run (cs @ [Try a]) (m(a := 1))) = rs @ [True]"
    using assms by (simp add: tryMutex_def Let_def split: prod.splits if_splits)
  ultimately show False by simp
qed

end
