(* ===== verification/Fast_Interrupt.thy ===== *)
theory Fast_Interrupt
  imports Waiting Syscall_Handlers
begin

text \<open>
  The fast interrupt handler, exceptions/fiq.c, over the drivers of the watchdog, the timers and the real time clock,
  the system time and the scheduler. The registers of the devices are those of the watchdog state \<open>wdog\<close>; the system
  time works on the same registers.
\<close>

section \<open>State\<close>

record fiq_state =
  wdog :: watchdog
  milis_overflows :: u32
  seconds_overflows :: u32
  relay_watchdog :: u32
  fthreads :: threads
  running_thread :: addr
  usr_thread_regs :: "addr \<Rightarrow> nat \<Rightarrow> u32"

text \<open>What the entry of the interrupt leaves: the saved status words, the address, the pushed words and the registers of the other modes.\<close>

record fiq_frame =
  fiq_spsr :: u32
  fiq_address :: addr
  fiq_regs :: "nat \<Rightarrow> u32"
  fiq_svc_regs :: "nat \<Rightarrow> u32"
  fiq_svc_spsr :: u32
  fiq_usr_regs :: "nat \<Rightarrow> u32"

text \<open>\<open>Thread_Switch\<close> continues with another kernel thread, \<open>Scheduler_Return\<close> with the scheduler of the processes, with an exit code.\<close>

datatype fiq_outcome = Handled | Thread_Switch outcome | Scheduler_Return u32 | Fiq_Panic string

definition on_wdog :: "(watchdog \<Rightarrow> watchdog) \<Rightarrow> fiq_state \<Rightarrow> fiq_state" where
  "on_wdog f s = s\<lparr>wdog := f (wdog s)\<rparr>"

definition on_systime :: "(systime \<Rightarrow> systime) \<Rightarrow> fiq_state \<Rightarrow> fiq_state" where
  "on_systime f s =
     (let c = f \<lparr>regs = regs (wdog s), writes = writes (wdog s),
                timer_milis_overflows = milis_overflows s, timer_seconds_overflows = seconds_overflows s\<rparr>
      in s\<lparr>wdog := (wdog s)\<lparr>regs := regs c, writes := writes c\<rparr>,
           milis_overflows := timer_milis_overflows c, seconds_overflows := timer_seconds_overflows c\<rparr>)"

section \<open>The handler\<close>

abbreviation (input) WATCHDOG_INVALID :: u32 where "WATCHDOG_INVALID \<equiv> 0"
abbreviation (input) WATCHDOG_WAIT :: u32 where "WATCHDOG_WAIT \<equiv> 1"
abbreviation (input) SCHEDULER_OTHER :: u32 where "SCHEDULER_OTHER \<equiv> 5"

definition fiq_return_thread :: "fiq_frame \<Rightarrow> fiq_state \<Rightarrow> fiq_outcome \<times> fiq_state" where
  "fiq_return_thread f s =
     (if running_thread s \<noteq> NULL then
        let t = running_thread s;
            old = usr_thread_regs s t;
            new = (\<lambda>i. if i = 16 then fiq_spsr f
                       else if i = 15 then fiq_address f
                       else if i \<le> 7 then fiq_regs f (i + 1)
                       else if i \<le> 14 then fiq_usr_regs f i
                       else old i)
        in (Scheduler_Return SCHEDULER_OTHER, s\<lparr>usr_thread_regs := (usr_thread_regs s)(t := new)\<rparr>)
      else (Fiq_Panic ''fiq from user mode, but no thread is running!n'', s))"

definition fiq_bit :: "u32 \<Rightarrow> nat \<Rightarrow> bool" where
  "fiq_bit fiq_status i \<longleftrightarrow> fiq_status AND push_bit i 1 \<noteq> 0"

text \<open>The handler from the second timer on.\<close>

definition fiq_second :: "fiq_frame \<Rightarrow> u32 \<Rightarrow> fiq_state \<Rightarrow> fiq_outcome \<times> fiq_state" where
  "fiq_second f fiq_status s =
     (let s = (if fiq_bit fiq_status 19
               then
                 let s = (if timer_irq_status 1 0 (wdog s) then on_systime systime_timer_overflow s else s);
                     s = on_wdog (timer_irq_clear 2 0) s
                 in on_wdog (timer_irq_clear 2 1) s
               else s)
      in if fiq_bit fiq_status 20 then (Fiq_Panic ''fiq from I2C controller!n'', s)
         else if fiq_bit fiq_status 21 then (Fiq_Panic ''fiq from LCD controller!n'', s)
         else if fiq_spsr f AND 0x1F = 0x10
         then
           if fiq_bit fiq_status 3 \<and> watchdog_function (wdog s) = WATCHDOG_WAIT then fiq_return_thread f s
           else (Handled, s)
         else
           if fiq_bit fiq_status 3 \<and> watchdog_function (wdog s) = WATCHDOG_WAIT then (Handled, on_wdog watchdog_disable s)
           else (Handled, s))"

text \<open>The first timer: \<open>None\<close> when the scheduler does not end. A thread switch does not come back.\<close>

definition fiq_first :: "fiq_frame \<Rightarrow> u32 \<Rightarrow> fiq_state \<Rightarrow> (fiq_outcome \<times> fiq_state) option" where
  "fiq_first f fiq_status s =
     (if fiq_bit fiq_status 18
      then
        let systime = timer_irq_status 1 0 (wdog s);
            scheduler = timer_irq_status 1 1 (wdog s);
            s = (if systime then let s = on_wdog (timer_irq_clear 1 0) s in on_systime systime_timer_overflow s else s);
            s = (if scheduler then on_wdog (timer_irq_clear 1 1) s else s)
        in if scheduler \<and> scheduler_is_kernel_scheduling (fthreads s) \<and> \<not> syscall_in_progress (sys (fthreads s))
           then
             Option.bind (schedule_kernel_thread (fiq_regs f) (fiq_svc_regs f) (fiq_spsr f) (fiq_svc_spsr f) (fthreads s)) (\<lambda>(r, th).
               let s = s\<lparr>fthreads := th\<rparr>
               in if r = Returned then Some (fiq_second f fiq_status s) else Some (Thread_Switch r, s))
           else Some (fiq_second f fiq_status s)
      else Some (fiq_second f fiq_status s))"

definition fiq_handler :: "fiq_frame \<Rightarrow> fiq_state \<Rightarrow> (fiq_outcome \<times> fiq_state) option" where
  "fiq_handler f s =
     (let fiq_status = vic_fiq_status (wdog s)
      in if fiq_bit fiq_status 1 then Some (Fiq_Panic ''fiq from uart port!n'', s)
         else if fiq_bit fiq_status 3 \<and> watchdog_function (wdog s) = WATCHDOG_INVALID
         then Some (Handled, s\<lparr>relay_watchdog := 1\<rparr>)
         else
           let s = (if fiq_bit fiq_status 3 then on_wdog watchdog_irq_clear s else s);
               s = (if fiq_bit fiq_status 4
                    then let s = on_systime systime_rtc_overflow s in on_wdog rtc_irq_clear s
                    else s)
           in if fiq_bit fiq_status 7 then Some (Fiq_Panic ''fiq from gpio!n'', s)
              else if fiq_bit fiq_status 8 then Some (Fiq_Panic ''fiq from usb otg controller!n'', s)
              else if fiq_bit fiq_status 9 then Some (Fiq_Panic ''fiq from usb host controller!n'', s)
              else if fiq_bit fiq_status 11 then Some (Fiq_Panic ''fiq from uart port!n'', s)
              else if fiq_bit fiq_status 14 then Some (Fiq_Panic ''fiq from HDQ/1-Wire!n'', s)
              else if fiq_bit fiq_status 15 then Some (Fiq_Panic ''fiq from power management!n'', s)
              else if fiq_bit fiq_status 16 then Some (Fiq_Panic ''fiq from keypad!n'', s)
              else
                let s = (if fiq_bit fiq_status 17
                         then let s = on_wdog (timer_irq_clear 0 0) s in on_wdog (timer_irq_clear 0 1) s
                         else s)
                in fiq_first f fiq_status s)"

section \<open>Safety\<close>

lemma on_simps [simp]:
  "fthreads (on_wdog g s) = fthreads s" "fthreads (on_systime h s) = fthreads s"
  "milis_overflows (on_wdog g s) = milis_overflows s" "seconds_overflows (on_wdog g s) = seconds_overflows s"
  "wdog (on_wdog g s) = g (wdog s)" "relay_watchdog (on_wdog g s) = relay_watchdog s" "relay_watchdog (on_systime h s) = relay_watchdog s"
  by (simp_all add: on_wdog_def on_systime_def Let_def)

lemma on_systime_simps [simp]:
  "milis_overflows (on_systime systime_timer_overflow s) = milis_overflows s + 1"
  "seconds_overflows (on_systime systime_timer_overflow s) = seconds_overflows s"
  "milis_overflows (on_systime systime_rtc_overflow s) = milis_overflows s"
  "seconds_overflows (on_systime systime_rtc_overflow s) = seconds_overflows s + 1"
  "wdog (on_systime systime_timer_overflow s) = wdog s" "wdog (on_systime systime_rtc_overflow s) = wdog s"
  by (simp_all add: on_systime_def systime_timer_overflow_def systime_rtc_overflow_def Let_def)


text \<open>A device whose interrupts the kernel does not use; the first timer aside, the handler is a sequence of steps.\<close>

definition unexpected :: "u32 \<Rightarrow> bool" where
  "unexpected fiq_status \<longleftrightarrow> list_ex (fiq_bit fiq_status) [1, 7, 8, 9, 11, 14, 15, 16, 20, 21]"

definition relayed :: "fiq_state \<Rightarrow> bool" where
  "relayed s \<longleftrightarrow> fiq_bit (vic_fiq_status (wdog s)) 3 \<and> watchdog_function (wdog s) = WATCHDOG_INVALID"

definition before_timers :: "u32 \<Rightarrow> fiq_state \<Rightarrow> fiq_state" where
  "before_timers fiq_status s =
     (let s = (if fiq_bit fiq_status 3 then on_wdog watchdog_irq_clear s else s);
          s = (if fiq_bit fiq_status 4 then on_wdog rtc_irq_clear (on_systime systime_rtc_overflow s) else s)
      in if fiq_bit fiq_status 17 then on_wdog (timer_irq_clear 0 1) (on_wdog (timer_irq_clear 0 0) s) else s)"

lemma fiq_handler_expected:
  assumes "\<not> unexpected (vic_fiq_status (wdog s))"
  shows "fiq_handler f s =
    (if relayed s then Some (Handled, s\<lparr>relay_watchdog := 1\<rparr>)
     else fiq_first f (vic_fiq_status (wdog s)) (before_timers (vic_fiq_status (wdog s)) s))"
  using assms by (simp add: fiq_handler_def unexpected_def relayed_def before_timers_def Let_def)

lemma before_timers_threads [simp]: "fthreads (before_timers st s) = fthreads s"
  by (simp add: before_timers_def Let_def)

text \<open>The end of a wait that interrupts user mode while no thread runs.\<close>

definition idle_wait :: "fiq_frame \<Rightarrow> u32 \<Rightarrow> fiq_state \<Rightarrow> bool" where
  "idle_wait f fiq_status s \<longleftrightarrow> fiq_spsr f AND 0x1F = 0x10 \<and> running_thread s = NULL
     \<and> fiq_bit fiq_status 3 \<and> watchdog_function (wdog s) = WATCHDOG_WAIT"

text \<open>The steps of the handler before the scheduler leave the function of the watchdog and the running thread alone.\<close>

lemma function_kept [simp]:
  "watchdog_function (timer_irq_clear n k w) = watchdog_function w" "watchdog_function (rtc_irq_clear w) = watchdog_function w"
  "watchdog_function (watchdog_irq_clear w) = watchdog_function w" for w :: watchdog
  by (simp_all add: watchdog_function_def timer_irq_clear_def rtc_irq_clear_def wd_facts Let_def)

lemma running_kept [simp]:
  "running_thread (on_wdog g t) = running_thread t" "running_thread (on_systime h t) = running_thread t"
  "watchdog_function (wdog (on_systime h t)) = watchdog_function (wdog t)"
  by (simp_all add: on_wdog_def on_systime_def watchdog_function_def Let_def)

lemma idle_wait_kept [simp]:
  "(\<And>w. watchdog_function (g w) = watchdog_function w) \<Longrightarrow> idle_wait f st (on_wdog g s) = idle_wait f st s"
  "idle_wait f st (on_systime h s) = idle_wait f st s" "idle_wait f st (s\<lparr>fthreads := th\<rparr>) = idle_wait f st s"
  by (simp_all add: idle_wait_def)

lemma idle_wait_before_timers: "idle_wait f st (before_timers st' s) = idle_wait f st s"
  by (simp add: before_timers_def Let_def)

text \<open>
  The result of a step of the handler: the scheduler is in a state of its invariant; a panic has the reason \<open>P\<close>, and when the
  reason is there the step does not end as usual.
\<close>

definition fiq_safe :: "bool \<Rightarrow> (fiq_outcome \<times> fiq_state) option \<Rightarrow> bool" where
  "fiq_safe P x \<longleftrightarrow> (\<exists>r s'. x = Some (r, s') \<and> sched_inv (fthreads s') \<and> (\<forall>m. r \<noteq> Thread_Switch (Panicked m))
     \<and> ((\<exists>m. r = Fiq_Panic m) \<longrightarrow> P) \<and> (r = Handled \<longrightarrow> \<not> P))"

lemma fiq_second_safe:
  assumes "sched_inv (fthreads s)"
  shows "fiq_safe (fiq_bit st 20 \<or> fiq_bit st 21 \<or> idle_wait f st s) (Some (fiq_second f st s))"
proof -
  define t where "t = (if fiq_bit st 19
     then on_wdog (timer_irq_clear 2 1) (on_wdog (timer_irq_clear 2 0)
       (if timer_irq_status 1 0 (wdog s) then on_systime systime_timer_overflow s else s)) else s)"
  have t: "sched_inv (fthreads t)" "idle_wait f st t = idle_wait f st s" using assms by (simp_all add: t_def)
  have "fiq_safe (fiq_bit st 20 \<or> fiq_bit st 21 \<or> idle_wait f st t) (Some (fiq_second f st s))"
    unfolding fiq_second_def Let_def t_def [symmetric]
    using t(1) by (auto simp: fiq_safe_def fiq_return_thread_def idle_wait_def Let_def)
  then show ?thesis unfolding t(2) .
qed

lemma fiq_first_safe:
  assumes "sched_inv (fthreads s)"
  shows "fiq_safe (fiq_bit st 20 \<or> fiq_bit st 21 \<or> idle_wait f st s) (fiq_first f st s)"
proof -
  let ?P = "fiq_bit st 20 \<or> fiq_bit st 21 \<or> idle_wait f st s"
  have n: "fiq_safe ?P (Some (fiq_second f st t))" if "sched_inv (fthreads t)" "idle_wait f st t = idle_wait f st s" for t
    using fiq_second_safe [OF that(1), of st f] that(2) by simp
  have b: "fiq_safe ?P (Option.bind (schedule_kernel_thread a c d e (fthreads s)) (\<lambda>(r, th).
      if r = Returned then Some (fiq_second f st (t\<lparr>fthreads := th\<rparr>)) else Some (Thread_Switch r, t\<lparr>fthreads := th\<rparr>)))"
    if "idle_wait f st t = idle_wait f st s" for a c d e t
  proof -
    from timer_inv [OF assms, of a c d e] obtain r th
      where r: "schedule_kernel_thread a c d e (fthreads s) = Some (r, th)" "sched_inv th" "\<forall>m. r \<noteq> Panicked m" by (auto simp: safe_result_def)
    with n [of "t\<lparr>fthreads := th\<rparr>"] that show ?thesis by (simp add: fiq_safe_def)
  qed
  show ?thesis unfolding fiq_first_def Let_def by (simp add: n b assms)
qed

text \<open>
  C14. The fast interrupt handler ends in every state of the scheduler's invariant and keeps it. It stops the system only for an
  interrupt of a device the kernel does not use, or when the watchdog interrupts, was started for a wait, the interrupted code is in user
  mode and no thread runs; and it never ends as usual in such a case, an interrupt relayed to the TI OS apart.
\<close>

theorem fiq_handler_safe:
  assumes "sched_inv (fthreads s)"
  shows "\<exists>r s'. fiq_handler f s = Some (r, s') \<and> sched_inv (fthreads s') \<and> (\<forall>m. r \<noteq> Thread_Switch (Panicked m))
    \<and> ((\<exists>m. r = Fiq_Panic m) \<longrightarrow> unexpected (vic_fiq_status (wdog s)) \<or> idle_wait f (vic_fiq_status (wdog s)) s)
    \<and> (r = Handled \<longrightarrow> relayed s \<or> \<not> unexpected (vic_fiq_status (wdog s)) \<and> \<not> idle_wait f (vic_fiq_status (wdog s)) s)"
proof -
  let ?st = "vic_fiq_status (wdog s)"
  let ?P = "unexpected ?st \<or> idle_wait f ?st s"
  have relay: "?thesis" if "fiq_handler f s = Some (Handled, s\<lparr>relay_watchdog := 1\<rparr>)" "relayed s" using that assms by simp
  have safe: "?thesis" if "fiq_safe ?P (fiq_handler f s)" using that unfolding fiq_safe_def by blast
  show ?thesis
  proof (cases "relayed s \<and> \<not> fiq_bit ?st 1")
    case True
    then show ?thesis by (intro relay) (simp_all add: fiq_handler_def relayed_def)
  next
    case False
    let ?t = "before_timers ?st s"
    have i: "idle_wait f ?st ?t = idle_wait f ?st s" by (rule idle_wait_before_timers)
    have p: "fiq_safe True (Some (Fiq_Panic m, t))" if "fthreads t = fthreads s" for m t
      using that assms by (simp add: fiq_safe_def)
    show ?thesis
    proof (cases "list_ex (fiq_bit ?st) [1, 7, 8, 9, 11, 14, 15, 16]")
      case panics: True
      then have "unexpected ?st" unfolding unexpected_def by auto
      then have "?P = True" by simp
      moreover have "fiq_safe True (fiq_handler f s)"
        using panics False by (auto simp: fiq_handler_def relayed_def Let_def p)
      ultimately show ?thesis by (intro safe) simp
    next
      case no: False
      have "(fiq_bit ?st 3 \<and> watchdog_function (wdog s) = WATCHDOG_INVALID) = False" using False no by (auto simp: relayed_def)
      with no have "fiq_handler f s = fiq_first f ?st ?t"
        by (simp only: fiq_handler_def before_timers_def Let_def list_ex_Cons_iff list_ex_Nil_iff de_Morgan_disj not_True_eq_False if_False)
      moreover have "unexpected ?st \<longleftrightarrow> fiq_bit ?st 20 \<or> fiq_bit ?st 21" using no by (simp add: unexpected_def)
      ultimately show ?thesis using fiq_first_safe [of ?t ?st f] assms by (intro safe) (simp add: i)
    qed
  qed
qed


section \<open>Counting\<close>

lemma first_timer_status:
  "timer_irq_status 1 0 w = (rd (reg remapped_first_timer 4) w AND 1 = 1)"
  by (simp add: timer_irq_status_def remapped_timer_def)

lemma status_kept [simp]:
  "timer_irq_status 1 0 (watchdog_irq_clear w) = timer_irq_status 1 0 w"
  "timer_irq_status 1 0 (rtc_irq_clear w) = timer_irq_status 1 0 w"
  "timer_irq_status 1 0 (timer_irq_clear 0 0 w) = timer_irq_status 1 0 w"
  "timer_irq_status 1 0 (timer_irq_clear 0 1 w) = timer_irq_status 1 0 w" for w :: watchdog
proof -
  note a = reg_def remapped_first_timer_def remapped_watchdog_def remapped_power_def remapped_vic_def remapped_rtc_def
    remapped_fast_timer_def remapped_timer_def
  have f: "rd b (watchdog_oneshot_update g w) = rd b w" for b g and w :: watchdog by (simp add: rd_def)
  show "timer_irq_status 1 0 (watchdog_irq_clear w) = timer_irq_status 1 0 w"
    by (simp only: first_timer_status watchdog_irq_clear_def watchdog_disable_def power_enable_device_def vic_disable_def
        vic_set_irq_def Let_def rd_wr if_distrib [of "rd _"]) (simp add: a rd_wr)
  show "timer_irq_status 1 0 (rtc_irq_clear w) = timer_irq_status 1 0 w"
    by (simp add: first_timer_status rtc_irq_clear_def rd_wr a)
  show "timer_irq_status 1 0 (timer_irq_clear 0 0 w) = timer_irq_status 1 0 w"
    "timer_irq_status 1 0 (timer_irq_clear 0 1 w) = timer_irq_status 1 0 w"
    by (simp_all add: first_timer_status timer_irq_clear_def rd_wr a)
qed

lemma before_timers_counts:
  "milis_overflows (before_timers st s) = milis_overflows s"
  "seconds_overflows (before_timers st s) = seconds_overflows s + (if fiq_bit st 4 then 1 else 0)"
  "timer_irq_status 1 0 (wdog (before_timers st s)) = timer_irq_status 1 0 (wdog s)"
  by (simp_all add: before_timers_def Let_def)

lemma fiq_second_counts:
  assumes "\<not> fiq_bit st 19"
  shows "milis_overflows (snd (fiq_second f st s)) = milis_overflows s" "seconds_overflows (snd (fiq_second f st s)) = seconds_overflows s"
  using assms by (simp_all add: fiq_second_def fiq_return_thread_def Let_def)

lemma fiq_first_counts:
  assumes "\<not> fiq_bit st 19" and "fiq_first f st s = Some (r, s')"
  shows "milis_overflows s' = milis_overflows s + (if fiq_bit st 18 \<and> timer_irq_status 1 0 (wdog s) then 1 else 0)"
    and "seconds_overflows s' = seconds_overflows s"
proof -
  have c: "milis_overflows s' = milis_overflows t \<and> seconds_overflows s' = seconds_overflows t"
    if "fiq_second f st t = (r, s')" for t
    using fiq_second_counts [OF assms(1), of f t] that by simp
  have "milis_overflows s' = milis_overflows s + (if fiq_bit st 18 \<and> timer_irq_status 1 0 (wdog s) then 1 else 0)
    \<and> seconds_overflows s' = seconds_overflows s"
    using assms(2) unfolding fiq_first_def Let_def
    by (auto split: if_splits Option.bind_splits prod.splits dest: c)
  then show "milis_overflows s' = milis_overflows s + (if fiq_bit st 18 \<and> timer_irq_status 1 0 (wdog s) then 1 else 0)"
    "seconds_overflows s' = seconds_overflows s" by simp_all
qed

text \<open>
  C32. When neither the second timer nor a device the kernel does not use interrupts, an interrupt that is not relayed counts one
  overflow of the seconds for the real time clock and one of the milliseconds for the timer of the system time, and nothing else,
  whichever of the other devices (watchdog, fast timer) interrupt at the same time and whether or not it switches threads. A relayed
  one changes nothing but the flag. With the second timer the count can be wrong, see below.
\<close>

theorem fiq_counts_overflows:
  assumes "\<not> unexpected (vic_fiq_status (wdog s))" and "\<not> fiq_bit (vic_fiq_status (wdog s)) 19" and "fiq_handler f s = Some (r, s')"
  shows "if relayed s then r = Handled \<and> s' = s\<lparr>relay_watchdog := 1\<rparr>
     else seconds_overflows s' = seconds_overflows s + (if fiq_bit (vic_fiq_status (wdog s)) 4 then 1 else 0)
       \<and> milis_overflows s' = milis_overflows s
           + (if fiq_bit (vic_fiq_status (wdog s)) 18 \<and> timer_irq_status 1 0 (wdog s) then 1 else 0)"
  using assms(3) fiq_first_counts [OF assms(2), of f "before_timers (vic_fiq_status (wdog s)) s" r s']
  by (auto simp: fiq_handler_expected [OF assms(1)] before_timers_counts split: if_splits)


text \<open>
  The overflow of the timer of the system time that arrives together with an interrupt of the second timer only is counted but not
  acknowledged; when its own interrupt is handled it is counted once more.
\<close>

definition with_fiq_status :: "u32 \<Rightarrow> fiq_state \<Rightarrow> fiq_state" where
  "with_fiq_status v s = s\<lparr>wdog := (wdog s)\<lparr>regs := (regs (wdog s))(reg remapped_vic 1 := v)\<rparr>\<rparr>"

lemma with_fiq_status_simps [simp]:
  "vic_fiq_status (wdog (with_fiq_status v s)) = v" "milis_overflows (with_fiq_status v s) = milis_overflows s"
  "timer_irq_status 1 0 (wdog (with_fiq_status v s)) = timer_irq_status 1 0 (wdog s)"
  "watchdog_function (wdog (with_fiq_status v s)) = watchdog_function (wdog s)"
  by (simp_all add: with_fiq_status_def vic_fiq_status_def rd_def first_timer_status reg_def remapped_vic_def remapped_first_timer_def watchdog_function_def)

lemma status_bits:
  "fiq_bit 0x80000 i \<longleftrightarrow> i = 19" "fiq_bit 0x40000 i \<longleftrightarrow> i = 18" "fiq_bit 8 i \<longleftrightarrow> i = 3"
proof -
  have e: "fiq_bit (push_bit n 1) i \<longleftrightarrow> i = n" if "n < 32" for n i
  proof -
    have "bit w i" if "bit (w AND push_bit i 1) j" for w :: u32 and j
      using that by (auto simp: bit_and_iff bit_exp_iff)
    moreover have "bit (w AND push_bit i 1) i" if "bit w i" for w :: u32
      using that bit_imp_le_length [OF that] by (auto simp: bit_and_iff bit_exp_iff)
    ultimately have "fiq_bit w i \<longleftrightarrow> bit w i" for w by (metis bit_eqI bit_0_eq bot_apply bot_bool_def fiq_bit_def)
    then show ?thesis using that by (auto simp: bit_exp_iff)
  qed
  from e [of 19] e [of 18] e [of 3]
  show "fiq_bit 0x80000 i \<longleftrightarrow> i = 19" "fiq_bit 0x40000 i \<longleftrightarrow> i = 18" "fiq_bit 8 i \<longleftrightarrow> i = 3" by simp_all
qed

lemma fiq_first_no_threads:
  "running_kernel_thread (fthreads s) = NULL \<Longrightarrow> \<exists>t. fiq_first f st s = Some (fiq_second f st t)"
  by (simp add: fiq_first_def scheduler_is_kernel_scheduling_def Let_def) blast

theorem fiq_second_timer_recount:
  assumes "timer_irq_status 1 0 (wdog s)" and "fiq_spsr f AND 0x1F \<noteq> 0x10" and "running_kernel_thread (fthreads s) = NULL"
  shows "\<exists>s1 s2. fiq_handler f (with_fiq_status 0x80000 s) = Some (Handled, s1) \<and> timer_irq_status 1 0 (wdog s1)
    \<and> fiq_handler f (with_fiq_status 0x40000 s1) = Some (Handled, s2) \<and> milis_overflows s2 = milis_overflows s + 2"
proof -
  have two: "timer_irq_status 1 0 (timer_irq_clear 2 k w) = timer_irq_status 1 0 w" if "k = 0 \<or> k = 1" for k and w :: watchdog
    using that by (auto simp: first_timer_status timer_irq_clear_def remapped_timer_def rd_wr reg_def remapped_first_timer_def remapped_second_timer_def)
  let ?a = "with_fiq_status 0x80000 s"
  let ?s1 = "on_wdog (timer_irq_clear 2 1) (on_wdog (timer_irq_clear 2 0) (on_systime systime_timer_overflow ?a))"
  have 1: "fiq_handler f ?a = Some (Handled, ?s1)"
    using assms(1,2) by (simp add: fiq_handler_def fiq_first_def fiq_second_def status_bits)
  have s: "timer_irq_status 1 0 (wdog ?s1)" using assms(1) by (simp add: two)
  let ?b = "with_fiq_status 0x40000 ?s1"
  obtain s2 where 2: "fiq_handler f ?b = Some (Handled, s2)"
  proof -
    have "running_kernel_thread (fthreads (before_timers 0x40000 ?b)) = NULL" using assms(3) by (simp add: with_fiq_status_def)
    from fiq_first_no_threads [OF this] obtain t where "fiq_first f 0x40000 (before_timers 0x40000 ?b) = Some (fiq_second f 0x40000 t)" by blast
    moreover have "fiq_second f 0x40000 t = (Handled, t)" using assms(2) by (simp add: fiq_second_def status_bits)
    moreover have "\<not> unexpected 0x40000" "\<not> relayed ?b" by (simp_all add: unexpected_def status_bits relayed_def)
    ultimately show ?thesis using that fiq_handler_expected [of ?b f] by simp
  qed
  have "\<not> unexpected (vic_fiq_status (wdog ?b))" "\<not> fiq_bit (vic_fiq_status (wdog ?b)) 19" "\<not> relayed ?b"
    by (simp_all add: unexpected_def status_bits relayed_def)
  from fiq_first_counts(1) [OF this(2), of f "before_timers 0x40000 ?b" Handled s2] 2 s
  have "milis_overflows s2 = milis_overflows ?s1 + 1"
    by (simp add: fiq_handler_expected [OF \<open>\<not> unexpected (vic_fiq_status (wdog ?b))\<close>] \<open>\<not> relayed ?b\<close> before_timers_counts status_bits del: on_simps)
  then have "milis_overflows s2 = milis_overflows s + 2" by simp
  with 1 2 s show ?thesis by blast
qed


section \<open>The end of a wait\<close>

text \<open>
  The interrupt of the watchdog while the kernel waits: the handler does to the watchdog what \<open>expiry\<close> says, so the loop of
  \<open>msleep\<close> ends.
\<close>

theorem fiq_ends_wait:
  assumes "vic_fiq_status (wdog s) = 8" and "watchdog_function (wdog s) = WATCHDOG_WAIT" and "fiq_spsr f AND 0x1F \<noteq> 0x10"
  shows "\<exists>s'. fiq_handler f s = Some (Handled, s') \<and> wdog s' = expiry (\<lambda>_. True) n (wdog s) \<and> \<not> running (wdog s')
    \<and> fthreads s' = fthreads s"
proof -
  have f: "watchdog_function (watchdog_irq_clear (wdog s)) = WATCHDOG_WAIT" using assms(2) by (simp add: watchdog_function_def wd_facts)
  have "fiq_handler f s = Some (Handled, on_wdog watchdog_disable (on_wdog watchdog_irq_clear s))"
    using assms(2,3) f by (simp add: fiq_handler_def fiq_first_def fiq_second_def status_bits assms(1))
  then show ?thesis by (auto simp: expiry_def wd_facts)
qed

section \<open>Concrete runs\<close>

text \<open>The clock and the first timer interrupt together while three threads are scheduled.\<close>

definition fiq_example :: fiq_state where
  "fiq_example = \<lparr>wdog = \<lparr>regs = (\<lambda>_. 0)(reg remapped_vic 1 := 0x40010, reg remapped_first_timer 4 := 1), writes = [],
       watchdog_oneshot = False, watchdog_reset = False, usr_expired = False, wd_function = 1, fiq_on = True\<rparr>,
     milis_overflows = 0xffffffff, seconds_overflows = 5, relay_watchdog = 0, fthreads = threads_example,
     running_thread = NULL, usr_thread_regs = (\<lambda>_ _. 0)\<rparr>"

definition frame_example :: fiq_frame where
  "frame_example = \<lparr>fiq_spsr = 0x13, fiq_address = 0x8000, fiq_regs = (\<lambda>_. 0), fiq_svc_regs = (\<lambda>_. 0), fiq_svc_spsr = 0, fiq_usr_regs = (\<lambda>_. 0)\<rparr>"

lemma threads_example_inv: "sched_inv threads_example"
  unfolding sched_inv_def good_ring_def using ring_example
  by (intro disjI2 exI [of _ "[0x200, 0x300]"]) (simp add: threads_example_def threads_off_def)

lemma fiq_example_status:
  "vic_fiq_status (wdog fiq_example) = 0x40010" "timer_irq_status 1 0 (wdog fiq_example)" "fiq_spsr frame_example AND 0x1F = 0x13"
  "fthreads fiq_example = threads_example" "watchdog_function (wdog fiq_example) = 1"
  "milis_overflows fiq_example = 0xffffffff" "seconds_overflows fiq_example = 5"
  by (simp_all add: fiq_example_def frame_example_def vic_fiq_status_def rd_def first_timer_status reg_def remapped_vic_def
      remapped_first_timer_def watchdog_function_def)

lemma fiq_handler_safe_witness:
  "\<exists>r s'. fiq_handler frame_example fiq_example = Some (r, s') \<and> sched_inv (fthreads s') \<and> (\<forall>m. r \<noteq> Fiq_Panic m)"
proof -
  have "\<not> unexpected (vic_fiq_status (wdog fiq_example))"
    by (simp add: fiq_example_status unexpected_def fiq_bit_def)
  moreover have "\<not> idle_wait frame_example st fiq_example" for st by (simp add: idle_wait_def fiq_example_status)
  ultimately show ?thesis using fiq_handler_safe [of fiq_example frame_example] by (auto simp: fiq_example_status threads_example_inv)
qed

lemma fiq_counts_overflows_witness:
  "\<exists>r s'. fiq_handler frame_example fiq_example = Some (r, s') \<and> milis_overflows s' = 0 \<and> seconds_overflows s' = 6"
proof -
  let ?st = "vic_fiq_status (wdog fiq_example)"
  have u: "\<not> unexpected ?st" "\<not> fiq_bit ?st 19" "\<not> relayed fiq_example" "fiq_bit ?st 4" "fiq_bit ?st 18"
    by (simp_all add: fiq_example_status unexpected_def fiq_bit_def relayed_def)
  have "fiq_first frame_example ?st (before_timers ?st fiq_example) \<noteq> None"
    using fiq_first_safe [of "before_timers ?st fiq_example" ?st frame_example] by (auto simp: fiq_safe_def fiq_example_status threads_example_inv)
  then obtain r s' where "fiq_handler frame_example fiq_example = Some (r, s')" using u by (auto simp: fiq_handler_expected)
  moreover from fiq_counts_overflows [OF u(1,2) this] u have "milis_overflows s' = 0 \<and> seconds_overflows s' = 6"
    by (simp add: fiq_example_status)
  ultimately show ?thesis by blast
qed

end
