(* ===== verification/Background.thy ===== *)
theory Background
  imports Display
begin

text \<open>
  The background module, modules/background: loading images from BMP files (bmp.c, img565.c), recognising the open menus of the
  TI OS by their colours (nspire_menus.c), drawing the image or the slide show behind the main menu and loading new images
  (background.c, background_module.c). Where the TI OS has black pixels the image is drawn.

  A file is the list of its bytes, \<open>nuc_fread\<close> takes as many as it is asked for and there are. \<open>stk\<close> is the address of the header on
  the stack, \<open>bg_mallocs\<close> what \<open>kmalloc\<close> returns next, and \<open>rtc n\<close> is reading number \<open>n\<close> of the clock.
\<close>

section \<open>State\<close>

record background = images +
  bg_mem :: bytes
  bg_mallocs :: "addr list"
  image :: addr
  slideshow :: bool
  slideshow_length :: u32
  slideshow_index :: u32
  last_changed :: u32
  readings :: nat
  open_files :: nat

definition kmalloc_bg :: "background \<Rightarrow> addr \<times> background" where
  "kmalloc_bg s = (case bg_mallocs s of [] \<Rightarrow> (NULL, s) | a # as \<Rightarrow> (a, s\<lparr>bg_mallocs := as\<rparr>))"

definition kfree_bg :: "addr \<Rightarrow> background \<Rightarrow> background" where
  "kfree_bg p s = s\<lparr>img_freed := img_freed s @ [p]\<rparr>"

definition rtc_value :: "(nat \<Rightarrow> u32) \<Rightarrow> background \<Rightarrow> u32 \<times> background" where
  "rtc_value rtc s = (rtc (readings s), s\<lparr>readings := readings s + 1\<rparr>)"

section \<open>Loading a file\<close>

definition nuc_fread :: "addr \<Rightarrow> u32 \<Rightarrow> u8 list \<Rightarrow> bytes \<Rightarrow> u8 list \<times> bytes" where
  "nuc_fread p n f m = (drop (unat n) f, \<lambda>a. if unat (a - p) < min (unat n) (length f) then f ! unat (a - p) else m a)"

text \<open>Both calls of \<open>kmalloc\<close> that \<open>create_img565\<close> makes; for a big image it makes only the first.\<close>

definition new_img565 :: "(u32 \<Rightarrow> u32) \<Rightarrow> u16 \<Rightarrow> u16 \<Rightarrow> background \<Rightarrow> addr \<times> background" where
  "new_img565 rem0 width height s =
     (let (img, s) = kmalloc_bg s;
          (data, s) = (if img \<noteq> NULL \<and> \<not> img_bytes width height > 1024 then kmalloc_bg s else (NULL, s))
      in create_img565 rem0 img data width height s)"

text \<open>The rows of a bitmap of 24 bits per pixel; those of an image with a positive height come from the bottom up.\<close>

definition bmp_rows :: "bool \<Rightarrow> addr \<Rightarrow> u32 \<Rightarrow> u32 \<Rightarrow> u32 \<Rightarrow> addr \<Rightarrow> bytes \<Rightarrow> bytes" where
  "bmp_rows bottom_up pixel_data rowsize width height data m =
     for_u32 0 height (\<lambda>y. for_u32 0 width (\<lambda>x m.
       let p = pixel_data + rowsize * y + x * 3;
           v = rgbto565 (ucast (m (p + 2))) (ucast (m (p + 1))) (ucast (m p))
       in if bottom_up then put16 (data + 2 * (x + ((height - 1) - y) * width)) v m
          else put16 (data + 2 * (x + y * width)) v m)) m"

text \<open>Reading the header field by field.\<close>

definition read_header :: "addr \<Rightarrow> u8 list \<Rightarrow> bytes \<Rightarrow> u8 list \<times> bytes" where
  "read_header stk f m =
     (let (f, m) = nuc_fread stk 2 f m; (f, m) = nuc_fread (stk + 4) 4 f m; (f, m) = nuc_fread (stk + 8) 2 f m;
          (f, m) = nuc_fread (stk + 10) 2 f m in nuc_fread (stk + 12) 4 f m)"

definition load_bmp_file :: "(u32 \<Rightarrow> u32) \<Rightarrow> addr \<Rightarrow> u8 list \<Rightarrow> background \<Rightarrow> addr \<times> background" where
  "load_bmp_file rem0 stk f s =
     (let (f, m) = read_header stk f (bg_mem s);
          s = s\<lparr>bg_mem := m\<rparr>
      in if get16 m stk \<noteq> 0x4D42 then (NULL, s)
         else
           let sz = get32 m (stk + 4);
               pixel_offset = get32 m (stk + 12) - 14;
               pages = sz div SMALL_PAGE_SIZE + 1;
               (rest_file, p) = useConsecutivePages rem0 pages 0 (img_phys s);
               s = s\<lparr>bg_mem := put32 (stk + 12) pixel_offset m, img_phys := p\<rparr>
           in if rest_file = NULL then (NULL, s)
              else
                let (f, m) = nuc_fread rest_file (sz - 14) f (bg_mem s);
                    s = s\<lparr>bg_mem := m\<rparr>;
                    dib_width = get32 m (rest_file + 4);
                    dib_height = get32 m (rest_file + 8);
                    color_planes = get16 m (rest_file + 12);
                    bpp = get16 m (rest_file + 14);
                    compression = get32 m (rest_file + 16);
                    free_pages = (\<lambda>s. s\<lparr>img_phys := freeConsecutivePages rest_file pages (img_phys s)\<rparr>)
                in if color_planes \<noteq> 1 then (NULL, free_pages s)
                   else if compression \<noteq> 0 then (NULL, free_pages s)
                   else
                     let width = dib_width;
                         height = signedtounsigned32 dib_height;
                         (img, s) = new_img565 rem0 (ucast width) (ucast height) s
                     in if img = NULL then (NULL, free_pages s)
                        else
                          let data = img_data (img_at s img);
                              rowsize = (ucast bpp * width) div 8;
                              rowsize = (if rowsize mod 4 \<noteq> 0 then rowsize + (4 - rowsize mod 4) else rowsize)
                          in if bpp = 24 then
                               (img, free_pages (s\<lparr>bg_mem := bmp_rows (sint dib_height > 0) (rest_file + pixel_offset) rowsize width height data (bg_mem s)\<rparr>))
                             else (NULL, destroy_img565 img (free_pages s)))"

section \<open>The menus of the TI OS\<close>

datatype nspire_menu = MENU_ABOUT | MENU_BATTERY | MENU_EXPLORER | MENU_DOC_SETTINGS | MENU_DOC | MENU_SETUP | MENU_HINTS | MENU_INNOVATOR
  | MENU_LANGUAGE | MENU_LOGIN | MENU_MAIN | MENU_NETWORK | MENU_RECENT | MENU_SCRATCHPAD | MENU_SETTINGS_POPUP | MENU_STATUS
  | MENU_LANGUAGE_POPUP | MENU_POPUP_ANY | MENU_ANY

definition nspire_pixel :: "addr \<Rightarrow> u32 \<Rightarrow> bytes \<Rightarrow> u16" where
  "nspire_pixel nspire_framebuffer i m = get16 m (nspire_framebuffer + 2 * i)"

definition menu_open :: "addr \<Rightarrow> nspire_menu \<Rightarrow> bytes \<Rightarrow> bool" where
  "menu_open fb menu m =
     (let menucolor1 = rgbto565 231 227 231;
          menucolor2 = rgbto565 200 191 231;
          menucolor3 = rgbto565 206 203 206;
          menucolor4 = rgbto565 222 28 57;
          menucolor5 = rgbto565 255 251 140;
          menucolor6 = rgbto565 173 170 173;
          menucolor7 = rgbto565 115 113 115;
          menucolor8 = rgbto565 247 247 247;
          menucolor9 = rgbto565 41 150 189;
          at = (\<lambda>i. nspire_pixel fb i m)
      in case menu of
           MENU_ABOUT \<Rightarrow> at 200 = menucolor1
         | MENU_BATTERY \<Rightarrow> at (250*240+35) = menucolor5 \<or> at (174*240+62) = menucolor5 \<or> at (274*240+64) = menucolor5
         | MENU_EXPLORER \<Rightarrow> at (42*240+32) = menucolor3
         | MENU_DOC_SETTINGS \<Rightarrow> at (30*240+225) = menucolor2
         | MENU_DOC \<Rightarrow> at (310*240+10) = menucolor4
         | MENU_SETUP \<Rightarrow> at (11*240+230) = menucolor1
         | MENU_HINTS \<Rightarrow> at 200 = menucolor1
         | MENU_INNOVATOR \<Rightarrow> at (50*240+133) = menucolor7
         | MENU_LANGUAGE \<Rightarrow> at (103*240+130) = menucolor7
         | MENU_LOGIN \<Rightarrow> at (87*240+144) = menucolor7
         | MENU_MAIN \<Rightarrow> False
         | MENU_NETWORK \<Rightarrow> at (137*240+122) = menucolor7
         | MENU_RECENT \<Rightarrow> at (300*240+106) = menucolor8 \<or> at (300*240+106) = menucolor9
         | MENU_SCRATCHPAD \<Rightarrow> at (180*240+10) = menucolor1 \<and> at 60 = rgbto565 0 0 0
         | MENU_SETTINGS_POPUP \<Rightarrow> at (168*240+78) = menucolor8 \<or> at (168*240+78) = menucolor9
         | MENU_STATUS \<Rightarrow> at (82*240+46) = menucolor6
         | MENU_LANGUAGE_POPUP \<Rightarrow> at (267*240+216) = rgbto565 255 255 255
         | MENU_POPUP_ANY \<Rightarrow> at (168*240+78) = menucolor8 \<or> at (168*240+78) = menucolor9 \<or> at (168*240+78) = menucolor1
         | MENU_ANY \<Rightarrow> at (160*240+120) \<noteq> rgbto565 0 0 0 \<or> at 120 \<noteq> rgbto565 0 0 0 \<or> at (319*240+120) \<noteq> rgbto565 0 0 0)"

definition menus_probed :: "nspire_menu list" where
  "menus_probed = [MENU_ABOUT, MENU_BATTERY, MENU_EXPLORER, MENU_DOC_SETTINGS, MENU_DOC, MENU_SETUP, MENU_HINTS, MENU_INNOVATOR,
     MENU_LANGUAGE, MENU_LOGIN, MENU_MAIN, MENU_NETWORK, MENU_RECENT, MENU_SCRATCHPAD, MENU_SETTINGS_POPUP, MENU_STATUS,
     MENU_LANGUAGE_POPUP, MENU_POPUP_ANY]"

section \<open>Drawing\<close>

definition next_image :: "background \<Rightarrow> u32" where
  "next_image s = (if slideshow_index s \<ge> slideshow_length s - 1 then 0 else slideshow_index s + 1)"

definition draw_behind :: "bool \<Rightarrow> addr \<Rightarrow> addr \<Rightarrow> img565 \<Rightarrow> bytes \<Rightarrow> bytes" where
  "draw_behind hw_w nspire framebuffer img m =
     for_u32 0 320 (\<lambda>x. for_u32 23 240 (\<lambda>y m.
       if nspire_pixel nspire (x * 240 + y) m = rgbto565 0 0 0
       then framebuffer_setpixel565 hw_w framebuffer x y (get16 m (img_data img + 2 * (x + y * ucast (img_width img)))) m
       else m)) m"

partial_function (option) background_draw_image ::
  "bool \<Rightarrow> (nat \<Rightarrow> u32) \<Rightarrow> addr \<Rightarrow> addr \<Rightarrow> background \<Rightarrow> background option" where
  "background_draw_image hw_w rtc nspire framebuffer s =
     (if image s = NULL then Some s
      else if list_ex (\<lambda>i. menu_open nspire i (bg_mem s)) menus_probed then Some s
      else if \<not> slideshow s then
        Some (s\<lparr>bg_mem := draw_behind hw_w nspire framebuffer (img_at s (image s)) (bg_mem s)\<rparr>)
      else
        let (now, s) = rtc_value rtc s
        in if now - last_changed s > 15 then
             let s = s\<lparr>slideshow_index := next_image s\<rparr>;
                 (now, s) = rtc_value rtc s;
                 s = s\<lparr>last_changed := now\<rparr>
             in background_draw_image hw_w rtc nspire framebuffer s
           else
             Some (s\<lparr>bg_mem := draw_behind hw_w nspire framebuffer (img_at s (image s + 8 * slideshow_index s)) (bg_mem s)\<rparr>))"

section \<open>Loading new images\<close>

definition background_set_slideshow :: "(nat \<Rightarrow> u32) \<Rightarrow> addr \<Rightarrow> u32 \<Rightarrow> background \<Rightarrow> background" where
  "background_set_slideshow rtc lst len s =
     (let (now, s) = rtc_value rtc s
      in s\<lparr>slideshow := True, image := lst, slideshow_index := 0, last_changed := now, slideshow_length := len\<rparr>)"

definition background_unset_slideshow :: "background \<Rightarrow> background" where
  "background_unset_slideshow s = s\<lparr>slideshow := False, slideshow_index := 0, slideshow_length := 0, last_changed := 0, image := NULL\<rparr>"

definition background_get_slideshow :: "background \<Rightarrow> addr" where
  "background_get_slideshow s = (if \<not> slideshow s then NULL else image s)"

text \<open>What \<open>background_update\<close> and \<open>module_end\<close> do with the present images.\<close>

definition release_images :: "background \<Rightarrow> background" where
  "release_images s =
     (if slideshow s then
        let show = background_get_slideshow s;
            s = for_u32 0 (slideshow_length s) (\<lambda>i. destroy_img565 (show + 8 * i)) s;
            s = background_unset_slideshow s
        in kfree_bg show s
      else
        let img = image s;
            s = s\<lparr>image := NULL\<rparr>
        in destroy_img565 img s)"

text \<open>File number \<open>i\<close>: loaded when it can be opened and all before it were loaded; closed only then.\<close>

definition load_one :: "(u32 \<Rightarrow> u32) \<Rightarrow> addr \<Rightarrow> (nat \<Rightarrow> u8 list option) \<Rightarrow> nat \<Rightarrow> bool \<times> u32 \<times> background \<Rightarrow> addr \<times> bool \<times> u32 \<times> background" where
  "load_one rem0 stk files i x =
     (let (bk, len, s) = x
      in case files i of
           Some f \<Rightarrow>
             let s = s\<lparr>open_files := open_files s + 1\<rparr>
             in if \<not> bk then
                  let (img, s) = load_bmp_file rem0 stk f s;
                      s = s\<lparr>open_files := open_files s - 1\<rparr>
                  in if img = NULL then (NULL, True, of_nat i - 1, s) else (img, bk, len, s)
                else (NULL, True, len, s)
         | None \<Rightarrow> (NULL, True, if \<not> bk then of_nat i - 1 else len, s))"

definition copy_img :: "addr \<Rightarrow> addr \<Rightarrow> background \<Rightarrow> background" where
  "copy_img dst src s = s\<lparr>img_at := (img_at s)(dst := img_at s src)\<rparr>"

definition background_update :: "(u32 \<Rightarrow> u32) \<Rightarrow> (nat \<Rightarrow> u32) \<Rightarrow> addr \<Rightarrow> (nat \<Rightarrow> u8 list option) \<Rightarrow> background \<Rightarrow> background" where
  "background_update rem0 rtc stk files s =
     (let s = release_images s;
          (img1, bk, len, s) = load_one rem0 stk files 1 (False, 0, s);
          (img2, bk, len, s) = load_one rem0 stk files 2 (bk, len, s);
          (img3, bk, len, s) = load_one rem0 stk files 3 (bk, len, s);
          (img4, bk, len, s) = load_one rem0 stk files 4 (bk, len, s);
          len = (if \<not> bk then 4 else len)
      in if img2 = NULL then s\<lparr>image := img1\<rparr>
         else
           let (array, s) = kmalloc_bg s;
               s = (if len = 4 then copy_img (array + 24) img4 s else s);
               s = (if len = 4 \<or> len = 3 then copy_img (array + 16) img3 s else s);
               s = (if len = 4 \<or> len = 3 \<or> len = 2 then copy_img (array + 8) img2 s else s);
               s = copy_img array img1 s
           in background_set_slideshow rtc array len s)"

section \<open>Drawing behind the main menu\<close>

text \<open>The data of an image lies outside a frame buffer.\<close>

definition img_outside :: "addr \<Rightarrow> img565 \<Rightarrow> bool" where
  "img_outside buff i \<longleftrightarrow> (\<forall>x y. x < 320 \<longrightarrow> y < 240 \<longrightarrow> outside buff (img_data i + 2 * (x + y * ucast (img_width i)))
     \<and> outside buff (img_data i + 2 * (x + y * ucast (img_width i)) + 1))"

definition img_pixel :: "img565 \<Rightarrow> bytes \<Rightarrow> u32 \<Rightarrow> u32 \<Rightarrow> u16" where
  "img_pixel i m x y = get16 m (img_data i + 2 * (x + y * ucast (img_width i)))"

lemma nspire_screen: "nspire_pixel buff (x * 240 + y) m = screen True buff m x y"
  by (simp add: nspire_pixel_def screen_def pixel_def)

lemma draw_behind_drawn:
  assumes "img_outside buff i"
  shows "drawn True buff m (\<lambda>X Y. 23 \<le> Y \<and> screen True buff m X Y = rgbto565 0 0 0) (img_pixel i m) (draw_behind True buff buff i m)"
proof -
  define g where "g = (\<lambda>X Y (v :: u16). if v = rgbto565 0 0 0 then img_pixel i m X Y else v)"
  let ?I = "\<lambda>r. r = memory_outside buff m"
  let ?body = "\<lambda>x y m. if nspire_pixel buff (x * 240 + y) m = rgbto565 0 0 0
     then framebuffer_setpixel565 True buff x y (get16 m (img_data i + 2 * (x + y * ucast (img_width i)))) m else m"
  have p: "img.alters True buff ?I g (\<lambda>X Y. X = x \<and> Y = y) (?body x y)" if xy: "x < 320" "y < 240" for x y
  proof (rule img.alters_plot_if [where B = "\<lambda>v. v = rgbto565 0 0 0" and c = "img_pixel i m"])
    fix s
    show "(nspire_pixel buff (x * 240 + y) s = rgbto565 0 0 0) = (screen True buff s x y = rgbto565 0 0 0)" by (simp add: nspire_screen)
    assume "memory_outside buff s = memory_outside buff m"
    with assms xy show "get16 s (img_data i + 2 * (x + y * ucast (img_width i))) = img_pixel i m x y"
      by (simp add: memory_outside_iff img_outside_def img_pixel_def get16_def)
  qed (simp add: g_def)
  have "img.alters True buff ?I g (\<lambda>X Y. \<exists>x. 0 \<le> x \<and> x < 320 \<and> (\<exists>y. 23 \<le> y \<and> y < 240 \<and> (X = x \<and> Y = y))) (draw_behind True buff buff i)"
    unfolding draw_behind_def by (rule img.alters_for, rule img.alters_for, rule p) auto
  from img.altersD [OF this, of m] show ?thesis by (auto simp: drawn_def memory_outside_iff g_def)
qed


lemma next_image_bound: "slideshow_length s \<noteq> 0 \<Longrightarrow> next_image s < slideshow_length s"
proof -
  assume "slideshow_length s \<noteq> 0"
  then have l: "unat (slideshow_length s - 1) = unat (slideshow_length s) - 1" "0 < unat (slideshow_length s)"
    by (simp_all add: unat_minus_one unat_gt_0)
  show ?thesis
  proof (cases "slideshow_index s \<ge> slideshow_length s - 1")
    case True
    then show ?thesis using l(2) by (simp add: next_image_def unat_less_u32)
  next
    case False
    then have i: "unat (slideshow_index s) < unat (slideshow_length s) - 1" by (simp add: l not_le unat_less_u32)
    then have "unat (slideshow_index s + 1) = unat (slideshow_index s) + 1" using unat_u32_bound [of "slideshow_length s"] by (subst unat_add_u32) simp_all
    then show ?thesis using i False by (simp add: next_image_def unat_less_u32)
  qed
qed

text \<open>The image to show: the only one, the present one of the slide show, or its next one after 15 seconds.\<close>

definition time_over :: "(nat \<Rightarrow> u32) \<Rightarrow> background \<Rightarrow> bool" where
  "time_over rtc s \<longleftrightarrow> slideshow s \<and> rtc (readings s) - last_changed s > 15"

definition image_shown :: "(nat \<Rightarrow> u32) \<Rightarrow> background \<Rightarrow> img565" where
  "image_shown rtc s =
     (if \<not> slideshow s then img_at s (image s)
      else img_at s (image s + 8 * (if time_over rtc s then next_image s else slideshow_index s)))"

text \<open>
  C26. On a display whose frame buffer is stored column by column, like that of the TI OS (a build with \<open>_HW_W\<close>), in the main menu, when
  there is an image and the clock does not advance by more than 15 seconds between two readings, drawing
  the background ends: exactly the black pixels below the status line get the pixels of the image to show; the slide show moves on
  to its next image, cyclically, when the time is over.
\<close>

theorem background_draw_image_correct:
  assumes "image s \<noteq> NULL" and "\<not> list_ex (\<lambda>i. menu_open fb i (bg_mem s)) menus_probed"
    and "img_outside fb (image_shown rtc s)" and "rtc (readings s + 2) - rtc (readings s + 1) \<le> 15"
  shows "\<exists>s'. background_draw_image True rtc fb fb s = Some s'
    \<and> drawn True fb (bg_mem s) (\<lambda>X Y. 23 \<le> Y \<and> screen True fb (bg_mem s) X Y = rgbto565 0 0 0)
        (img_pixel (image_shown rtc s) (bg_mem s)) (bg_mem s')
    \<and> slideshow_index s' = (if time_over rtc s then next_image s else slideshow_index s)
    \<and> last_changed s' = (if time_over rtc s then rtc (readings s + 1) else last_changed s)
    \<and> (slideshow_index s < slideshow_length s \<longrightarrow> slideshow_index s' < slideshow_length s')"
proof -
  have b: "next_image s < slideshow_length s" if "slideshow_index s < slideshow_length s"
    using that by (intro next_image_bound) (metis word_not_simps(1))
  let ?run = "\<lambda>t. background_draw_image True rtc fb fb t"
  have d: "drawn True fb (bg_mem s) (\<lambda>X Y. 23 \<le> Y \<and> screen True fb (bg_mem s) X Y = rgbto565 0 0 0)
        (img_pixel (image_shown rtc s) (bg_mem s)) (draw_behind True fb fb (image_shown rtc s) (bg_mem s))"
    by (rule draw_behind_drawn [OF assms(3)])
  show ?thesis
  proof (cases "slideshow s")
    case False
    then have "?run s = Some (s\<lparr>bg_mem := draw_behind True fb fb (image_shown rtc s) (bg_mem s)\<rparr>)"
      using assms(1,2) by (subst background_draw_image.simps) (simp add: image_shown_def)
    then show ?thesis using d False by (simp add: time_over_def)
  next
    case True
    let ?s1 = "s\<lparr>readings := readings s + 1\<rparr>"
    show ?thesis
    proof (cases "time_over rtc s")
      case no: False
      then have "?run s = Some (?s1\<lparr>bg_mem := draw_behind True fb fb (image_shown rtc s) (bg_mem s)\<rparr>)"
        using assms(1,2) True by (subst background_draw_image.simps) (simp add: image_shown_def time_over_def rtc_value_def)
      then show ?thesis using d no b by simp
    next
      case yes: True
      let ?s2 = "s\<lparr>slideshow_index := next_image s, readings := readings s + 2, last_changed := rtc (readings s + 1)\<rparr>"
      have n: "next_image ?s1 = next_image s" by (simp add: next_image_def)
      have "?run s = ?run ?s2"
        using assms(1,2) True yes n by (subst background_draw_image.simps) (simp add: time_over_def rtc_value_def)
      also have "\<dots> = Some (?s2\<lparr>readings := readings s + 3, bg_mem := draw_behind True fb fb (image_shown rtc s) (bg_mem s)\<rparr>)"
        using assms(1,2,4) True yes
        by (subst background_draw_image.simps) (simp add: image_shown_def rtc_value_def not_less [symmetric] numeral_eq_Suc)
      finally show ?thesis using d yes b by simp
    qed
  qed
qed

section \<open>The pixels of an image\<close>

definition cell :: "bytes \<Rightarrow> addr \<Rightarrow> nat \<Rightarrow> u16" where
  "cell m D i = get16 m (D + 2 * of_nat i)"

text \<open>The bytes that do not belong to the \<open>n\<close> pixels at \<open>D\<close> are as before.\<close>

definition same_beside :: "addr \<Rightarrow> nat \<Rightarrow> bytes \<Rightarrow> bytes \<Rightarrow> bool" where
  "same_beside D n m m' \<longleftrightarrow> (\<forall>a. 2 * n \<le> unat (a - D) \<longrightarrow> m' a = m a)"

lemma unat_twice: "i < 2 ^ 30 \<Longrightarrow> unat (2 * of_nat i :: u32) = 2 * i"
  by (subst unat_mult_u32) (simp_all add: unat_of_nat_u32)

lemma cell_put16:
  assumes "i < 2 ^ 30" and "j < 2 ^ 30"
  shows "cell (put16 (D + 2 * of_nat j) v m) D i = (if i = j then v else cell m D i)"
proof (cases "i = j")
  case False
  then have "(2 * of_nat j :: u32) \<noteq> 2 * of_nat i" using unat_twice [OF assms(1)] unat_twice [OF assms(2)] by (metis mult_cancel1 zero_neq_numeral)
  then show ?thesis
    using get16_put16_apart [OF unat_twice [OF assms(2)] unat_twice [OF assms(1)]] assms False by (simp add: cell_def)
qed (simp add: cell_def)

lemma put16_beside:
  assumes "j < n" and "n < 2 ^ 30"
  shows "same_beside D n m (put16 (D + 2 * of_nat j) v m)"
  unfolding same_beside_def
proof (intro allI impI)
  fix a assume a: "2 * n \<le> unat (a - D)"
  have t: "unat (2 * of_nat j :: u32) = 2 * j" using assms by (intro unat_twice) simp
  then have "unat (2 * of_nat j + 1 :: u32) = 2 * j + 1" using assms by (subst unat_add_u32) simp_all
  with a t assms(1) have "a - D \<noteq> 2 * of_nat j" "a - D \<noteq> 2 * of_nat j + 1" by auto
  then show "put16 (D + 2 * of_nat j) v m a = m a" by (intro put16_other) (auto simp: algebra_simps)
qed

text \<open>A loop that gives every pixel in its list a colour read from elsewhere.\<close>

lemma fill_fold:
  assumes n: "n < 2 ^ 30" and ks: "distinct (map ix ks)" "\<And>k. k \<in> set ks \<Longrightarrow> ix k < n"
    and v: "\<And>k m'. k \<in> set ks \<Longrightarrow> same_beside D n m m' \<Longrightarrow> v k m' = V k"
  shows "same_beside D n m (fold (\<lambda>k m. put16 (D + 2 * of_nat (ix k)) (v k m) m) ks m)"
    and "k \<in> set ks \<Longrightarrow> cell (fold (\<lambda>k m. put16 (D + 2 * of_nat (ix k)) (v k m) m) ks m) D (ix k) = V k"
  using ks v
proof (induction ks arbitrary: k rule: rev_induct)
  case Nil
  { case 1 show ?case by (simp add: same_beside_def) }
  { case 2 then show ?case by simp }
next
  case (snoc j js)
  let ?F = "fold (\<lambda>k m. put16 (D + 2 * of_nat (ix k)) (v k m) m)"
  let ?m = "?F js m"
  {
    case 1
    have b: "same_beside D n m ?m" by (rule snoc.IH(1)) (use 1 in auto)
    moreover have "same_beside D n ?m (put16 (D + 2 * of_nat (ix j)) (v j ?m) ?m)" by (rule put16_beside) (use 1 n in auto)
    ultimately show ?case by (simp add: same_beside_def)
  }
  {
    case 2
    have b: "same_beside D n m ?m" by (rule snoc.IH(1)) (use 2 in auto)
    have j: "ix j < 2 ^ 30" "ix k < 2 ^ 30" using 2 n by (meson in_set_conv_decomp less_trans)+
    show ?case
    proof (cases "k = j")
      case True
      then show ?thesis using 2(4) [OF _ b, of j] cell_put16 [OF j(1,1)] by simp
    next
      case False
      then have k: "k \<in> set js" using 2(1) by simp
      then have "ix k \<in> ix ` set js" by simp
      then have "ix k \<noteq> ix j" using 2(2) by auto
      moreover have "cell ?m D (ix k) = V k" by (rule snoc.IH(2)) (use 2 k in auto)
      ultimately show ?thesis using cell_put16 [OF j(2,1)] by simp
    qed
  }
qed


definition pairs :: "nat \<Rightarrow> nat \<Rightarrow> (nat \<times> nat) list" where
  "pairs w h = concat (map (\<lambda>y. map (\<lambda>x. (x, y)) [0..<w]) [0..<h])"

lemma set_pairs: "(x, y) \<in> set (pairs w h) \<longleftrightarrow> x < w \<and> y < h"
  by (force simp: pairs_def)

lemma fold_pairs: "fold (\<lambda>y. fold (\<lambda>x. B (x, y)) [0..<w]) [0..<h] m = fold B (pairs w h) m"
  unfolding pairs_def by (induction h arbitrary: m) (simp_all add: fold_map comp_def)

text \<open>The row of the image that row \<open>y\<close> of the file is, and the other way round.\<close>

definition row :: "bool \<Rightarrow> nat \<Rightarrow> nat \<Rightarrow> nat" where
  "row bottom_up h y = (if bottom_up then h - 1 - y else y)"

lemma row_bound: "y < h \<Longrightarrow> row b h y < h" and row_row: "y < h \<Longrightarrow> row b h (row b h y) = y"
  by (auto simp: row_def)

lemma place_inj:
  assumes "x < w" "x' < w" "y < h" "y' < h" and "x + row b h y * w = x' + row b h y' * w"
  shows "x = x' \<and> y = y'"
proof -
  have "(x + row b h y * w) div w = row b h y" "(x' + row b h y' * w) div w = row b h y'" using assms(1,2) by simp_all
  then have r: "row b h y = row b h y'" using assms(5) by simp
  then show ?thesis using assms by (metis add_right_cancel row_row)
qed

lemma place_bound:
  assumes "x < w" "y < h"
  shows "x + row b h y * w < w * h"
proof -
  have "row b h y + 1 \<le> h" using row_bound [OF assms(2)] by (simp add: Suc_le_eq)
  then have "(row b h y + 1) * w \<le> h * w" by (rule mult_le_mono1)
  then show ?thesis using assms(1) by (simp add: mult.commute)
qed

lemma distinct_places: "distinct (map (\<lambda>(x, y). x + row b h y * w) (pairs w h))"
proof -
  have "distinct (pairs w h)"
    by (induction h) (auto simp: pairs_def distinct_map inj_on_def)
  moreover have "inj_on (\<lambda>(x, y). x + row b h y * w) (set (pairs w h))"
  proof (rule inj_onI)
    fix p q assume p: "p \<in> set (pairs w h)" "q \<in> set (pairs w h)" and e: "(\<lambda>(x, y). x + row b h y * w) p = (\<lambda>(x, y). x + row b h y * w) q"
    obtain x y x' y' where "p = (x, y)" "q = (x', y')" by (metis surj_pair)
    with p e show "p = q" using place_inj [of x w x' y h y' b] by (simp add: set_pairs)
  qed
  ultimately show ?thesis by (simp add: distinct_map)
qed

text \<open>The colour of pixel \<open>x\<close> of row \<open>y\<close> of the file.\<close>

definition bmp_colour :: "bytes \<Rightarrow> addr \<Rightarrow> u32 \<Rightarrow> nat \<Rightarrow> nat \<Rightarrow> u16" where
  "bmp_colour m pixel_data rowsize x y =
     (let p = pixel_data + rowsize * of_nat y + of_nat x * 3 in rgbto565 (ucast (m (p + 2))) (ucast (m (p + 1))) (ucast (m p)))"

lemma bmp_rows_fold:
  assumes "w < 4294967296" "h < 4294967296"
  shows "bmp_rows b pd rs (of_nat w) (of_nat h) D m
    = fold (\<lambda>k m. put16 (D + 2 * of_nat ((\<lambda>(x, y). x + row b h y * w) k)) ((\<lambda>(x, y). bmp_colour m pd rs x y) k) m) (pairs w h) m"
proof -
  let ?B = "\<lambda>k m. put16 (D + 2 * of_nat ((\<lambda>(x, y). x + row b h y * w) k)) ((\<lambda>(x, y). bmp_colour m pd rs x y) k) m"
  have i: "of_nat x + ((of_nat h - 1) - of_nat y) * of_nat w = (of_nat (x + (h - 1 - y) * w) :: u32)" if "y < h" for x y
  proof -
    have "(of_nat (h - (1 + y)) :: u32) = of_nat h - of_nat (1 + y)" using that by (intro of_nat_diff) simp
    then have "(of_nat h - 1) - of_nat y = (of_nat (h - 1 - y) :: u32)" by (simp add: algebra_simps)
    then show ?thesis by (simp only: of_nat_add of_nat_mult)
  qed
  have "bmp_rows b pd rs (of_nat w) (of_nat h) D m = fold (\<lambda>y. fold (\<lambda>x. ?B (x, y)) [0..<w]) [0..<h] m"
    unfolding bmp_rows_def for_u32_fold
    by (rule fold_cong) (use i in \<open>auto simp: assms unat_of_nat_u32 fun_eq_iff bmp_colour_def row_def Let_def intro!: fold_cong\<close>)
  then show ?thesis using fold_pairs [of ?B w h m] by (rule trans)
qed

lemma bmp_rows_correct:
  assumes wh: "w < 4294967296" "h < 4294967296" "w * h < 2 ^ 30"
    and src: "\<And>x y c. x < w \<Longrightarrow> y < h \<Longrightarrow> c < 3 \<Longrightarrow> 2 * (w * h) \<le> unat (pd + rs * of_nat y + of_nat x * 3 + of_nat c - D)"
  shows "same_beside D (w * h) m (bmp_rows b pd rs (of_nat w) (of_nat h) D m)"
    and "x < w \<Longrightarrow> y < h \<Longrightarrow> cell (bmp_rows b pd rs (of_nat w) (of_nat h) D m) D (x + y * w) = bmp_colour m pd rs x (row b h y)"
proof -
  have v: "(\<lambda>(x, y). bmp_colour m' pd rs x y) k = (\<lambda>(x, y). bmp_colour m pd rs x y) k"
    if "k \<in> set (pairs w h)" "same_beside D (w * h) m m'" for k m'
  proof -
    obtain x y where k': "k = (x, y)" by (cases k)
    then have k: "k = (x, y)" "x < w" "y < h" using that(1) by (simp_all add: set_pairs)
    define p where "p = pd + rs * of_nat y + of_nat x * 3"
    have a: "m' (p + of_nat c) = m (p + of_nat c)" if "c < 3" for c
      using src [OF k(2,3) that, folded p_def] \<open>same_beside D (w * h) m m'\<close> by (simp only: same_beside_def)
    have "m' p = m p" "m' (p + 1) = m (p + 1)" "m' (p + 2) = m (p + 2)" using a [of 0] a [of 1] a [of 2] by simp_all
    then show ?thesis by (simp only: k prod.case bmp_colour_def Let_def p_def [symmetric])
  qed
  have bd: "(\<lambda>(x, y). x + row b h y * w) k < w * h" if "k \<in> set (pairs w h)" for k
    using that place_bound by (auto simp: set_pairs split: prod.splits)
  note F = fill_fold [where ix = "\<lambda>(x, y). x + row b h y * w" and D = D and m = m
      and v = "\<lambda>k m. (\<lambda>(x, y). bmp_colour m pd rs x y) k" and V = "\<lambda>k. (\<lambda>(x, y). bmp_colour m pd rs x y) k", OF wh(3) distinct_places]
  show "same_beside D (w * h) m (bmp_rows b pd rs (of_nat w) (of_nat h) D m)"
    unfolding bmp_rows_fold [OF wh(1,2)] by (rule F(1)) (rule bd v, assumption+)+
  assume xy: "x < w" "y < h"
  then have k: "(x, row b h y) \<in> set (pairs w h)" using row_bound by (simp add: set_pairs)
  have "cell (bmp_rows b pd rs (of_nat w) (of_nat h) D m) D ((\<lambda>(x, y). x + row b h y * w) (x, row b h y))
      = (\<lambda>(x, y). bmp_colour m pd rs x y) (x, row b h y)"
    unfolding bmp_rows_fold [OF wh(1,2)] by (rule F(2) [OF _ _ k]) (rule bd v, assumption+)+
  then show "cell (bmp_rows b pd rs (of_nat w) (of_nat h) D m) D (x + y * w) = bmp_colour m pd rs x (row b h y)"
    using xy by (simp add: row_row)
qed

section \<open>Loading an image\<close>

text \<open>Half words and words of a file.\<close>

definition file16 :: "u8 list \<Rightarrow> nat \<Rightarrow> u16" where
  "file16 f k = ucast (f ! k) OR push_bit 8 (ucast (f ! (k + 1)))"

definition file32 :: "u8 list \<Rightarrow> nat \<Rightarrow> u32" where
  "file32 f k = ucast (f ! k) OR push_bit 8 (ucast (f ! (k + 1))) OR push_bit 16 (ucast (f ! (k + 2))) OR push_bit 24 (ucast (f ! (k + 3)))"

lemma nuc_fread_eq:
  "unat n \<le> length f \<Longrightarrow> nuc_fread p n f m = (drop (unat n) f, \<lambda>a. if unat (a - p) < unat n then f ! unat (a - p) else m a)"
  by (auto simp: nuc_fread_def)

lemma fields_file:
  assumes "\<And>j. j < n \<Longrightarrow> m (p + of_nat j) = f ! (off + j)"
  shows "k + 2 \<le> n \<Longrightarrow> get16 m (p + of_nat k) = file16 f (off + k)" and "k + 4 \<le> n \<Longrightarrow> get32 m (p + of_nat k) = file32 f (off + k)"
  using assms [of k] assms [of "k + 1"] assms [of "k + 2"] assms [of "k + 3"]
  by (simp_all add: get16_def file16_def get32_def file32_def algebra_simps numeral_eq_Suc)

lemma read_header_file:
  assumes "14 \<le> length f" and "read_header stk f m = (f', m')"
  shows "f' = drop 14 f" "get16 m' stk = file16 f 0" "get32 m' (stk + 4) = file32 f 2" "get32 m' (stk + 12) = file32 f 10"
    and "16 \<le> unat (a - stk) \<Longrightarrow> m' a = m a"
proof -
  have n: "(14 :: nat) \<le> length f" by fact
  have neg: "unat (- 1 :: u32) = 4294967295" by (simp add: unsigned_minus_1_eq_mask mask_eq_exp_minus_1)
  have "read_header stk f m = (drop 14 f, \<lambda>a. if unat (a - (stk + 12)) < 4 then f ! (10 + unat (a - (stk + 12)))
      else if unat (a - (stk + 10)) < 2 then f ! (8 + unat (a - (stk + 10))) else if unat (a - (stk + 8)) < 2 then f ! (6 + unat (a - (stk + 8)))
      else if unat (a - (stk + 4)) < 4 then f ! (2 + unat (a - (stk + 4))) else if unat (a - stk) < 2 then f ! unat (a - stk) else m a)"
    using n by (simp add: read_header_def nuc_fread_eq nth_drop cong: if_cong)
  with assms(2) have f': "f' = drop 14 f" and m': "m' = (\<lambda>a. if unat (a - (stk + 12)) < 4 then f ! (10 + unat (a - (stk + 12)))
      else if unat (a - (stk + 10)) < 2 then f ! (8 + unat (a - (stk + 10))) else if unat (a - (stk + 8)) < 2 then f ! (6 + unat (a - (stk + 8)))
      else if unat (a - (stk + 4)) < 4 then f ! (2 + unat (a - (stk + 4))) else if unat (a - stk) < 2 then f ! unat (a - stk) else m a)"
    by simp_all
  show "f' = drop 14 f" by (rule f')
  show "get16 m' stk = file16 f 0" by (simp add: m' get16_def file16_def)
  show "get32 m' (stk + 4) = file32 f 2" "get32 m' (stk + 12) = file32 f 10" by (simp_all add: m' get32_def file32_def neg)
  assume a: "16 \<le> unat (a - stk)"
  have "\<not> unat (a - (stk + c)) < k" if "unat c + k \<le> 16" for c :: u32 and k
  proof -
    have "unat c \<le> unat (a - stk)" using that a by simp
    then have "unat (a - stk - c) = unat (a - stk) - unat c" by (intro unat_sub_u32) (simp add: unat_le_u32)
    then have "unat (a - (stk + c)) = unat (a - stk) - unat c" by (simp only: diff_diff_eq)
    then show ?thesis using a that by linarith
  qed
  from this [of 12 4] this [of 10 2] this [of 8 2] this [of 4 4] this [of 0 2] show "m' a = m a" by (simp add: m')
qed

text \<open>A new image does not depend on the bytes of the memory and does not change them.\<close>

lemma new_img565_mem: "new_img565 rem0 w h (s\<lparr>bg_mem := m\<rparr>) = (case new_img565 rem0 w h s of (i, t) \<Rightarrow> (i, t\<lparr>bg_mem := m\<rparr>))"
  by (auto simp: new_img565_def create_img565_def kmalloc_bg_def Let_def split: prod.splits list.splits if_splits)

lemma new_img565_size:
  assumes "new_img565 rem0 w h s = (img, t)" and "img \<noteq> NULL"
  shows "img_width (img_at t img) = w" "img_height (img_at t img) = h" "bg_mem t = bg_mem s"
  using assms by (auto simp: new_img565_def create_img565_def kmalloc_bg_def Let_def split: prod.splits list.splits if_splits)


text \<open>
  A BMP file of 24 bits per pixel, \<open>w\<close> pixels wide and \<open>h\<close> high, whose rows start at \<open>po\<close>.
\<close>

definition row_bytes :: "nat \<Rightarrow> nat" where
  "row_bytes w = (3 * w + 3) div 4 * 4"

definition bmp24 :: "u8 list \<Rightarrow> nat \<Rightarrow> nat \<Rightarrow> bool \<Rightarrow> nat \<Rightarrow> bool" where
  "bmp24 f w h bottom_up po \<longleftrightarrow> length f < 2 ^ 31 \<and> 54 \<le> po \<and> po + row_bytes w * h \<le> length f
     \<and> 0 < w \<and> w < 65536 \<and> 0 < h \<and> h < 65536 \<and> w * h < 2 ^ 30
     \<and> file16 f 0 = 0x4D42 \<and> file32 f 2 = of_nat (length f) \<and> file32 f 10 = of_nat po
     \<and> file32 f 18 = of_nat w \<and> file32 f 22 = (if bottom_up then of_nat h else - of_nat h)
     \<and> file16 f 26 = 1 \<and> file16 f 28 = 24 \<and> file32 f 30 = 0"

text \<open>The colour the file has for the pixel \<open>x\<close>, \<open>y\<close> of the image.\<close>

definition file_pixel :: "u8 list \<Rightarrow> nat \<Rightarrow> nat \<Rightarrow> bool \<Rightarrow> nat \<Rightarrow> nat \<Rightarrow> nat \<Rightarrow> u16" where
  "file_pixel f w h bottom_up po x y =
     (let p = po + row_bytes w * row bottom_up h y + 3 * x in rgbto565 (ucast (f ! (p + 2))) (ucast (f ! (p + 1))) (ucast (f ! p)))"

lemma row_size:
  assumes "w < 65536"
  shows "(let rowsize = (ucast (24 :: u16) * (of_nat w :: u32)) div 8
          in if rowsize mod 4 \<noteq> 0 then rowsize + (4 - rowsize mod 4) else rowsize) = of_nat (row_bytes w)"
proof -
  let ?r = "(24 * of_nat w :: u32) div 8"
  have "unat (24 * of_nat w :: u32) = 24 * w" using assms by (subst unat_mult_u32) (simp_all add: unat_of_nat_u32)
  then have r: "unat ?r = 3 * w" by (simp add: unat_div)
  then have m: "unat (?r mod 4) = 3 * w mod 4" by (simp add: unat_mod)
  have b: "(3 * w) mod 4 < 4" "row_bytes w = (if 3 * w mod 4 = 0 then 3 * w else 3 * w + (4 - 3 * w mod 4))"
    unfolding row_bytes_def by (simp, presburger)
  have z: "?r mod 4 = 0 \<longleftrightarrow> 3 * w mod 4 = 0" using m by (metis unat_eq_zero)
  have u: "unat (if ?r mod 4 \<noteq> 0 then ?r + (4 - ?r mod 4) else ?r) = row_bytes w"
  proof (cases "3 * w mod 4 = 0")
    case True
    then show ?thesis using z r b(2) by simp
  next
    case False
    have "unat (4 - ?r mod 4) = 4 - 3 * w mod 4" using b(1) m by (subst unat_sub_u32) (simp_all add: unat_le_u32)
    moreover from this have "unat (?r + (4 - ?r mod 4)) = 3 * w + (4 - 3 * w mod 4)" using r assms by (subst unat_add_u32) simp_all
    ultimately show ?thesis using False z b(2) by simp
  qed
  have "row_bytes w < 4294967296" using assms by (simp add: row_bytes_def)
  then have "unat (of_nat (row_bytes w) :: u32) = row_bytes w" by (rule unat_of_nat_u32)
  then have "(if ?r mod 4 \<noteq> 0 then ?r + (4 - ?r mod 4) else ?r) = of_nat (row_bytes w)"
    by (intro word_unat_eq_iff [THEN iffD2]) (rule trans [OF u sym])
  moreover have "ucast (24 :: u16) = (24 :: u32)" by simp
  ultimately show ?thesis unfolding Let_def by (simp only:)
qed


text \<open>
  C11. Loading a BMP file of 24 bits per pixel, given pages for the file and memory for an image that do not overlap: the image has the
  size the file says, each of its pixels has the colour of the file, with the rows of a positive height from the bottom up, and the
  pages of the file are free again.
\<close>

theorem load_bmp_file_correct:
  assumes bmp: "bmp24 f w h b po"
    and pages: "useConsecutivePages rem0 (of_nat (length f) div 4096 + 1) 0 (img_phys s) = (R, p1)" "R \<noteq> NULL"
    and new: "new_img565 rem0 (of_nat w) (of_nat h) (s\<lparr>img_phys := p1\<rparr>) = (img, t)" "img \<noteq> NULL"
    and apart: "\<And>k. k < length f - 14 \<Longrightarrow> 2 * (w * h) \<le> unat (R + of_nat k - img_data (img_at t img))"
  shows "\<exists>s'. load_bmp_file rem0 stk f s = (img, s')
    \<and> img_width (img_at s' img) = of_nat w \<and> img_height (img_at s' img) = of_nat h
    \<and> list_all (\<lambda>y. list_all (\<lambda>x. cell (bg_mem s') (img_data (img_at s' img)) (x + y * w) = file_pixel f w h b po x y) [0..<w]) [0..<h]
    \<and> img_phys s' = freeConsecutivePages R (of_nat (length f) div 4096 + 1) (img_phys t)"
proof -
  let ?D = "img_data (img_at t img)"
  note bm = bmp [unfolded bmp24_def]
  have len: "54 \<le> length f" "length f < 2 ^ 31" "po < 2 ^ 31" using bm by simp_all
  obtain f1 m1 where h: "read_header stk f (bg_mem s) = (f1, m1)" by fastforce
  note hd = read_header_file [OF _ h]
  have hdr: "f1 = drop 14 f" "get16 m1 stk = 0x4D42" "get32 m1 (stk + 4) = of_nat (length f)" "get32 m1 (stk + 12) = of_nat po"
    using hd(1-4) len bm by simp_all
  have un: "unat (of_nat n :: u32) = n" if "n < 2 ^ 31" for n using that by (intro unat_of_nat_u32) simp
  have sz: "unat (of_nat (length f) - 14 :: u32) = length f - 14"
    using len un [of "length f"] by (subst unat_sub_u32) (simp_all add: unat_le_u32)
  define m2 where "m2 = put32 (stk + 12) (of_nat po - 14) m1"
  define m3 where "m3 = snd (nuc_fread R (of_nat (length f) - 14) (drop 14 f) m2)"
  have nf: "nuc_fread R (of_nat (length f) - 14) (drop 14 f) m2
      = (drop (length f - 14) (drop 14 f), \<lambda>a. if unat (a - R) < length f - 14 then drop 14 f ! unat (a - R) else m2 a)"
    using nuc_fread_eq [of "of_nat (length f) - 14" "drop 14 f" R m2] sz by simp
  have m3: "m3 (R + of_nat k) = f ! (14 + k)" if "k < length f - 14" for k
    using that len un [of k] by (simp add: m3_def nf nth_drop)
  have fr: "nuc_fread R (of_nat (length f) - 14) (drop 14 f) m2 = ([], m3)" using len by (simp add: m3_def nf)
  note fields = fields_file [of "length f - 14" m3 R f 14, OF m3]
  have l: "20 \<le> length f - 14" using len by simp
  have dib: "get32 m3 (R + 4) = of_nat w" "get32 m3 (R + 8) = (if b then of_nat h else - of_nat h)" "get16 m3 (R + 12) = 1"
     "get16 m3 (R + 14) = 24" "get32 m3 (R + 16) = 0"
    using fields(2) [of 4] fields(2) [of 8] fields(1) [of 12] fields(1) [of 14] fields(2) [of 16] l bm by simp_all
  have sh: "sint (of_nat h :: u32) = int h" using bm un [of h] by (subst sint_u32_small) simp_all
  then have "sint (- of_nat h :: u32) = - int h"
    using bm by (simp add: sint_word_ariths signed_take_bit_int_eq_self)
  then have sgn: "signedtounsigned32 (if b then of_nat h else - of_nat h) = of_nat h" "sint (if b then of_nat h else - of_nat h :: u32) > 0 \<longleftrightarrow> b"
    using bm sh by (auto simp: signedtounsigned32_def)
  let ?rs = "of_nat (row_bytes w) :: u32"
  let ?pd = "R + (of_nat po - 14)"
  have rs: "(let rowsize = (ucast (24 :: u16) * (of_nat w :: u32)) div 8
          in if rowsize mod 4 \<noteq> 0 then rowsize + (4 - rowsize mod 4) else rowsize) = ?rs" using row_size bm by blast
  have rs': "(24 * of_nat w :: u32) div 8 mod 4 \<noteq> 0 \<Longrightarrow> 24 * of_nat w div 8 + (4 - 24 * of_nat w div 8 mod 4) = ?rs"
    "(24 * of_nat w :: u32) div 8 mod 4 = 0 \<Longrightarrow> 24 * of_nat w div 8 = ?rs"
    using rs [unfolded Let_def] by (auto split: if_splits)
  have uw: "ucast (of_nat w :: u32) = (of_nat w :: u16)" "ucast (of_nat h :: u32) = (of_nat h :: u16)"
    using bm by (simp_all add: unsigned_of_nat take_bit_nat_eq_self)
  let ?m4 = "bmp_rows b ?pd ?rs (of_nat w) (of_nat h) ?D m3"
  let ?free = "freeConsecutivePages R (of_nat (length f) div 4096 + 1)"
  let ?s' = "t\<lparr>bg_mem := ?m4, img_phys := ?free (img_phys t)\<rparr>"
  have run: "load_bmp_file rem0 stk f s = (img, ?s')"
    unfolding load_bmp_file_def Let_def h prod.case hdr pages(1) m2_def [symmetric]
    using pages(2) new(2) rs' by (simp add: fr pages(1) m2_def [symmetric] dib sgn new_img565_mem new(1) uw)
  have idx: "po - 14 + row_bytes w * y + 3 * x + c < length f - 14" if "x < w" "y < h" "c < 3" for x y c
  proof -
    have "row_bytes w * (y + 1) \<le> row_bytes w * h" using that(2) by (intro mult_le_mono2) simp
    then have "row_bytes w * y + row_bytes w \<le> row_bytes w * h" by simp
    moreover have "3 * x + c < row_bytes w" using that(1,3) unfolding row_bytes_def by presburger
    moreover have "54 \<le> po" "po + row_bytes w * h \<le> length f" using bm by simp_all
    ultimately show ?thesis by linarith
  qed
  have at: "?pd + ?rs * of_nat y + of_nat x * 3 + of_nat c = R + of_nat (po - 14 + row_bytes w * y + 3 * x + c)" for x y c
  proof -
    have "(of_nat (po - 14) :: u32) = of_nat po - 14" using bm by (subst of_nat_diff) simp_all
    then show ?thesis by (simp add: algebra_simps)
  qed
  have col: "bmp_colour m3 ?pd ?rs x (row b h y) = file_pixel f w h b po x y" if "x < w" "y < h" for x y
  proof -
    let ?p = "?pd + ?rs * of_nat (row b h y) + of_nat x * 3"
    let ?q = "po + row_bytes w * row b h y + 3 * x"
    have "m3 (?p + of_nat c) = f ! (?q + c)" if c: "c < 3" for c
    proof -
      note i = idx [OF \<open>x < w\<close> row_bound [OF \<open>y < h\<close>] c]
      have "14 + (po - 14 + row_bytes w * row b h y + 3 * x + c) = ?q + c" using bm by simp
      with m3 [OF i] show ?thesis unfolding at by simp
    qed
    from this [of 0] this [of 1] this [of 2] show ?thesis by (simp add: bmp_colour_def file_pixel_def Let_def)
  qed
  have src: "2 * (w * h) \<le> unat (?pd + ?rs * of_nat y + of_nat x * 3 + of_nat c - ?D)" if "x < w" "y < h" "c < 3" for x y c
    unfolding at by (rule apart [OF idx [OF that]])
  have wh: "w < 4294967296" "h < 4294967296" "w * h < 2 ^ 30" using bm by simp_all
  have cells: "cell ?m4 ?D (x + y * w) = file_pixel f w h b po x y" if "x < w" "y < h" for x y
    using bmp_rows_correct(2) [OF wh src that] col [OF that] by simp
  show ?thesis
    using run cells new_img565_size [OF new] by (intro exI [of _ ?s']) (simp add: list_all_iff)
qed

section \<open>Loading new images\<close>

lemma new_img565_files:
  "new_img565 rem0 w h (s\<lparr>open_files := n\<rparr>) = (case new_img565 rem0 w h s of (i, t) \<Rightarrow> (i, t\<lparr>open_files := n\<rparr>))"
  "slideshow (snd (new_img565 rem0 w h s)) = slideshow s" "open_files (snd (new_img565 rem0 w h s)) = open_files s"
  by (auto simp: new_img565_def create_img565_def kmalloc_bg_def Let_def split: prod.splits list.splits if_splits)

lemma destroy_img565_files:
  "destroy_img565 img (s\<lparr>open_files := n\<rparr>) = (destroy_img565 img s)\<lparr>open_files := n\<rparr>"
  "slideshow (destroy_img565 img s) = slideshow s" "open_files (destroy_img565 img s) = open_files s"
  for s :: background
  by (simp_all add: destroy_img565_def Let_def)

lemma load_bmp_file_files:
  "load_bmp_file rem0 stk f (s\<lparr>open_files := n\<rparr>) = (case load_bmp_file rem0 stk f s of (i, t) \<Rightarrow> (i, t\<lparr>open_files := n\<rparr>))"
proof -
  have c: "s\<lparr>open_files := n\<rparr>\<lparr>bg_mem := m\<rparr> = s\<lparr>bg_mem := m\<rparr>\<lparr>open_files := n\<rparr>"
    "s\<lparr>open_files := n\<rparr>\<lparr>bg_mem := m, img_phys := p\<rparr> = s\<lparr>bg_mem := m, img_phys := p\<rparr>\<lparr>open_files := n\<rparr>"
    "s\<lparr>open_files := n\<rparr>\<lparr>img_phys := p\<rparr> = s\<lparr>img_phys := p\<rparr>\<lparr>open_files := n\<rparr>" for s :: background and m p by simp_all
  show ?thesis
    by (simp add: load_bmp_file_def Let_def split_beta c new_img565_files destroy_img565_files)
qed

lemma load_bmp_file_keeps:
  "slideshow (snd (load_bmp_file rem0 stk f s)) = slideshow s" "open_files (snd (load_bmp_file rem0 stk f s)) = open_files s"
  by (simp_all add: load_bmp_file_def Let_def split_beta new_img565_files destroy_img565_files)

lemma release_images_keeps: "slideshow (release_images s) = False" "image (release_images s) = NULL"
proof -
  have "slideshow (kfree_bg p s) = slideshow s" "image (kfree_bg p s) = image s" "image (destroy_img565 i s) = image s" for p i and s :: background
    by (simp_all add: kfree_bg_def destroy_img565_def Let_def)
  then show "slideshow (release_images s) = False" "image (release_images s) = NULL"
    by (simp_all add: release_images_def background_unset_slideshow_def destroy_img565_files Let_def)
qed

lemma load_one_broken:
  "load_one rem0 stk files i (True, len, s) = (NULL, True, len, s\<lparr>open_files := open_files s + (if files i = None then 0 else 1)\<rparr>)"
  by (simp add: load_one_def split: option.splits)

lemma load_one_going:
  "load_one rem0 stk files i (False, len, s) = (case files i of
      None \<Rightarrow> (NULL, True, of_nat i - 1, s)
    | Some f \<Rightarrow> (case load_bmp_file rem0 stk f s of (img, t) \<Rightarrow> if img = NULL then (NULL, True, of_nat i - 1, t) else (img, False, len, t)))"
proof -
  have "open_files t = open_files s" if "load_bmp_file rem0 stk f s = (img, t)" for f img t
    using load_bmp_file_keeps(2) [of rem0 stk f s] that by simp
  then show ?thesis by (auto simp: load_one_def Let_def load_bmp_file_files split: option.splits prod.splits)
qed

text \<open>The images of the files up to the first that cannot be opened or loaded.\<close>

fun load_prefix :: "(u32 \<Rightarrow> u32) \<Rightarrow> addr \<Rightarrow> (nat \<Rightarrow> u8 list option) \<Rightarrow> nat list \<Rightarrow> background \<Rightarrow> addr list \<times> background" where
  "load_prefix rem0 stk files [] s = ([], s)"
| "load_prefix rem0 stk files (i # is) s =
     (case files i of
        None \<Rightarrow> ([], s)
      | Some f \<Rightarrow> (case load_bmp_file rem0 stk f s of (img, s) \<Rightarrow>
          if img = NULL then ([], s) else (case load_prefix rem0 stk files is s of (imgs, s) \<Rightarrow> (img # imgs, s))))"

lemma load_prefix_keeps:
  "load_prefix rem0 stk files is s = (imgs, t) \<Longrightarrow> slideshow t = slideshow s \<and> open_files t = open_files s \<and> NULL \<notin> set imgs \<and> length imgs \<le> length is"
proof (induction "is" arbitrary: s imgs t)
  case (Cons i js)
  show ?case
  proof (cases "files i")
    case (Some f)
    obtain img u where l: "load_bmp_file rem0 stk f s = (img, u)" by fastforce
    then have u: "slideshow u = slideshow s" "open_files u = open_files s" using load_bmp_file_keeps [of rem0 stk f s] by simp_all
    obtain imgs' t' where p: "load_prefix rem0 stk files js u = (imgs', t')" by fastforce
    show ?thesis using Cons.prems Cons.IH [OF p] Some l u p by (auto split: if_splits)
  qed (use Cons.prems in simp)
qed simp

text \<open>The files one after the other.\<close>

fun load_list :: "(u32 \<Rightarrow> u32) \<Rightarrow> addr \<Rightarrow> (nat \<Rightarrow> u8 list option) \<Rightarrow> nat list \<Rightarrow> bool \<times> u32 \<times> background \<Rightarrow> addr list \<times> bool \<times> u32 \<times> background" where
  "load_list rem0 stk files [] x = ([], x)"
| "load_list rem0 stk files (i # is) x =
     (case load_one rem0 stk files i x of (img, y) \<Rightarrow> (case load_list rem0 stk files is y of (imgs, z) \<Rightarrow> (img # imgs, z)))"

lemma load_list_broken:
  "load_list rem0 stk files is (True, len, s)
    = (replicate (length is) NULL, True, len, s\<lparr>open_files := open_files s + length (filter (\<lambda>i. files i \<noteq> None) is)\<rparr>)"
  by (induction "is" arbitrary: s) (simp_all add: load_one_broken)

lemma load_list_going:
  assumes "load_prefix rem0 stk files [i..<n] s = (imgs, t)" and "i \<le> n"
  shows "load_list rem0 stk files [i..<n] (False, len, s)
    = (imgs @ replicate (n - i - length imgs) NULL, length imgs < n - i, if length imgs < n - i then of_nat (i + length imgs) - 1 else len,
       t\<lparr>open_files := open_files s + length (filter (\<lambda>i. files i \<noteq> None) [i + length imgs + 1..<n])\<rparr>)"
  using assms
proof (induction "n - i" arbitrary: i s imgs t)
  case 0
  then show ?case by simp
next
  case (Suc m)
  then have i: "i < n" "[i..<n] = i # [Suc i..<n]" by (simp_all add: upt_conv_Cons)
  have stop: "load_list rem0 stk files [i..<n] (False, len, s) = (replicate (n - i) NULL, True, of_nat i - 1,
      u\<lparr>open_files := open_files s + length (filter (\<lambda>i. files i \<noteq> None) [i + 1..<n])\<rparr>)"
    if "load_one rem0 stk files i (False, len, s) = (NULL, True, of_nat i - 1, u)" "open_files u = open_files s" for u
    using that i by (simp add: load_list_broken Suc_diff_Suc [symmetric])
  show ?case
  proof (cases "files i")
    case None
    then show ?thesis using stop [of s] Suc.prems(1) i by (simp add: load_one_going)
  next
    case (Some f)
    obtain img u where l: "load_bmp_file rem0 stk f s = (img, u)" by fastforce
    then have u: "open_files u = open_files s" using load_bmp_file_keeps(2) [of rem0 stk f s] by simp
    show ?thesis
    proof (cases "img = NULL")
      case True
      then show ?thesis using stop [of u] Suc.prems(1) i Some l u by (simp add: load_one_going)
    next
      case False
      obtain js t' where p: "load_prefix rem0 stk files [Suc i..<n] u = (js, t')" by fastforce
      then have q: "imgs = img # js" "t = t'" using Suc.prems(1) i Some l False by simp_all
      have "load_list rem0 stk files [Suc i..<n] (False, len, u)
        = (js @ replicate (n - Suc i - length js) NULL, length js < n - Suc i, if length js < n - Suc i then of_nat (Suc i + length js) - 1 else len,
           t'\<lparr>open_files := open_files u + length (filter (\<lambda>i. files i \<noteq> None) [Suc i + length js + 1..<n])\<rparr>)"
        by (rule Suc.hyps(1)) (use Suc.hyps(2) p i in simp_all)
      moreover have "load_one rem0 stk files i (False, len, s) = (img, False, len, u)" by (simp add: load_one_going Some l False)
      moreover have "length js < n - Suc i \<longleftrightarrow> length (img # js) < n - i" by auto
      ultimately show ?thesis using i u by (simp add: q)
    qed
  qed
qed

text \<open>What is shown after an update that has loaded \<open>imgs\<close> in the state \<open>t\<close>.\<close>

definition shows_images :: "addr list \<Rightarrow> background \<Rightarrow> background \<Rightarrow> bool" where
  "shows_images imgs t s' \<longleftrightarrow>
     (if length imgs \<le> 1 then \<not> slideshow s' \<and> image s' = (if imgs = [] then NULL else hd imgs) \<and> img_at s' = img_at t
      else slideshow s' \<and> slideshow_length s' = of_nat (length imgs) \<and> slideshow_index s' = 0
        \<and> map (\<lambda>j. img_at s' (image s' + 8 * of_nat j)) [0..<length imgs] = map (img_at t) imgs)"

text \<open>
  C35. Loading new images shows the images of the files up to the first that cannot be opened or loaded: none, one, or a slide show of
  them in their order. Every later file that can be opened stays open.
\<close>

theorem background_update_correct:
  assumes "load_prefix rem0 stk files [1, 2, 3, 4] (release_images s) = (imgs, t)"
    and "bg_mallocs t = a # as" and "set imgs \<inter> {a, a + 8, a + 16, a + 24} = {}"
  shows "shows_images imgs t (background_update rem0 rtc stk files s)
    \<and> open_files (background_update rem0 rtc stk files s)
      = open_files (release_images s) + length (filter (\<lambda>i. files i \<noteq> None) [length imgs + 2..<5])"
proof -
  have u: "[1..<5] = [1, 2, 3, 4 :: nat]" by (simp add: upt_conv_Cons)
  note kp = load_prefix_keeps [OF assms(1)]
  let ?n = "length imgs"
  let ?t = "t\<lparr>open_files := open_files (release_images s) + length (filter (\<lambda>i. files i \<noteq> None) [?n + 2..<5])\<rparr>"
  have L: "load_list rem0 stk files [1, 2, 3, 4] (False, 0, release_images s)
     = (imgs @ replicate (4 - ?n) NULL, ?n < 4, if ?n < 4 then of_nat ?n else 0, ?t)"
    using load_list_going [OF assms(1) [folded u], of 0] unfolding u [symmetric] by simp
  obtain img1 y1 where 1: "load_one rem0 stk files 1 (False, 0, release_images s) = (img1, y1)" by (rule prod.exhaust)
  obtain img2 y2 where 2: "load_one rem0 stk files 2 y1 = (img2, y2)" by (rule prod.exhaust)
  obtain img3 y3 where 3: "load_one rem0 stk files 3 y2 = (img3, y3)" by (rule prod.exhaust)
  obtain img4 y4 where 4: "load_one rem0 stk files 4 y3 = (img4, y4)" by (rule prod.exhaust)
  have four: "imgs @ replicate (4 - ?n) NULL = [img1, img2, img3, img4]" "y4 = (?n < 4, if ?n < 4 then of_nat ?n else 0, ?t)"
    using L unfolding load_list.simps 1 2 3 4 prod.case by (simp_all only: prod.inject)
  let ?len = "if \<not> ?n < 4 then 4 else if ?n < 4 then of_nat ?n else 0 :: u32"
  have n4: "?n \<le> 4" using kp by simp
  then have len: "?len = of_nat ?n" by (auto simp: not_less)
  have run: "background_update rem0 rtc stk files s =
     (let s = ?t in if img2 = NULL then s\<lparr>image := img1\<rparr>
         else
           let (array, s) = kmalloc_bg s;
               s = (if ?len = 4 then copy_img (array + 24) img4 s else s);
               s = (if ?len = 4 \<or> ?len = 3 then copy_img (array + 16) img3 s else s);
               s = (if ?len = 4 \<or> ?len = 3 \<or> ?len = 2 then copy_img (array + 8) img2 s else s);
               s = copy_img array img1 s
           in background_set_slideshow rtc array ?len s)"
    using 1 2 3 4 four(2)
    unfolding background_update_def Let_def by (cases y1; cases y2; cases y3; simp only: prod.case)
  note run' = run [unfolded len]
  consider "imgs = []" | "imgs = [img1]" "img1 \<noteq> NULL" | "imgs = [img1, img2]" "img2 \<noteq> NULL" | "imgs = [img1, img2, img3]" "img2 \<noteq> NULL"
    | "imgs = [img1, img2, img3, img4]" "img2 \<noteq> NULL"
    using four(1) n4 kp
    by (cases imgs; cases "tl imgs"; cases "tl (tl imgs)"; cases "tl (tl (tl imgs))") auto
  then have c: "(imgs = [] \<or> imgs = [img1]) \<and> img2 = NULL \<and> (imgs = [] \<longrightarrow> img1 = NULL) \<or> img2 \<noteq> NULL \<and> (imgs = [img1, img2] \<or> imgs = [img1, img2, img3] \<or> imgs = [img1, img2, img3, img4])"
    using four(1) by cases (auto simp: numeral_eq_Suc)
  show ?thesis
  proof (cases "img2 = NULL")
    case True
    then show ?thesis using c kp release_images_keeps [of s] unfolding run' by (auto simp: shows_images_def)
  next
    case False
    then consider "imgs = [img1, img2]" | "imgs = [img1, img2, img3]" | "imgs = [img1, img2, img3, img4]" using c by auto
    then show ?thesis using False assms(3) unfolding run'
      by cases (auto simp: kmalloc_bg_def assms(2) shows_images_def copy_img_def background_set_slideshow_def rtc_value_def)
  qed
qed

section \<open>Examples\<close>

text \<open>An image of 320 times 240 pixels at 0x30000000, shown in the slide show with another one, and a black screen.\<close>

definition show_example :: background where
  "show_example = \<lparr>img_at = (\<lambda>_. \<lparr>img_width = 320, img_height = 240, img_data = 0x30000000\<rparr>), img_phys = mm_example, img_freed = [],
     bg_mem = (\<lambda>_. 0), bg_mallocs = [0x5000, 0x6000, 0x7000], image = 0x5000, slideshow = True, slideshow_length = 2, slideshow_index = 1,
     last_changed = 100, readings = 0, open_files = 0\<rparr>"

lemma show_example_outside: "img_outside 0x10000000 \<lparr>img_width = 320, img_height = 240, img_data = 0x30000000\<rparr>"
proof -
  have "outside 0x10000000 (0x30000000 + 2 * (x + y * 320))" "outside 0x10000000 (0x30000000 + 2 * (x + y * 320) + 1)"
    if "x < 320" "y < 240" for x y
  proof -
    have p: "pixel False x y = 2 * (x + y * 320)" by (simp add: pixel_def)
    have b: "unat (2 * (x + y * 320)) + 1 < 153600" using pixel_bound [OF that, of False] by (simp only: p)
    then have u: "unat (0x20000000 + 2 * (x + y * 320)) = 0x20000000 + unat (2 * (x + y * 320))" by (subst unat_add_u32) simp_all
    then have "unat (0x20000000 + 2 * (x + y * 320) + 1) = 0x20000001 + unat (2 * (x + y * 320))" using b by (subst unat_add_u32) simp_all
    moreover have "0x30000000 + 2 * (x + y * 320) - 0x10000000 = 0x20000000 + 2 * (x + y * 320)"
      "0x30000000 + 2 * (x + y * 320) + 1 - 0x10000000 = 0x20000000 + 2 * (x + y * 320) + 1" by (simp_all add: algebra_simps)
    ultimately show "outside 0x10000000 (0x30000000 + 2 * (x + y * 320))" "outside 0x10000000 (0x30000000 + 2 * (x + y * 320) + 1)"
      using u by (simp_all only: outside_def unat_le_u32) simp_all
  qed
  then show ?thesis by (simp add: img_outside_def)
qed

lemma background_draw_image_correct_witness:
  "\<exists>s'. background_draw_image True (\<lambda>n. 200) 0x10000000 0x10000000 show_example = Some s' \<and> slideshow_index s' = 0 \<and> last_changed s' = 200"
proof -
  have m: "\<not> list_ex (\<lambda>i. menu_open 0x10000000 i (bg_mem show_example)) menus_probed"
  proof -
    have z: "nspire_pixel p i (bg_mem show_example) = 0" for p i by (simp add: show_example_def nspire_pixel_def get16_def)
    have c: "rgbto565 231 227 231 \<noteq> 0" "rgbto565 200 191 231 \<noteq> 0" "rgbto565 206 203 206 \<noteq> 0" "rgbto565 222 28 57 \<noteq> 0" "rgbto565 255 251 140 \<noteq> 0"
      "rgbto565 173 170 173 \<noteq> 0" "rgbto565 115 113 115 \<noteq> 0" "rgbto565 247 247 247 \<noteq> 0" "rgbto565 41 150 189 \<noteq> 0" "rgbto565 255 255 255 \<noteq> 0"
      by code_simp+
    show ?thesis by (simp add: menus_probed_def menu_open_def z c [symmetric] Let_def)
  qed
  have t: "time_over (\<lambda>n. 200) show_example" "next_image show_example = 0" by (simp_all add: time_over_def next_image_def show_example_def)
  have i: "img_outside 0x10000000 (image_shown (\<lambda>n. 200) show_example)"
    using show_example_outside by (simp add: image_shown_def show_example_def)
  show ?thesis
    using background_draw_image_correct [OF _ m i] t by (auto simp: show_example_def)
qed

text \<open>A file with an image of 2 times 1 pixels.\<close>

definition bmp_example :: "u8 list" where
  "bmp_example = [0x42, 0x4D, 62, 0, 0, 0, 0, 0, 0, 0, 54, 0, 0, 0, 40, 0, 0, 0, 2, 0, 0, 0, 1, 0, 0, 0, 1, 0, 24, 0, 0, 0, 0, 0] @ replicate 20 0
     @ [1, 2, 255, 128, 64, 32, 0, 0]"

lemma bmp_example_ok: "bmp24 bmp_example 2 1 True 54"
  by (simp add: bmp24_def row_bytes_def file16_def file32_def bmp_example_def nth_append)

lemma load_bmp_file_correct_witness:
  "\<exists>s'. load_bmp_file (\<lambda>_. 0) 0x4000 bmp_example show_example = (0x5000, s') \<and> img_width (img_at s' 0x5000) = 2
    \<and> cell (bg_mem s') (img_data (img_at s' 0x5000)) 1 = rgbto565 32 64 128"
proof -
  let ?u = "useConsecutivePages (\<lambda>_. 0) (of_nat (length bmp_example) div 4096 + 1) 0 (img_phys show_example)"
  have "fst (useConsecutivePages (\<lambda>_. 0) 1 0 mm_example) = 0x10001000" by code_simp
  moreover have l: "length bmp_example = 62" by (simp add: bmp_example_def)
  ultimately have p: "?u = (0x10001000, snd ?u)" by (simp add: show_example_def prod_eq_iff)
  have z: "(of_nat 2 :: u16) = 2" "(of_nat 1 :: u16) = 1" by simp_all
  obtain t where n: "new_img565 (\<lambda>_. 0) (of_nat 2) (of_nat 1) (show_example\<lparr>img_phys := snd ?u\<rparr>) = (0x5000, t)" "img_data (img_at t 0x5000) = 0x6000"
    unfolding z by (simp add: new_img565_def kmalloc_bg_def show_example_def img_bytes_def create_img565_def)
  have "2 * (2 * 1) \<le> unat (0x10001000 + of_nat k - img_data (img_at t 0x5000))" if "k < length bmp_example - 14" for k
  proof -
    have "k < 48" using that l by simp
    then have "unat (0xFFFB000 + of_nat k :: u32) = 0xFFFB000 + k" by (subst unat_add_u32) (simp_all add: unat_of_nat_u32)
    then show ?thesis by (simp add: n)
  qed
  from load_bmp_file_correct [OF bmp_example_ok p _ n(1) _ this, where stk = "0x4000"]
  obtain s' where s': "load_bmp_file (\<lambda>_. 0) 0x4000 bmp_example show_example = (0x5000, s')" "img_width (img_at s' 0x5000) = of_nat 2"
      "list_all (\<lambda>y. list_all (\<lambda>x. cell (bg_mem s') (img_data (img_at s' 0x5000)) (x + y * 2) = file_pixel bmp_example 2 1 True 54 x y) [0..<2]) [0..<1]"
    by auto
  have "file_pixel bmp_example 2 1 True 54 1 0 = rgbto565 32 64 128" by code_simp
  with s'(3) have "cell (bg_mem s') (img_data (img_at s' 0x5000)) 1 = rgbto565 32 64 128" by (simp add: list_all_iff)
  with s' show ?thesis by simp
qed

lemma background_update_correct_witness:
  "image (background_update (\<lambda>_. 0) (\<lambda>_. 0) 0x4000 (\<lambda>i. if i = 3 then Some bmp_example else None) (show_example\<lparr>slideshow := False, image := NULL\<rparr>)) = NULL
    \<and> open_files (background_update (\<lambda>_. 0) (\<lambda>_. 0) 0x4000 (\<lambda>i. if i = 3 then Some bmp_example else None) (show_example\<lparr>slideshow := False, image := NULL\<rparr>)) = 1"
proof -
  let ?s = "show_example\<lparr>slideshow := False, image := NULL\<rparr>" and ?f = "\<lambda>i :: nat. if i = 3 then Some bmp_example else None"
  have r: "release_images ?s = ?s" by (simp add: release_images_def destroy_img565_def)
  have p: "load_prefix (\<lambda>_. 0) 0x4000 ?f [1, 2, 3, 4] (release_images ?s) = ([], ?s)" by (simp add: r)
  have o: "open_files show_example = 0" by (simp add: show_example_def)
  have "bg_mallocs ?s = 0x5000 # [0x6000, 0x7000]" by (simp add: show_example_def)
  from background_update_correct [OF p this, of "\<lambda>_. 0"] show ?thesis
    by (simp add: shows_images_def r o upt_conv_Cons)
qed

end
