(* ===== verification/Relocation.thy ===== *)
theory Relocation
  imports Elf_Loader Page_Tables
begin

text \<open>
  The kernel moves itself to its virtual address: \<open>relocate_self\<close> and \<open>free_init_pds\<close> of kernel/reloc.c, and the copy of the
  kernel that is kept for recovery, \<open>recovery_init\<close> of kernel/recovery.c.

  The memory is a map of bytes. The TI OS maps it one to one, so a pointer to its memory is a physical address; the
  addresses of the relocated kernel are translated by \<open>walk\<close>: the walk over the descriptors in the memory that the processor documents and
  the kernel's own \<open>getPhysicalAddress\<close> does in software. An address without a page makes the processor abort (\<open>Panic\<close>). The symbols of the linker script, and what the allocators of the TI OS return,
  are given. The TLB and the caches are not modelled.
\<close>

section \<open>Translation by the processor\<close>

definition walk :: "addr \<Rightarrow> bytes \<Rightarrow> addr \<Rightarrow> addr option" where
  "walk tt m v =
     (let d = get32 m (tt + 4 * drop_bit 20 v)
      in if d AND 3 = 1 then
           let pd = get32 m ((d AND NOT 0x3FF) + 4 * pix v)
           in if pd AND 3 \<in> {1, 2} then Some (page_target pd v) else None
         else if d AND 3 = 2 then Some ((d AND NOT 0xFFFFF) + (v AND 0xFFFFF))
         else None)"

text \<open>\<open>k_memcpy\<close> through the tables.\<close>

fun copy_virt :: "addr \<Rightarrow> nat \<Rightarrow> addr \<Rightarrow> addr \<Rightarrow> bytes \<Rightarrow> bytes result" where
  "copy_virt tt 0 area1 area2 m = Ret m"
| "copy_virt tt (Suc n) area1 area2 m =
     (case walk tt m area2 of
        None \<Rightarrow> Panic ''data abort''
      | Some q \<Rightarrow>
          (case walk tt m area1 of
             None \<Rightarrow> Panic ''data abort''
           | Some p \<Rightarrow> copy_virt tt n (area1 + 1) (area2 + 1) (m(p := m q))))"

text \<open>The loop over the entries of the global offset table, up to the word 0xFFFFFFFF of the linker script.\<close>

partial_function (option) fix_got :: "addr \<Rightarrow> u32 \<Rightarrow> addr \<Rightarrow> bytes \<Rightarrow> bytes result option" where
  "fix_got tt delta got_entry m =
     (case walk tt m got_entry of
        None \<Rightarrow> Some (Panic ''data abort'')
      | Some p \<Rightarrow>
          if get32 m p = 0xFFFFFFFF then Some (Ret m)
          else fix_got tt delta (got_entry + 4) (put32 p (get32 m p + delta) m))"

section \<open>Relocation\<close>

abbreviation (input) virtual_base_address :: addr where "virtual_base_address \<equiv> 0xe0100000"

record linker =
  exec_start :: addr
  exec_size :: addr
  got_start :: addr
  main_at :: addr

record boot =
  boot_mem :: bytes
  malloced_kernel_chunk :: addr
  init_pds_unaligned :: addr
  init_pds :: addr
  ti_freed :: "addr list"

definition free_init_pds :: "boot \<Rightarrow> boot" where
  "free_init_pds s =
     (if init_pds_unaligned s \<noteq> NULL
      then s\<lparr>ti_freed := ti_freed s @ [init_pds_unaligned s], init_pds := NULL, init_pds_unaligned := NULL\<rparr>
      else s)"

text \<open>The page descriptors, and the entries of the translation table that point to them.\<close>

definition map_kernel :: "addr \<Rightarrow> addr \<Rightarrow> addr \<Rightarrow> u32 \<Rightarrow> u32 \<Rightarrow> bytes \<Rightarrow> bytes" where
  "map_kernel tt pds aligned kernel_size sections m =
     (let m = for_u32 0 (kernel_size div SMALL_PAGE_SIZE + 1)
                (\<lambda>i. put32 (pds + 4 * i) (newSPD 1 1 0x55 (aligned + i * SMALL_PAGE_SIZE))) m
      in for_u32 0 sections
           (\<lambda>i. put32 (tt + 4 * drop_bit 20 (virtual_base_address + SECTION_SIZE * i)) (newCPTD 0 (pds + 4 * (256 * i)))) m)"

text \<open>
  \<open>chunk\<close> and \<open>pds\<close> are what \<open>ti_malloc\<close> and \<open>ti_calloc\<close> return. The result is the address at which the
  relocated kernel is entered, \<open>None\<close> when there is no memory.
\<close>

definition relocate_self :: "linker \<Rightarrow> u32 \<Rightarrow> addr \<Rightarrow> addr \<Rightarrow> boot \<Rightarrow> (addr option \<times> boot) result option" where
  "relocate_self lk treg chunk pds s =
     (let offset = main_at lk - exec_start lk;
          kernel_size = exec_size lk - exec_start lk;
          got_offset = got_start lk - exec_start lk;
          s = s\<lparr>malloced_kernel_chunk := chunk\<rparr>;
          aligned = makeSmallPageAligned chunk
      in if chunk = NULL then Some (Ret (None, s))
         else
           let sections = kernel_size div SECTION_SIZE + 1;
               s = s\<lparr>init_pds_unaligned := pds\<rparr>
           in if pds = NULL then Some (Ret (None, s\<lparr>ti_freed := ti_freed s @ [chunk]\<rparr>))
              else
                let s = s\<lparr>boot_mem := memset_loop 0 (unat (4 * sections * 256 + 16 + SMALL_PAGE_SIZE * 3)) pds (boot_mem s)\<rparr>;
                    s = s\<lparr>init_pds := makeSmallPageAligned pds\<rparr>;
                    tt = treg AND NOT 0x3ff;
                    m = map_kernel tt (init_pds s) aligned kernel_size sections (boot_mem s)
                in case copy_virt tt (unat kernel_size) virtual_base_address (exec_start lk) m of
                     Panic e \<Rightarrow> Some (Panic e)
                   | Ret m \<Rightarrow>
                       map_option (map_result (\<lambda>m. (Some (virtual_base_address + offset), s\<lparr>boot_mem := m\<rparr>)))
                         (fix_got tt (virtual_base_address - exec_start lk) (virtual_base_address + got_offset) m))"

section \<open>The copy for recovery\<close>

record recovery =
  rec_mem :: bytes
  rec_phys :: phys_mm
  recovery_mode :: bool
  recovery_start :: addr
  recovery_phys :: addr
  recovery_tt :: addr

definition map_recovery_kernel :: "u32 \<Rightarrow> recovery \<Rightarrow> recovery" where
  "map_recovery_kernel treg s =
     s\<lparr>rec_mem := put32 ((treg AND NOT 0x3ff) + 4 * drop_bit 20 (recovery_start s)) (newCPTD 0 (recovery_tt s)) (rec_mem s)\<rparr>"

definition unmap_recovery_kernel :: "u32 \<Rightarrow> recovery \<Rightarrow> recovery" where
  "unmap_recovery_kernel treg s =
     s\<lparr>rec_mem := put32 ((treg AND NOT 0x3ff) + 4 * drop_bit 20 (recovery_start s)) 0 (rec_mem s)\<rparr>"

text \<open>\<open>cpt\<close> is the table \<open>requestCPT\<close> returns.\<close>

definition recovery_init :: "(u32 \<Rightarrow> u32) \<Rightarrow> linker \<Rightarrow> u32 \<Rightarrow> addr \<Rightarrow> recovery \<Rightarrow> (bool \<times> recovery) result option" where
  "recovery_init rem0 lk treg cpt s =
     (let kernel_size = exec_size lk - exec_start lk;
          s = s\<lparr>recovery_start := makeSmallPageAligned (virtual_base_address + kernel_size + SMALL_PAGE_SIZE * 2) + SECTION_SIZE\<rparr>;
          size_pages = kernel_size div SMALL_PAGE_SIZE + 2;
          (p, mm) = useConsecutivePages rem0 size_pages 0 (rec_phys s);
          s = s\<lparr>recovery_phys := p, rec_phys := mm\<rparr>
      in if recovery_phys s = NULL then Some (Ret (False, s\<lparr>recovery_start := NULL\<rparr>))
         else
           let s = s\<lparr>recovery_tt := cpt\<rparr>;
               m = snd (k_memset cpt 0 (4 * 256) (rec_mem s));
               m = for_u32 0 size_pages (\<lambda>i. put32 (cpt + 4 * i) (newSPD 1 1 0x55 (recovery_phys s + SMALL_PAGE_SIZE * i))) m;
               s = map_recovery_kernel treg (s\<lparr>rec_mem := m\<rparr>);
               got_offset = got_start lk - exec_start lk;
               s = s\<lparr>recovery_mode := True\<rparr>;
               tt = treg AND NOT 0x3ff
           in case copy_virt tt (unat kernel_size) (recovery_start s) virtual_base_address (rec_mem s) of
                Panic e \<Rightarrow> Some (Panic e)
              | Ret m \<Rightarrow>
                  map_option (map_result (\<lambda>m.
                      let s = s\<lparr>rec_mem := m\<rparr>; s = s\<lparr>recovery_mode := False\<rparr>
                      in (True, unmap_recovery_kernel treg s)))
                    (fix_got tt (recovery_start s - exec_start lk) (recovery_start s + got_offset) m))"

section \<open>Filling a table\<close>

lemma of_nat_ne_u32: "i \<noteq> j \<Longrightarrow> i < 4294967296 \<Longrightarrow> j < 4294967296 \<Longrightarrow> (p :: u32) + of_nat i \<noteq> p + of_nat j"
  by (simp add: of_nat_inj_u32)

lemma fill_other:
  assumes "\<And>k. k < 4 * unat n \<Longrightarrow> a \<noteq> base + of_nat k"
  shows "for_u32 0 n (\<lambda>i. put32 (base + 4 * i) (f i)) m a = m a"
proof -
  have "fold (\<lambda>k. put32 (base + 4 * of_nat k) (f (of_nat k))) [0..<c] m a = m a" if "c \<le> unat n" for c
    using that
  proof (induction c)
    case (Suc c)
    have "a \<noteq> base + 4 * of_nat c + of_nat k" if "k < 4" for k
      using assms [of "4 * c + k"] that Suc.prems by (simp add: add.assoc)
    then show ?case using Suc by (simp add: put32_other)
  qed simp
  then show ?thesis by (simp add: for_u32_fold)
qed

lemma fill_at:
  assumes "i < unat n" and "4 * unat n < 4294967296"
  shows "get32 (for_u32 0 n (\<lambda>i. put32 (base + 4 * i) (f i)) m) (base + 4 * of_nat i) = f (of_nat i)"
proof -
  have "get32 (fold (\<lambda>k. put32 (base + 4 * of_nat k) (f (of_nat k))) [0..<c] m) (base + 4 * of_nat i) = f (of_nat i)"
    if "i < c" "c \<le> unat n" for c
    using that
  proof (induction c)
    case (Suc c)
    show ?case
    proof (cases "i = c")
      case False
      let ?m = "fold (\<lambda>k. put32 (base + 4 * of_nat k) (f (of_nat k))) [0..<c] m"
      have "get32 (put32 (base + 4 * of_nat c) (f (of_nat c)) ?m) (base + 4 * of_nat i) = get32 ?m (base + 4 * of_nat i)"
      proof (rule get32_cong, rule put32_other)
        fix k j :: nat assume "k < 4" "j < 4"
        then show "base + 4 * of_nat i + of_nat k \<noteq> base + 4 * of_nat c + of_nat j"
          using of_nat_ne_u32 [of "4 * i + k" "4 * c + j" base] False Suc.prems assms(2) by (simp add: add.assoc)
      qed
      with Suc False show ?thesis by simp
    qed simp
  qed simp
  from this [of "unat n"] assms(1) show ?thesis by (simp add: for_u32_fold)
qed

section \<open>Copying and patching through the tables\<close>

text \<open>When the translation does not depend on the bytes written, the copy is a copy of the physical memory.\<close>

lemma copy_virt_eq:
  assumes "\<And>m' i. i < n \<Longrightarrow> (\<And>x. x \<notin> D \<Longrightarrow> m' x = m x) \<Longrightarrow> walk tt m' (a + of_nat i) = Some (p + of_nat i) \<and> walk tt m' (b + of_nat i) = Some (q + of_nat i)"
    and "\<And>i. i < n \<Longrightarrow> p + of_nat i \<in> D"
  shows "copy_virt tt n a b m = Ret (memcpy_loop n p q m)"
  using assms
proof (induction n arbitrary: a b p q m)
  case (Suc n)
  have w: "walk tt m a = Some p" "walk tt m b = Some q" using Suc.prems(1) [of 0 m] by simp_all
  have "copy_virt tt n (a + 1) (b + 1) (m(p := m q)) = Ret (memcpy_loop n (p + 1) (q + 1) (m(p := m q)))"
  proof (rule Suc.IH)
    fix m' and i :: nat assume i: "i < n" and m': "\<And>x. x \<notin> D \<Longrightarrow> m' x = (m(p := m q)) x"
    have "p \<in> D" using Suc.prems(2) [of 0] by simp
    then have "\<And>x. x \<notin> D \<Longrightarrow> m' x = m x" using m' by auto
    from Suc.prems(1) [of "Suc i", OF _ this] i
    show "walk tt m' (a + 1 + of_nat i) = Some (p + 1 + of_nat i) \<and> walk tt m' (b + 1 + of_nat i) = Some (q + 1 + of_nat i)"
      by (simp add: algebra_simps)
  next
    fix i assume "i < n"
    then show "p + 1 + of_nat i \<in> D" using Suc.prems(2) [of "Suc i"] by (simp add: algebra_simps)
  qed
  with w show ?case by simp
qed simp

lemma fix_got_eq:
  assumes "\<And>m' i. i \<le> n \<Longrightarrow> (\<And>x. x \<notin> D \<Longrightarrow> m' x = m x) \<Longrightarrow> walk tt m' (e + 4 * of_nat i) = Some (p + 4 * of_nat i)"
    and "\<And>k. k < 4 * n \<Longrightarrow> p + of_nat k \<in> D" and "4 * n + 4 < 4294967296"
    and "\<And>i. i < n \<Longrightarrow> get32 m (p + 4 * of_nat i) \<noteq> 0xFFFFFFFF" and "get32 m (p + 4 * of_nat n) = 0xFFFFFFFF"
  shows "fix_got tt delta e m = Some (Ret (patch_got delta n p m))"
  using assms
proof (induction n arbitrary: e p m)
  case 0
  then show ?case by (subst fix_got.simps) (use 0(1) [of 0 m] in simp)
next
  case (Suc n)
  let ?m = "put32 p (get32 m p + delta) m"
  have w: "walk tt m e = Some p" using Suc.prems(1) [of 0 m] by simp
  have g: "get32 m p \<noteq> 0xFFFFFFFF" using Suc.prems(4) [of 0] by simp
  have far: "get32 ?m (p + 4 + 4 * of_nat i) = get32 m (p + 4 + 4 * of_nat i)" if "i \<le> n" for i
  proof (rule get32_cong, rule put32_other)
    fix k j :: nat assume "k < 4" "j < 4"
    then show "p + 4 + 4 * of_nat i + of_nat k \<noteq> p + of_nat j"
      using of_nat_ne_u32 [of "4 + 4 * i + k" j p] that Suc.prems(3) by (simp add: add.assoc)
  qed
  have "fix_got tt delta (e + 4) ?m = Some (Ret (patch_got delta n (p + 4) ?m))"
  proof (rule Suc.IH)
    fix m' and i :: nat assume i: "i \<le> n" and m': "\<And>x. x \<notin> D \<Longrightarrow> m' x = ?m x"
    have "?m x = m x" if "x \<notin> D" for x
      using Suc.prems(2) that by (intro put32_other) (metis Suc_eq_plus1 le_add2 less_le_trans mult.right_neutral mult_le_mono2 nat_mult_1)
    then have "\<And>x. x \<notin> D \<Longrightarrow> m' x = m x" using m' by simp
    from Suc.prems(1) [of "Suc i", OF _ this] i
    show "walk tt m' (e + 4 + 4 * of_nat i) = Some (p + 4 + 4 * of_nat i)" by (simp add: algebra_simps)
  next
    fix k assume "k < 4 * n"
    then show "p + 4 + of_nat k \<in> D" using Suc.prems(2) [of "4 + k"] by (simp add: algebra_simps)
  next
    fix i assume "i < n"
    then show "get32 ?m (p + 4 + 4 * of_nat i) \<noteq> 0xFFFFFFFF"
      using far [of i] Suc.prems(4) [of "Suc i"] by (simp add: algebra_simps)
  qed (use Suc.prems(3,5) far [of n] in \<open>simp_all add: algebra_simps\<close>)
  with w g show ?case by (subst fix_got.simps) simp
qed


section \<open>The addresses of the kernel\<close>

text \<open>\<open>N\<close> descriptors from \<open>pds\<close> on for the pages from \<open>dest\<close> on, and \<open>S\<close> entries of the translation table for them.\<close>

definition kernel_tables :: "addr \<Rightarrow> addr \<Rightarrow> addr \<Rightarrow> nat \<Rightarrow> nat \<Rightarrow> bytes \<Rightarrow> bool" where
  "kernel_tables tt pds dest N S m \<longleftrightarrow>
     (\<forall>j<S. get32 m (tt + 0x3804 + 4 * of_nat j) = newCPTD 0 (pds + 1024 * of_nat j))
     \<and> (\<forall>i<N. get32 m (pds + 4 * of_nat i) = newSPD 1 1 0x55 (dest + of_nat i * 4096))"

lemma kernel_tables_cong:
  assumes "kernel_tables tt pds dest N S m"
    and "\<And>k. k < 4 * S \<Longrightarrow> m' (tt + 0x3804 + of_nat k) = m (tt + 0x3804 + of_nat k)"
    and "\<And>k. k < 4 * N \<Longrightarrow> m' (pds + of_nat k) = m (pds + of_nat k)"
  shows "kernel_tables tt pds dest N S m'"
proof -
  have "get32 m' (tt + 0x3804 + of_nat (4 * j)) = get32 m (tt + 0x3804 + of_nat (4 * j))" if "j < S" for j
    by (rule field32_cong [where n = "4 * S"]) (use assms(2) that in simp_all)
  moreover have "get32 m' (pds + of_nat (4 * i)) = get32 m (pds + of_nat (4 * i))" if "i < N" for i
    by (rule field32_cong [where n = "4 * N"]) (use assms(3) that in simp_all)
  ultimately show ?thesis using assms(1) by (simp add: kernel_tables_def)
qed

lemma clear_aligned: "take_bit n (p :: u32) = 0 \<Longrightarrow> p AND NOT (mask n) = p"
  by (simp add: and_not_mask_eq)

lemma take_bit_plus_multiple: "take_bit n (p :: u32) = 0 \<Longrightarrow> take_bit n (p + 2 ^ n * x) = 0"
proof -
  assume "take_bit n p = 0"
  then have "p = push_bit n (drop_bit n p)" using bits_ident [of n p] by simp
  moreover have "2 ^ n * x = push_bit n x" by (simp add: push_bit_eq_mult mult.commute)
  ultimately have "p + 2 ^ n * x = push_bit n (drop_bit n p + x)" by (simp add: push_bit_add)
  moreover have "take_bit n (push_bit n y) = 0" for y :: u32 by (rule bit_word_eqI) (simp add: bit_simps)
  ultimately show ?thesis by simp
qed

lemma kernel_address_parts:
  assumes "k < 0x1ff00000"
  shows "drop_bit 20 (0xe0100000 + of_nat k :: u32) = 0xe01 + of_nat (k div 1048576)"
    and "pix (0xe0100000 + of_nat k) = of_nat (k div 4096 mod 256)"
    and "(0xe0100000 + of_nat k :: u32) AND 0xFFF = of_nat (k mod 4096)"
proof -
  have u: "unat (0xe0100000 + of_nat k :: u32) = 0xe0100000 + k"
    using assms by (subst unat_add_u32) (simp_all add: unat_of_nat_u32)
  have d: "unat (drop_bit n (w :: u32)) = unat w div 2 ^ n" for n w by (simp only: unat_drop_bit_eq) (simp add: drop_bit_eq_div)
  have a: "unat ((w :: u32) AND mask n) = unat w mod 2 ^ n" for n w
    by (metis take_bit_eq_mask take_bit_eq_mod unsigned_take_bit_eq)
  show "drop_bit 20 (0xe0100000 + of_nat k :: u32) = 0xe01 + of_nat (k div 1048576)"
  proof (rule unat_inj_u32)
    have "unat (0xe01 + of_nat (k div 1048576) :: u32) = 0xe01 + k div 1048576"
      using assms by (subst unat_add_u32) (simp_all add: unat_of_nat_u32)
    then show "unat (drop_bit 20 (0xe0100000 + of_nat k :: u32)) = unat (0xe01 + of_nat (k div 1048576) :: u32)"
      by (simp add: d u)
  qed
  show "pix (0xe0100000 + of_nat k) = of_nat (k div 4096 mod 256)"
  proof (rule unat_inj_u32)
    have "(0xe0100000 + k) div 4096 = k div 4096 + 256 * 0xe01" by simp
    then have "(0xe0100000 + k) div 4096 mod 256 = k div 4096 mod 256" by (simp only: mod_mult_self2)
    moreover have "k div 4096 mod 256 < 256" by simp
    ultimately show "unat (pix (0xe0100000 + of_nat k)) = unat (of_nat (k div 4096 mod 256) :: u32)"
      unfolding pix_def masks_u32 a d u by (simp add: unat_of_nat_u32)
  qed
  show "(0xe0100000 + of_nat k :: u32) AND 0xFFF = of_nat (k mod 4096)"
  proof (rule unat_inj_u32)
    have "(0xe0100000 + k :: nat) = k + 4096 * 0xe0100" by simp
    then have "(0xe0100000 + k) mod 4096 = k mod 4096" by (simp only: mod_mult_self2)
    moreover have "k mod 4096 < 4096" by simp
    ultimately show "unat ((0xe0100000 + of_nat k :: u32) AND 0xFFF) = unat (of_nat (k mod 4096) :: u32)"
      unfolding masks_u32 a u by (simp add: unat_of_nat_u32)
  qed
qed

lemma kernel_walk:
  assumes "kernel_tables tt pds dest N S m" and "take_bit 12 pds = 0" and "take_bit 12 dest = 0"
    and "k < 4096 * N" and "k < 1048576 * S" and "k < 0x1ff00000"
  shows "walk tt m (0xe0100000 + of_nat k) = Some (dest + of_nat k)"
proof -
  let ?j = "k div 1048576" and ?i = "k div 4096"
  note parts = kernel_address_parts [OF assms(6)]
  have j: "?j < S" and i: "?i < N" using assms(4,5) by (simp_all add: less_mult_imp_div_less mult.commute)
  have e: "tt + 4 * drop_bit 20 (0xe0100000 + of_nat k) = tt + 0x3804 + 4 * of_nat ?j"
    unfolding parts by (simp add: algebra_simps)
  have d: "get32 m (tt + 4 * drop_bit 20 (0xe0100000 + of_nat k)) = newCPTD 0 (pds + 1024 * of_nat ?j)"
    unfolding e using assms(1) j by (simp add: kernel_tables_def)
  have p10: "take_bit 10 pds = 0"
  proof -
    have "take_bit 10 pds = take_bit 10 (take_bit 12 pds)" by (simp add: take_bit_take_bit min_def)
    then show ?thesis using assms(2) by simp
  qed
  have b: "newCPTD 0 (pds + 1024 * of_nat ?j) AND NOT 0x3FF = pds + 1024 * of_nat ?j"
    unfolding base_bits unfolding masks_u32 using take_bit_plus_multiple [OF p10, of "of_nat ?j"] by (intro clear_aligned) simp
  have s: "1024 * ?j + 4 * (?i mod 256) = 4 * ?i"
  proof -
    have "?i div 256 = ?j" by (simp add: div_mult2_eq [symmetric])
    then have "?i = 256 * ?j + ?i mod 256" by (metis mult_div_mod_eq)
    then show ?thesis by linarith
  qed
  have "pds + 1024 * of_nat ?j + 4 * of_nat (?i mod 256) = pds + of_nat (1024 * ?j + 4 * (?i mod 256))" by simp
  also have "\<dots> = pds + 4 * of_nat ?i" unfolding s by simp
  finally have eq: "pds + 1024 * of_nat ?j + 4 * of_nat (?i mod 256) = pds + 4 * of_nat ?i" .
  have q: "get32 m (pds + 1024 * of_nat ?j + 4 * of_nat (?i mod 256)) = newSPD 1 1 0x55 (dest + of_nat ?i * 4096)"
    unfolding eq using assms(1) i unfolding kernel_tables_def by blast
  have "take_bit 12 (dest + 4096 * of_nat ?i) = 0" using take_bit_plus_multiple [OF assms(3), of "of_nat ?i"] by simp
  then have "(dest + of_nat ?i * 4096) AND NOT 0xFFF = dest + of_nat ?i * 4096"
    unfolding masks_u32 by (intro clear_aligned) (simp add: mult.commute)
  then have "page_target (newSPD 1 1 0x55 (dest + of_nat ?i * 4096)) (0xe0100000 + of_nat k) = dest + of_nat ?i * 4096 + of_nat (k mod 4096)"
    unfolding page_target_simps parts by simp
  also have "\<dots> = dest + of_nat (?i * 4096 + k mod 4096)" by (simp only: of_nat_add of_nat_mult of_nat_numeral add.assoc)
  also have "\<dots> = dest + of_nat k" by (rule arg_cong [where f = "\<lambda>i. dest + of_nat i"]) (rule div_mult_mod_eq)
  finally show ?thesis
    unfolding walk_def Let_def d parts(2) b type_bits q by simp
qed


section \<open>Regions of the memory\<close>

definition region :: "addr \<Rightarrow> nat \<Rightarrow> addr set" where
  "region p n = (\<lambda>i. p + of_nat i) ` {..<n}"

lemma region_I: "i < n \<Longrightarrow> p + of_nat i \<in> region p n"
  by (auto simp: region_def)

lemma region_iff:
  assumes "unat p + n \<le> 4294967296"
  shows "a \<in> region p n \<longleftrightarrow> unat p \<le> unat a \<and> unat a < unat p + n"
proof
  assume "a \<in> region p n"
  then obtain i where i: "i < n" "a = p + of_nat i" by (auto simp: region_def)
  then have "unat a = unat p + i" using assms by (simp add: unat_add_u32 unat_of_nat_u32)
  with i show "unat p \<le> unat a \<and> unat a < unat p + n" by simp
next
  assume a: "unat p \<le> unat a \<and> unat a < unat p + n"
  then have "unat (a - p) = unat a - unat p" by (intro unat_sub_u32) (simp add: unat_le_u32)
  with a have "unat (a - p) < n" by arith
  from region_I [OF this, of p] show "a \<in> region p n" by simp
qed

lemma region_disjoint:
  assumes "unat p + n \<le> unat q" and "unat q + k \<le> 4294967296"
  shows "region p n \<inter> region q k = {}"
  using assms by (auto simp: region_iff)

lemma region_sub:
  assumes "unat p \<le> unat q" and "unat q + k \<le> unat p + n" and "unat p + n \<le> 4294967296"
  shows "region q k \<subseteq> region p n"
  using assms by (auto simp: region_iff)

lemma region_apart:
  assumes "region p n \<inter> region q k = {}" and "i < n" and "j < k"
  shows "p + of_nat i \<noteq> q + of_nat j"
proof
  assume "p + of_nat i = q + of_nat j"
  then have "p + of_nat i \<in> region p n \<inter> region q k" using region_I [OF assms(2), of p] region_I [OF assms(3), of q] by simp
  with assms(1) show False by simp
qed

lemma for_u32_cong: "(\<And>i. i < n \<Longrightarrow> f i = g i) \<Longrightarrow> for_u32 0 n f s = for_u32 0 n g s"
proof -
  assume e: "\<And>i. i < n \<Longrightarrow> f i = g i"
  have "of_nat k < n" if "k \<in> set [unat (0 :: u32)..<unat n]" for k
    using that unat_u32_bound [of n] by (simp add: unat_less_u32 unat_of_nat_u32)
  then show ?thesis unfolding for_u32_fold by (intro fold_cong refl) (simp add: e)
qed

section \<open>The tables the code writes\<close>

lemma map_kernel_eq:
  assumes "unat sections \<le> 0x1ff"
  shows "map_kernel tt pds aligned kernel_size sections m =
    for_u32 0 sections (\<lambda>i. put32 (tt + 0x3804 + 4 * i) (newCPTD 0 (pds + 4 * (256 * i))))
      (for_u32 0 (kernel_size div 4096 + 1) (\<lambda>i. put32 (pds + 4 * i) (newSPD 1 1 0x55 (aligned + i * 4096))) m)"
proof -
  have i: "tt + 4 * drop_bit 20 (0xe0100000 + 0x100000 * i) = tt + 0x3804 + 4 * i" if "i < sections" for i :: u32
  proof -
    have l: "0x100000 * unat i < 0x1ff00000" using that assms by (simp add: unat_less_u32)
    have "0x100000 * i = of_nat (0x100000 * unat i)" by simp
    then show ?thesis using kernel_address_parts(1) [OF l] by (simp add: algebra_simps)
  qed
  have "for_u32 0 sections (\<lambda>i. put32 (tt + 4 * drop_bit 20 (0xe0100000 + 0x100000 * i)) (newCPTD 0 (pds + 4 * (256 * i)))) m'
      = for_u32 0 sections (\<lambda>i. put32 (tt + 0x3804 + 4 * i) (newCPTD 0 (pds + 4 * (256 * i)))) m'" for m'
    by (intro for_u32_cong) (simp only: i)
  then show ?thesis by (simp add: map_kernel_def Let_def)
qed

lemma map_kernel_correct:
  fixes kernel_size sections :: u32
  defines "N \<equiv> unat kernel_size div 4096 + 1" and "S \<equiv> unat sections"
  assumes "S \<le> 0x1ff" and "unat kernel_size < 0x1f000000" and "region pds (4 * N) \<inter> region (tt + 0x3804) (4 * S) = {}"
  shows "kernel_tables tt pds aligned N S (map_kernel tt pds aligned kernel_size sections m)"
    and "x \<notin> region pds (4 * N) \<Longrightarrow> x \<notin> region (tt + 0x3804) (4 * S) \<Longrightarrow> map_kernel tt pds aligned kernel_size sections m x = m x"
proof -
  have N: "unat (kernel_size div 4096 + 1) = N"
    using assms(4) unfolding N_def by (subst unat_add_u32) (simp_all add: unat_div)
  have S: "unat sections \<le> 0x1ff" using assms(3) by (simp add: S_def)
  define m1 where "m1 = for_u32 0 (kernel_size div 4096 + 1) (\<lambda>i. put32 (pds + 4 * i) (newSPD 1 1 0x55 (aligned + i * 4096))) m"
  let ?m = "for_u32 0 sections (\<lambda>i. put32 (tt + 0x3804 + 4 * i) (newCPTD 0 (pds + 4 * (256 * i)))) m1"
  have e: "map_kernel tt pds aligned kernel_size sections m = ?m"
    unfolding map_kernel_eq [OF S] m1_def ..
  have far: "?m (pds + of_nat k) = m1 (pds + of_nat k)" if "k < 4 * N" for k
    by (rule fill_other) (use region_apart [OF assms(5) that] in \<open>simp add: S_def\<close>)
  have "get32 ?m (pds + of_nat (4 * i)) = get32 m1 (pds + of_nat (4 * i))" if "i < N" for i
    by (rule field32_cong [where n = "4 * N"]) (use far that in simp_all)
  moreover have "get32 m1 (pds + 4 * of_nat i) = newSPD 1 1 0x55 (aligned + of_nat i * 4096)" if "i < N" for i
    unfolding m1_def by (rule fill_at) (use that assms(4) in \<open>simp_all add: N N_def\<close>)
  moreover have "get32 ?m (tt + 0x3804 + 4 * of_nat j) = newCPTD 0 (pds + 4 * (256 * of_nat j))" if "j < S" for j
    by (rule fill_at) (use that S in \<open>simp_all add: S_def\<close>)
  ultimately show "kernel_tables tt pds aligned N S (map_kernel tt pds aligned kernel_size sections m)"
    by (simp add: e kernel_tables_def)
  assume x: "x \<notin> region pds (4 * N)" "x \<notin> region (tt + 0x3804) (4 * S)"
  have "?m x = m1 x" by (rule fill_other) (use x(2) region_I in \<open>auto simp: S_def\<close>)
  also have "\<dots> = m x" unfolding m1_def by (rule fill_other) (use x(1) region_I in \<open>auto simp: N\<close>)
  finally show "map_kernel tt pds aligned kernel_size sections m x = m x" by (simp only: e)
qed


section \<open>The relocated kernel\<close>

definition kernel_size :: "linker \<Rightarrow> u32" where
  "kernel_size lk = exec_size lk - exec_start lk"

definition kernel_sections :: "linker \<Rightarrow> nat" where
  "kernel_sections lk = unat (kernel_size lk) div 1048576 + 1"

text \<open>What is written: the two objects of the TI OS and the entries of the translation table.\<close>

definition written :: "linker \<Rightarrow> u32 \<Rightarrow> addr \<Rightarrow> addr \<Rightarrow> addr set" where
  "written lk treg chunk pds =
     region chunk (unat (kernel_size lk) + 24576) \<union> region pds (1024 * kernel_sections lk + 12304)
       \<union> region ((treg AND NOT 0x3ff) + 0x3804) (4 * kernel_sections lk)"

text \<open>
  The allocators gave two objects apart from each other, the translation table and the kernel in its first place, and
  the translation of that place, one to one, does not depend on what is written.
\<close>

definition relocatable :: "linker \<Rightarrow> u32 \<Rightarrow> addr \<Rightarrow> addr \<Rightarrow> bytes \<Rightarrow> bool" where
  "relocatable lk treg chunk pds m \<longleftrightarrow>
     (let size = unat (kernel_size lk);
          C = region chunk (size + 24576);
          P = region pds (1024 * kernel_sections lk + 12304);
          E = region ((treg AND NOT 0x3ff) + 0x3804) (4 * kernel_sections lk)
      in chunk \<noteq> NULL \<and> pds \<noteq> NULL \<and> size < 0x1f000000
         \<and> unat chunk + size + 24576 \<le> 4294967296 \<and> unat pds + 1024 * kernel_sections lk + 12304 \<le> 4294967296
         \<and> C \<inter> P = {} \<and> C \<inter> E = {} \<and> P \<inter> E = {} \<and> region (exec_start lk) size \<inter> (C \<union> P \<union> E) = {}
         \<and> (\<forall>m'. (\<forall>x. x \<notin> written lk treg chunk pds \<longrightarrow> m' x = m x)
              \<longrightarrow> (\<forall>i < size. walk (treg AND NOT 0x3ff) m' (exec_start lk + of_nat i) = Some (exec_start lk + of_nat i))))"

lemma aligned_page:
  assumes "unat p + 4096 \<le> 4294967296"
  shows "unat p \<le> unat (makeSmallPageAligned p)" and "unat (makeSmallPageAligned p) < unat p + 4096"
    and "take_bit 12 (makeSmallPageAligned p) = 0"
proof -
  note e = makeSmallPageAligned_nat [OF assms]
  show "unat p \<le> unat (makeSmallPageAligned p)" and "unat (makeSmallPageAligned p) < unat p + 4096"
    unfolding e by (rule round_up_page)+
  have "unat (take_bit 12 (makeSmallPageAligned p)) = take_bit 12 (unat (makeSmallPageAligned p))" by (rule unsigned_take_bit_eq)
  also have "\<dots> = 0" unfolding e by (simp add: take_bit_eq_mod)
  finally show "take_bit 12 (makeSmallPageAligned p) = 0" by (simp add: unat_eq_zero)
qed

lemma get32_eq: "(\<And>k. k < 4 \<Longrightarrow> m' (p + of_nat k) = m (q + of_nat k)) \<Longrightarrow> get32 m' p = get32 m q"
proof -
  assume a: "\<And>k. k < 4 \<Longrightarrow> m' (p + of_nat k) = m (q + of_nat k)"
  from a [of 0] a [of 1] a [of 2] a [of 3] show ?thesis by (simp add: get32_def)
qed

text \<open>The memory before the copy.\<close>

definition mapped_mem :: "linker \<Rightarrow> u32 \<Rightarrow> addr \<Rightarrow> addr \<Rightarrow> bytes \<Rightarrow> bytes" where
  "mapped_mem lk treg chunk pds m =
     map_kernel (treg AND NOT 0x3ff) (makeSmallPageAligned pds) (makeSmallPageAligned chunk) (kernel_size lk) (kernel_size lk div 0x100000 + 1)
       (memset_loop 0 (unat (4 * (kernel_size lk div 0x100000 + 1) * 256 + 16 + 0x1000 * 3)) pds m)"

lemma mapped_mem_correct:
  fixes lk treg chunk pds m
  defines "N \<equiv> unat (kernel_size lk) div 4096 + 1" and "S \<equiv> kernel_sections lk" and "pt \<equiv> makeSmallPageAligned pds"
  assumes r: "relocatable lk treg chunk pds m"
  shows "kernel_tables (treg AND NOT 0x3ff) pt (makeSmallPageAligned chunk) N S (mapped_mem lk treg chunk pds m)"
    and "region pt (4 * N) \<subseteq> region pds (1024 * S + 12304)"
    and "x \<notin> region pds (1024 * S + 12304) \<Longrightarrow> x \<notin> region ((treg AND NOT 0x3ff) + 0x3804) (4 * S) \<Longrightarrow> mapped_mem lk treg chunk pds m x = m x"
proof -
  let ?size = "unat (kernel_size lk)" and ?E = "region ((treg AND NOT 0x3ff) + 0x3804) (4 * S)" and ?s = "kernel_size lk div 0x100000 + 1"
  have sz: "?size < 0x1f000000" and lim: "unat pds + 1024 * S + 12304 \<le> 4294967296"
    and ds: "region pds (1024 * S + 12304) \<inter> ?E = {}"
    using r by (auto simp: relocatable_def Let_def S_def)
  have S: "unat ?s = S" using sz by (subst unat_add_u32) (simp_all add: S_def kernel_sections_def unat_div)
  have S1: "S \<le> 0x1ff" using sz by (simp add: S_def kernel_sections_def)
  have len: "unat (4 * ?s * 256 + 16 + 0x1000 * 3) = 1024 * S + 12304"
  proof -
    have "4 * ?s * 256 + 16 + 0x1000 * 3 = of_nat (1024 * unat ?s + 12304)" by simp
    then show ?thesis using S1 unfolding S by (simp only: unat_of_nat_u32)
  qed
  have "?size div 1048576 = ?size div 4096 div 256" by (simp add: div_mult2_eq [symmetric])
  moreover have "?size div 4096 = 256 * (?size div 4096 div 256) + ?size div 4096 mod 256" by (rule mult_div_mod_eq [symmetric])
  moreover have "?size div 4096 mod 256 < 256" by simp
  ultimately have "?size div 4096 \<le> 256 * (?size div 1048576) + 255" by linarith
  then have N: "4 * N \<le> 1024 * S" by (simp add: N_def S_def kernel_sections_def)
  have p: "unat pds + 4096 \<le> 4294967296" using lim by simp
  show sub: "region pt (4 * N) \<subseteq> region pds (1024 * S + 12304)"
    unfolding pt_def using aligned_page [OF p] lim N by (intro region_sub) simp_all
  then have d: "region pt (4 * N) \<inter> ?E = {}" using ds by blast
  have k: "unat ?s \<le> 0x1ff" "region pt (4 * (?size div 4096 + 1)) \<inter> region ((treg AND NOT 0x3ff) + 0x3804) (4 * unat ?s) = {}"
    using S1 d by (simp_all add: S N_def)
  note mk = map_kernel_correct [OF k(1) sz k(2)]
  show "kernel_tables (treg AND NOT 0x3ff) pt (makeSmallPageAligned chunk) N S (mapped_mem lk treg chunk pds m)"
    unfolding mapped_mem_def pt_def [symmetric] N_def using mk(1) unfolding S .
  assume x: "x \<notin> region pds (1024 * S + 12304)" "x \<notin> ?E"
  then have "x \<notin> region pt (4 * (?size div 4096 + 1))" "x \<notin> region ((treg AND NOT 0x3ff) + 0x3804) (4 * unat ?s)"
    using sub by (auto simp: N_def S)
  from mk(2) [OF this] have "mapped_mem lk treg chunk pds m x = memset_loop 0 (1024 * S + 12304) pds m x"
    unfolding mapped_mem_def pt_def [symmetric] len .
  also have "\<dots> = m x" using x(1) by (auto simp: memset_loop_eq region_def)
  finally show "mapped_mem lk treg chunk pds m x = m x" .
qed




section \<open>The copy for recovery cannot be made\<close>

text \<open>The page of the place for the copy, in its section.\<close>

lemma recovery_place:
  fixes size :: u32
  assumes "unat size + 12288 \<le> 1048576"
  shows "\<exists>q. unat size div 4096 + 2 \<le> q \<and> q < 256
    \<and> makeSmallPageAligned (virtual_base_address + size + SMALL_PAGE_SIZE * 2) + SECTION_SIZE = virtual_base_address + of_nat (1048576 + 4096 * q)"
proof -
  let ?p = "virtual_base_address + size + SMALL_PAGE_SIZE * 2" and ?q = "(unat size + 12287) div 4096"
  have u: "unat ?p = 0xe0100000 + unat size + 8192" using assms by (simp add: unat_add_u32)
  have "unat (makeSmallPageAligned ?p) = (0xe0100000 + unat size + 8192 + 4095) div 4096 * 4096"
    using makeSmallPageAligned_nat [of ?p] u assms by simp
  also have "(0xe0100000 + unat size + 8192 + 4095) div 4096 = 0xe0100 + ?q"
  proof -
    have "0xe0100000 + unat size + 8192 + 4095 = (unat size + 12287) + 4096 * 0xe0100" by simp
    then show ?thesis by simp
  qed
  finally have "unat (makeSmallPageAligned ?p) = 0xe0100000 + 4096 * ?q" by simp
  moreover have "?q < 256" using assms by (intro less_mult_imp_div_less) simp
  moreover from this have "unat (virtual_base_address + of_nat (4096 * ?q)) = 0xe0100000 + 4096 * ?q"
    by (subst unat_add_u32) (simp_all add: unat_of_nat_u32 del: of_nat_mult)
  ultimately have "makeSmallPageAligned ?p = virtual_base_address + of_nat (4096 * ?q)" by (intro unat_inj_u32) simp
  then have "makeSmallPageAligned ?p + SECTION_SIZE = virtual_base_address + of_nat (1048576 + 4096 * ?q)" by simp
  moreover have "unat size div 4096 + 2 \<le> ?q"
  proof -
    have "unat size div 4096 + 2 = (unat size + 2 * 4096) div 4096" by simp
    also have "\<dots> \<le> ?q" by (rule div_le_mono) simp
    finally show ?thesis .
  qed
  ultimately show ?thesis using \<open>?q < 256\<close> by blast
qed

text \<open>
  For every kernel of at most 1 MB less three pages \<open>recovery_init\<close> aborts in its copy, whatever pages it gets: the descriptors are put
  at the beginning of the table, for the beginning of the section, while the place for the copy begins behind them.
\<close>

theorem recovery_init_aborts:
  fixes lk treg cpt and s :: recovery
  defines "rs \<equiv> makeSmallPageAligned (virtual_base_address + kernel_size lk + SMALL_PAGE_SIZE * 2) + SECTION_SIZE"
  assumes sz: "0 < unat (kernel_size lk)" "unat (kernel_size lk) + 12288 \<le> 1048576"
    and mem: "fst (useConsecutivePages rem0 (kernel_size lk div SMALL_PAGE_SIZE + 2) 0 (rec_phys s)) \<noteq> NULL"
    and cpt: "take_bit 10 cpt = 0" "region cpt 1024 \<inter> region ((treg AND NOT 0x3ff) + 4 * drop_bit 20 rs) 4 = {}"
  shows "recovery_init rem0 lk treg cpt s = Some (Panic ''data abort'')"
proof -
  let ?tt = "treg AND NOT 0x3ff"
  let ?e = "?tt + 4 * drop_bit 20 rs"
  obtain q where q: "unat (kernel_size lk) div 4096 + 2 \<le> q" "q < 256" "rs = virtual_base_address + of_nat (1048576 + 4096 * q)"
    using recovery_place [OF sz(2)] unfolding rs_def by blast
  have "pix rs = of_nat ((1048576 + 4096 * q) div 4096 mod 256)"
    unfolding q(3) by (rule kernel_address_parts(2)) (use q(2) in simp)
  also have "(1048576 + 4096 * q) div 4096 mod 256 = q"
  proof -
    have "(1048576 + 4096 * q) div 4096 = q + 256 * 1" by simp
    then show ?thesis using q(2) by (simp only: mod_mult_self2 mod_less)
  qed
  finally have pix: "pix rs = of_nat q" .
  obtain p mm where pm: "useConsecutivePages rem0 (kernel_size lk div SMALL_PAGE_SIZE + 2) 0 (rec_phys s) = (p, mm)" "p \<noteq> NULL"
    using mem by (cases "useConsecutivePages rem0 (kernel_size lk div SMALL_PAGE_SIZE + 2) 0 (rec_phys s)") auto
  define m0 where "m0 = memset_loop 0 (unat (4 * 256 :: u32)) cpt (rec_mem s)"
  define m1 where "m1 = for_u32 0 (kernel_size lk div SMALL_PAGE_SIZE + 2) (\<lambda>i. put32 (cpt + 4 * i) (newSPD 1 1 0x55 (p + SMALL_PAGE_SIZE * i))) m0"
  define m2 where "m2 = put32 ?e (newCPTD 0 cpt) m1"
  have N: "unat (kernel_size lk div SMALL_PAGE_SIZE + 2) = unat (kernel_size lk) div 4096 + 2"
    using sz(2) by (subst unat_add_u32) (simp_all add: unat_div)
  have zero: "m2 (cpt + 4 * of_nat q + of_nat k) = 0" if "k < 4" for k
  proof -
    have i: "4 * q + k < 1024" using q(2) that by simp
    have a: "cpt + 4 * of_nat q + of_nat k = cpt + of_nat (4 * q + k)" by simp
    have "m2 (cpt + of_nat (4 * q + k)) = m1 (cpt + of_nat (4 * q + k))"
      unfolding m2_def by (rule put32_other) (rule region_apart [OF cpt(2) i])
    also have "\<dots> = m0 (cpt + of_nat (4 * q + k))"
      unfolding m1_def by (rule fill_other, rule of_nat_ne_u32) (use q N i in simp_all)
    also have "\<dots> = 0" unfolding m0_def using i by (auto simp: memset_loop_eq)
    finally show ?thesis unfolding a .
  qed
  have z: "get32 m2 (cpt + 4 * of_nat q) = 0" using zero [of 0] zero [of 1] zero [of 2] zero [of 3] by (simp add: get32_def)
  have e: "get32 m2 ?e = newCPTD 0 cpt" by (simp add: m2_def)
  have "newCPTD 0 cpt AND NOT 0x3FF = cpt" unfolding base_bits unfolding masks_u32 by (rule clear_aligned [OF cpt(1)])
  then have w: "walk ?tt m2 rs = None" unfolding walk_def Let_def e type_bits pix using z by simp
  obtain n where "unat (kernel_size lk) = Suc n" using sz(1) gr0_implies_Suc by blast
  then have c: "copy_virt ?tt (unat (kernel_size lk)) rs virtual_base_address m2 = Panic ''data abort''"
    using w by (simp split: option.split)
  show ?thesis
    using c pm unfolding m2_def m1_def m0_def rs_def
    by (simp add: recovery_init_def map_recovery_kernel_def k_memset_def Let_def flip: kernel_size_def)
qed


section \<open>Examples\<close>

text \<open>A kernel of 16 bytes at 0x8000 with one entry in its table; the first section of the address space is mapped one to one.\<close>

definition linker_example :: linker where
  "linker_example = \<lparr>exec_start = 0x8000, exec_size = 0x8010, got_start = 0x8008, main_at = 0x8004\<rparr>"

definition boot_example :: boot where
  "boot_example = \<lparr>boot_mem = put32 0x800C 0xFFFFFFFF (put32 0x8008 0x8004 (put32 0x8000 0xEAFFFFFE (put32 0x4000 2 (\<lambda>_. 0)))),
     malloced_kernel_chunk = NULL, init_pds_unaligned = NULL, init_pds = NULL, ti_freed = []\<rparr>"

lemma linker_example_size: "kernel_size linker_example = 16" "kernel_sections linker_example = 1"
  by (simp_all add: kernel_size_def kernel_sections_def linker_example_def)

lemma boot_example_relocatable: "relocatable linker_example 0x4000 0x100000 0x200000 (boot_mem boot_example)"
proof -
  have w: "walk (0x4000 AND NOT 0x3ff) m' (0x8000 + of_nat i) = Some (0x8000 + of_nat i)"
    if m': "\<forall>x. x \<notin> written linker_example 0x4000 0x100000 0x200000 \<longrightarrow> m' x = boot_mem boot_example x" and i: "i < 16" for m' i
  proof -
    have out: "x \<notin> written linker_example 0x4000 0x100000 0x200000" if "unat x < 0x7804" for x
      using that by (simp add: written_def linker_example_size region_iff)
    have "get32 m' 0x4000 = get32 (boot_mem boot_example) 0x4000"
      unfolding get32_def using m' by (simp add: out)
    also have "\<dots> = 2" by code_simp
    finally have d: "get32 m' 0x4000 = 2" .
    have "i \<in> set [0..<16]" using i by simp
    moreover have "list_all (\<lambda>i. drop_bit 20 (0x8000 + of_nat i :: u32) = 0 \<and> (2 AND NOT 0xFFFFF) + ((0x8000 + of_nat i) AND 0xFFFFF) = (0x8000 + of_nat i :: u32)) [0..<16]"
      by code_simp
    ultimately show ?thesis using d by (simp add: walk_def list_all_iff)
  qed
  have s: "exec_start linker_example = 0x8000" by (simp add: linker_example_def)
  show ?thesis
    unfolding relocatable_def Let_def linker_example_size s using w
    by (simp add: Int_Un_distrib region_disjoint region_disjoint [THEN trans [OF Int_commute]])
qed


lemma recovery_init_aborts_witness:
  "recovery_init (\<lambda>_. 0) linker_example 0x10000 0x400
     \<lparr>rec_mem = (\<lambda>_. 0), rec_phys = mm_example, recovery_mode = False, recovery_start = 0, recovery_phys = 0, recovery_tt = 0\<rparr>
   = Some (Panic ''data abort'')"
proof (rule recovery_init_aborts, unfold linker_example_size)
  show "fst (useConsecutivePages (\<lambda>_. 0) (16 div 4096 + 2) 0 (rec_phys \<lparr>rec_mem = (\<lambda>_. 0), rec_phys = mm_example, recovery_mode = False,
      recovery_start = 0, recovery_phys = 0, recovery_tt = 0\<rparr>)) \<noteq> NULL" by code_simp
  show "take_bit 10 0x400 = (0 :: u32)" by simp
  show "region 0x400 1024 \<inter> region ((0x10000 AND NOT 0x3FF) + 4 * drop_bit 20 (makeSmallPageAligned (0xe0100000 + 16 + 0x1000 * 2) + 0x100000)) 4 = {}"
    by (rule region_disjoint) (simp_all add: makeSmallPageAligned_def)
qed simp_all

end
