(* ===== verification/Spec2Isabelle.thy ===== *)
theory Spec2Isabelle
  imports Slab_Init Address_Spaces Elf_Loader Watchdog Syscall_Handlers Deferred_Actions Touchpad Hooks Modules Fast_Interrupt
    Background Relocation
begin

text \<open>
  A verification development for OSExt, an operating system extension for the TI-Nspire CX: a kernel that is loaded
  beside the TI OS of the calculator and brings memory management, kernel threads, drivers, a loader for modules and
  system calls. The sources are in C, most of them under kernel/ of the repository; the file names below are relative to it, those
  that begin with modules/background to the repository.

  \<^bold>\<open>The parts and their theories.\<close>

  \<^item> \<open>OS_Prelude\<close>: the machine types (words of 8 to 64 bits, addresses), the result of functions that may \<open>panic\<close>,
    facts on words and lists, pointer chains and rings, and the locale \<open>next_field\<close> of structures linked
    through a \<open>next\<close> field. \<open>Bit_Store\<close>: the locale \<open>bit_store\<close> of arrays of bits.
  \<^item> \<open>Phys_MM\<close> models memory/physical_MM.c, the allocator of pages: the table \<open>pages\<close> of blocks with their bit fields is the
    record \<open>phys_mm\<close>, each function of the file a definition of the same name. \<open>ti_malloc\<close> is seen as the address it returns.
  \<^item> \<open>Linked_List\<close> models LinkedList.c over a heap of list entries.
  \<^item> \<open>Slab\<close> and \<open>Slab_Cache\<close> model memory/slab.c: the objects of one slab, the caches with their lists of full, partial and
    free slabs, \<open>kmalloc\<close> and \<open>kfree\<close>, with the growth of a cache as a parameter of the allocation. \<open>Slab_Growth\<close> is that growth: it
    takes pages, maps them behind the heap pointer and makes them a slab, over the state of \<open>Virtual_MM\<close>. \<open>Slab_Init\<close> is the start of the
    allocator with its 22 caches.
  \<^item> \<open>Page_Tables\<close>, \<open>Virtual_MM\<close> and \<open>Address_Spaces\<close> model memory/virtual_MM.c: the descriptors, the software walk, the mapping
    functions and the creation, release and change of address spaces, over the words of the physical memory. The
    translation by which the kernel reaches a table is the parameter \<open>mmu\<close>.
  \<^item> \<open>Kernel_Lib\<close> models libk/memory.c, math.c and string.c over the bytes of the memory, \<open>Memory_Words\<close> the half words and words in it.
  \<^item> \<open>Elf_Loader\<close> models elf/elf.c on top of \<open>Phys_MM\<close> and \<open>Kernel_Lib\<close>, \<open>Modules\<close> the list of modules of modules/modules.c on top of it;
    the entry functions of modules are parameters. \<open>Relocation\<close> models reloc.c and the start of recovery.c: the kernel copies itself to
    its virtual address through page tables it has just written.
  \<^item> \<open>Raster\<close> holds the locale of surfaces with pixels and the loops that paint rectangles, glyphs and strings on them; \<open>Display\<close> models
    drivers/lcd.c, charset/charset.c and gui/img565.c with it. \<open>Background\<close> models modules/background: BMP files, the menus of the TI OS and
    the slide show.
  \<^item> \<open>Keypad\<close> models drivers/keypad.c, \<open>Touchpad\<close> drivers/touchpad.c, i2c.c and adc.c.
  \<^item> \<open>Hooks\<close> models osversion.c and os-hooks.c: the instructions put into the TI OS and the functions the hooks run.
  \<^item> \<open>Devices\<close> models drivers/power.c, irq_controller.c, timer.c and rtc.c, \<open>Watchdog\<close> drivers/watchdog.c, \<open>System_Time\<close>
    drivers/systime.c on top of them. The state is the registers and the sequence of all writes to them. The locales
    \<open>saved_device\<close> and \<open>two_saved_devices\<close> state the contract of saving and restoring a device.
  \<^item> \<open>Syscalls\<close> models the frame of the caller and the tables of exceptions/syscalls.c, \<open>Kernel_Threads\<close> scheduling/scheduler.c and
    thread.c, and \<open>Syscall_Handlers\<close> the handlers in syscalls/svc that work on the threads and the clock.
  \<^item> \<open>Deferred_Actions\<close> models the interrupt masks of libk/modes.c, scheduling/deferred_action.c and scheduling/lock.c, \<open>Waiting\<close> models
    libk/wait.c and mutex.c with the interrupts that end a wait, \<open>Fast_Interrupt\<close> exceptions/fiq.c over the watchdog, the timers, the clock
    and the scheduler.

  \<^bold>\<open>What is shown.\<close>

  \<^item> Memory: pages and runs of pages handed out are aligned, owned and unused before, and every sequence of calls keeps the
    table well formed; removing a block refines removing it from a list. Allocation and release in a slab, the choice of the cache,
    and the cases in which allocation from a cache never returns; allocation from an empty cache gives an object in a new page that is
    mapped; the start of the allocator makes all caches. The walk reads from descriptors what was put in; mapping a page
    changes the translation of that page only and keeps the space well formed; a new section of the kernel
    appears in all address spaces.
  \<^item> Programs: the image of a program holds its bytes and zeros and nothing else is written; the global offset table is
    moved by the address of the image; loading all modules ends whatever the files hold, and removing one removes the first of its
    name; the relocated kernel is found byte for byte at its virtual address, the copy for recovery aborts. Numbers printed read back; comparing strings with \<open>k_streq\<close> is equality and with
    \<open>k_strcmp\<close> is not; a format on which printing never ends.
  \<^item> Screen and input: exactly which pixels rectangles, images and strings paint; the pixels of a BMP file; which images an update of
    the background shows and what is drawn behind the main menu; the keys that the registers show.
  \<^item> Time: the conversion to dates agrees with the Gregorian calendar, the opposite conversion is off by 26 to 40 days;
    the time set through one system call is read through another. Timers are configured only while they are off, the watchdog
    is always locked again, and both are restored for the TI OS. A wait lasts the ticks asked for, whatever interrupts arrive.
  \<^item> Threads and system calls: what the scheduler resumes; in every reachable state the threads form a ring with a main
    thread, every operation ends (a wait when it is shorter than 0xFFFFFFFE time slices) and none panics; every system call keeps that,
    as does the fast interrupt handler, with the cases in which it stops the system and the overflows it counts. Hooks are put
    into the TI OS and taken out again without a trace. An action added to a queue is appended, an
    action that is run stays in the queue; a lock is freed with its last reference.

  Several theorems state what the code does where it does not do what it means to: allocation that loops, table
  ends that are off by one, time conversions. The places are listed with the theorems in the manifest of findings.

  \<^bold>\<open>Conventions.\<close> Integers have their width; addition and multiplication wrap around. A loop that may not end is a
  \<^theory_text>\<open>partial_function\<close> or a recursion with an explicit bound from the code, and its result \<open>None\<close> means that it does not
  return; that a function returns is proved as \<open>\<exists>x. f \<dots> = Some x\<close> or follows from its type. The
  bounds of the other recursions are those of the C loops (a number of headers, of bytes, of table entries). The only fuel is that of
  \<open>growCache\<close> and of the start of the allocator, which call each other: it is the depth of caches that grow while another grows. The
  theorems hold for any fuel from 1 on, which is enough as long as the object that the growth itself needs comes from a cache that has one.
  Undefined behaviour of C that the code can reach is a value of its own where it matters (a remainder by 0 is the
  parameter \<open>rem0\<close>, a division by the length 0 of a time slice the outcome \<open>Undefined\<close>).

  \<^bold>\<open>Not modelled\<close>: assembly (exception wrappers, processor modes, the switch to a thread, the entry of hooks, start-up), caches and
  the translation look-aside buffer, the debug shell, the serial line, the drivers of usb and nand, floating point
  (\<open>systime_unix_micro\<close>, \<open>sprint_double_safe\<close>, \<open>ceil_uint32\<close>), the windows of the module manager, the clock and the battery, the
  libraries and programs outside the kernel, and the stubs of processes and of the file system, of which there is little code.
\<close>

end
